(* ===== verification/Prelude.thy ===== *)
theory Prelude
  imports Main "HOL-Library.Word" "HOL-Library.Multiset"
begin

text \<open>
  Shared vocabulary of the development: bytes and hashes, the errors the TypeScript code throws,
  the two result monads every component is written in, and the list lemmas (slices, overwrites,
  chunk lists) the component proofs use.

  A JavaScript promise that rejects is a value \<open>Inl e\<close>; a call that never settles (a loop
  that runs forever, a recursion that never returns) is \<open>None\<close>.
  \<^item> \<open>'a comp\<close> is the result of code that only reads the store;
  \<^item> \<open>('s, 'a) op\<close> is code that threads a store state \<open>'s\<close>; what was written before an
    exception stays written, so the state is returned beside the error.
\<close>

section \<open>Collections of rewrite rules\<close>

named_theorems monad_simps \<open>evaluation of the result monads\<close>
named_theorems slice_simps \<open>normal forms of slices and overwrites\<close>

section \<open>Bytes and errors\<close>

type_synonym bytes = "8 word list"
type_synonym hash = bytes

lemma unat_byte_less: "unat (b :: 8 word) < 256"
  using unsigned_less [of b, where ?'a = nat] by simp

text \<open>The errors of the modelled code, one constructor per \<open>throw\<close> (its message's variables as
  arguments), and the two exceptions of the typed-array library that the code can run into.\<close>

datatype error =
    MissingChunk hash
  | MissingDecryptionKey hash
  | NotATreeNode
  | InvalidMaxBytes int
  | ContentExceedsMaxBytes nat nat
  | PathNotFound "string list"
  | SourcePathNotFound "string list"
  | TargetPathNotFound "string list"
  | ParentPathNotFound "string list"
  | EntryNotFound string
  | EntryAlreadyExists string
  | RootNotFound hash
  | WriteBeyondFile nat nat nat
  | PrefetchQueueEmpty
  | ChkKeyLength
  | ChkDataTooShort
  | EncryptionKeyLength
  | EncryptedDataTooShort
  | OperationError
  | RangeError
  | TypeError
  | KeyHexLength
  | TlvUnexpectedEnd
  | TlvNotEnoughData nat nat
  | TlvValueTooLong nat nat
  | HashLength nat
  | PubkeyLength nat
  | DecryptKeyLength nat
  | InvalidHex
  | Bech32Error
  | WrongPrefix string
  | MissingHash
  | MissingPubkey
  | MissingTreeName
  | UnknownPrefix
  | PieceSizeTooSmall
  | PieceSizeNotPowerOf2
  | HashCollision  \<comment> \<open>thrown by no code: how the store that watches for collisions in \<open>BTreeRefine\<close> stops\<close>

section \<open>Result monads\<close>

type_synonym 'a res = "error + 'a"
type_synonym 'a comp = "'a res option"
type_synonym ('s, 'a) op = "'s \<Rightarrow> ('a res \<times> 's) option"

abbreviation ret :: "'a \<Rightarrow> 'a comp" where
  "ret x \<equiv> Some (Inr x)"

abbreviation throw :: "error \<Rightarrow> 'a comp" where
  "throw e \<equiv> Some (Inl e)"

definition bindC :: "'a comp \<Rightarrow> ('a \<Rightarrow> 'b comp) \<Rightarrow> 'b comp" where
  "bindC m f = (case m of None \<Rightarrow> None | Some (Inl e) \<Rightarrow> Some (Inl e) | Some (Inr x) \<Rightarrow> f x)"

definition bindR :: "'a res \<Rightarrow> ('a \<Rightarrow> 'b res) \<Rightarrow> 'b res" where
  "bindR m f = (case m of Inl e \<Rightarrow> Inl e | Inr x \<Rightarrow> f x)"

definition retS :: "'a \<Rightarrow> ('s, 'a) op" where
  "retS x s = Some (Inr x, s)"

definition throwS :: "error \<Rightarrow> ('s, 'a) op" where
  "throwS e s = Some (Inl e, s)"

definition bindS :: "('s, 'a) op \<Rightarrow> ('a \<Rightarrow> ('s, 'b) op) \<Rightarrow> ('s, 'b) op" where
  "bindS m f s =
     (case m s of None \<Rightarrow> None
      | Some (Inl e, s') \<Rightarrow> Some (Inl e, s')
      | Some (Inr x, s') \<Rightarrow> f x s')"

definition liftC :: "'a comp \<Rightarrow> ('s, 'a) op" where
  "liftC m s = map_option (\<lambda>r. (r, s)) m"

lemma bindC_simps [simp, monad_simps]:
  "bindC None f = None" "bindC (Some (Inl e)) f = Some (Inl e)" "bindC (Some (Inr x)) f = f x"
  by (simp_all add: bindC_def)

lemma bindR_simps [simp, monad_simps]:
  "bindR (Inl e) g = Inl e" "bindR (Inr x) g = g x"
  by (simp_all add: bindR_def)

lemma bindS_simps [simp, monad_simps]:
  "bindS (retS x) f s = f x s" "bindS (throwS e) f s = Some (Inl e, s)"
  "retS x s = Some (Inr x, s)" "throwS e s = Some (Inl e, s)"
  by (simp_all add: bindS_def retS_def throwS_def)

lemma liftC_simps [simp, monad_simps]:
  "liftC None s = None" "liftC (Some r) s = Some (r, s)"
  by (simp_all add: liftC_def)

lemma bindS_step [monad_simps]:
  "m s = Some (Inr x, s1) \<Longrightarrow> bindS m f s = f x s1"
  "m s = Some (Inl e, s1) \<Longrightarrow> bindS m f s = Some (Inl e, s1)"
  "m s = None \<Longrightarrow> bindS m f s = None"
  by (simp_all add: bindS_def)

lemma bindC_eq_ret_iff:
  "bindC m f = Some (Inr y) \<longleftrightarrow> (\<exists>x. m = Some (Inr x) \<and> f x = Some (Inr y))"
  by (auto simp: bindC_def split: option.splits sum.splits)

lemma bindR_eq_Inr_iff: "bindR m f = Inr y \<longleftrightarrow> (\<exists>x. m = Inr x \<and> f x = Inr y)"
  by (auto simp: bindR_def split: sum.splits)

lemma bindS_eq_ret_iff:
  "bindS m f s = Some (Inr y, s') \<longleftrightarrow>
     (\<exists>x s1. m s = Some (Inr x, s1) \<and> f x s1 = Some (Inr y, s'))"
  by (auto simp: bindS_def split: option.splits sum.splits prod.splits)

lemma liftC_eq_iff: "liftC m s = Some (r, s') \<longleftrightarrow> m = Some r \<and> s' = s"
  by (auto simp: liftC_def)

lemma bindC_assoc [simp]: "bindC (bindC m f) g = bindC m (\<lambda>x. bindC (f x) g)"
  by (auto simp: bindC_def split: option.splits sum.splits)

lemma bindS_retS [simp]: "bindS (retS x) f = f x"
  by (rule ext) simp

lemma liftC_ret: "liftC (ret x) = retS x"
  by (rule ext) simp

lemma bindS_assoc: "bindS (bindS m f) g = bindS m (\<lambda>x. bindS (f x) g)"
  by (rule ext) (auto simp: bindS_def split: option.splits sum.splits prod.splits)

lemma bindC_mono [partial_function_mono]:
  fixes m :: "('x \<Rightarrow> 'y option) \<Rightarrow> 'a comp"
  assumes m: "mono_option m" and g: "\<And>y. mono_option (\<lambda>f. g y f)"
  shows "mono_option (\<lambda>f. bindC (m f) (\<lambda>y. g y f))"
proof (rule monotoneI)
  fix f1 f2 :: "'x \<Rightarrow> 'y option"
  assume le: "option.le_fun f1 f2"
  have "option_ord (m f1) (m f2)" using m le by (rule monotoneD [of _ _ _ f1 f2])
  moreover have "option_ord (g y f1) (g y f2)" for y using g le by (rule monotoneD [of _ _ _ f1 f2])
  ultimately show "option_ord (bindC (m f1) (\<lambda>y. g y f1)) (bindC (m f2) (\<lambda>y. g y f2))"
    unfolding bindC_def flat_ord_def by (cases "m f1"; cases "m f2") (simp_all split: sum.split)
qed

lemma bindS_mono [partial_function_mono]:
  fixes m :: "('x \<Rightarrow> 'y option) \<Rightarrow> ('s, 'a) op"
  assumes m: "\<And>s. mono_option (\<lambda>f. m f s)" and g: "\<And>y s. mono_option (\<lambda>f. g y f s)"
  shows "mono_option (\<lambda>f. bindS (m f) (\<lambda>y. g y f) s)"
proof (rule monotoneI)
  fix f1 f2 :: "'x \<Rightarrow> 'y option"
  assume le: "option.le_fun f1 f2"
  have "option_ord (m f1 s) (m f2 s)" using m le by (rule monotoneD [of _ _ _ f1 f2])
  moreover have "option_ord (g y f1 s') (g y f2 s')" for y s' using g le by (rule monotoneD [of _ _ _ f1 f2])
  ultimately show "option_ord (bindS (m f1) (\<lambda>y. g y f1) s) (bindS (m f2) (\<lambda>y. g y f2) s)"
    unfolding bindS_def flat_ord_def
    by (cases "m f1 s"; cases "m f2 s") (simp_all split: sum.split prod.split)
qed

section \<open>Generators\<close>

text \<open>What an async generator yields when it is run to its end: the values, and the exception it
  ends with, if any. \<open>seqG\<close> is \<open>yield*\<close> followed by more code, \<open>awaitG\<close> the use of a promise.\<close>

type_synonym 'a gen = "('a list \<times> error option) option"

definition doneG :: "'a gen" where "doneG = Some ([], None)"
definition throwG :: "error \<Rightarrow> 'a gen" where "throwG e = Some ([], Some e)"
definition yieldG :: "'a \<Rightarrow> 'a gen" where "yieldG x = Some ([x], None)"

definition seqG :: "'a gen \<Rightarrow> 'a gen \<Rightarrow> 'a gen" where
  "seqG m n = (case m of None \<Rightarrow> None | Some (xs, Some e) \<Rightarrow> Some (xs, Some e)
     | Some (xs, None) \<Rightarrow> (case n of None \<Rightarrow> None | Some (ys, e) \<Rightarrow> Some (xs @ ys, e)))"

definition awaitG :: "'a comp \<Rightarrow> ('a \<Rightarrow> 'b gen) \<Rightarrow> 'b gen" where
  "awaitG m f = (case m of None \<Rightarrow> None | Some (Inl e) \<Rightarrow> throwG e | Some (Inr x) \<Rightarrow> f x)"

lemma gen_simps [simp, monad_simps]:
  "seqG (Some (xs, None)) (Some (ys, e)) = Some (xs @ ys, e)"
  "seqG (Some (xs, Some e')) n = Some (xs, Some e')"
  "seqG doneG n = n" "seqG (throwG e'') n = throwG e''"
  "awaitG (Some (Inr x)) f = f x" "awaitG (Some (Inl e'')) f = throwG e''" "awaitG None f = None"
  by (auto simp: seqG_def doneG_def throwG_def awaitG_def split: option.splits)

lemma seqG_mono [partial_function_mono]:
  fixes m :: "('x \<Rightarrow> 'y option) \<Rightarrow> 'a gen"
  assumes m: "mono_option m" and g: "mono_option g"
  shows "mono_option (\<lambda>f. seqG (m f) (g f))"
proof (rule monotoneI)
  fix f1 f2 :: "'x \<Rightarrow> 'y option"
  assume le: "option.le_fun f1 f2"
  have "option_ord (m f1) (m f2)" using m le by (rule monotoneD [of _ _ _ f1 f2])
  moreover have "option_ord (g f1) (g f2)" using g le by (rule monotoneD [of _ _ _ f1 f2])
  ultimately show "option_ord (seqG (m f1) (g f1)) (seqG (m f2) (g f2))"
    unfolding seqG_def flat_ord_def
    by (cases "m f1"; cases "m f2"; cases "g f1"; cases "g f2") (auto split: option.split prod.split)
qed

lemma awaitG_mono [partial_function_mono]:
  assumes g: "\<And>y. mono_option (\<lambda>f. g y f)"
  shows "mono_option (\<lambda>f. awaitG m (\<lambda>y. g y f))"
  using g by (cases m rule: option.exhaust [case_names none some]; simp add: awaitG_def)
     (auto split: sum.split simp: monotone_def flat_ord_def)

section \<open>Splitting strings\<close>

text \<open>\<open>s.split(c)\<close> for a one-character separator.\<close>

fun splitOn :: "char \<Rightarrow> string \<Rightarrow> string list" where
  "splitOn c [] = [[]]"
| "splitOn c (x # xs) =
     (if x = c then [] # splitOn c xs
      else case splitOn c xs of [] \<Rightarrow> [[x]] | y # ys \<Rightarrow> (x # y) # ys)"

section \<open>Slices and overwrites of byte arrays\<close>

text \<open>\<open>data.slice(a, b)\<close> and \<open>data.subarray(a, b)\<close> for non-negative bounds: out-of-range bounds
  are clamped, as \<open>take\<close> and \<open>drop\<close> do.\<close>

definition slice :: "nat \<Rightarrow> nat \<Rightarrow> 'a list \<Rightarrow> 'a list" where
  "slice a b xs = take (b - a) (drop a xs)"

text \<open>The bytes \<open>d\<close> written over \<open>xs\<close> from \<open>off\<close> on.\<close>

definition overwrite :: "nat \<Rightarrow> 'a list \<Rightarrow> 'a list \<Rightarrow> 'a list" where
  "overwrite off d xs = take off xs @ d @ drop (off + length d) xs"

text \<open>\<open>target.set(source, off)\<close>, which throws a \<open>RangeError\<close> when the source does not fit.\<close>

definition setBytes :: "bytes \<Rightarrow> bytes \<Rightarrow> nat \<Rightarrow> bytes comp" where
  "setBytes target src off =
     (if length target < off + length src then throw RangeError else ret (overwrite off src target))"

lemma length_slice [simp]: "length (slice a b xs) = min (b - a) (length xs - a)"
  by (simp add: slice_def)

lemma nth_slice: "i < b - a \<Longrightarrow> a + i < length xs \<Longrightarrow> slice a b xs ! i = xs ! (a + i)"
  by (simp add: slice_def)

lemma slice_0 [simp, slice_simps]: "slice 0 b xs = take b xs"
  by (simp add: slice_def)

lemma slice_Nil [simp, slice_simps]: "slice a b [] = []"
  by (simp add: slice_def)

lemma slice_self [simp, slice_simps]: "slice a a xs = []"
  by (simp add: slice_def)

lemma slice_empty [simp, slice_simps]: "b \<le> a \<Longrightarrow> slice a b xs = []"
  by (simp add: slice_def)

lemma slice_to_end [slice_simps]: "length xs \<le> b \<Longrightarrow> slice a b xs = drop a xs"
  by (simp add: slice_def)

lemma slice_append_left [slice_simps]:
  "b \<le> length xs \<Longrightarrow> slice a b (xs @ ys) = slice a b xs"
  by (simp add: slice_def)

lemma slice_append_right [slice_simps]:
  "length xs \<le> a \<Longrightarrow> slice a b (xs @ ys) = slice (a - length xs) (b - length xs) ys"
  by (simp add: slice_def)

lemma slice_append:
  "slice a b (xs @ ys) = slice a b xs @ slice (a - length xs) (b - length xs) ys"
  by (cases "a \<le> length xs"; cases "b \<le> length xs") (auto simp: slice_def)

lemma slice_drop: "slice a (a + n) xs @ drop (a + n) xs = drop a xs"
  by (metis add.commute add_diff_cancel_left' append_take_drop_id drop_drop slice_def)

lemma length_overwrite [simp]:
  "off + length d \<le> length xs \<Longrightarrow> length (overwrite off d xs) = length xs"
  by (simp add: overwrite_def)

lemma overwrite_Nil [simp, slice_simps]: "overwrite off [] xs = xs"
  by (simp add: overwrite_def)

lemma overwrite_append:
  assumes "off + length d \<le> length xs + length ys"
  shows "overwrite off d (xs @ ys) =
    overwrite (min off (length xs)) (take (length xs - off) d) xs
    @ overwrite (off - length xs) (drop (length xs - off) d) ys"
proof (cases "off \<le> length xs")
  case True
  then show ?thesis
  proof (cases "off + length d \<le> length xs")
    case False
    with True have "length d + off - length xs = length d - (length xs - off)" by simp
    with True False show ?thesis
      by (simp add: overwrite_def min_def add.commute)
  qed (simp add: overwrite_def)
next
  case False
  then show ?thesis by (simp add: overwrite_def min_def)
qed

section \<open>Splitting data into chunks\<close>

text \<open>The chunk list of \<open>data\<close> for a chunk size \<open>c\<close>: what every chunking loop of the code is
  compared with.\<close>

function chunks_of :: "nat \<Rightarrow> 'a list \<Rightarrow> 'a list list" where
  "chunks_of c xs = (if c = 0 \<or> xs = [] then [] else take c xs # chunks_of c (drop c xs))"
  by pat_completeness auto
termination
  by (relation "measure (\<lambda>(c, xs). length xs)") (auto simp: length_greater_0_conv)

declare chunks_of.simps [simp del]

lemma chunks_of_Nil [simp]: "chunks_of c [] = []"
  by (simp add: chunks_of.simps)

lemma chunks_of_step:
  "0 < c \<Longrightarrow> xs \<noteq> [] \<Longrightarrow> chunks_of c xs = take c xs # chunks_of c (drop c xs)"
  by (simp add: chunks_of.simps)

lemma concat_chunks_of [simp]: "0 < c \<Longrightarrow> concat (chunks_of c xs) = xs"
proof (induction c xs rule: chunks_of.induct)
  case (1 c xs)
  then show ?case by (cases "xs = []") (simp_all add: chunks_of_step)
qed

lemma chunks_of_lengths: "ch \<in> set (chunks_of c xs) \<Longrightarrow> 0 < length ch \<and> length ch \<le> c"
proof (induction c xs rule: chunks_of.induct)
  case (1 c xs)
  then show ?case by (cases "c = 0 \<or> xs = []") (auto simp: chunks_of.simps [of c xs])
qed

lemma chunks_of_length_le: "ch \<in> set (chunks_of c xs) \<Longrightarrow> length ch \<le> length xs"
proof (induction c xs rule: chunks_of.induct)
  case (1 c xs)
  then show ?case by (cases "c = 0 \<or> xs = []") (auto simp: chunks_of.simps [of c xs])
qed

lemma length_chunks_of_gt_1: "0 < c \<Longrightarrow> c < length xs \<Longrightarrow> 1 < length (chunks_of c xs)"
  by (cases "xs = []") (simp_all add: chunks_of_step [of c xs] chunks_of_step [of c "drop c xs"])

section \<open>Stable sorting by a comparison function\<close>

text \<open>\<open>Array.prototype.sort(cmp)\<close>, which is stable, for a comparison \<open>le a b\<close> that stands for
  \<open>cmp(a, b) <= 0\<close>.\<close>

primrec insortBy :: "('a \<Rightarrow> 'a \<Rightarrow> bool) \<Rightarrow> 'a \<Rightarrow> 'a list \<Rightarrow> 'a list" where
  "insortBy le x [] = [x]"
| "insortBy le x (y # ys) = (if le x y then x # y # ys else y # insortBy le x ys)"

definition sortBy :: "('a \<Rightarrow> 'a \<Rightarrow> bool) \<Rightarrow> 'a list \<Rightarrow> 'a list" where
  "sortBy le xs = foldr (insortBy le) xs []"

lemma mset_insortBy [simp]: "mset (insortBy le x ys) = add_mset x (mset ys)"
  by (induction ys) auto

lemma mset_sortBy [simp]: "mset (sortBy le xs) = mset xs"
  unfolding sortBy_def by (induction xs) auto

lemma set_sortBy [simp]: "set (sortBy le xs) = set xs"
  by (rule mset_eq_setD) simp

lemma distinct_map_sortBy [simp]: "distinct (map f (sortBy le xs)) \<longleftrightarrow> distinct (map f xs)"
  by (rule mset_eq_imp_distinct_iff) simp

lemma length_sortBy [simp]: "length (sortBy le xs) = length xs"
  by (rule mset_eq_length) simp

section \<open>Maps\<close>

lemma map_leI: "(\<And>k v. m k = Some v \<Longrightarrow> m' k = Some v) \<Longrightarrow> m \<subseteq>\<^sub>m m'"
  by (auto simp: map_le_def)

lemma map_le_trans_get: "m \<subseteq>\<^sub>m m' \<Longrightarrow> m k = Some v \<Longrightarrow> m' k = Some v"
  by (metis domI map_le_def)

end
