(* ===== verification/External.thy ===== *)
theory External
  imports Prelude "HOL-Library.Char_ord" "HOL-Library.List_Lexorder"
begin

text \<open>
  The code outside the repository that the hashtree packages call, as parameters. A record \<open>ext\<close>
  carries the functions of the Web Crypto API (\<open>crypto.subtle\<close>), of the package
  \<open>@msgpack/msgpack\<close> and of the runtime's locale order; what the code relies on is stated as the
  named hypotheses \<open>msgpack_ok\<close>, \<open>aes_ok\<close> and \<open>digest_len\<close>. Nothing here is a definition of
  that code.

  The digest's collision freeness is never assumed of the function as a whole (no function to 32
  bytes has it): properties ask for \<open>inj_on\<close> of the digest on the finite set of blocks they handle.
\<close>

section \<open>MessagePack values\<close>

text \<open>The JavaScript values the encoder takes and the decoder returns: \<open>null\<close>, booleans,
  integers, strings, \<open>Uint8Array\<close>s, arrays and plain objects. A plain object is its list of own
  properties in the order \<open>Object.keys\<close> enumerates them. \<open>MOther\<close> is what the decoder returns for
  numbers that are not integers, for dates and for other extension values: no field of a tree node has
  one, and all the code does with them is to read properties they do not have.\<close>

datatype mpval =
    MNil
  | MBool bool
  | MInt int
  | MStr string
  | MBin bytes
  | MArr "mpval list"
  | MMap "(string \<times> mpval) list"
  | MOther

text \<open>JavaScript enumerates the integer-like keys of an object first, in ascending numeric order,
  then the other keys in insertion order (ECMA-262, OrdinaryOwnPropertyKeys).\<close>

definition isDigit :: "char \<Rightarrow> bool" where
  "isDigit c \<longleftrightarrow> CHR ''0'' \<le> c \<and> c \<le> CHR ''9''"

definition digitsVal :: "string \<Rightarrow> nat" where
  "digitsVal s = foldl (\<lambda>n c. n * 10 + (of_char c - 48)) 0 s"

definition isArrayIndex :: "string \<Rightarrow> bool" where
  "isArrayIndex s \<longleftrightarrow>
     s \<noteq> [] \<and> list_all isDigit s \<and> (hd s \<noteq> CHR ''0'' \<or> length s = 1) \<and> digitsVal s < 2 ^ 32 - 1"

definition enumerate_keys :: "(string \<times> 'v) list \<Rightarrow> (string \<times> 'v) list" where
  "enumerate_keys kvs =
     sort_key (digitsVal \<circ> fst) (List.filter (isArrayIndex \<circ> fst) kvs)
     @ List.filter (Not \<circ> isArrayIndex \<circ> fst) kvs"

lemma set_enumerate_keys [simp]: "set (enumerate_keys kvs) = set kvs"
  by (auto simp: enumerate_keys_def)

lemma mset_enumerate_keys [simp]: "mset (enumerate_keys kvs) = mset kvs"
  by (simp add: enumerate_keys_def flip: multiset_partition)

lemma sort_key_idem [simp]: "sort_key f (sort_key f xs) = sort_key f xs"
  by (rule sort_key_id_if_sorted) simp

lemma enumerate_keys_idem [simp]: "enumerate_keys (enumerate_keys kvs) = enumerate_keys kvs"
  by (simp add: enumerate_keys_def filter_sort filter_empty_conv o_def)

text \<open>The values the encoder and the decoder carry faithfully: objects as JavaScript enumerates
  them, with distinct keys, none of them \<open>__proto__\<close>, which the decoder refuses; integers in the safe
  range of a \<open>number\<close>. The encoder refuses what is nested deeper than 100 levels (its default
  \<open>maxDepth\<close>): \<open>mp_within n v\<close> says that \<open>v\<close> has at most \<open>n\<close> levels. The limit of 4 GiB for one
  string or byte array is left out; no block comes near it.\<close>

fun mp_wf :: "mpval \<Rightarrow> bool" where
  "mp_wf (MInt i) \<longleftrightarrow> \<bar>i\<bar> < 2 ^ 53"
| "mp_wf (MArr vs) \<longleftrightarrow> (\<forall>v\<in>set vs. mp_wf v)"
| "mp_wf (MMap kvs) \<longleftrightarrow>
     distinct (map fst kvs) \<and> ''__proto__'' \<notin> fst ` set kvs \<and> enumerate_keys kvs = kvs
     \<and> (\<forall>kv\<in>set kvs. mp_wf (snd kv))"
| "mp_wf MOther \<longleftrightarrow> False"
| "mp_wf _ \<longleftrightarrow> True"

fun mp_within :: "nat \<Rightarrow> mpval \<Rightarrow> bool" where
  "mp_within 0 v \<longleftrightarrow> False"
| "mp_within (Suc n) (MArr vs) \<longleftrightarrow> (\<forall>v\<in>set vs. mp_within n v)"
| "mp_within (Suc n) (MMap kvs) \<longleftrightarrow> (\<forall>kv\<in>set kvs. mp_within n (snd kv))"
| "mp_within (Suc n) _ \<longleftrightarrow> True"

lemma mp_within_flat [simp]:
  "0 < n \<Longrightarrow> mp_within n MNil" "0 < n \<Longrightarrow> mp_within n (MBool b)" "0 < n \<Longrightarrow> mp_within n (MInt i)"
  "0 < n \<Longrightarrow> mp_within n (MStr s)" "0 < n \<Longrightarrow> mp_within n (MBin d)"
  by (cases n; simp)+

definition mp_maxDepth :: nat where
  "mp_maxDepth = 100"

section \<open>The parameters\<close>

record ext =
  subtleDigest :: "bytes \<Rightarrow> bytes"                    \<comment> \<open>\<open>crypto.subtle.digest('SHA-256', \<dots>)\<close>\<close>
  mpEncode :: "mpval \<Rightarrow> bytes"                        \<comment> \<open>\<open>encode\<close> of \<open>@msgpack/msgpack\<close>\<close>
  mpDecode :: "bytes \<Rightarrow> mpval option"                 \<comment> \<open>\<open>decode\<close>; \<open>None\<close>: it throws\<close>
  subtleDeriveKey :: "bytes \<Rightarrow> bytes \<Rightarrow> bytes \<Rightarrow> bytes" \<comment> \<open>HKDF-SHA-256: material, salt, info\<close>
  subtleEncrypt :: "bytes \<Rightarrow> bytes \<Rightarrow> bytes \<Rightarrow> bytes"   \<comment> \<open>AES-GCM: key, iv, plaintext\<close>
  subtleDecrypt :: "bytes \<Rightarrow> bytes \<Rightarrow> bytes \<Rightarrow> bytes option" \<comment> \<open>\<open>None\<close>: it rejects\<close>
  localeCompare :: "string \<Rightarrow> string \<Rightarrow> int"          \<comment> \<open>\<open>String.prototype.localeCompare\<close>\<close>

definition msgpack_ok :: "ext \<Rightarrow> bool" where
  "msgpack_ok E \<longleftrightarrow> (\<forall>v. mp_wf v \<and> mp_within mp_maxDepth v \<longrightarrow> mpDecode E (mpEncode E v) = Some v)"

definition aes_ok :: "ext \<Rightarrow> bool" where
  "aes_ok E \<longleftrightarrow>
     (\<forall>k iv p. subtleDecrypt E k iv (subtleEncrypt E k iv p) = Some p
             \<and> length (subtleEncrypt E k iv p) = length p + 16)"

definition digest_len :: "ext \<Rightarrow> bool" where
  "digest_len E \<longleftrightarrow> (\<forall>d. length (subtleDigest E d) = 32)"

lemma msgpack_okD [dest]: "msgpack_ok E \<Longrightarrow> mp_wf v \<Longrightarrow> mp_within mp_maxDepth v \<Longrightarrow> mpDecode E (mpEncode E v) = Some v"
  by (simp add: msgpack_ok_def)

lemma aes_okD:
  "aes_ok E \<Longrightarrow> subtleDecrypt E k iv (subtleEncrypt E k iv p) = Some p"
  "aes_ok E \<Longrightarrow> length (subtleEncrypt E k iv p) = length p + 16"
  by (simp_all add: aes_ok_def)

lemma digest_lenD [simp]: "digest_len E \<Longrightarrow> length (subtleDigest E d) = 32"
  by (simp add: digest_len_def)

end
