(* ===== verification/Types.thy ===== *)
theory Types
  imports External
begin

text \<open>
  The data model of the hashtree core (\<open>ts/packages/hashtree/src/types.ts\<close>): link types, links,
  tree nodes and content identifiers, and the hexadecimal form of hashes that the stores use as
  their keys.
\<close>

section \<open>Links, nodes and content identifiers\<close>

text \<open>\<open>LinkType\<close> is a numeric enum: a decoded link carries whatever number the data holds, so the
  numbers outside the enum have a constructor of their own.\<close>

datatype LinkType = Blob | File | Dir | OtherType int

definition linkTypeNum :: "LinkType \<Rightarrow> int" where
  "linkTypeNum t = (case t of Blob \<Rightarrow> 0 | File \<Rightarrow> 1 | Dir \<Rightarrow> 2 | OtherType n \<Rightarrow> n)"

definition linkTypeOf :: "int \<Rightarrow> LinkType" where
  "linkTypeOf n = (if n = 0 then Blob else if n = 1 then File else if n = 2 then Dir else OtherType n)"

text \<open>A value of the type is proper when it is the one \<open>linkTypeOf\<close> gives for its number.\<close>

definition linkType_ok :: "LinkType \<Rightarrow> bool" where
  "linkType_ok t \<longleftrightarrow> linkTypeOf (linkTypeNum t) = t"

lemma linkType_ok_simps [simp]: "linkType_ok Blob" "linkType_ok File" "linkType_ok Dir"
  by (simp_all add: linkType_ok_def linkTypeOf_def linkTypeNum_def)

lemma linkTypeOf_eq_iff [simp]:
  "linkTypeOf n = Blob \<longleftrightarrow> n = 0" "linkTypeOf n = File \<longleftrightarrow> n = 1" "linkTypeOf n = Dir \<longleftrightarrow> n = 2"
  by (auto simp: linkTypeOf_def)

type_synonym meta = "(string \<times> mpval) list"

record Link =
  lhash :: hash
  lname :: "string option"
  lsize :: nat
  lkey :: "bytes option"
  ltype :: LinkType
  lmeta :: "meta option"

record TreeNode =
  ntype :: LinkType
  nlinks :: "Link list"

record CID =
  chash :: hash
  ckey :: "bytes option"

definition cid :: "hash \<Rightarrow> bytes option \<Rightarrow> CID" where
  "cid h k = \<lparr>chash = h, ckey = k\<rparr>"

record DirEntry =
  dname :: string
  dhash :: hash
  dsize :: nat
  dtype :: LinkType
  dkey :: "bytes option"
  dmeta :: "meta option"

section \<open>Hexadecimal form\<close>

definition hexDigit :: "nat \<Rightarrow> char" where
  "hexDigit n = (if n < 10 then char_of (48 + n) else char_of (87 + n))"

fun toString16 :: "nat \<Rightarrow> string" where
  "toString16 n = (if n < 16 then [hexDigit n] else toString16 (n div 16) @ [hexDigit (n mod 16)])"

declare toString16.simps [simp del]

definition padStart2 :: "string \<Rightarrow> string" where
  "padStart2 s = replicate (2 - length s) (CHR ''0'') @ s"

definition toHex :: "hash \<Rightarrow> string" where
  "toHex h = concat (map (\<lambda>b. padStart2 (toString16 (unat b))) h)"

text \<open>\<open>parseInt(s, 16)\<close>: leading white space, an optional sign, an optional \<open>0x\<close> prefix, then the
  longest prefix of hexadecimal digits; no digit gives \<open>NaN\<close>, here \<open>None\<close>.\<close>

definition isWhite :: "char \<Rightarrow> bool" where
  "isWhite c \<longleftrightarrow> of_char c \<in> {9, 10, 11, 12, 13, 32, 160 :: nat}"

definition hexVal :: "char \<Rightarrow> nat option" where
  "hexVal c = (let n = of_char c in
     if 48 \<le> n \<and> n \<le> 57 then Some (n - 48)
     else if 97 \<le> n \<and> n \<le> 102 then Some (n - 87)
     else if 65 \<le> n \<and> n \<le> 70 then Some (n - 55)
     else None)"

definition parseInt16 :: "string \<Rightarrow> int option" where
  "parseInt16 s =
     (let s1 = dropWhile isWhite s;
          neg = (s1 \<noteq> [] \<and> hd s1 = CHR ''-'');
          s2 = (if s1 \<noteq> [] \<and> (hd s1 = CHR ''-'' \<or> hd s1 = CHR ''+'') then tl s1 else s1);
          s3 = (if take 2 s2 = ''0x'' \<or> take 2 s2 = ''0X'' then drop 2 s2 else s2);
          ds = takeWhile (\<lambda>c. hexVal c \<noteq> None) s3
      in if ds = [] then None
         else let n = int (foldl (\<lambda>n c. n * 16 + the (hexVal c)) 0 ds) in Some (if neg then - n else n))"

text \<open>Storing a number into a \<open>Uint8Array\<close> reduces it modulo 256; \<open>NaN\<close> is stored as 0.\<close>

definition toUint8 :: "int option \<Rightarrow> 8 word" where
  "toUint8 n = (case n of None \<Rightarrow> 0 | Some i \<Rightarrow> word_of_int i)"

definition fromHex :: "string \<Rightarrow> hash" where
  "fromHex hex = map (\<lambda>i. toUint8 (parseInt16 (slice (i * 2) (i * 2 + 2) hex))) [0..<length hex div 2]"

fun hashEquals_from :: "hash \<Rightarrow> hash \<Rightarrow> bool" where
  "hashEquals_from (x # xs) (y # ys) = (if x \<noteq> y then False else hashEquals_from xs ys)"
| "hashEquals_from _ _ = True"

definition hashEquals :: "hash \<Rightarrow> hash \<Rightarrow> bool" where
  "hashEquals a b = (if length a \<noteq> length b then False else hashEquals_from a b)"

section \<open>The hexadecimal form loses nothing\<close>

definition byteHex :: "8 word \<Rightarrow> string" where
  "byteHex b = padStart2 (toString16 (unat b))"

lemma hexDigit_0: "hexDigit 0 = CHR ''0''"
  by code_simp

lemma byteHex_digits: "byteHex b = [hexDigit (unat b div 16), hexDigit (unat b mod 16)]"
proof -
  have "unat b div 16 < 16" using unat_byte_less [of b] by simp
  then show ?thesis
    by (cases "unat b < 16") (simp_all add: byteHex_def padStart2_def toString16.simps hexDigit_0)
qed

lemma of_char_hexDigit: "n < 16 \<Longrightarrow> of_char (hexDigit n) = (if n < 10 then 48 + n else 87 + n)"
  by (simp add: hexDigit_def)

lemma hexVal_hexDigit [simp]: "n < 16 \<Longrightarrow> hexVal (hexDigit n) = Some n"
  by (auto simp: hexVal_def of_char_hexDigit Let_def)

lemma hexDigit_plain [simp]:
  assumes "n < 16"
  shows "\<not> isWhite (hexDigit n)" "hexDigit n \<noteq> CHR ''-''" "hexDigit n \<noteq> CHR ''+''"
    "hexDigit n \<noteq> CHR ''x''" "hexDigit n \<noteq> CHR ''X''"
proof -
  have "of_char (hexDigit n) \<in> {48..57} \<union> {97..102 :: nat}"
    using assms by (auto simp: of_char_hexDigit)
  moreover have "of_char (CHR ''-'') = (45::nat)" "of_char (CHR ''+'') = (43::nat)"
    "of_char (CHR ''x'') = (120::nat)" "of_char (CHR ''X'') = (88::nat)" by simp_all
  ultimately show "\<not> isWhite (hexDigit n)" "hexDigit n \<noteq> CHR ''-''" "hexDigit n \<noteq> CHR ''+''"
    "hexDigit n \<noteq> CHR ''x''" "hexDigit n \<noteq> CHR ''X''"
    unfolding isWhite_def by auto
qed

lemma parseInt16_byteHex: "parseInt16 (byteHex b) = Some (uint b)"
proof -
  have d: "unat b div 16 < 16" "unat b mod 16 < 16" using unat_byte_less [of b] by simp_all
  then show ?thesis
    by (simp add: parseInt16_def byteHex_digits Let_def flip: of_nat_mult of_nat_add)
qed

lemma toHex_Nil [simp]: "toHex [] = []"
  by (simp add: toHex_def)

lemma toHex_Cons: "toHex (b # h) = byteHex b @ toHex h"
  by (simp add: toHex_def byteHex_def)

lemma length_byteHex [simp]: "length (byteHex b) = 2"
  by (simp add: byteHex_digits)

lemma length_toHex [simp]: "length (toHex h) = 2 * length h"
  by (induction h) (simp_all add: toHex_Cons)

text \<open>A table lookup evaluates faster than the digit arithmetic.\<close>

definition hexTable :: string where
  "hexTable = ''0123456789abcdef''"

lemma hexTable_nth: "n < 16 \<Longrightarrow> hexTable ! n = hexDigit n"
proof -
  have "\<forall>n\<in>set [0..<16]. hexTable ! n = hexDigit n" by code_simp
  then show "n < 16 \<Longrightarrow> hexTable ! n = hexDigit n" by simp
qed

lemma toHex_table [code]:
  "toHex h = concat (map (\<lambda>b. [hexTable ! (unat b div 16), hexTable ! (unat b mod 16)]) h)"
proof -
  have "byteHex b = [hexTable ! (unat b div 16), hexTable ! (unat b mod 16)]" for b :: "8 word"
    using unat_byte_less [of b] by (simp add: byteHex_digits hexTable_nth)
  then show ?thesis by (simp add: toHex_def byteHex_def [symmetric])
qed

lemma slice_toHex: "i < length h \<Longrightarrow> slice (i * 2) (i * 2 + 2) (toHex h) = byteHex (h ! i)"
proof (induction h arbitrary: i)
  case (Cons b h)
  show ?case
  proof (cases i)
    case 0
    then show ?thesis by (simp add: toHex_Cons)
  next
    case (Suc j)
    then have "slice (i * 2) (i * 2 + 2) (toHex (b # h)) = slice (j * 2) (j * 2 + 2) (toHex h)"
      by (simp add: toHex_Cons slice_append_right)
    with Suc Cons show ?thesis by simp
  qed
qed simp

lemma fromHex_of_toHex [simp]: "fromHex (toHex h) = h"
  by (rule nth_equalityI) (simp_all add: fromHex_def slice_toHex [simplified] parseInt16_byteHex toUint8_def)

lemma toHex_eq_iff [simp]: "toHex a = toHex b \<longleftrightarrow> a = b"
  by (metis fromHex_of_toHex)

lemma inj_toHex: "inj toHex"
  by (simp add: inj_on_def)

lemma hashEquals_iff [simp]: "hashEquals a b \<longleftrightarrow> a = b"
proof -
  have "length a = length b \<Longrightarrow> hashEquals_from a b \<longleftrightarrow> a = b"
    by (induction a b rule: list_induct2) auto
  then show ?thesis by (auto simp: hashEquals_def)
qed

end
