(* ===== verification/Codec.thy ===== *)
theory Codec
  imports Types
begin

text \<open>
  The tree-node codec (\<open>codec.ts\<close>) and the hash of a block (\<open>hash.ts\<close>). Blobs are stored raw;
  a tree node is stored as the MessagePack encoding of an object with the short keys
  \<open>h k m n s t\<close> per link.

  The decoder casts what MessagePack returns to the interface \<open>TreeNodeMsgpack\<close>. The model keeps the
  guards the code has (the node's \<open>t\<close>, the defaults of \<open>s\<close> and \<open>t\<close>, every \<open>TypeError\<close> that the
  \<open>catch\<close> turns into \<open>null\<close>) and answers \<open>None\<close> on objects whose fields do not have the
  interface's types, which have no counterpart in the record \<open>Link\<close>.
\<close>

section \<open>Hashing\<close>

definition sha256 :: "ext \<Rightarrow> bytes \<Rightarrow> hash" where
  "sha256 E d = subtleDigest E d"

text \<open>\<open>verify(hash, data)\<close>: the byte loop of \<open>hashEquals\<close>, against the computed hash.\<close>

definition verify :: "ext \<Rightarrow> hash \<Rightarrow> bytes \<Rightarrow> bool" where
  "verify E h d =
     (let computed = sha256 E d
      in if length computed \<noteq> length h then False else hashEquals_from computed h)"

lemma verify_iff [simp]: "verify E h d \<longleftrightarrow> sha256 E d = h"
  unfolding verify_def Let_def hashEquals_def [symmetric] by (rule hashEquals_iff)

lemma length_sha256 [simp]: "digest_len E \<Longrightarrow> length (sha256 E d) = 32"
  by (simp add: sha256_def)

section \<open>Encoding\<close>

definition sortObjectKeys :: "(string \<times> mpval) list \<Rightarrow> (string \<times> mpval) list" where
  "sortObjectKeys obj = enumerate_keys (sort_key fst obj)"

definition optField :: "string \<Rightarrow> ('a \<Rightarrow> mpval) \<Rightarrow> 'a option \<Rightarrow> (string \<times> mpval) list" where
  "optField k f x = (case x of None \<Rightarrow> [] | Some y \<Rightarrow> [(k, f y)])"

definition encodeLink :: "Link \<Rightarrow> mpval" where
  "encodeLink l = MMap (
     [(''h'', MBin (lhash l))]
     @ optField ''k'' MBin (lkey l)
     @ optField ''m'' (MMap \<circ> sortObjectKeys) (lmeta l)
     @ optField ''n'' MStr (lname l)
     @ [(''s'', MInt (int (lsize l))), (''t'', MInt (linkTypeNum (ltype l)))])"

definition nodeToMsgpack :: "TreeNode \<Rightarrow> mpval" where
  "nodeToMsgpack node = MMap [(''l'', MArr (map encodeLink (nlinks node))),
                              (''t'', MInt (linkTypeNum (ntype node)))]"

definition encodeTreeNode :: "ext \<Rightarrow> TreeNode \<Rightarrow> bytes" where
  "encodeTreeNode E node = mpEncode E (nodeToMsgpack node)"

section \<open>Decoding\<close>

text \<open>The fields of one link: \<open>l.s ?? 0\<close> and \<open>l.t ?? LinkType.Blob\<close> default on a missing or
  \<open>null\<close> field, the optional fields are copied when present.\<close>

definition sizeField :: "mpval option \<Rightarrow> nat option" where
  "sizeField v = (case v of None \<Rightarrow> Some 0 | Some MNil \<Rightarrow> Some 0
     | Some (MInt i) \<Rightarrow> (if 0 \<le> i then Some (nat i) else None) | _ \<Rightarrow> None)"

definition typeField :: "mpval option \<Rightarrow> LinkType option" where
  "typeField v = (case v of None \<Rightarrow> Some Blob | Some MNil \<Rightarrow> Some Blob
     | Some (MInt i) \<Rightarrow> Some (linkTypeOf i) | _ \<Rightarrow> None)"

definition binField :: "mpval option \<Rightarrow> bytes option" where
  "binField v = (case v of Some (MBin b) \<Rightarrow> Some b | _ \<Rightarrow> None)"

definition optBin :: "mpval option \<Rightarrow> bytes option option" where
  "optBin v = (case v of None \<Rightarrow> Some None | Some (MBin b) \<Rightarrow> Some (Some b) | _ \<Rightarrow> None)"

definition optStr :: "mpval option \<Rightarrow> string option option" where
  "optStr v = (case v of None \<Rightarrow> Some None | Some (MStr s) \<Rightarrow> Some (Some s) | _ \<Rightarrow> None)"

definition optMap :: "mpval option \<Rightarrow> meta option option" where
  "optMap v = (case v of None \<Rightarrow> Some None | Some (MMap m) \<Rightarrow> Some (Some m) | _ \<Rightarrow> None)"

definition decodeLink :: "mpval \<Rightarrow> Link option" where
  "decodeLink v = (case v of
     MMap kvs \<Rightarrow>
       (case (binField (map_of kvs ''h''), sizeField (map_of kvs ''s''), typeField (map_of kvs ''t''),
              optStr (map_of kvs ''n''), optBin (map_of kvs ''k''), optMap (map_of kvs ''m'')) of
          (Some h, Some s, Some t, Some n, Some k, Some m) \<Rightarrow>
            Some \<lparr>lhash = h, lname = n, lsize = s, lkey = k, ltype = t, lmeta = m\<rparr>
        | _ \<Rightarrow> None)
   | _ \<Rightarrow> None)"

definition nodeOfMsgpack :: "mpval \<Rightarrow> TreeNode option" where
  "nodeOfMsgpack v = (case v of
     MMap kvs \<Rightarrow>
       (case map_of kvs ''t'' of
          Some (MInt t) \<Rightarrow>
            if t \<noteq> linkTypeNum File \<and> t \<noteq> linkTypeNum Dir then None
            else (case map_of kvs ''l'' of
                    Some (MArr ls) \<Rightarrow>
                      map_option (\<lambda>links. \<lparr>ntype = linkTypeOf t, nlinks = links\<rparr>) (those (map decodeLink ls))
                  | _ \<Rightarrow> None)
        | _ \<Rightarrow> None)
   | _ \<Rightarrow> None)"

definition tryDecodeTreeNode :: "ext \<Rightarrow> bytes \<Rightarrow> TreeNode option" where
  "tryDecodeTreeNode E d = (case mpDecode E d of None \<Rightarrow> None | Some v \<Rightarrow> nodeOfMsgpack v)"

definition decodeTreeNode :: "ext \<Rightarrow> bytes \<Rightarrow> TreeNode res" where
  "decodeTreeNode E d = (case tryDecodeTreeNode E d of None \<Rightarrow> Inl NotATreeNode | Some n \<Rightarrow> Inr n)"

definition encodeAndHash :: "ext \<Rightarrow> TreeNode \<Rightarrow> bytes \<times> hash" where
  "encodeAndHash E node = (let d = encodeTreeNode E node in (d, sha256 E d))"

definition getNodeType :: "ext \<Rightarrow> bytes \<Rightarrow> LinkType" where
  "getNodeType E d = (case tryDecodeTreeNode E d of None \<Rightarrow> Blob | Some n \<Rightarrow> ntype n)"

section \<open>Well-formed nodes and their canonical form\<close>

text \<open>Metadata stands four levels deep in the encoded node, so its values have 96 levels left.\<close>

definition mp_metaDepth :: nat where
  "mp_metaDepth = 96"

definition meta_ok :: "meta \<Rightarrow> bool" where
  "meta_ok m \<longleftrightarrow> distinct (map fst m) \<and> ''__proto__'' \<notin> fst ` set m
     \<and> (\<forall>kv\<in>set m. mp_wf (snd kv) \<and> mp_within mp_metaDepth (snd kv))"

definition link_ok :: "Link \<Rightarrow> bool" where
  "link_ok l \<longleftrightarrow> lsize l < 2 ^ 53 \<and> linkType_ok (ltype l) \<and> \<bar>linkTypeNum (ltype l)\<bar> < 2 ^ 53
     \<and> (case lmeta l of None \<Rightarrow> True | Some m \<Rightarrow> meta_ok m)"

lemma link_ok_code [code]:
  "link_ok l \<longleftrightarrow> int (lsize l) < 9007199254740992 \<and> linkType_ok (ltype l)
     \<and> \<bar>linkTypeNum (ltype l)\<bar> < 9007199254740992
     \<and> (case lmeta l of None \<Rightarrow> True | Some m \<Rightarrow> meta_ok m)"
  by (simp add: link_ok_def)

definition node_ok :: "TreeNode \<Rightarrow> bool" where
  "node_ok node \<longleftrightarrow> (ntype node = File \<or> ntype node = Dir) \<and> (\<forall>l\<in>set (nlinks node). link_ok l)"

definition canonLink :: "Link \<Rightarrow> Link" where
  "canonLink l = l\<lparr>lmeta := map_option sortObjectKeys (lmeta l)\<rparr>"

definition canonNode :: "TreeNode \<Rightarrow> TreeNode" where
  "canonNode node = node\<lparr>nlinks := map canonLink (nlinks node)\<rparr>"

lemma canonLink_simps [simp]:
  "lhash (canonLink l) = lhash l" "lname (canonLink l) = lname l" "lsize (canonLink l) = lsize l"
  "lkey (canonLink l) = lkey l" "ltype (canonLink l) = ltype l"
  by (simp_all add: canonLink_def)

lemma canonLink_id [simp]: "lmeta l = None \<Longrightarrow> canonLink l = l"
  by (simp add: canonLink_def)

lemma canonNode_simps [simp]:
  "ntype (canonNode n) = ntype n" "nlinks (canonNode n) = map canonLink (nlinks n)"
  by (simp_all add: canonNode_def)

section \<open>The codec round trip\<close>

lemma mset_sortObjectKeys [simp]: "mset (sortObjectKeys m) = mset m"
  by (simp add: sortObjectKeys_def)

lemma set_sortObjectKeys [simp]: "set (sortObjectKeys m) = set m"
  by (simp add: sortObjectKeys_def)

lemma distinct_sortObjectKeys [simp]:
  "distinct (map fst (sortObjectKeys m)) \<longleftrightarrow> distinct (map fst m)"
  by (metis mset_eq_imp_distinct_iff mset_map mset_sortObjectKeys)

lemma enumerate_sortObjectKeys [simp]: "enumerate_keys (sortObjectKeys m) = sortObjectKeys m"
  by (simp add: sortObjectKeys_def)

lemma mp_wf_sortObjectKeys [simp]: "meta_ok m \<Longrightarrow> mp_wf (MMap (sortObjectKeys m))"
  by (simp add: meta_ok_def)

lemma enumerate_plain [simp]: "\<forall>kv\<in>set kvs. \<not> isArrayIndex (fst kv) \<Longrightarrow> enumerate_keys kvs = kvs"
  by (simp add: enumerate_keys_def filter_empty_conv)

lemma field_keys_plain [simp]:
  "\<not> isArrayIndex ''h''" "\<not> isArrayIndex ''k''" "\<not> isArrayIndex ''m''" "\<not> isArrayIndex ''n''"
  "\<not> isArrayIndex ''s''" "\<not> isArrayIndex ''t''" "\<not> isArrayIndex ''l''"
  by code_simp+

lemma mp_wf_encodeLink: "link_ok l \<Longrightarrow> mp_wf (encodeLink l)"
  by (auto simp: encodeLink_def link_ok_def optField_def meta_ok_def split: option.splits)

lemma mp_maxDepth_eq: "mp_maxDepth = Suc (Suc (Suc (Suc mp_metaDepth)))"
  by (simp add: mp_maxDepth_def mp_metaDepth_def)

lemma mp_within_encodeLink: "link_ok l \<Longrightarrow> mp_within (Suc (Suc mp_metaDepth)) (encodeLink l)"
  by (auto simp: encodeLink_def link_ok_def optField_def meta_ok_def split: option.splits)

lemma decode_encodeLink: "linkType_ok (ltype l) \<Longrightarrow> decodeLink (encodeLink l) = Some (canonLink l)"
  by (auto simp: decodeLink_def encodeLink_def optField_def binField_def sizeField_def typeField_def
      optBin_def optStr_def optMap_def canonLink_def linkType_ok_def split: option.splits)

lemma those_map_Some: "(\<And>x. x \<in> set xs \<Longrightarrow> f x = Some (g x)) \<Longrightarrow> those (map f xs) = Some (map g xs)"
  by (induction xs) auto

lemma nodeOfMsgpack_nodeToMsgpack: "node_ok node \<Longrightarrow> nodeOfMsgpack (nodeToMsgpack node) = Some (canonNode node)"
proof -
  assume ok: "node_ok node"
  then have "those (map (decodeLink \<circ> encodeLink) (nlinks node)) = Some (map canonLink (nlinks node))"
    by (intro those_map_Some) (auto simp: node_ok_def link_ok_def decode_encodeLink)
  with ok show ?thesis
    by (auto simp: nodeOfMsgpack_def nodeToMsgpack_def node_ok_def canonNode_def linkTypeNum_def
        linkTypeOf_def)
qed

lemma mp_wf_nodeToMsgpack: "node_ok node \<Longrightarrow> mp_wf (nodeToMsgpack node)"
  by (auto simp: nodeToMsgpack_def node_ok_def mp_wf_encodeLink linkTypeNum_def)

lemma mp_within_nodeToMsgpack: "node_ok node \<Longrightarrow> mp_within mp_maxDepth (nodeToMsgpack node)"
  by (auto simp: mp_maxDepth_eq nodeToMsgpack_def node_ok_def mp_within_encodeLink)

lemma tryDecode_encode:
  "msgpack_ok E \<Longrightarrow> node_ok node \<Longrightarrow> tryDecodeTreeNode E (encodeTreeNode E node) = Some (canonNode node)"
  by (simp add: tryDecodeTreeNode_def encodeTreeNode_def msgpack_okD mp_wf_nodeToMsgpack mp_within_nodeToMsgpack
      nodeOfMsgpack_nodeToMsgpack)

lemma tryDecode_ntype: "tryDecodeTreeNode E d = Some n \<Longrightarrow> ntype n = File \<or> ntype n = Dir"
  by (auto simp: tryDecodeTreeNode_def nodeOfMsgpack_def linkTypeNum_def
      split: option.splits mpval.splits if_splits)

lemma link_ok_canonLink: "link_ok l \<Longrightarrow> link_ok (canonLink l)"
  by (auto simp: link_ok_def canonLink_def meta_ok_def split: option.splits)

section \<open>The encoding does not depend on the order of metadata keys\<close>

lemma sort_key_perm:
  assumes "mset xs = mset ys" "distinct (map fst xs)"
  shows "sort_key fst xs = sort_key fst (ys :: ('k :: linorder \<times> 'v) list)"
proof (rule sort_key_inj_key_eq)
  show "mset xs = mset (sort_key fst ys)" using assms by simp
  show "inj_on fst (set xs)" using assms by (simp add: distinct_map)
qed simp

definition same_up_to_key_order :: "Link \<Rightarrow> Link \<Rightarrow> bool" where
  "same_up_to_key_order l l' \<longleftrightarrow> l\<lparr>lmeta := None\<rparr> = l'\<lparr>lmeta := None\<rparr> \<and>
     (case (lmeta l, lmeta l') of (None, None) \<Rightarrow> True
      | (Some m, Some m') \<Rightarrow> distinct (map fst m) \<and> mset m = mset m' | _ \<Rightarrow> False)"

lemma encodeLink_key_order: "same_up_to_key_order l l' \<Longrightarrow> encodeLink l = encodeLink l'"
  by (cases l; cases l')
     (auto simp: same_up_to_key_order_def encodeLink_def optField_def sortObjectKeys_def
       split: option.splits dest: sort_key_perm)

end
