(* ===== verification/Store.thy ===== *)
theory Store
  imports Codec
begin

text \<open>
  The content-addressed store interface (\<open>types.ts\<close>, \<open>interface Store\<close>) as a record of
  operations over a state type, the in-memory implementation (\<open>store/memory.ts\<close>), and the
  contract the tree code relies on.

  \<^item> \<open>hash_store\<close> is the contract of one store: whatever is put under its own hash and was not there
    before can be read back, nothing else changes, and every stored block hashes to its key.
  \<^item> \<open>content_store\<close> is what the tree code needs: in addition the state knows the set of blocks that
    were offered to it, so that "no two of them collide" can be said of a final state.
  \<^item> \<open>logged\<close> adds that log to any store; the sublocale shows that this turns the first contract
    into the second.
\<close>

section \<open>The store interface\<close>

record 's store_ops =
  store_put :: "hash \<Rightarrow> bytes \<Rightarrow> 's \<Rightarrow> bool \<times> 's"
  store_get :: "'s \<Rightarrow> hash \<Rightarrow> bytes option"
  store_has :: "'s \<Rightarrow> hash \<Rightarrow> bool"
  store_delete :: "hash \<Rightarrow> 's \<Rightarrow> bool \<times> 's"

text \<open>Store calls inside code that threads the state.\<close>

definition storePut :: "'s store_ops \<Rightarrow> hash \<Rightarrow> bytes \<Rightarrow> ('s, bool) op" where
  "storePut st h d s = (case store_put st h d s of (b, s') \<Rightarrow> Some (Inr b, s'))"

definition readS :: "'s store_ops \<Rightarrow> ((hash \<Rightarrow> bytes option) \<Rightarrow> 'a comp) \<Rightarrow> ('s, 'a) op" where
  "readS st f s = liftC (f (store_get st s)) s"

lemma storePut_mono [partial_function_mono]: "mono_option (\<lambda>f. storePut st h d s)"
  by (simp add: monotone_def flat_ord_def)

lemma readS_eq_iff: "readS st f s = Some (r, s') \<longleftrightarrow> f (store_get st s) = Some r \<and> s' = s"
  by (simp add: readS_def liftC_eq_iff)

section \<open>MemoryStore\<close>

text \<open>The state is the \<open>Map\<close> from the hexadecimal key to the data, in insertion order.\<close>

type_synonym memory = "(string \<times> bytes) list"

definition memory_put :: "hash \<Rightarrow> bytes \<Rightarrow> memory \<Rightarrow> bool \<times> memory" where
  "memory_put h d m =
     (let key = toHex h
      in if map_of m key \<noteq> None then (False, m) else (True, m @ [(key, d)]))"

definition memory_get :: "memory \<Rightarrow> hash \<Rightarrow> bytes option" where
  "memory_get m h = map_of m (toHex h)"

definition memory_has :: "memory \<Rightarrow> hash \<Rightarrow> bool" where
  "memory_has m h \<longleftrightarrow> map_of m (toHex h) \<noteq> None"

definition memory_delete :: "hash \<Rightarrow> memory \<Rightarrow> bool \<times> memory" where
  "memory_delete h m =
     (let key = toHex h in (map_of m key \<noteq> None, List.filter (\<lambda>kv. fst kv \<noteq> key) m))"

definition memory_size :: "memory \<Rightarrow> nat" where
  "memory_size m = length m"

definition memory_totalBytes :: "memory \<Rightarrow> nat" where
  "memory_totalBytes m = foldl (\<lambda>total kv. total + length (snd kv)) 0 m"

definition memory_clear :: "memory \<Rightarrow> memory" where
  "memory_clear m = []"

definition memory_keys :: "memory \<Rightarrow> hash list" where
  "memory_keys m = map (\<lambda>hex.
     map (\<lambda>i. toUint8 (parseInt16 (slice (i * 2) (i * 2 + 2) hex))) [0..<length hex div 2]) (map fst m)"

definition memoryStore :: "memory store_ops" where
  "memoryStore = \<lparr>store_put = memory_put, store_get = memory_get, store_has = memory_has,
                  store_delete = memory_delete\<rparr>"

lemma memoryStore_simps [simp]:
  "store_put memoryStore = memory_put" "store_get memoryStore = memory_get"
  "store_has memoryStore = memory_has" "store_delete memoryStore = memory_delete"
  by (simp_all add: memoryStore_def)

text \<open>The well-formed states: one entry per key, each key the hexadecimal form of a hash.\<close>

definition memory_wf :: "memory \<Rightarrow> bool" where
  "memory_wf m \<longleftrightarrow> distinct (map fst m) \<and> (\<forall>k\<in>set (map fst m). \<exists>h. k = toHex h)"

lemma memory_wf_empty [simp]: "memory_wf []"
  by (simp add: memory_wf_def)

lemma memory_put_wf: "memory_wf m \<Longrightarrow> memory_wf (snd (memory_put h d m))"
  by (auto simp: memory_wf_def memory_put_def Let_def map_of_eq_None_iff)

lemma memory_delete_wf: "memory_wf m \<Longrightarrow> memory_wf (snd (memory_delete h m))"
  by (auto simp: memory_wf_def memory_delete_def Let_def distinct_map_filter)

lemma memory_get_put:
  "memory_get (snd (memory_put h d m)) =
     (if memory_get m h = None then (memory_get m)(h \<mapsto> d) else memory_get m)"
  by (rule ext) (auto simp: memory_get_def memory_put_def Let_def map_add_def split: option.splits)

lemma map_of_filter_ne: "map_of (List.filter (\<lambda>kv. fst kv \<noteq> k) m) = (map_of m)(k := None)"
  by (induction m) auto

lemma memory_get_delete: "memory_get (snd (memory_delete h m)) = (memory_get m)(h := None)"
  by (rule ext) (simp add: memory_get_def memory_delete_def Let_def map_of_filter_ne)

lemma memory_keys_fromHex: "memory_keys m = map fromHex (map fst m)"
  by (simp add: memory_keys_def fromHex_def)

lemma memory_keys_get: "memory_wf m \<Longrightarrow> set (memory_keys m) = dom (memory_get m)"
proof -
  assume wf: "memory_wf m"
  have "h \<in> fromHex ` set (map fst m) \<longleftrightarrow> toHex h \<in> set (map fst m)" for h
    using wf by (metis (no_types, lifting) fromHex_of_toHex image_iff memory_wf_def)
  then show ?thesis
    by (auto simp: memory_keys_fromHex memory_get_def dom_def map_of_eq_None_iff simp flip: not_None_eq)
qed

section \<open>The contracts\<close>

locale hash_store =
  fixes E :: ext and ops :: "'s store_ops" and sinv :: "'s \<Rightarrow> bool"
  assumes inv_put: "sinv s \<Longrightarrow> sinv (snd (store_put ops (sha256 E d) d s))"
    and get_hash: "sinv s \<Longrightarrow> store_get ops s h = Some d \<Longrightarrow> sha256 E d = h"
    and get_put: "sinv s \<Longrightarrow> store_get ops (snd (store_put ops (sha256 E d) d s)) =
       (if store_get ops s (sha256 E d) = None then (store_get ops s)(sha256 E d \<mapsto> d)
        else store_get ops s)"

locale content_store =
  fixes E :: ext and ops :: "'s store_ops" and sinv :: "'s \<Rightarrow> bool" and offered :: "'s \<Rightarrow> bytes set"
  assumes inv_put: "sinv s \<Longrightarrow> sinv (snd (store_put ops (sha256 E d) d s))"
    and get_sound: "sinv s \<Longrightarrow> store_get ops s h = Some d \<Longrightarrow> sha256 E d = h \<and> d \<in> offered s"
    and offered_put: "sinv s \<Longrightarrow> offered (snd (store_put ops (sha256 E d) d s)) = insert d (offered s)"
    and get_keep: "sinv s \<Longrightarrow> store_get ops s \<subseteq>\<^sub>m store_get ops (snd (store_put ops (sha256 E d) d s))"
    and get_put: "sinv s \<Longrightarrow> inj_on (sha256 E) (insert d (offered s)) \<Longrightarrow>
       store_get ops (snd (store_put ops (sha256 E d) d s)) = (store_get ops s)(sha256 E d \<mapsto> d)"

section \<open>Stores only grow\<close>

text \<open>\<open>grows s s'\<close>: the later state keeps the invariant, remembers what the earlier one was offered
  and still answers every earlier lookup. \<open>safe m\<close>: the
  code \<open>m\<close> only makes the store grow, also when it throws.\<close>

context content_store
begin

definition grows :: "'s \<Rightarrow> 's \<Rightarrow> bool" where
  "grows s s' \<longleftrightarrow> sinv s' \<and> offered s \<subseteq> offered s' \<and> store_get ops s \<subseteq>\<^sub>m store_get ops s'"

definition safe :: "('s, 'a) op \<Rightarrow> bool" where
  "safe m \<longleftrightarrow> (\<forall>s r s'. sinv s \<longrightarrow> m s = Some (r, s') \<longrightarrow> grows s s')"

lemma grows_refl [simp]: "sinv s \<Longrightarrow> grows s s"
  by (simp add: grows_def)

lemma grows_trans: "grows s s1 \<Longrightarrow> grows s1 s2 \<Longrightarrow> grows s s2"
  unfolding grows_def by (meson map_le_trans order_trans)

lemma grows_sinv: "grows s s' \<Longrightarrow> sinv s'"
  by (simp add: grows_def)

lemma grows_offered: "grows s s' \<Longrightarrow> offered s \<subseteq> offered s'"
  by (simp add: grows_def)

lemma grows_inj: "grows s s' \<Longrightarrow> inj_on (sha256 E) (offered s') \<Longrightarrow> inj_on (sha256 E) (offered s)"
  by (meson grows_offered inj_on_subset)

lemma grows_get:
  "grows s s' \<Longrightarrow> store_get ops s h = Some d \<Longrightarrow> store_get ops s' h = Some d"
  by (auto simp: grows_def intro: map_le_trans_get)

lemma grows_map_le: "grows s s' \<Longrightarrow> store_get ops s \<subseteq>\<^sub>m store_get ops s'"
  by (simp add: grows_def)

lemma grows_put: "sinv s \<Longrightarrow> grows s (snd (store_put ops (sha256 E d) d s))"
  by (auto simp: grows_def inv_put offered_put get_keep)

lemma safeD: "safe m \<Longrightarrow> sinv s \<Longrightarrow> m s = Some (r, s') \<Longrightarrow> grows s s'"
  by (auto simp: safe_def)

lemma safe_retS [simp, intro]: "safe (retS x)" and safe_throwS [simp, intro]: "safe (throwS e)"
  by (auto simp: safe_def)

lemma safe_liftC [simp, intro]: "safe (liftC c)" and safe_readS [simp, intro]: "safe (readS st f)"
  by (auto simp: safe_def liftC_eq_iff readS_eq_iff)

lemma safe_bindS [intro]: "safe m \<Longrightarrow> (\<And>x. safe (f x)) \<Longrightarrow> safe (bindS m f)"
proof (unfold safe_def, intro allI impI)
  fix s r s'
  assume m: "\<forall>s r s'. sinv s \<longrightarrow> m s = Some (r, s') \<longrightarrow> grows s s'"
    and f: "\<And>x. \<forall>s r s'. sinv s \<longrightarrow> f x s = Some (r, s') \<longrightarrow> grows s s'"
    and s: "sinv s" and eq: "bindS m f s = Some (r, s')"
  from eq obtain q s1 where m1: "m s = Some (q, s1)" by (auto simp: bindS_def split: option.splits)
  with m s have g: "grows s s1" by blast
  show "grows s s'"
  proof (cases q)
    case (Inl e)
    with m1 eq g show ?thesis by (simp add: bindS_def)
  next
    case (Inr x)
    with m1 eq have "f x s1 = Some (r, s')" by (simp add: bindS_def)
    with f g show ?thesis by (meson grows_sinv grows_trans)
  qed
qed

lemma safe_storePut [intro]: "h = sha256 E d \<Longrightarrow> safe (storePut ops h d)"
  using grows_put by (auto simp: safe_def storePut_def split: prod.splits) (metis snd_conv)

end

section \<open>The log\<close>

definition logged :: "'s store_ops \<Rightarrow> ('s \<times> bytes list) store_ops" where
  "logged ops = \<lparr>
     store_put = (\<lambda>h d sl. case store_put ops h d (fst sl) of (b, s') \<Rightarrow> (b, (s', d # snd sl))),
     store_get = (\<lambda>sl. store_get ops (fst sl)),
     store_has = (\<lambda>sl. store_has ops (fst sl)),
     store_delete = (\<lambda>h sl. case store_delete ops h (fst sl) of (b, s') \<Rightarrow> (b, (s', snd sl)))\<rparr>"

definition log_offered :: "'s \<times> bytes list \<Rightarrow> bytes set" where
  "log_offered sl = set (snd sl)"

definition logged_inv :: "'s store_ops \<Rightarrow> ('s \<Rightarrow> bool) \<Rightarrow> 's \<times> bytes list \<Rightarrow> bool" where
  "logged_inv ops sinv sl \<longleftrightarrow> sinv (fst sl) \<and> ran (store_get ops (fst sl)) \<subseteq> set (snd sl)"

lemma logged_simps [simp]:
  "store_get (logged ops) sl = store_get ops (fst sl)"
  "snd (store_put (logged ops) h d sl) = (snd (store_put ops h d (fst sl)), d # snd sl)"
  "fst (store_put (logged ops) h d sl) = fst (store_put ops h d (fst sl))"
  by (simp_all add: logged_def split: prod.splits)

sublocale hash_store \<subseteq> logs: content_store E "logged ops" "logged_inv ops sinv" log_offered
proof
  fix s :: "'s \<times> bytes list" and d h
  assume sinv: "logged_inv ops sinv s"
  then have i: "sinv (fst s)" and sub: "ran (store_get ops (fst s)) \<subseteq> set (snd s)"
    by (simp_all add: logged_inv_def)
  show "logged_inv ops sinv (snd (store_put (logged ops) (sha256 E d) d s))"
    using inv_put [OF i] sub by (auto simp: logged_inv_def get_put [OF i] ran_def split: if_splits)
  show "log_offered (snd (store_put (logged ops) (sha256 E d) d s)) = insert d (log_offered s)"
    by (simp add: log_offered_def)
  show "sha256 E d = h \<and> d \<in> log_offered s" if "store_get (logged ops) s h = Some d"
    using that get_hash [OF i] sub by (auto simp: log_offered_def ran_def)
  show "store_get (logged ops) s \<subseteq>\<^sub>m store_get (logged ops) (snd (store_put (logged ops) (sha256 E d) d s))"
    by (auto simp: get_put [OF i] map_le_def)
  show "store_get (logged ops) (snd (store_put (logged ops) (sha256 E d) d s))
      = (store_get (logged ops) s)(sha256 E d \<mapsto> d)"
    if inj: "inj_on (sha256 E) (insert d (log_offered s))"
  proof (cases "store_get ops (fst s) (sha256 E d)")
    case None
    then show ?thesis by (simp add: get_put [OF i])
  next
    case (Some d')
    then have "sha256 E d' = sha256 E d" "d' \<in> log_offered s"
      using get_hash [OF i] sub by (auto simp: log_offered_def ran_def)
    with inj have "d' = d" by (auto simp: inj_on_def)
    with Some show ?thesis by (simp add: get_put [OF i] fun_upd_idem)
  qed
qed

section \<open>MemoryStore keeps the contract\<close>

definition memory_inv :: "ext \<Rightarrow> memory \<Rightarrow> bool" where
  "memory_inv E m \<longleftrightarrow> memory_wf m \<and> (\<forall>h d. memory_get m h = Some d \<longrightarrow> sha256 E d = h)"

lemma memory_inv_put: "memory_inv E m \<Longrightarrow> memory_inv E (snd (memory_put (sha256 E d) d m))"
  by (auto simp: memory_inv_def memory_put_wf memory_get_put split: if_splits)

lemma memory_inv_delete: "memory_inv E m \<Longrightarrow> memory_inv E (snd (memory_delete h m))"
  by (auto simp: memory_inv_def memory_delete_wf memory_get_delete split: if_splits)

lemma memory_inv_empty [simp]: "memory_inv E []"
  by (simp add: memory_inv_def memory_get_def)

interpretation mem: hash_store E memoryStore "memory_inv E" for E
  by unfold_locales (simp_all add: memory_inv_put memory_get_put, simp add: memory_inv_def)

abbreviation "memlog \<equiv> logged memoryStore"
abbreviation "memlog_inv E \<equiv> logged_inv memoryStore (memory_inv E)"

lemma memlog_inv_empty [simp]: "memlog_inv E ([], [])"
  by (simp add: logged_inv_def memory_get_def ran_def)

text \<open>No two different blocks of the log have the same hash. It can be computed, so that a witness can
  discharge it.\<close>

definition no_collision :: "ext \<Rightarrow> 's \<times> bytes list \<Rightarrow> bool" where
  "no_collision E s \<longleftrightarrow> distinct (map (sha256 E) (remdups (snd s)))"

lemma no_collision_inj [simp]: "inj_on (sha256 E) (log_offered s) \<longleftrightarrow> no_collision E s"
  by (simp add: no_collision_def log_offered_def distinct_map)

lemma run_no_collision:
  "(case x of Some (r, s') \<Rightarrow> no_collision E s' | None \<Rightarrow> False) \<Longrightarrow> x = Some (r, s') \<Longrightarrow> no_collision E s'"
  by simp

section \<open>Histories of MemoryStore\<close>

text \<open>The calls that change a store, with any hash and any data, and the state after a sequence of them.\<close>

datatype memory_op = MPut hash bytes | MDelete hash | MClear

fun memory_do :: "memory_op \<Rightarrow> memory \<Rightarrow> memory" where
  "memory_do (MPut h d) m = snd (memory_put h d m)"
| "memory_do (MDelete h) m = snd (memory_delete h m)"
| "memory_do MClear m = memory_clear m"

definition memory_after :: "memory_op list \<Rightarrow> memory" where
  "memory_after ops = fold memory_do ops []"

text \<open>A block that a history has put and kept: it was put when there was none under its hash, and neither
  deleted nor cleared away afterwards.\<close>

definition memory_kept :: "memory_op list \<Rightarrow> hash \<Rightarrow> bytes \<Rightarrow> bool" where
  "memory_kept ops h d \<longleftrightarrow> (\<exists>pre post. ops = pre @ MPut h d # post \<and> memory_get (memory_after pre) h = None \<and>
     MDelete h \<notin> set post \<and> MClear \<notin> set post)"

lemma memory_after_simps [simp]:
  "memory_after [] = []" "memory_after (ops @ [x]) = memory_do x (memory_after ops)"
  by (simp_all add: memory_after_def)

lemma memory_after_wf: "memory_wf (memory_after ops)"
proof (induction ops rule: rev_induct)
  case (snoc x ops)
  then show ?case by (cases x) (simp_all add: memory_put_wf memory_delete_wf memory_clear_def)
qed simp

lemma memory_kept_snoc:
  "memory_kept (ops @ [x]) h d \<longleftrightarrow>
     (x = MPut h d \<and> memory_get (memory_after ops) h = None) \<or> (memory_kept ops h d \<and> x \<noteq> MDelete h \<and> x \<noteq> MClear)"
proof (intro iffI)
  assume "memory_kept (ops @ [x]) h d"
  then obtain pre post where p: "ops @ [x] = pre @ MPut h d # post" "memory_get (memory_after pre) h = None"
      "MDelete h \<notin> set post" "MClear \<notin> set post"
    unfolding memory_kept_def by blast
  then show "(x = MPut h d \<and> memory_get (memory_after ops) h = None) \<or> (memory_kept ops h d \<and> x \<noteq> MDelete h \<and> x \<noteq> MClear)"
  proof (cases post rule: rev_cases)
    case (snoc post' y)
    with p have "ops = pre @ MPut h d # post'" "x = y" by simp_all
    with p snoc show ?thesis unfolding memory_kept_def by auto
  qed simp
next
  assume "(x = MPut h d \<and> memory_get (memory_after ops) h = None) \<or> (memory_kept ops h d \<and> x \<noteq> MDelete h \<and> x \<noteq> MClear)"
  then show "memory_kept (ops @ [x]) h d"
  proof (elim disjE conjE)
    assume "x = MPut h d" "memory_get (memory_after ops) h = None"
    then show ?thesis unfolding memory_kept_def by fastforce
  next
    assume k: "memory_kept ops h d" and x: "x \<noteq> MDelete h" "x \<noteq> MClear"
    then obtain pre post where p: "ops = pre @ MPut h d # post" "memory_get (memory_after pre) h = None"
        "MDelete h \<notin> set post" "MClear \<notin> set post"
      unfolding memory_kept_def by blast
    have "ops @ [x] = pre @ MPut h d # (post @ [x])" "MDelete h \<notin> set (post @ [x])" "MClear \<notin> set (post @ [x])"
      using p x by auto
    with p(2) show ?thesis unfolding memory_kept_def by blast
  qed
qed

lemma memory_get_after: "memory_get (memory_after ops) h = Some d \<longleftrightarrow> memory_kept ops h d"
proof (induction ops rule: rev_induct)
  case Nil
  show ?case by (simp add: memory_get_def memory_kept_def)
next
  case (snoc x ops)
  show ?case
  proof (cases x)
    case (MPut h' d')
    then show ?thesis using snoc by (auto simp: memory_get_put memory_kept_snoc)
  next
    case (MDelete h')
    then show ?thesis using snoc by (auto simp: memory_get_delete memory_kept_snoc)
  next
    case MClear
    then show ?thesis by (auto simp: memory_get_def memory_clear_def memory_kept_snoc)
  qed
qed

lemma distinct_memory_keys: "memory_wf m \<Longrightarrow> distinct (memory_keys m)"
proof -
  assume wf: "memory_wf m"
  have "inj_on fromHex (set (map fst m))"
    by (rule inj_on_inverseI [of _ toHex]) (use wf in \<open>auto simp: memory_wf_def\<close>)
  with wf show ?thesis by (simp add: memory_keys_fromHex distinct_map memory_wf_def del: map_map)
qed

lemma memory_size_card: "memory_wf m \<Longrightarrow> memory_size m = card (dom (memory_get m))"
  using distinct_card [OF distinct_memory_keys, of m] memory_keys_get [of m]
  by (simp add: memory_keys_fromHex memory_size_def)

lemma memory_totalBytes_sum:
  assumes "memory_wf m"
  shows "memory_totalBytes m = (\<Sum>h\<in>dom (memory_get m). length (the (memory_get m h)))"
proof -
  let ?f = "\<lambda>h. length (the (memory_get m h))"
  have "foldl (\<lambda>total kv. total + length (snd kv)) n xs = n + sum_list (map (length \<circ> snd) xs)"
    for n and xs :: memory by (induction xs arbitrary: n) auto
  then have "memory_totalBytes m = sum_list (map (length \<circ> snd) m)" by (simp add: memory_totalBytes_def)
  also have "map (length \<circ> snd) m = map ?f (memory_keys m)"
  proof -
    have "length d = ?f (fromHex k)" if "(k, d) \<in> set m" for k d
    proof -
      have "toHex (fromHex k) = k" using assms that by (force simp: memory_wf_def)
      with assms that show ?thesis by (simp add: memory_get_def memory_wf_def)
    qed
    then show ?thesis by (auto simp: memory_keys_fromHex)
  qed
  also have "sum_list (map ?f (memory_keys m)) = sum ?f (set (memory_keys m))"
    using distinct_memory_keys [OF assms] by (simp add: sum_list_distinct_conv_sum_set)
  finally show ?thesis using memory_keys_get [OF assms] by simp
qed

end
