(* ===== verification/Create.thy ===== *)
theory Create
  imports Store
begin

text \<open>
  Building trees (\<open>tree/create.ts\<close>): blobs, chunked files, directories. Every operation runs in a
  store of the interface \<open>store_ops\<close>.

  The chunking loop of \<open>putFile\<close> advances by the chunk size, so with a chunk size of 0 it never ends
  on non-empty data: it is a \<open>partial_function\<close> whose value is then \<open>None\<close>.
\<close>

record 's config =
  cstore :: "'s store_ops"
  chunkSize :: nat

record FileResult =
  rhash :: hash
  rsize :: nat

text \<open>\<open>DirEntry\<close> and \<open>TreeEntry\<close> have the same fields.\<close>

record TreeEntry =
  ename :: string
  ecid :: CID
  esize :: nat
  etype :: LinkType
  emeta :: "meta option"

section \<open>Operations\<close>

definition putBlob :: "ext \<Rightarrow> 's store_ops \<Rightarrow> bytes \<Rightarrow> ('s, hash) op" where
  "putBlob E st d =
     (let h = sha256 E d in bindS (storePut st h d) (\<lambda>_. retS h))"

definition blobLink :: "hash \<Rightarrow> nat \<Rightarrow> Link" where
  "blobLink h n = \<lparr>lhash = h, lname = None, lsize = n, lkey = None, ltype = Blob, lmeta = None\<rparr>"

definition buildTree :: "ext \<Rightarrow> 's config \<Rightarrow> Link list \<Rightarrow> nat option \<Rightarrow> ('s, hash) op" where
  "buildTree E C links totalSize =
     (if length links = 1 \<and> Some (lsize (links ! 0)) = totalSize then retS (lhash (links ! 0))
      else case encodeAndHash E \<lparr>ntype = File, nlinks = links\<rparr> of
        (d, h) \<Rightarrow> bindS (storePut (cstore C) h d) (\<lambda>_. retS h))"

partial_function (option) putFile_loop ::
  "ext \<Rightarrow> 's config \<Rightarrow> bytes \<Rightarrow> nat \<Rightarrow> Link list \<Rightarrow> 's \<Rightarrow> (Link list res \<times> 's) option" where
  "putFile_loop E C d offset links s =
     (if offset < length d then
        (let e = min (offset + chunkSize C) (length d); chunk = slice offset e d
         in bindS (putBlob E (cstore C) chunk)
              (\<lambda>h. putFile_loop E C d e (links @ [blobLink h (length chunk)])) s)
      else retS links s)"

declare putFile_loop.simps [code]

definition putFile :: "ext \<Rightarrow> 's config \<Rightarrow> bytes \<Rightarrow> ('s, FileResult) op" where
  "putFile E C d =
     (if length d \<le> chunkSize C
      then bindS (putBlob E (cstore C) d) (\<lambda>h. retS \<lparr>rhash = h, rsize = length d\<rparr>)
      else bindS (putFile_loop E C d 0 []) (\<lambda>links.
           bindS (buildTree E C links (Some (length d))) (\<lambda>h.
           retS \<lparr>rhash = h, rsize = length d\<rparr>)))"

definition entryLink :: "TreeEntry \<Rightarrow> Link" where
  "entryLink e = \<lparr>lhash = chash (ecid e), lname = Some (ename e), lsize = esize e,
                  lkey = ckey (ecid e), ltype = etype e, lmeta = emeta e\<rparr>"

definition sortEntries :: "ext \<Rightarrow> TreeEntry list \<Rightarrow> TreeEntry list" where
  "sortEntries E es = sortBy (\<lambda>a b. localeCompare E (ename a) (ename b) \<le> 0) es"

definition putDirectory :: "ext \<Rightarrow> 's config \<Rightarrow> TreeEntry list \<Rightarrow> ('s, hash) op" where
  "putDirectory E C entries =
     (case encodeAndHash E \<lparr>ntype = Dir, nlinks = map entryLink (sortEntries E entries)\<rparr> of
        (d, h) \<Rightarrow>
          if length d \<le> chunkSize C then bindS (storePut (cstore C) h d) (\<lambda>_. retS h)
          else bindS (putFile E C d) (\<lambda>r. retS (rhash r)))"

end
