(* ===== verification/TreeRead.thy ===== *)
theory TreeRead
  imports Create
begin

text \<open>
  Reading trees (\<open>tree/read.ts\<close>): whole files with an optional size limit, ranges, streams with
  prefetching, directories (also chunked ones), path resolution, sizes and walks.

  A reader sees the store through its lookup function \<open>get\<close>. The recursions follow links through the
  store, so nothing in a tree node bounds them: they are \<open>partial_function\<close>s, and \<open>None\<close> means that
  the call never returns. JavaScript's \<open>Infinity\<close> and \<open>undefined\<close> bounds are \<open>None\<close> of an option;
  the differences \<open>end - start\<close> that can be negative in the code are only compared with non-negative
  numbers there, so truncated subtraction takes the same branches.

  \<open>encrypted.ts\<close> has the same loops over links: there a link must carry a key and its block is
  decrypted before use. The model has each loop once, over an \<open>opener\<close>: the check of a link and the
  opening of its block. \<open>plain\<close> is the one of \<open>tree/read.ts\<close>; the encrypted one is in the theory of
  \<open>encrypted.ts\<close>.
\<close>

record opener =
  checkLink :: "Link \<Rightarrow> unit comp"
  openBlock :: "Link \<Rightarrow> bytes \<Rightarrow> bytes comp"

definition plain :: opener where
  "plain = \<lparr>checkLink = (\<lambda>_. ret ()), openBlock = (\<lambda>_ d. ret d)\<rparr>"

lemma plain_simps [simp]: "checkLink plain l = ret ()" "openBlock plain l d = ret d"
  by (simp_all add: plain_def)

section \<open>Limits\<close>

definition normalizeMaxBytes :: "int option \<Rightarrow> nat option comp" where
  "normalizeMaxBytes mb = (case mb of None \<Rightarrow> ret None
     | Some n \<Rightarrow> if n < 0 then throw (InvalidMaxBytes n) else ret (Some (nat n)))"

definition ensureWithinLimit :: "nat option \<Rightarrow> nat \<Rightarrow> unit comp" where
  "ensureWithinLimit mb actualBytes = (case mb of None \<Rightarrow> ret ()
     | Some m \<Rightarrow> if m < actualBytes then throw (ContentExceedsMaxBytes actualBytes m) else ret ())"

section \<open>Blobs and nodes\<close>

definition getBlob :: "(hash \<Rightarrow> bytes option) \<Rightarrow> hash \<Rightarrow> bytes option" where
  "getBlob get h = get h"

definition getTreeNode :: "ext \<Rightarrow> (hash \<Rightarrow> bytes option) \<Rightarrow> hash \<Rightarrow> TreeNode option" where
  "getTreeNode E get h = (case get h of None \<Rightarrow> None | Some d \<Rightarrow> tryDecodeTreeNode E d)"

definition getType :: "ext \<Rightarrow> (hash \<Rightarrow> bytes option) \<Rightarrow> hash \<Rightarrow> LinkType" where
  "getType E get h = (case get h of None \<Rightarrow> Blob | Some d \<Rightarrow> getNodeType E d)"

definition isDirectory :: "ext \<Rightarrow> (hash \<Rightarrow> bytes option) \<Rightarrow> hash \<Rightarrow> bool" where
  "isDirectory E get h = (case get h of None \<Rightarrow> False
     | Some d \<Rightarrow> (case tryDecodeTreeNode E d of None \<Rightarrow> False | Some n \<Rightarrow> ntype n = Dir))"

section \<open>Whole files\<close>

definition liftR :: "'a res \<Rightarrow> 'a comp" where
  "liftR r = Some r"

lemma liftR_simps [simp, monad_simps]: "liftR (Inl e) = throw e" "liftR (Inr x) = ret x"
  by (simp_all add: liftR_def)

text \<open>The loop of \<open>assembleChunks\<close> over the remaining links; the running \<open>state.bytesRead\<close> is passed
  through and returned, the parts are concatenated.\<close>

partial_function (option) assembleLinks ::
  "ext \<Rightarrow> opener \<Rightarrow> (hash \<Rightarrow> bytes option) \<Rightarrow> nat option \<Rightarrow> Link list \<Rightarrow> nat \<Rightarrow> (bytes \<times> nat) comp" where
  "assembleLinks E opn get mb links bytesRead = (case links of
     [] \<Rightarrow> ret ([], bytesRead)
   | link # rest \<Rightarrow>
       bindC (ensureWithinLimit mb (bytesRead + lsize link)) (\<lambda>_.
       bindC (checkLink opn link) (\<lambda>_.
       case get (lhash link) of
         None \<Rightarrow> throw (MissingChunk (lhash link))
       | Some block \<Rightarrow>
           bindC (openBlock opn link block) (\<lambda>childData.
           bindC
             (if ltype link \<noteq> Blob
              then bindC (liftR (decodeTreeNode E childData)) (\<lambda>childNode.
                   assembleLinks E opn get mb (nlinks childNode) bytesRead)
              else bindC (ensureWithinLimit mb (bytesRead + length childData)) (\<lambda>_.
                   ret (childData, bytesRead + length childData)))
             (\<lambda>pb. bindC (assembleLinks E opn get mb rest (snd pb))
                (\<lambda>rb. ret (fst pb @ fst rb, snd rb)))))))"

declare assembleLinks.simps [code]

definition assembleChunks ::
  "ext \<Rightarrow> (hash \<Rightarrow> bytes option) \<Rightarrow> nat option \<Rightarrow> TreeNode \<Rightarrow> nat \<Rightarrow> bytes comp" where
  "assembleChunks E get mb node bytesRead =
     bindC (assembleLinks E plain get mb (nlinks node) bytesRead) (\<lambda>pb. ret (fst pb))"

definition readFile ::
  "ext \<Rightarrow> (hash \<Rightarrow> bytes option) \<Rightarrow> hash \<Rightarrow> int option \<Rightarrow> bytes option comp" where
  "readFile E get h maxBytes =
     bindC (normalizeMaxBytes maxBytes) (\<lambda>mb.
     case get h of
       None \<Rightarrow> ret None
     | Some d \<Rightarrow>
         (case tryDecodeTreeNode E d of
            None \<Rightarrow> bindC (ensureWithinLimit mb (length d)) (\<lambda>_. ret (Some d))
          | Some node \<Rightarrow>
              bindC (ensureWithinLimit mb (foldl (\<lambda>sum l. sum + lsize l) 0 (nlinks node))) (\<lambda>_.
              bindC (assembleChunks E get mb node 0) (\<lambda>x. ret (Some x)))))"

section \<open>Streams\<close>

text \<open>The links that lie before the offset are skipped by their sizes.\<close>

fun skipBefore :: "nat \<Rightarrow> Link list \<Rightarrow> nat \<Rightarrow> Link list \<times> nat" where
  "skipBefore offset [] position = ([], position)"
| "skipBefore offset (l # ls) position =
     (if 0 < lsize l \<and> position + lsize l \<le> offset then skipBefore offset ls (position + lsize l)
      else (l # ls, position))"

text \<open>An entry of the prefetch queue: what the pending lookup answers, the link, its position.\<close>

type_synonym prefetchEntry = "bytes option \<times> Link \<times> nat"

fun initialPrefetch ::
  "(hash \<Rightarrow> bytes option) \<Rightarrow> Link list \<Rightarrow> nat \<Rightarrow> prefetchEntry list \<times> nat" where
  "initialPrefetch get [] position = ([], position)"
| "initialPrefetch get (l # ls) position =
     (case initialPrefetch get ls (position + lsize l) of
        (q, p) \<Rightarrow> ((get (lhash l), l, position) # q, p))"

text \<open>The loop over \<open>linksToProcess\<close>: \<open>todo\<close> are the links the \<open>for\<close> still has to visit.\<close>

partial_function (option) streamLoop ::
  "ext \<Rightarrow> opener \<Rightarrow> (hash \<Rightarrow> bytes option) \<Rightarrow> nat \<Rightarrow> nat \<Rightarrow> Link list \<Rightarrow> Link list \<Rightarrow> prefetchEntry list
   \<Rightarrow> nat \<Rightarrow> nat \<Rightarrow> bytes gen" where
  "streamLoop E opn get offset prefetch linksToProcess todo queue nextIdx prefetchPosition =
     (case todo of
        [] \<Rightarrow> doneG
      | link # rest \<Rightarrow>
          awaitG (checkLink opn link) (\<lambda>_.
          case queue of
            [] \<Rightarrow> throwG PrefetchQueueEmpty
          | entry # queue' \<Rightarrow>
              (case fst entry of
                 None \<Rightarrow> throwG (MissingChunk (lhash link))
               | Some block \<Rightarrow>
                   (let position = snd (snd entry);
                        more = (nextIdx < length linksToProcess);
                        nextLink = linksToProcess ! nextIdx;
                        queue2 = (if more then queue' @ [(get (lhash nextLink), nextLink, prefetchPosition)]
                                  else queue');
                        nextIdx2 = (if more then nextIdx + 1 else nextIdx);
                        prefetchPosition2 = (if more then prefetchPosition + lsize nextLink
                                             else prefetchPosition)
                    in seqG
                         (awaitG (openBlock opn link block) (\<lambda>childData.
                          if ltype link \<noteq> Blob
                          then awaitG (liftR (decodeTreeNode E childData)) (\<lambda>childNode.
                            let childOffset = offset - position;
                                lp = skipBefore childOffset (nlinks childNode) 0;
                                qp = initialPrefetch get (take prefetch (fst lp)) (snd lp)
                            in streamLoop E opn get childOffset prefetch (fst lp) (fst lp) (fst qp)
                                 prefetch (snd qp))
                          else if position + length childData \<le> offset then doneG
                          else if offset \<le> position then yieldG childData
                          else yieldG (drop (offset - position) childData)))
                         (streamLoop E opn get offset prefetch linksToProcess rest queue2 nextIdx2
                            prefetchPosition2)))))"

declare streamLoop.simps [code]

definition streamNode ::
  "ext \<Rightarrow> opener \<Rightarrow> (hash \<Rightarrow> bytes option) \<Rightarrow> TreeNode \<Rightarrow> nat \<Rightarrow> nat \<Rightarrow> bytes gen" where
  "streamNode E opn get node offset prefetch =
     (let lp = skipBefore offset (nlinks node) 0;
          qp = initialPrefetch get (take prefetch (fst lp)) (snd lp)
      in streamLoop E opn get offset prefetch (fst lp) (fst lp) (fst qp) prefetch (snd qp))"

definition streamChunksWithOffset ::
  "ext \<Rightarrow> (hash \<Rightarrow> bytes option) \<Rightarrow> TreeNode \<Rightarrow> nat \<Rightarrow> nat \<Rightarrow> bytes gen" where
  "streamChunksWithOffset E get node offset prefetch = streamNode E plain get node offset prefetch"

definition readFileStream ::
  "ext \<Rightarrow> (hash \<Rightarrow> bytes option) \<Rightarrow> hash \<Rightarrow> nat \<Rightarrow> nat \<Rightarrow> bytes gen" where
  "readFileStream E get h offset prefetch = (case get h of
     None \<Rightarrow> doneG
   | Some d \<Rightarrow>
       (case tryDecodeTreeNode E d of
          None \<Rightarrow>
            if length d \<le> offset then doneG
            else yieldG (if 0 < offset then drop offset d else d)
        | Some node \<Rightarrow> streamChunksWithOffset E get node offset prefetch))"

section \<open>Ranges\<close>

definition capReached :: "nat option \<Rightarrow> nat \<Rightarrow> bool" where
  "capReached maxBytes collected = (case maxBytes of None \<Rightarrow> False | Some m \<Rightarrow> m \<le> collected)"

definition capTake :: "nat \<Rightarrow> nat option \<Rightarrow> nat \<Rightarrow> nat" where
  "capTake n maxBytes collected = (case maxBytes of None \<Rightarrow> n | Some m \<Rightarrow> min n (m - collected))"

partial_function (option) readRangeLinks ::
  "ext \<Rightarrow> opener \<Rightarrow> (hash \<Rightarrow> bytes option) \<Rightarrow> nat \<Rightarrow> nat option \<Rightarrow> Link list \<Rightarrow> nat \<Rightarrow> nat \<Rightarrow> bytes comp" where
  "readRangeLinks E opn get start stop links position collected = (case links of
     [] \<Rightarrow> ret []
   | link # rest \<Rightarrow>
       (let maxBytes = map_option (\<lambda>e. e - start) stop in
        if capReached maxBytes collected then ret []
        else bindC (checkLink opn link) (\<lambda>_.
        if 0 < lsize link \<and> position + lsize link \<le> start
        then readRangeLinks E opn get start stop rest (position + lsize link) collected
        else (case get (lhash link) of
           None \<Rightarrow> throw (MissingChunk (lhash link))
         | Some block \<Rightarrow>
             bindC (openBlock opn link block) (\<lambda>childData.
             if ltype link \<noteq> Blob then
               bindC (liftR (decodeTreeNode E childData)) (\<lambda>childNode.
               bindC (readRangeLinks E opn get (start - position) (map_option (\<lambda>e. e - position) stop)
                        (nlinks childNode) 0 0) (\<lambda>childData2.
               let n = capTake (length childData2) maxBytes collected;
                   part = (if 0 < length childData2 then take n childData2 else []);
                   collected2 = (if 0 < length childData2 then collected + n else collected)
               in bindC (readRangeLinks E opn get start stop rest (position + lsize link) collected2)
                    (\<lambda>parts. ret (part @ parts))))
             else
               (let chunkEnd = position + length childData in
                if chunkEnd \<le> start then readRangeLinks E opn get start stop rest chunkEnd collected
                else
                  (let sliceStart = start - position;
                       sliceEnd = (case stop of None \<Rightarrow> length childData
                                    | Some e \<Rightarrow> min (length childData) (e - position));
                       n = capTake (sliceEnd - sliceStart) maxBytes collected;
                       part = (if sliceStart < sliceEnd then slice sliceStart (sliceStart + n) childData
                               else []);
                       collected2 = (if sliceStart < sliceEnd then collected + n else collected)
                   in bindC (readRangeLinks E opn get start stop rest chunkEnd collected2)
                        (\<lambda>parts. ret (part @ parts)))))))))"

declare readRangeLinks.simps [code]

definition readRangeFromNode ::
  "ext \<Rightarrow> (hash \<Rightarrow> bytes option) \<Rightarrow> TreeNode \<Rightarrow> nat \<Rightarrow> nat option \<Rightarrow> bytes comp" where
  "readRangeFromNode E get node start stop = readRangeLinks E plain get start stop (nlinks node) 0 0"

definition readFileRange ::
  "ext \<Rightarrow> (hash \<Rightarrow> bytes option) \<Rightarrow> hash \<Rightarrow> nat \<Rightarrow> nat option \<Rightarrow> bytes option comp" where
  "readFileRange E get h start stop = (case get h of
     None \<Rightarrow> ret None
   | Some d \<Rightarrow>
       (case tryDecodeTreeNode E d of
          None \<Rightarrow>
            if length d \<le> start then ret (Some [])
            else ret (Some (slice start (case stop of None \<Rightarrow> length d | Some e \<Rightarrow> min e (length d)) d))
        | Some node \<Rightarrow>
            bindC (readRangeFromNode E get node start stop) (\<lambda>x. ret (Some x))))"

section \<open>Directories\<close>

definition getDirectoryNode ::
  "ext \<Rightarrow> (hash \<Rightarrow> bytes option) \<Rightarrow> hash \<Rightarrow> TreeNode option comp" where
  "getDirectoryNode E get h = (case get h of
     None \<Rightarrow> ret None
   | Some d \<Rightarrow>
       (case tryDecodeTreeNode E d of
          None \<Rightarrow> ret None
        | Some node \<Rightarrow>
            if ntype node = Dir then ret (Some node)
            else bindC (assembleChunks E get None node 0) (\<lambda>assembled.
              case tryDecodeTreeNode E assembled of
                None \<Rightarrow> ret None
              | Some n2 \<Rightarrow> if ntype n2 = Dir then ret (Some n2) else ret None)))"

definition linkEntries :: "Link list \<Rightarrow> TreeEntry list" where
  "linkEntries links = List.map_filter (\<lambda>l. case lname l of
       None \<Rightarrow> None
     | Some n \<Rightarrow> if n = [] then None
                 else Some \<lparr>ename = n, ecid = cid (lhash l) (lkey l), esize = lsize l,
                            etype = ltype l, emeta = lmeta l\<rparr>) links"

definition listDirectory ::
  "ext \<Rightarrow> (hash \<Rightarrow> bytes option) \<Rightarrow> hash \<Rightarrow> TreeEntry list comp" where
  "listDirectory E get h =
     bindC (getDirectoryNode E get h) (\<lambda>node. case node of None \<Rightarrow> ret [] | Some n \<Rightarrow> ret (linkEntries (nlinks n)))"

definition pathParts :: "string \<Rightarrow> string list" where
  "pathParts path = List.filter (\<lambda>p. 0 < length p) (splitOn (CHR ''/'') path)"

fun resolveParts ::
  "ext \<Rightarrow> (hash \<Rightarrow> bytes option) \<Rightarrow> hash \<Rightarrow> string list \<Rightarrow> hash option comp" where
  "resolveParts E get h [] = ret (Some h)"
| "resolveParts E get h (part # parts) =
     bindC (getDirectoryNode E get h) (\<lambda>node. case node of
       None \<Rightarrow> ret None
     | Some n \<Rightarrow> (case List.find (\<lambda>l. lname l = Some part) (nlinks n) of
                    None \<Rightarrow> ret None
                  | Some link \<Rightarrow> resolveParts E get (lhash link) parts))"

definition resolvePath ::
  "ext \<Rightarrow> (hash \<Rightarrow> bytes option) \<Rightarrow> hash \<Rightarrow> string \<Rightarrow> hash option comp" where
  "resolvePath E get rootHash path = resolveParts E get rootHash (pathParts path)"

definition getSize :: "ext \<Rightarrow> (hash \<Rightarrow> bytes option) \<Rightarrow> hash \<Rightarrow> nat" where
  "getSize E get h = (case get h of None \<Rightarrow> 0
     | Some d \<Rightarrow> (case tryDecodeTreeNode E d of None \<Rightarrow> length d
        | Some node \<Rightarrow> foldl (\<lambda>total l. total + lsize l) 0 (nlinks node)))"

record WalkEntry =
  wpath :: string
  whash :: hash
  wtype :: LinkType
  wsize :: nat

text \<open>\<open>walk\<close> over a list of pending (hash, path) pairs: the children of a directory come before the
  rest, as \<open>yield*\<close> in the loop does.\<close>

partial_function (option) walkList ::
  "ext \<Rightarrow> (hash \<Rightarrow> bytes option) \<Rightarrow> (hash \<times> string) list \<Rightarrow> WalkEntry gen" where
  "walkList E get pending = (case pending of
     [] \<Rightarrow> doneG
   | hp # rest \<Rightarrow>
       (let h = fst hp; path = snd hp in
        seqG
          (case get h of
             None \<Rightarrow> doneG
           | Some d \<Rightarrow>
               awaitG (getDirectoryNode E get h) (\<lambda>dirNode. case dirNode of
                 Some dn \<Rightarrow>
                   seqG (yieldG \<lparr>wpath = path, whash = h, wtype = Dir,
                                 wsize = foldl (\<lambda>sum l. sum + lsize l) 0 (nlinks dn)\<rparr>)
                     (walkList E get
                       (map (\<lambda>e. (chash (ecid e), if path \<noteq> [] then path @ ''/'' @ ename e else ename e))
                         (linkEntries (nlinks dn))))
               | None \<Rightarrow>
                   (case tryDecodeTreeNode E d of
                      None \<Rightarrow> yieldG \<lparr>wpath = path, whash = h, wtype = Blob, wsize = length d\<rparr>
                    | Some node \<Rightarrow>
                        yieldG \<lparr>wpath = path, whash = h, wtype = File,
                                wsize = foldl (\<lambda>sum l. sum + lsize l) 0 (nlinks node)\<rparr>)))
          (walkList E get rest)))"

declare walkList.simps [code]

definition walk :: "ext \<Rightarrow> (hash \<Rightarrow> bytes option) \<Rightarrow> hash \<Rightarrow> string \<Rightarrow> WalkEntry gen" where
  "walk E get h path = walkList E get [(h, path)]"

end
