(* ===== verification/TreeSpec.thy ===== *)
theory TreeSpec
  imports TreeRead
begin

text \<open>
  What a stored tree means, and that every reader agrees with it. \<open>tree_content\<close> relates a list of
  links to the bytes below them; it also says that each link's size field is the length of what it
  points to, which the range, stream and write operations rely on. \<open>file_content\<close> is the same for a
  root hash.
\<close>

section \<open>The abstract content of links and files\<close>

text \<open>What a reader gets for a link: the check passes, the block is there and opens to \<open>d\<close>.\<close>

definition opens :: "opener \<Rightarrow> (hash \<Rightarrow> bytes option) \<Rightarrow> Link \<Rightarrow> bytes \<Rightarrow> bool" where
  "opens opn get l d \<longleftrightarrow> checkLink opn l = ret () \<and>
     (\<exists>block. get (lhash l) = Some block \<and> openBlock opn l block = ret d)"

lemma opensE:
  assumes "opens opn get l d"
  obtains block where "checkLink opn l = ret ()" "get (lhash l) = Some block" "openBlock opn l block = ret d"
  using assms by (auto simp: opens_def)

lemma opens_plain [simp]: "opens plain get l d \<longleftrightarrow> get (lhash l) = Some d"
  by (simp add: opens_def)

lemma opens_mono: "opens opn get l d \<Longrightarrow> get \<subseteq>\<^sub>m get' \<Longrightarrow> opens opn get' l d"
  unfolding opens_def by (blast dest: map_le_trans_get)

lemma opens_det: "opens opn get l d \<Longrightarrow> opens opn get l d' \<Longrightarrow> d = d'"
  by (auto simp: opens_def)

inductive tree_content :: "ext \<Rightarrow> opener \<Rightarrow> (hash \<Rightarrow> bytes option) \<Rightarrow> Link list \<Rightarrow> bytes \<Rightarrow> bool"
  for E :: ext and opn :: opener and get :: "hash \<Rightarrow> bytes option" where
  tc_nil: "tree_content E opn get [] []"
| tc_blob: "\<lbrakk>ltype l = Blob; opens opn get l d; lsize l = length d; tree_content E opn get ls ds\<rbrakk>
    \<Longrightarrow> tree_content E opn get (l # ls) (d @ ds)"
| tc_node: "\<lbrakk>ltype l \<noteq> Blob; opens opn get l raw; tryDecodeTreeNode E raw = Some n;
     tree_content E opn get (nlinks n) d; lsize l = length d; tree_content E opn get ls ds\<rbrakk>
    \<Longrightarrow> tree_content E opn get (l # ls) (d @ ds)"

inductive_cases tree_content_NilE [elim!]: "tree_content E opn get [] c"
inductive_cases tree_content_ConsE: "tree_content E opn get (l # ls) c"

inductive file_content :: "ext \<Rightarrow> (hash \<Rightarrow> bytes option) \<Rightarrow> hash \<Rightarrow> bytes \<Rightarrow> bool"
  for E :: ext and get :: "hash \<Rightarrow> bytes option" where
  fc_blob: "get h = Some d \<Longrightarrow> tryDecodeTreeNode E d = None \<Longrightarrow> file_content E get h d"
| fc_node: "get h = Some raw \<Longrightarrow> tryDecodeTreeNode E raw = Some n \<Longrightarrow> tree_content E plain get (nlinks n) d
    \<Longrightarrow> file_content E get h d"

inductive_simps file_content_simp: "file_content E get h d"

lemma tree_content_length: "tree_content E opn get ls c \<Longrightarrow> sum_list (map lsize ls) = length c"
  by (induction rule: tree_content.induct) auto

lemma tree_content_mono: "tree_content E opn get ls c \<Longrightarrow> get \<subseteq>\<^sub>m get' \<Longrightarrow> tree_content E opn get' ls c"
  by (induction rule: tree_content.induct)
     (blast intro: tree_content.intros dest: opens_mono)+

lemma file_content_mono: "file_content E get h c \<Longrightarrow> get \<subseteq>\<^sub>m get' \<Longrightarrow> file_content E get' h c"
  by (induction rule: file_content.induct)
     (blast dest: map_le_trans_get tree_content_mono intro: file_content.intros)+

lemma tree_content_det: "tree_content E opn get ls c \<Longrightarrow> tree_content E opn get ls c' \<Longrightarrow> c = c'"
proof (induction arbitrary: c' rule: tree_content.induct)
  case (tc_blob l d ls ds)
  from tc_blob.prems obtain ds' where "c' = d @ ds'" "tree_content E opn get ls ds'"
    using tc_blob.hyps by (elim tree_content_ConsE) (auto dest: opens_det)
  with tc_blob.IH show ?case by metis
next
  case (tc_node l raw n d ls ds)
  from tc_node.prems obtain d' ds' where "c' = d' @ ds'" "tree_content E opn get ls ds'"
    "tree_content E opn get (nlinks n) d'"
    using tc_node.hyps by (elim tree_content_ConsE) (auto dest: opens_det)
  with tc_node.IH show ?case by metis
qed auto

lemma tree_content_append:
  "tree_content E opn get xs c \<Longrightarrow> tree_content E opn get ys c' \<Longrightarrow> tree_content E opn get (xs @ ys) (c @ c')"
  by (induction rule: tree_content.induct) (auto intro: tree_content.intros)

lemma tree_content_single_blob:
  "ltype l = Blob \<Longrightarrow> opens opn get l d \<Longrightarrow> lsize l = length d \<Longrightarrow> tree_content E opn get [l] d"
  using tc_blob [of l opn get d E "[]" "[]"] tc_nil by simp

lemma tree_content_single_node:
  "ltype l \<noteq> Blob \<Longrightarrow> opens opn get l raw \<Longrightarrow> tryDecodeTreeNode E raw = Some n \<Longrightarrow>
   tree_content E opn get (nlinks n) d \<Longrightarrow> lsize l = length d \<Longrightarrow> tree_content E opn get [l] d"
  using tc_node [of l opn get raw E n d "[]" "[]"] tc_nil by simp

lemma foldl_sizes: "foldl (\<lambda>sum l. sum + lsize l) n ls = n + sum_list (map lsize ls)"
  by (induction ls arbitrary: n) auto

section \<open>Whole files\<close>

definition within :: "nat option \<Rightarrow> nat \<Rightarrow> bool" where
  "within mb n \<longleftrightarrow> (case mb of None \<Rightarrow> True | Some m \<Rightarrow> n \<le> m)"

lemma ensureWithinLimit_ok [simp]: "within mb n \<Longrightarrow> ensureWithinLimit mb n = ret ()"
  by (auto simp: within_def ensureWithinLimit_def split: option.splits)

lemma within_mono: "within mb n \<Longrightarrow> k \<le> n \<Longrightarrow> within mb k"
  by (auto simp: within_def split: option.splits)

lemma within_None [simp]: "within None n"
  by (simp add: within_def)

lemma assembleLinks_content:
  "tree_content E opn get ls c \<Longrightarrow> within mb (br + length c) \<Longrightarrow>
   assembleLinks E opn get mb ls br = ret (c, br + length c)"
proof (induction arbitrary: br rule: tree_content.induct)
  case tc_nil
  show ?case by (simp add: assembleLinks.simps)
next
  case (tc_blob l d ls ds)
  then have "within mb (br + length d)" by (auto elim: within_mono)
  with tc_blob show ?case
    by (elim opensE) (simp add: assembleLinks.simps [of E opn get mb "l # ls"] add.assoc)
next
  case (tc_node l raw n d ls ds)
  then have w: "within mb (br + length d)" by (auto elim: within_mono)
  have "within mb (br + length d + length ds)" using tc_node.prems by (simp add: add.assoc)
  with w tc_node show ?case
    by (elim opensE) (simp add: assembleLinks.simps [of E opn get mb "l # ls"] decodeTreeNode_def add.assoc)
qed

lemma assembleChunks_content:
  "tree_content E plain get (nlinks n) c \<Longrightarrow> within mb (length c) \<Longrightarrow> assembleChunks E get mb n 0 = ret c"
  by (simp add: assembleChunks_def assembleLinks_content)

lemma readFile_content:
  assumes "file_content E get h c"
  shows "readFile E get h None = ret (Some c)"
  using assms by (cases rule: file_content.cases)
    (auto simp: readFile_def normalizeMaxBytes_def assembleChunks_content)

lemma readFile_content_limit:
  assumes "file_content E get h c"
  shows "readFile E get h (Some (int m)) =
    (if length c \<le> m then ret (Some c) else throw (ContentExceedsMaxBytes (length c) m))"
  using assms
proof (cases rule: file_content.cases)
  case fc_blob
  then show ?thesis by (simp add: readFile_def normalizeMaxBytes_def ensureWithinLimit_def)
next
  case (fc_node raw n)
  then show ?thesis
    by (simp add: readFile_def normalizeMaxBytes_def ensureWithinLimit_def foldl_sizes
        tree_content_length assembleChunks_content within_def)
qed

section \<open>Ranges\<close>

definition rangeSlice :: "nat \<Rightarrow> nat option \<Rightarrow> bytes \<Rightarrow> bytes" where
  "rangeSlice start stop c = (case stop of None \<Rightarrow> drop start c | Some e \<Rightarrow> slice start e c)"

text \<open>At position \<open>p\<close> of a range read, what has been collected so far.\<close>

definition collected_at :: "nat \<Rightarrow> nat option \<Rightarrow> nat \<Rightarrow> nat" where
  "collected_at start stop p = (case stop of None \<Rightarrow> p - start | Some e \<Rightarrow> min e p - start)"

lemma rangeSlice_append:
  "rangeSlice a stop (xs @ ys) =
   rangeSlice a stop xs @ rangeSlice (a - length xs) (map_option (\<lambda>e. e - length xs) stop) ys"
  by (auto simp: rangeSlice_def slice_append split: option.splits)

text \<open>The range is exhausted at position \<open>p\<close>: the code's \<open>bytesCollected >= maxBytes\<close>.\<close>

definition exhausted :: "nat \<Rightarrow> nat option \<Rightarrow> nat \<Rightarrow> bool" where
  "exhausted start stop p \<longleftrightarrow> (case stop of None \<Rightarrow> False | Some e \<Rightarrow> e \<le> start \<or> e \<le> p)"

lemma exhausted_iff:
  "capReached (map_option (\<lambda>e. e - start) stop) (collected_at start stop p) \<longleftrightarrow> exhausted start stop p"
  by (cases stop) (auto simp: exhausted_def collected_at_def capReached_def)

lemma rangeSlice_exhausted:
  "exhausted start stop p \<Longrightarrow> rangeSlice (start - p) (map_option (\<lambda>e. e - p) stop) c = []"
  by (auto simp: exhausted_def rangeSlice_def slice_def split: option.splits)

lemma rangeSlice_before:
  "p + length d \<le> start \<Longrightarrow> rangeSlice (start - p) (map_option (\<lambda>e. e - p) stop) d = []"
  by (auto simp: rangeSlice_def slice_def split: option.splits)

lemma rangeSlice_step:
  "rangeSlice (start - p) (map_option (\<lambda>e. e - p) stop) (d @ ds) =
   rangeSlice (start - p) (map_option (\<lambda>e. e - p) stop) d
   @ rangeSlice (start - (p + length d)) (map_option (\<lambda>e. e - (p + length d)) stop) ds"
  by (simp add: rangeSlice_append option.map_comp o_def diff_diff_left)

lemma collected_before: "p + n \<le> start \<Longrightarrow> collected_at start stop (p + n) = collected_at start stop p"
  by (auto simp: collected_at_def split: option.splits)

lemma collected_step:
  "\<not> exhausted start stop p \<Longrightarrow>
   collected_at start stop p + length (rangeSlice (start - p) (map_option (\<lambda>e. e - p) stop) d)
   = collected_at start stop (p + length d)"
  by (auto simp: collected_at_def exhausted_def rangeSlice_def split: option.splits)

lemma capTake_collected:
  "\<not> exhausted start stop p \<Longrightarrow>
   n \<le> length (rangeSlice (start - p) (map_option (\<lambda>e. e - p) stop) d) \<Longrightarrow>
   capTake n (map_option (\<lambda>e. e - start) stop) (collected_at start stop p) = n"
  by (auto simp: capTake_def collected_at_def exhausted_def rangeSlice_def split: option.splits)

lemma rangeSlice_blob:
  "rangeSlice (start - p) (map_option (\<lambda>e. e - p) stop) d =
   slice (start - p) (case stop of None \<Rightarrow> length d | Some e \<Rightarrow> min (length d) (e - p)) d"
  by (auto simp: rangeSlice_def slice_def min_def split: option.splits)

lemma slice_upto: "a \<le> b \<Longrightarrow> b \<le> length d \<Longrightarrow> slice a (a + length (slice a b d)) d = slice a b d"
  by (simp add: slice_def)

lemma collected_at_0 [simp]: "collected_at start stop 0 = 0"
  by (simp add: collected_at_def split: option.splits)

lemma readRangeLinks_content:
  "tree_content E opn get ls c \<Longrightarrow>
   readRangeLinks E opn get start stop ls p (collected_at start stop p) =
     ret (rangeSlice (start - p) (map_option (\<lambda>e. e - p) stop) c)"
proof (induction arbitrary: start stop p rule: tree_content.induct)
  case tc_nil
  show ?case by (simp add: readRangeLinks.simps rangeSlice_def split: option.splits)
next
  case (tc_blob l d ls ds)
  note IH = tc_blob.IH [of start stop "p + length d"]
  from tc_blob.hyps(2) obtain block where blk: "checkLink opn l = ret ()" "get (lhash l) = Some block"
    "openBlock opn l block = ret d" by (rule opensE)
  let ?d = "rangeSlice (start - p) (map_option (\<lambda>e. e - p) stop) d"
  consider "exhausted start stop p" | "\<not> exhausted start stop p" "p + length d \<le> start"
    | "\<not> exhausted start stop p" "\<not> p + length d \<le> start" by blast
  then show ?case
  proof cases
    case 1
    then show ?thesis
      by (simp add: readRangeLinks.simps [of E opn get start stop "l # ls"] exhausted_iff rangeSlice_exhausted
          Let_def)
  next
    case 2
    then show ?thesis using tc_blob.hyps blk IH
      by (auto simp: readRangeLinks.simps [of E opn get start stop "l # ls"] exhausted_iff rangeSlice_step
          rangeSlice_before collected_before Let_def)
  next
    case 3
    define b where "b = (case stop of None \<Rightarrow> length d | Some e \<Rightarrow> min (length d) (e - p))"
    have b: "b \<le> length d" "?d = slice (start - p) b d"
      by (auto simp: b_def rangeSlice_blob split: option.split)
    have n: "length ?d = b - (start - p)" using b by simp
    have c: "capTake (b - (start - p)) (map_option (\<lambda>e. e - start) stop) (collected_at start stop p)
        = b - (start - p)"
      using 3(1) by (rule capTake_collected [where d = d]) (simp only: n order_refl)
    show ?thesis using tc_blob.hyps blk IH 3 c n collected_step [OF 3(1), of d]
      by (auto simp: readRangeLinks.simps [of E opn get start stop "l # ls"] exhausted_iff rangeSlice_step
          Let_def b_def [symmetric] b(2) not_less)
  qed
next
  case (tc_node l raw n d ls ds)
  note IH1 = tc_node.IH(1) [of "start - p" "map_option (\<lambda>e. e - p) stop" 0]
  note IH2 = tc_node.IH(2) [of start stop "p + length d"]
  from tc_node.hyps(2) obtain block where blk: "checkLink opn l = ret ()" "get (lhash l) = Some block"
    "openBlock opn l block = ret raw" by (rule opensE)
  let ?d = "rangeSlice (start - p) (map_option (\<lambda>e. e - p) stop) d"
  consider "exhausted start stop p" | "\<not> exhausted start stop p" "0 < length d \<and> p + length d \<le> start"
    | "\<not> exhausted start stop p" "\<not> (0 < length d \<and> p + length d \<le> start)" by blast
  then show ?case
  proof cases
    case 1
    then show ?thesis
      by (simp add: readRangeLinks.simps [of E opn get start stop "l # ls"] exhausted_iff rangeSlice_exhausted
          Let_def)
  next
    case 2
    then show ?thesis using tc_node.hyps blk IH2
      by (simp add: readRangeLinks.simps [of E opn get start stop "l # ls"] exhausted_iff rangeSlice_step
          rangeSlice_before collected_before Let_def)
  next
    case 3
    have c: "capTake (length ?d) (map_option (\<lambda>e. e - start) stop) (collected_at start stop p) = length ?d"
      using 3(1) by (intro capTake_collected [where d = d]) simp_all
    show ?thesis using tc_node.hyps blk IH1 IH2 3 c collected_step [OF 3(1), of d]
      by (auto simp: readRangeLinks.simps [of E opn get start stop "l # ls"] exhausted_iff rangeSlice_step
          Let_def decodeTreeNode_def option.map_comp o_def)
  qed
qed

lemma readFileRange_content:
  assumes "file_content E get h c"
  shows "readFileRange E get h start stop = ret (Some (rangeSlice start stop c))"
  using assms
proof (cases rule: file_content.cases)
  case fc_blob
  then show ?thesis
    by (auto simp: readFileRange_def rangeSlice_def slice_def min_def split: option.split)
next
  case (fc_node raw n)
  then show ?thesis using readRangeLinks_content [of E plain get "nlinks n" c start stop 0]
    by (simp add: readFileRange_def readRangeFromNode_def option.map_ident)
qed

section \<open>Streams\<close>

lemma initialPrefetch_append:
  "initialPrefetch get (xs @ ys) p =
   (case initialPrefetch get xs p of (q, p1) \<Rightarrow>
    case initialPrefetch get ys p1 of (q2, p2) \<Rightarrow> (q @ q2, p2))"
  by (induction xs arbitrary: p) (auto split: prod.splits)

text \<open>The state of the queue when the links \<open>todo\<close> remain and the next one starts at \<open>p\<close>.\<close>

definition queue_at :: "(hash \<Rightarrow> bytes option) \<Rightarrow> nat \<Rightarrow> Link list \<Rightarrow> nat \<Rightarrow> prefetchEntry list \<times> nat" where
  "queue_at get prefetch todo p = initialPrefetch get (take prefetch todo) p"

definition next_ok :: "nat \<Rightarrow> Link list \<Rightarrow> Link list \<Rightarrow> nat \<Rightarrow> bool" where
  "next_ok prefetch links todo nextIdx \<longleftrightarrow> (\<exists>i. todo = drop i links \<and> i \<le> length links \<and>
     (nextIdx = i + prefetch \<or> length links \<le> nextIdx \<and> length links \<le> i + prefetch))"

lemma next_ok_init: "next_ok prefetch links links prefetch"
  by (auto simp: next_ok_def intro: exI [of _ 0])

lemma queue_step:
  assumes "next_ok prefetch links (l # rest) nextIdx" "0 < prefetch"
    and "queue_at get prefetch (l # rest) p = (q, pp)"
  shows "\<exists>q'. q = (get (lhash l), l, p) # q' \<and>
     (let more = nextIdx < length links; nl = links ! nextIdx in
      next_ok prefetch links rest (if more then nextIdx + 1 else nextIdx) \<and>
      queue_at get prefetch rest (p + lsize l) =
        (if more then q' @ [(get (lhash nl), nl, pp)] else q', if more then pp + lsize nl else pp))"
proof -
  from assms(1) obtain i where i: "l # rest = drop i links" "i < length links"
      and n: "nextIdx = i + prefetch \<or> length links \<le> nextIdx \<and> length links \<le> i + prefetch"
    unfolding next_ok_def by (metis drop_all list.distinct(1) not_le)
  then have rest: "rest = drop (Suc i) links" by (metis Cons_nth_drop_Suc list.inject)
  obtain k where k: "prefetch = Suc k" using assms(2) by (cases prefetch) auto
  obtain q' where q: "initialPrefetch get (take k rest) (p + lsize l) = (q', pp)"
      "q = (get (lhash l), l, p) # q'"
    using assms(3) by (auto simp: queue_at_def k split: prod.splits)
  have ok: "next_ok prefetch links rest (if nextIdx < length links then nextIdx + 1 else nextIdx)"
    unfolding next_ok_def using rest n i(2) by (intro exI [of _ "Suc i"]) auto
  have "queue_at get prefetch rest (p + lsize l) =
      (if nextIdx < length links
       then (q' @ [(get (lhash (links ! nextIdx)), links ! nextIdx, pp)], pp + lsize (links ! nextIdx))
       else (q', pp))"
  proof (cases "nextIdx < length links")
    case True
    with n have "nextIdx = Suc i + k" by (auto simp: k)
    with True rest have "take prefetch rest = take k rest @ [links ! nextIdx]"
      by (simp add: k take_Suc_conv_app_nth)
    with True q show ?thesis by (simp add: queue_at_def initialPrefetch_append)
  next
    case False
    with n have "length rest \<le> k" by (auto simp: k rest)
    with False q show ?thesis by (simp add: queue_at_def k)
  qed
  with ok q show ?thesis by (auto simp: Let_def)
qed

lemma stream_step:
  assumes "next_ok prefetch links (l # rest) nextIdx" "0 < prefetch" "opens opn get l raw"
  shows "\<exists>nextIdx'. next_ok prefetch links rest nextIdx' \<and>
    streamLoop E opn get offset prefetch links (l # rest) (fst (queue_at get prefetch (l # rest) p)) nextIdx
        (snd (queue_at get prefetch (l # rest) p)) =
      seqG
        (if ltype l \<noteq> Blob
         then awaitG (liftR (decodeTreeNode E raw)) (\<lambda>n.
           streamNode E opn get n (offset - p) prefetch)
         else if p + length raw \<le> offset then doneG
         else if offset \<le> p then yieldG raw else yieldG (drop (offset - p) raw))
        (streamLoop E opn get offset prefetch links rest
           (fst (queue_at get prefetch rest (p + lsize l))) nextIdx'
           (snd (queue_at get prefetch rest (p + lsize l))))"
proof -
  obtain q pp where q: "queue_at get prefetch (l # rest) p = (q, pp)" by fastforce
  from queue_step [OF assms(1,2) q] show ?thesis
    by (intro exI [of _ "if nextIdx < length links then nextIdx + 1 else nextIdx"])
       (use assms(3) in \<open>auto elim!: opensE simp: q Let_def streamNode_def
         streamLoop.simps [of E opn get offset prefetch links "l # rest"]\<close>)
qed

definition loop_streams :: "ext \<Rightarrow> opener \<Rightarrow> (hash \<Rightarrow> bytes option) \<Rightarrow> nat \<Rightarrow> Link list \<Rightarrow> bytes \<Rightarrow> bool" where
  "loop_streams E opn get prefetch todo c \<longleftrightarrow> (\<forall>offset links nextIdx p. next_ok prefetch links todo nextIdx \<longrightarrow>
     (\<exists>ys. streamLoop E opn get offset prefetch links todo (fst (queue_at get prefetch todo p)) nextIdx
              (snd (queue_at get prefetch todo p)) = Some (ys, None)
         \<and> concat ys = drop (offset - p) c))"

definition skip_streams :: "ext \<Rightarrow> opener \<Rightarrow> (hash \<Rightarrow> bytes option) \<Rightarrow> nat \<Rightarrow> Link list \<Rightarrow> bytes \<Rightarrow> bool" where
  "skip_streams E opn get prefetch links c \<longleftrightarrow> (\<forall>offset p todo p'. skipBefore offset links p = (todo, p') \<longrightarrow>
     (\<exists>ys. streamLoop E opn get offset prefetch todo todo (fst (queue_at get prefetch todo p')) prefetch
              (snd (queue_at get prefetch todo p')) = Some (ys, None)
         \<and> concat ys = drop (offset - p) c))"

lemma skip_streams_node:
  "skip_streams E opn get prefetch (nlinks n) c \<Longrightarrow>
   \<exists>ys. streamNode E opn get n offset prefetch = Some (ys, None) \<and> concat ys = drop offset c"
  by (cases "skipBefore offset (nlinks n) 0")
     (fastforce simp: skip_streams_def streamNode_def queue_at_def Let_def)

lemma skip_streams_Cons:
  assumes "loop_streams E opn get prefetch (l # ls) (d @ c)" "skip_streams E opn get prefetch ls c" "lsize l = length d"
  shows "skip_streams E opn get prefetch (l # ls) (d @ c)"
  unfolding skip_streams_def
proof (intro allI impI)
  fix offset p todo p'
  assume sk: "skipBefore offset (l # ls) p = (todo, p')"
  show "\<exists>ys. streamLoop E opn get offset prefetch todo todo (fst (queue_at get prefetch todo p')) prefetch
          (snd (queue_at get prefetch todo p')) = Some (ys, None) \<and> concat ys = drop (offset - p) (d @ c)"
  proof (cases "0 < lsize l \<and> p + lsize l \<le> offset")
    case True
    with sk assms(2) obtain ys where "streamLoop E opn get offset prefetch todo todo
        (fst (queue_at get prefetch todo p')) prefetch (snd (queue_at get prefetch todo p')) = Some (ys, None)"
        "concat ys = drop (offset - (p + lsize l)) c"
      unfolding skip_streams_def by fastforce
    with True assms(3) show ?thesis by (auto simp: diff_diff_left)
  next
    case False
    with sk have "todo = l # ls" "p' = p" by auto
    with assms(1) show ?thesis unfolding loop_streams_def using next_ok_init by blast
  qed
qed

lemma loop_streams_Cons:
  assumes get: "opens opn get l raw" and p: "0 < prefetch" and sz: "lsize l = length d"
    and rest: "loop_streams E opn get prefetch ls c"
    and here: "ltype l = Blob \<and> raw = d
      \<or> ltype l \<noteq> Blob \<and> (\<exists>n. tryDecodeTreeNode E raw = Some n \<and> skip_streams E opn get prefetch (nlinks n) d)"
  shows "loop_streams E opn get prefetch (l # ls) (d @ c)"
  unfolding loop_streams_def
proof (intro allI impI)
  fix offset links nextIdx p
  assume "next_ok prefetch links (l # ls) nextIdx"
  from stream_step [where p = p and offset = offset and E = E and get = get and opn = opn, OF this \<open>0 < prefetch\<close> get]
  obtain nextIdx' where ok: "next_ok prefetch links ls nextIdx'"
    and step: "streamLoop E opn get offset prefetch links (l # ls) (fst (queue_at get prefetch (l # ls) p)) nextIdx
        (snd (queue_at get prefetch (l # ls) p)) =
      seqG
        (if ltype l \<noteq> Blob
         then awaitG (liftR (decodeTreeNode E raw)) (\<lambda>n.
           streamNode E opn get n (offset - p) prefetch)
         else if p + length raw \<le> offset then doneG
         else if offset \<le> p then yieldG raw else yieldG (drop (offset - p) raw))
        (streamLoop E opn get offset prefetch links ls
           (fst (queue_at get prefetch ls (p + lsize l))) nextIdx'
           (snd (queue_at get prefetch ls (p + lsize l))))"
    by blast
  from rest ok obtain zs where zs: "streamLoop E opn get offset prefetch links ls
           (fst (queue_at get prefetch ls (p + lsize l))) nextIdx'
           (snd (queue_at get prefetch ls (p + lsize l))) = Some (zs, None)"
      "concat zs = drop (offset - (p + lsize l)) c"
    unfolding loop_streams_def by blast
  have drop: "drop (offset - p) (d @ c) = drop (offset - p) d @ drop (offset - (p + lsize l)) c"
    by (simp add: sz diff_diff_left)
  show "\<exists>ys. streamLoop E opn get offset prefetch links (l # ls) (fst (queue_at get prefetch (l # ls) p)) nextIdx
      (snd (queue_at get prefetch (l # ls) p)) = Some (ys, None) \<and> concat ys = drop (offset - p) (d @ c)"
  proof (cases "ltype l = Blob")
    case True
    with here have "raw = d" by simp
    with True zs show ?thesis
      unfolding step drop by (auto simp: yieldG_def)
  next
    case False
    with here obtain n where n: "tryDecodeTreeNode E raw = Some n" "skip_streams E opn get prefetch (nlinks n) d"
      by blast
    from skip_streams_node [OF n(2)] obtain ys where
      "streamNode E opn get n (offset - p) prefetch = Some (ys, None)" "concat ys = drop (offset - p) d"
      by blast
    with False zs n show ?thesis unfolding step drop by (auto simp: decodeTreeNode_def)
  qed
qed

lemma streams_content:
  "tree_content E opn get ls c \<Longrightarrow> 0 < prefetch \<Longrightarrow>
   skip_streams E opn get prefetch ls c \<and> loop_streams E opn get prefetch ls c"
proof (induction rule: tree_content.induct)
  case tc_nil
  show ?case by (auto simp: skip_streams_def loop_streams_def streamLoop.simps doneG_def)
next
  case (tc_blob l d ls ds)
  then have "loop_streams E opn get prefetch (l # ls) (d @ ds)" by (intro loop_streams_Cons) auto
  with tc_blob show ?case by (blast intro: skip_streams_Cons)
next
  case (tc_node l raw n d ls ds)
  then have "loop_streams E opn get prefetch (l # ls) (d @ ds)" by (intro loop_streams_Cons) auto
  with tc_node show ?case by (blast intro: skip_streams_Cons)
qed

lemma readFileStream_content:
  assumes "file_content E get h c" "0 < prefetch"
  shows "\<exists>ys. readFileStream E get h offset prefetch = Some (ys, None) \<and> concat ys = drop offset c"
  using assms(1)
proof (cases rule: file_content.cases)
  case fc_blob
  then show ?thesis by (auto simp: readFileStream_def doneG_def yieldG_def)
next
  case (fc_node raw n)
  with streams_content [OF fc_node(3) assms(2)] skip_streams_node show ?thesis
    by (fastforce simp: readFileStream_def streamChunksWithOffset_def)
qed

section \<open>Small facts about roots\<close>

lemma single_link_content:
  "tree_content E plain get [l] c \<Longrightarrow> tryDecodeTreeNode E c = None \<Longrightarrow> file_content E get (lhash l) c"
  by (elim tree_content_ConsE) (auto intro: fc_blob fc_node)

lemma tree_content_canon: "tree_content E opn get ls c \<Longrightarrow> (\<And>l b. openBlock opn (canonLink l) b = openBlock opn l b) \<Longrightarrow>
    (\<And>l. checkLink opn (canonLink l) = checkLink opn l) \<Longrightarrow> tree_content E opn get (map canonLink ls) c"
  by (induction rule: tree_content.induct) (auto intro: tree_content.intros simp: opens_def)

section \<open>Well-formed trees\<close>

text \<open>Every link below is in the codec's domain, so that rebuilt nodes can be read back.\<close>

inductive tree_wf :: "ext \<Rightarrow> (hash \<Rightarrow> bytes option) \<Rightarrow> Link list \<Rightarrow> bool"
  for E :: ext and get :: "hash \<Rightarrow> bytes option" where
  tw_nil: "tree_wf E get []"
| tw_blob: "link_ok l \<Longrightarrow> ltype l = Blob \<Longrightarrow> tree_wf E get ls \<Longrightarrow> tree_wf E get (l # ls)"
| tw_node: "link_ok l \<Longrightarrow> ltype l \<noteq> Blob \<Longrightarrow> get (lhash l) = Some raw \<Longrightarrow> tryDecodeTreeNode E raw = Some n \<Longrightarrow>
    tree_wf E get (nlinks n) \<Longrightarrow> tree_wf E get ls \<Longrightarrow> tree_wf E get (l # ls)"

inductive_cases tree_wf_ConsE: "tree_wf E get (l # ls)"

lemma tree_wf_mono: "tree_wf E get ls \<Longrightarrow> get \<subseteq>\<^sub>m get' \<Longrightarrow> tree_wf E get' ls"
  by (induction rule: tree_wf.induct) (blast intro: tree_wf.intros dest: map_le_trans_get)+

lemma tree_wf_link_ok: "tree_wf E get ls \<Longrightarrow> l \<in> set ls \<Longrightarrow> link_ok l"
  by (induction rule: tree_wf.induct) auto

lemma tree_wf_append: "tree_wf E get xs \<Longrightarrow> tree_wf E get ys \<Longrightarrow> tree_wf E get (xs @ ys)"
  by (induction rule: tree_wf.induct) (auto intro: tree_wf.intros)

lemma tree_wf_canon: "tree_wf E get ls \<Longrightarrow> tree_wf E get (map canonLink ls)"
  by (induction rule: tree_wf.induct) (auto intro: tree_wf.intros link_ok_canonLink)

definition file_wf :: "ext \<Rightarrow> (hash \<Rightarrow> bytes option) \<Rightarrow> hash \<Rightarrow> bool" where
  "file_wf E get h \<longleftrightarrow>
     (\<forall>raw n. get h = Some raw \<longrightarrow> tryDecodeTreeNode E raw = Some n \<longrightarrow> tree_wf E get (nlinks n))"

lemma file_wf_blob:
  "get h = Some d \<Longrightarrow> tryDecodeTreeNode E d = None \<Longrightarrow> file_content E get h d \<and> file_wf E get h"
  by (simp add: file_wf_def fc_blob)

lemma file_wf_node:
  "get h = Some raw \<Longrightarrow> tryDecodeTreeNode E raw = Some n \<Longrightarrow> tree_content E plain get (nlinks n) d \<Longrightarrow>
   tree_wf E get (nlinks n) \<Longrightarrow> file_content E get h d \<and> file_wf E get h"
  by (auto simp: file_wf_def intro: fc_node)

lemma file_wf_single: "tree_content E plain get [l] c \<Longrightarrow> tree_wf E get [l] \<Longrightarrow> tryDecodeTreeNode E c = None \<Longrightarrow>
   file_wf E get (lhash l)"
  by (elim tree_content_ConsE tree_wf_ConsE) (auto simp: file_wf_def)


end
