(* ===== verification/CreateSpec.thy ===== *)
theory CreateSpec
  imports TreeSpec
begin

text \<open>
  What the creating operations promise, over any store that keeps the \<open>content_store\<close> contract:
  they return, they only make the store grow, and what they leave behind under the returned hash has
  the content they were given.
\<close>

lemma bindS_cases:
  assumes "bindS m f s = Some (r, s')"
  obtains (err) e where "m s = Some (Inl e, s')" "r = Inl e"
  | (ok) x s1 where "m s = Some (Inr x, s1)" "f x s1 = Some (r, s')"
  using assms by (auto simp: bindS_def split: option.splits sum.splits prod.splits)

definition chunkLink :: "ext \<Rightarrow> bytes \<Rightarrow> Link" where
  "chunkLink E ch = blobLink (sha256 E ch) (length ch)"

lemma chunkLink_simps [simp]:
  "lhash (chunkLink E ch) = sha256 E ch" "lsize (chunkLink E ch) = length ch"
  "ltype (chunkLink E ch) = Blob" "lmeta (chunkLink E ch) = None" "lkey (chunkLink E ch) = None"
  "lname (chunkLink E ch) = None"
  by (simp_all add: chunkLink_def blobLink_def)

lemma tree_content_chunks:
  "(\<And>ch. ch \<in> set chs \<Longrightarrow> get (sha256 E ch) = Some ch) \<Longrightarrow>
   tree_content E plain get (map (chunkLink E) chs) (concat chs)"
  by (induction chs) (auto intro: tree_content.intros)

lemma chunks_of_drop: "0 < c \<Longrightarrow> off < length d \<Longrightarrow>
    chunks_of c (drop off d) = slice off (min (off + c) (length d)) d # chunks_of c (drop (min (off + c) (length d)) d)"
  by (cases "off + c \<le> length d") (simp_all add: chunks_of_step slice_def min_def add.commute)

lemma tree_wf_blobs: "\<forall>l\<in>set ls. link_ok l \<and> ltype l = Blob \<Longrightarrow> tree_wf E get ls"
  by (induction ls) (auto intro: tree_wf.intros)

lemma node_ok_chunks:
  "c < 2 ^ 53 \<Longrightarrow> node_ok \<lparr>ntype = File, nlinks = map (chunkLink E) (chunks_of c d)\<rparr>"
  by (auto simp: node_ok_def link_ok_def linkTypeNum_def dest!: chunks_of_lengths)

lemma canonNode_chunks [simp]:
  "canonNode \<lparr>ntype = t, nlinks = map (chunkLink E) chs\<rparr> = \<lparr>ntype = t, nlinks = map (chunkLink E) chs\<rparr>"
  by (simp add: canonNode_def)

section \<open>Directories\<close>

definition dirRaw :: "ext \<Rightarrow> TreeEntry list \<Rightarrow> TreeNode" where
  "dirRaw E es = \<lparr>ntype = Dir, nlinks = map entryLink (sortEntries E es)\<rparr>"

definition entry_ok :: "TreeEntry \<Rightarrow> bool" where
  "entry_ok e \<longleftrightarrow> link_ok (entryLink e)"

text \<open>The directory can be encoded: its entries are in the codec's domain.\<close>

definition dir_ok :: "TreeEntry list \<Rightarrow> bool" where
  "dir_ok es \<longleftrightarrow> (\<forall>e\<in>set es. entry_ok e)"

definition canonEntry :: "TreeEntry \<Rightarrow> TreeEntry" where
  "canonEntry e = e\<lparr>emeta := map_option sortObjectKeys (emeta e)\<rparr>"

lemma set_sortEntries [simp]: "set (sortEntries E es) = set es"
  by (simp add: sortEntries_def)

lemma node_ok_dirRaw: "dir_ok es \<Longrightarrow> node_ok (dirRaw E es)"
  by (auto simp: dir_ok_def node_ok_def dirRaw_def entry_ok_def)

lemma linkEntries_dir:
  "(\<And>e. e \<in> set es \<Longrightarrow> ename e \<noteq> []) \<Longrightarrow>
   linkEntries (map (canonLink \<circ> entryLink) es) = map canonEntry es"
  by (induction es)
     (auto simp: linkEntries_def List.map_filter_simps entryLink_def canonLink_def canonEntry_def cid_def)

lemma linkEntries_dirRaw:
  "(\<And>e. e \<in> set es \<Longrightarrow> ename e \<noteq> []) \<Longrightarrow>
   linkEntries (nlinks (canonNode (dirRaw E es))) = map canonEntry (sortEntries E es)"
  by (simp add: dirRaw_def) (rule linkEntries_dir, simp)

lemma assembleLinks_mono:
  assumes "assembleLinks E opn get mb ls br = Some (Inr x)" "get \<subseteq>\<^sub>m get'"
  shows "assembleLinks E opn get' mb ls br = Some (Inr x)"
proof -
  have "get \<subseteq>\<^sub>m get' \<longrightarrow> isl y \<or> assembleLinks E opn get' mb ls br = Some y"
    if "assembleLinks E opn get mb ls br = Some y" for y
    using that
  proof (induction E opn get mb ls br y rule: assembleLinks.raw_induct [rotated, consumes 1, case_names step])
    case (step f E opn get mb ls br y)
    show ?case
    proof (cases ls)
      case Nil
      with step(2) show ?thesis by (auto simp: assembleLinks.simps)
    next
      case (Cons l rest)
      note IH = step(1)
      show ?thesis
      proof (intro impI)
        assume le: "get \<subseteq>\<^sub>m get'"
        show "isl y \<or> assembleLinks E opn get' mb ls br = Some y"
        proof (cases y)
          case (Inr x)
          with step(2) Cons obtain block raw pb rb where l: "ensureWithinLimit mb (br + lsize l) = ret ()"
              "get (lhash l) = Some block" "checkLink opn l = ret ()" "openBlock opn l block = ret raw"
            and here: "(if ltype l \<noteq> Blob
                then bindC (liftR (decodeTreeNode E raw)) (\<lambda>n. f E opn get mb (nlinks n) br)
                else bindC (ensureWithinLimit mb (br + length raw)) (\<lambda>_. ret (raw, br + length raw))) = ret pb"
            and rest: "f E opn get mb rest (snd pb) = ret rb" and x: "x = (fst pb @ fst rb, snd rb)"
            by (auto simp: bindC_eq_ret_iff split: option.splits)
          have get': "get' (lhash l) = Some block" using l(2) le by (rule map_le_trans_get [rotated])
          have "(if ltype l \<noteq> Blob
              then bindC (liftR (decodeTreeNode E raw)) (\<lambda>n. assembleLinks E opn get' mb (nlinks n) br)
              else bindC (ensureWithinLimit mb (br + length raw)) (\<lambda>_. ret (raw, br + length raw))) = ret pb"
          proof (cases "ltype l = Blob")
            case False
            with here obtain n where n: "decodeTreeNode E raw = Inr n" "f E opn get mb (nlinks n) br = ret pb"
              by (auto simp: bindC_eq_ret_iff liftR_def)
            with IH [OF n(2)] le False show ?thesis by simp
          qed (use here in simp)
          moreover have "assembleLinks E opn get' mb rest (snd pb) = ret rb" using IH [OF rest] le by simp
          ultimately show ?thesis using l(1,3,4) get' Inr x Cons
            by (simp add: assembleLinks.simps [of E opn get' mb "l # rest"])
        qed simp
      qed
    qed
  qed
  with assms show ?thesis by fastforce
qed

lemma assembleChunks_mono:
  "assembleChunks E get mb n br = ret a \<Longrightarrow> get \<subseteq>\<^sub>m get' \<Longrightarrow> assembleChunks E get' mb n br = ret a"
  by (auto simp: assembleChunks_def bindC_eq_ret_iff dest: assembleLinks_mono)

definition dir_at :: "ext \<Rightarrow> (hash \<Rightarrow> bytes option) \<Rightarrow> hash \<Rightarrow> TreeNode \<Rightarrow> bool" where
  "dir_at E get h n \<longleftrightarrow> getDirectoryNode E get h = ret (Some n)"

lemma dir_at_mono: "dir_at E get h n \<Longrightarrow> get \<subseteq>\<^sub>m get' \<Longrightarrow> dir_at E get' h n"
proof -
  assume d: "dir_at E get h n" and le: "get \<subseteq>\<^sub>m get'"
  from d obtain raw m where r: "get h = Some raw" "tryDecodeTreeNode E raw = Some m"
    by (auto simp: dir_at_def getDirectoryNode_def split: option.splits)
  have "get' h = Some raw" using le r(1) by (rule map_le_trans_get)
  moreover have "ntype m = Dir \<or> (\<exists>a. assembleChunks E get None m 0 = ret a)"
    using d r by (auto simp: dir_at_def getDirectoryNode_def bindC_eq_ret_iff split: if_splits)
  ultimately show ?thesis
    using d r assembleChunks_mono [OF _ le] by (auto simp: dir_at_def getDirectoryNode_def)
qed

lemma dir_at_small: "get h = Some raw \<Longrightarrow> tryDecodeTreeNode E raw = Some n \<Longrightarrow> ntype n = Dir \<Longrightarrow> dir_at E get h n"
  by (simp add: dir_at_def getDirectoryNode_def)

lemma dir_at_chunked:
  "get h = Some raw \<Longrightarrow> tryDecodeTreeNode E raw = Some m \<Longrightarrow> ntype m = File \<Longrightarrow>
   tree_content E plain get (nlinks m) d \<Longrightarrow> tryDecodeTreeNode E d = Some n \<Longrightarrow> ntype n = Dir \<Longrightarrow> dir_at E get h n"
  by (simp add: dir_at_def getDirectoryNode_def assembleChunks_content)

lemma listDirectory_dir_at: "dir_at E get h n \<Longrightarrow> listDirectory E get h = ret (linkEntries (nlinks n))"
  by (simp add: dir_at_def listDirectory_def)

section \<open>The creating operations\<close>

context content_store
begin

definition stored :: "'s \<Rightarrow> bytes \<Rightarrow> bool" where
  "stored s d \<longleftrightarrow> (inj_on (sha256 E) (offered s) \<longrightarrow> store_get ops s (sha256 E d) = Some d)"

lemma stored_grows: "stored s d \<Longrightarrow> grows s s' \<Longrightarrow> stored s' d"
  unfolding stored_def using grows_get grows_inj by blast

lemma storePut_run:
  "sinv s \<Longrightarrow> \<exists>b s'. storePut ops (sha256 E d) d s = Some (Inr b, s') \<and> grows s s' \<and> stored s' d"
  using grows_put [of s d] get_put [of s d] offered_put [of s d]
  by (cases "store_put ops (sha256 E d) d s") (auto simp: storePut_def stored_def)

lemma putBlob_run:
  "sinv s \<Longrightarrow> \<exists>s'. putBlob E ops d s = Some (Inr (sha256 E d), s') \<and> grows s s' \<and> stored s' d"
  using storePut_run [of s d] by (fastforce simp: putBlob_def Let_def bindS_def)

lemma safe_putBlob [intro]: "safe (putBlob E ops d)"
  by (auto simp: putBlob_def Let_def)

lemma putFile_loop_run:
  assumes C: "cstore C = ops" "0 < chunkSize C" and s: "sinv s"
  shows "\<exists>s'. putFile_loop E C d off links s =
      Some (Inr (links @ map (chunkLink E) (chunks_of (chunkSize C) (drop off d))), s')
    \<and> grows s s' \<and> (\<forall>ch\<in>set (chunks_of (chunkSize C) (drop off d)). stored s' ch)"
  using s
proof (induction "length d - off" arbitrary: off links s rule: less_induct)
  case less
  show ?case
  proof (cases "off < length d")
    case False
    then show ?thesis using less.prems by (auto simp: putFile_loop.simps)
  next
    case True
    let ?e = "min (off + chunkSize C) (length d)"
    let ?ch = "slice off ?e d"
    obtain s1 where s1: "putBlob E ops ?ch s = Some (Inr (sha256 E ?ch), s1)" "grows s s1" "stored s1 ?ch"
      using putBlob_run [OF less.prems] by blast
    have e: "length d - ?e < length d - off" using True C by auto
    from less.hyps [OF e grows_sinv [OF s1(2)], of "links @ [chunkLink E ?ch]"] obtain s2 where
      s2: "putFile_loop E C d ?e (links @ [chunkLink E ?ch]) s1 =
        Some (Inr ((links @ [chunkLink E ?ch]) @ map (chunkLink E) (chunks_of (chunkSize C) (drop ?e d))), s2)"
        "grows s1 s2" "\<forall>ch\<in>set (chunks_of (chunkSize C) (drop ?e d)). stored s2 ch" by blast
    have "putFile_loop E C d off links s = putFile_loop E C d ?e (links @ [chunkLink E ?ch]) s1"
      using True C s1 by (simp add: putFile_loop.simps [of E C d off] bindS_def Let_def chunkLink_def)
    then show ?thesis using s1(2,3) s2 True C(2)
      by (auto simp: chunks_of_drop intro: grows_trans stored_grows)
  qed
qed

lemma buildTree_run:
  assumes "cstore C = ops" "sinv s" "\<not> (length links = 1 \<and> Some (lsize (links ! 0)) = tot)"
  defines "raw \<equiv> encodeTreeNode E \<lparr>ntype = File, nlinks = links\<rparr>"
  shows "\<exists>s'. buildTree E C links tot s = Some (Inr (sha256 E raw), s') \<and> grows s s' \<and> stored s' raw"
  using storePut_run [OF assms(2), of raw] assms(1,3)
  by (fastforce simp: buildTree_def encodeAndHash_def Let_def bindS_def raw_def)

text \<open>A chunked file: the root is a \<open>File\<close> node over the chunk blobs.\<close>

lemma putFile_chunked:
  assumes C: "cstore C = ops" "0 < chunkSize C" "chunkSize C < length d" and s: "sinv s"
    and E: "msgpack_ok E" "chunkSize C < 2 ^ 53"
  shows "\<exists>h s'. putFile E C d s = Some (Inr \<lparr>rhash = h, rsize = length d\<rparr>, s') \<and> grows s s' \<and>
    (inj_on (sha256 E) (offered s') \<longrightarrow> (\<exists>raw n. store_get ops s' h = Some raw \<and>
       tryDecodeTreeNode E raw = Some n \<and> ntype n = File \<and> tree_content E plain (store_get ops s') (nlinks n) d
       \<and> tree_wf E (store_get ops s') (nlinks n)))"
proof -
  let ?chs = "chunks_of (chunkSize C) d"
  let ?n = "\<lparr>ntype = File, nlinks = map (chunkLink E) ?chs\<rparr>"
  obtain s1 where s1: "putFile_loop E C d 0 [] s = Some (Inr (map (chunkLink E) ?chs), s1)"
      "grows s s1" "\<forall>ch\<in>set ?chs. stored s1 ch"
    using putFile_loop_run [OF C(1,2) s, of d 0 "[]"] by auto
  have "length (map (chunkLink E) ?chs) \<noteq> 1" using length_chunks_of_gt_1 [OF C(2,3)] by simp
  then obtain s2 where s2: "buildTree E C (map (chunkLink E) ?chs) (Some (length d)) s1 =
      Some (Inr (sha256 E (encodeTreeNode E ?n)), s2)" "grows s1 s2" "stored s2 (encodeTreeNode E ?n)"
    using buildTree_run [OF C(1) grows_sinv [OF s1(2)]] by blast
  have run: "putFile E C d s =
      Some (Inr \<lparr>rhash = sha256 E (encodeTreeNode E ?n), rsize = length d\<rparr>, s2)"
    using C s1 s2 by (simp add: putFile_def bindS_def)
  have "tryDecodeTreeNode E (encodeTreeNode E ?n) = Some ?n"
    using tryDecode_encode [OF E(1) node_ok_chunks [OF E(2)]] by simp
  moreover have "tree_content E plain (store_get ops s2) (map (chunkLink E) ?chs) d"
    if "inj_on (sha256 E) (offered s2)"
  proof -
    have "\<forall>ch\<in>set ?chs. stored s2 ch" using s1(3) s2(2) stored_grows by blast
    with that have "tree_content E plain (store_get ops s2) (map (chunkLink E) ?chs) (concat ?chs)"
      by (intro tree_content_chunks) (simp add: stored_def)
    with C(2) show ?thesis by simp
  qed
  moreover have "tree_wf E (store_get ops s2) (map (chunkLink E) ?chs)"
    using node_ok_chunks [OF E(2), of E d] by (intro tree_wf_blobs) (auto simp: node_ok_def)
  ultimately show ?thesis
    using run grows_trans [OF s1(2) s2(2)] s2(3) by (auto simp: stored_def)
qed

lemma putFile_run:
  assumes C: "cstore C = ops" "0 < chunkSize C" and s: "sinv s"
    and E: "msgpack_ok E" "chunkSize C < 2 ^ 53"
    and blob: "length d \<le> chunkSize C \<Longrightarrow> tryDecodeTreeNode E d = None"
  shows "\<exists>h s'. putFile E C d s = Some (Inr \<lparr>rhash = h, rsize = length d\<rparr>, s') \<and> grows s s' \<and>
    (inj_on (sha256 E) (offered s') \<longrightarrow> file_content E (store_get ops s') h d \<and> file_wf E (store_get ops s') h)"
proof (cases "length d \<le> chunkSize C")
  case True
  obtain s' where s': "putBlob E ops d s = Some (Inr (sha256 E d), s')" "grows s s'" "stored s' d"
    using putBlob_run [OF s] by blast
  have "file_content E (store_get ops s') (sha256 E d) d \<and> file_wf E (store_get ops s') (sha256 E d)"
    if "inj_on (sha256 E) (offered s')"
    using that s'(3) blob [OF True] by (intro file_wf_blob) (simp_all add: stored_def)
  with s' True C(1) show ?thesis by (auto simp: putFile_def bindS_def)
next
  case False
  then have "chunkSize C < length d" by simp
  from putFile_chunked [OF C this s E] show ?thesis using file_wf_node by blast
qed


lemma putDirectory_run:
  assumes C: "cstore C = ops" "0 < chunkSize C" and s: "sinv s" and E: "msgpack_ok E" "chunkSize C < 2 ^ 53" "dir_ok es"
  shows "\<exists>h s'. putDirectory E C es s = Some (Inr h, s') \<and> grows s s' \<and>
    (inj_on (sha256 E) (offered s') \<longrightarrow> dir_at E (store_get ops s') h (canonNode (dirRaw E es)))"
proof -
  let ?d = "encodeTreeNode E (dirRaw E es)"
  have dec: "tryDecodeTreeNode E ?d = Some (canonNode (dirRaw E es))"
    using E by (simp add: tryDecode_encode node_ok_dirRaw)
  have ty: "ntype (canonNode (dirRaw E es)) = Dir" by (simp add: dirRaw_def)
  have d: "encodeAndHash E \<lparr>ntype = Dir, nlinks = map entryLink (sortEntries E es)\<rparr> = (?d, sha256 E ?d)"
    by (simp add: encodeAndHash_def dirRaw_def Let_def)
  show ?thesis
  proof (cases "length ?d \<le> chunkSize C")
    case True
    obtain b s' where s': "storePut ops (sha256 E ?d) ?d s = Some (Inr b, s')" "grows s s'" "stored s' ?d"
      using storePut_run [OF s] by blast
    have "dir_at E (store_get ops s') (sha256 E ?d) (canonNode (dirRaw E es))"
      if "inj_on (sha256 E) (offered s')"
      using that s'(3) dec ty by (intro dir_at_small) (simp_all add: stored_def)
    with s' True C(1) d show ?thesis by (auto simp: putDirectory_def bindS_def)
  next
    case False
    then obtain h s' where s': "putFile E C ?d s = Some (Inr \<lparr>rhash = h, rsize = length ?d\<rparr>, s')" "grows s s'"
        and c: "inj_on (sha256 E) (offered s') \<longrightarrow> (\<exists>raw n. store_get ops s' h = Some raw \<and>
          tryDecodeTreeNode E raw = Some n \<and> ntype n = File \<and> tree_content E plain (store_get ops s') (nlinks n) ?d)"
      using putFile_chunked [OF C _ s E(1,2), of ?d] by fastforce
    have "dir_at E (store_get ops s') h (canonNode (dirRaw E es))" if "inj_on (sha256 E) (offered s')"
      using c that dec ty by (blast intro: dir_at_chunked)
    with s' False d show ?thesis by (auto simp: putDirectory_def bindS_def)
  qed
qed

end

end
