(* ===== verification/Crypto.thy ===== *)
theory Crypto
  imports Codec
begin

text \<open>
  Content-hash-key encryption and the older random-IV format (\<open>crypto.ts\<close>). The AES-GCM and HKDF
  primitives are parameters of the record \<open>ext\<close>; a random IV is an argument. A \<open>CryptoKey\<close>
  imported from raw bytes is those bytes.
\<close>

section \<open>Constants\<close>

definition IV_SIZE :: nat where "IV_SIZE = 12"
definition TAG_SIZE :: nat where "TAG_SIZE = 16"
definition MIN_ENCRYPTED_SIZE :: nat where "MIN_ENCRYPTED_SIZE = IV_SIZE + TAG_SIZE"
definition MIN_CHK_ENCRYPTED_SIZE :: nat where "MIN_CHK_ENCRYPTED_SIZE = TAG_SIZE"

definition encodeUtf8 :: "string \<Rightarrow> bytes" where
  "encodeUtf8 s = map of_char s"

definition CHK_SALT :: bytes where "CHK_SALT = encodeUtf8 ''hashtree-chk''"
definition CHK_INFO :: bytes where "CHK_INFO = encodeUtf8 ''encryption-key''"

lemmas crypto_sizes = IV_SIZE_def TAG_SIZE_def MIN_ENCRYPTED_SIZE_def MIN_CHK_ENCRYPTED_SIZE_def

section \<open>Content-hash-key encryption\<close>

definition deriveKey :: "ext \<Rightarrow> bytes \<Rightarrow> bytes" where
  "deriveKey E contentHash = subtleDeriveKey E contentHash CHK_SALT CHK_INFO"

definition contentHash :: "ext \<Rightarrow> bytes \<Rightarrow> bytes" where
  "contentHash E d = sha256 E d"

text \<open>The ciphertext and the key.\<close>

definition encryptChk :: "ext \<Rightarrow> bytes \<Rightarrow> bytes \<times> bytes" where
  "encryptChk E plaintext =
     (let chash = contentHash E plaintext;
          cryptoKey = deriveKey E chash;
          zeroNonce = replicate IV_SIZE 0
      in (subtleEncrypt E cryptoKey zeroNonce plaintext, chash))"

definition decryptChk :: "ext \<Rightarrow> bytes \<Rightarrow> bytes \<Rightarrow> bytes res" where
  "decryptChk E ciphertext key =
     (if length key \<noteq> 32 then Inl ChkKeyLength
      else if length ciphertext < MIN_CHK_ENCRYPTED_SIZE then Inl ChkDataTooShort
      else (case subtleDecrypt E (deriveKey E key) (replicate IV_SIZE 0) ciphertext of
              None \<Rightarrow> Inl OperationError
            | Some plaintext \<Rightarrow> Inr plaintext))"

definition encryptedSizeChk :: "nat \<Rightarrow> nat" where
  "encryptedSizeChk n = n + TAG_SIZE"

section \<open>The random-IV format\<close>

definition encrypt :: "ext \<Rightarrow> bytes \<Rightarrow> bytes \<Rightarrow> bytes \<Rightarrow> bytes res" where
  "encrypt E iv plaintext key =
     (if length key \<noteq> 32 then Inl EncryptionKeyLength
      else Inr (iv @ subtleEncrypt E key iv plaintext))"

definition decrypt :: "ext \<Rightarrow> bytes \<Rightarrow> bytes \<Rightarrow> bytes res" where
  "decrypt E encrypted key =
     (if length key \<noteq> 32 then Inl EncryptionKeyLength
      else if length encrypted < MIN_ENCRYPTED_SIZE then Inl EncryptedDataTooShort
      else (case subtleDecrypt E key (take IV_SIZE encrypted) (drop IV_SIZE encrypted) of
              None \<Rightarrow> Inl OperationError
            | Some plaintext \<Rightarrow> Inr plaintext))"

definition couldBeEncrypted :: "bytes \<Rightarrow> bool" where
  "couldBeEncrypted d \<longleftrightarrow> MIN_ENCRYPTED_SIZE \<le> length d"

definition encryptedSize :: "nat \<Rightarrow> nat" where
  "encryptedSize n = IV_SIZE + n + TAG_SIZE"

definition plaintextSize :: "nat \<Rightarrow> nat" where
  "plaintextSize n = nat (max 0 (int n - int IV_SIZE - int TAG_SIZE))"

definition keyToHex :: "bytes \<Rightarrow> string" where
  "keyToHex k = concat (map (\<lambda>b. padStart2 (toString16 (unat b))) k)"

definition keyFromHex :: "string \<Rightarrow> bytes res" where
  "keyFromHex hex =
     (if length hex \<noteq> 64 then Inl KeyHexLength
      else Inr (map (\<lambda>i. toUint8 (parseInt16 (slice (i * 2) (i * 2 + 2) hex))) [0..<32]))"

section \<open>Round trips\<close>

lemma snd_encryptChk [simp]: "snd (encryptChk E d) = sha256 E d"
  by (simp add: encryptChk_def contentHash_def Let_def)

lemma length_encryptChk [simp]: "aes_ok E \<Longrightarrow> length (fst (encryptChk E d)) = encryptedSizeChk (length d)"
  by (simp add: encryptChk_def Let_def aes_okD encryptedSizeChk_def TAG_SIZE_def)

lemma decrypt_encryptChk [simp]:
  "aes_ok E \<Longrightarrow> digest_len E \<Longrightarrow> decryptChk E (fst (encryptChk E d)) (sha256 E d) = Inr d"
  by (simp add: decryptChk_def MIN_CHK_ENCRYPTED_SIZE_def encryptedSizeChk_def)
     (simp add: encryptChk_def contentHash_def Let_def aes_okD)

lemma decrypt_of_encrypt:
  "aes_ok E \<Longrightarrow> length iv = IV_SIZE \<Longrightarrow> encrypt E iv d key = Inr c \<Longrightarrow> decrypt E c key = Inr d"
  by (auto simp: encrypt_def decrypt_def crypto_sizes aes_okD split: if_splits)

lemma keyFromHex_keyToHex: "length k = 32 \<Longrightarrow> keyFromHex (keyToHex k) = Inr k"
proof -
  assume k: "length k = 32"
  have "keyToHex k = toHex k" by (simp add: keyToHex_def toHex_def)
  moreover have "fromHex (toHex k) = k" by simp
  ultimately show ?thesis using k by (simp add: keyFromHex_def fromHex_def)
qed

end
