(* ===== verification/Encrypted.thy ===== *)
theory Encrypted
  imports CreateSpec Crypto
begin

text \<open>
  Encrypted files and directories (\<open>encrypted.ts\<close>): every chunk and every node is stored encrypted
  under a key derived from its own content; a link carries the key of what it points to, and its size
  is that of the plaintext. The reading loops are those of the theory of \<open>tree/read.ts\<close> with the opener
  \<open>chkOpener\<close>.
\<close>

record EncryptedResult = FileResult + rkey :: bytes

section \<open>Writing\<close>

text \<open>\<open>encryptChk\<close>, \<open>sha256\<close> of the ciphertext and \<open>store.put\<close>, the three calls that always come
  together: the hash and the key.\<close>

definition putEncryptedBlock :: "ext \<Rightarrow> 's store_ops \<Rightarrow> bytes \<Rightarrow> ('s, hash \<times> bytes) op" where
  "putEncryptedBlock E st d =
     (case encryptChk E d of (ciphertext, key) \<Rightarrow>
        bindS (storePut st (sha256 E ciphertext) ciphertext) (\<lambda>_. retS (sha256 E ciphertext, key)))"

partial_function (option) putFileEncrypted_loop ::
  "ext \<Rightarrow> 's config \<Rightarrow> bytes \<Rightarrow> nat \<Rightarrow> Link list \<Rightarrow> 's \<Rightarrow> (Link list res \<times> 's) option" where
  "putFileEncrypted_loop E C d offset links s =
     (if offset < length d then
        (let e = min (offset + chunkSize C) (length d); chunk = slice offset e d
         in bindS (putEncryptedBlock E (cstore C) chunk)
              (\<lambda>hk. putFileEncrypted_loop E C d e
                 (links @ [(blobLink (fst hk) (length chunk))\<lparr>lkey := Some (snd hk)\<rparr>])) s)
      else retS links s)"

declare putFileEncrypted_loop.simps [code]

definition buildEncryptedTree :: "ext \<Rightarrow> 's config \<Rightarrow> Link list \<Rightarrow> nat option \<Rightarrow> ('s, hash \<times> bytes) op" where
  "buildEncryptedTree E C links totalSize =
     (if length links = 1 \<and> lkey (links ! 0) \<noteq> None \<and> totalSize = Some (lsize (links ! 0))
      then retS (lhash (links ! 0), the (lkey (links ! 0)))
      else putEncryptedBlock E (cstore C) (fst (encodeAndHash E \<lparr>ntype = File, nlinks = links\<rparr>)))"

definition putFileEncrypted :: "ext \<Rightarrow> 's config \<Rightarrow> bytes \<Rightarrow> ('s, EncryptedResult) op" where
  "putFileEncrypted E C d =
     (if length d \<le> chunkSize C
      then bindS (putEncryptedBlock E (cstore C) d) (\<lambda>hk.
           retS \<lparr>rhash = fst hk, rsize = length d, rkey = snd hk\<rparr>)
      else bindS (putFileEncrypted_loop E C d 0 []) (\<lambda>links.
           bindS (buildEncryptedTree E C links (Some (length d))) (\<lambda>hk.
           retS \<lparr>rhash = fst hk, rsize = length d, rkey = snd hk\<rparr>)))"

text \<open>An \<open>EncryptedDirEntry\<close> is a \<open>TreeEntry\<close> whose hash and key are those of its CID.\<close>

definition putDirectoryEncrypted :: "ext \<Rightarrow> 's config \<Rightarrow> TreeEntry list \<Rightarrow> ('s, EncryptedResult) op" where
  "putDirectoryEncrypted E C entries =
     (let links = map entryLink (sortEntries E entries);
          totalSize = foldl (\<lambda>sum l. sum + lsize l) 0 links;
          d = fst (encodeAndHash E \<lparr>ntype = Dir, nlinks = links\<rparr>)
      in if length d \<le> chunkSize C
         then bindS (putEncryptedBlock E (cstore C) d) (\<lambda>hk.
              retS \<lparr>rhash = fst hk, rsize = totalSize, rkey = snd hk\<rparr>)
         else putFileEncrypted E C d)"

section \<open>Reading\<close>

definition chkOpener :: "ext \<Rightarrow> opener" where
  "chkOpener E = \<lparr>
     checkLink = (\<lambda>l. if lkey l = None then throw (MissingDecryptionKey (lhash l)) else ret ()),
     openBlock = (\<lambda>l d. liftR (decryptChk E d (the (lkey l))))\<rparr>"

definition assembleEncryptedChunks ::
  "ext \<Rightarrow> (hash \<Rightarrow> bytes option) \<Rightarrow> nat option \<Rightarrow> TreeNode \<Rightarrow> nat \<Rightarrow> bytes comp" where
  "assembleEncryptedChunks E get mb node bytesRead =
     bindC (assembleLinks E (chkOpener E) get mb (nlinks node) bytesRead) (\<lambda>pb. ret (fst pb))"

definition readFileEncrypted ::
  "ext \<Rightarrow> (hash \<Rightarrow> bytes option) \<Rightarrow> hash \<Rightarrow> bytes \<Rightarrow> int option \<Rightarrow> bytes option comp" where
  "readFileEncrypted E get h key maxBytes =
     bindC (normalizeMaxBytes maxBytes) (\<lambda>mb.
     case get h of
       None \<Rightarrow> ret None
     | Some encryptedData \<Rightarrow>
         bindC (liftR (decryptChk E encryptedData key)) (\<lambda>decrypted.
         case tryDecodeTreeNode E decrypted of
           Some node \<Rightarrow>
             bindC (ensureWithinLimit mb (foldl (\<lambda>sum l. sum + lsize l) 0 (nlinks node))) (\<lambda>_.
             bindC (assembleEncryptedChunks E get mb node 0) (\<lambda>x. ret (Some x)))
         | None \<Rightarrow> bindC (ensureWithinLimit mb (length decrypted)) (\<lambda>_. ret (Some decrypted))))"

definition getEncryptedDirectoryNode ::
  "ext \<Rightarrow> (hash \<Rightarrow> bytes option) \<Rightarrow> hash \<Rightarrow> bytes \<Rightarrow> TreeNode option comp" where
  "getEncryptedDirectoryNode E get h key = (case get h of
     None \<Rightarrow> ret None
   | Some encryptedData \<Rightarrow>
       bindC (liftR (decryptChk E encryptedData key)) (\<lambda>decrypted.
       case tryDecodeTreeNode E decrypted of
         None \<Rightarrow> ret None
       | Some node \<Rightarrow>
           if ntype node = Dir then ret (Some node)
           else bindC (assembleEncryptedChunks E get None node 0) (\<lambda>assembled.
             case tryDecodeTreeNode E assembled of
               None \<Rightarrow> ret None
             | Some n2 \<Rightarrow> if ntype n2 = Dir then ret (Some n2) else ret None)))"

definition streamEncryptedChunksWithOffset ::
  "ext \<Rightarrow> (hash \<Rightarrow> bytes option) \<Rightarrow> TreeNode \<Rightarrow> nat \<Rightarrow> nat \<Rightarrow> bytes gen" where
  "streamEncryptedChunksWithOffset E get node offset prefetch =
     streamNode E (chkOpener E) get node offset prefetch"

definition readFileEncryptedStream ::
  "ext \<Rightarrow> (hash \<Rightarrow> bytes option) \<Rightarrow> hash \<Rightarrow> bytes \<Rightarrow> nat \<Rightarrow> nat \<Rightarrow> bytes gen" where
  "readFileEncryptedStream E get h key offset prefetch = (case get h of
     None \<Rightarrow> doneG
   | Some encryptedData \<Rightarrow>
       awaitG (liftR (decryptChk E encryptedData key)) (\<lambda>decrypted.
       case tryDecodeTreeNode E decrypted of
         Some node \<Rightarrow> streamEncryptedChunksWithOffset E get node offset prefetch
       | None \<Rightarrow>
           if length decrypted \<le> offset then doneG
           else yieldG (if 0 < offset then drop offset decrypted else decrypted)))"

definition readEncryptedRangeFromNode ::
  "ext \<Rightarrow> (hash \<Rightarrow> bytes option) \<Rightarrow> TreeNode \<Rightarrow> nat \<Rightarrow> nat option \<Rightarrow> bytes comp" where
  "readEncryptedRangeFromNode E get node start stop =
     readRangeLinks E (chkOpener E) get start stop (nlinks node) 0 0"

definition readFileEncryptedRange ::
  "ext \<Rightarrow> (hash \<Rightarrow> bytes option) \<Rightarrow> hash \<Rightarrow> bytes \<Rightarrow> nat \<Rightarrow> nat option \<Rightarrow> bytes option comp" where
  "readFileEncryptedRange E get h key start stop = (case get h of
     None \<Rightarrow> ret None
   | Some encryptedData \<Rightarrow>
       bindC (liftR (decryptChk E encryptedData key)) (\<lambda>decrypted.
       case tryDecodeTreeNode E decrypted of
         None \<Rightarrow>
           if length decrypted \<le> start then ret (Some [])
           else ret (Some (slice start
                  (case stop of None \<Rightarrow> length decrypted | Some e \<Rightarrow> min e (length decrypted)) decrypted))
       | Some node \<Rightarrow> bindC (readEncryptedRangeFromNode E get node start stop) (\<lambda>x. ret (Some x))))"

definition listDirectoryEncrypted ::
  "ext \<Rightarrow> (hash \<Rightarrow> bytes option) \<Rightarrow> hash \<Rightarrow> bytes \<Rightarrow> TreeEntry list comp" where
  "listDirectoryEncrypted E get h key =
     bindC (getEncryptedDirectoryNode E get h key) (\<lambda>node. case node of
       None \<Rightarrow> ret [] | Some n \<Rightarrow> ret (linkEntries (nlinks n)))"

definition getTreeNodeEncrypted ::
  "ext \<Rightarrow> (hash \<Rightarrow> bytes option) \<Rightarrow> hash \<Rightarrow> bytes \<Rightarrow> TreeNode option comp" where
  "getTreeNodeEncrypted E get h key = (case get h of
     None \<Rightarrow> ret None
   | Some encryptedData \<Rightarrow>
       bindC (liftR (decryptChk E encryptedData key)) (\<lambda>d. ret (tryDecodeTreeNode E d)))"

section \<open>The content of an encrypted file\<close>

inductive encrypted_content :: "ext \<Rightarrow> (hash \<Rightarrow> bytes option) \<Rightarrow> hash \<Rightarrow> bytes \<Rightarrow> bytes \<Rightarrow> bool"
  for E :: ext and get :: "hash \<Rightarrow> bytes option" where
  ec_blob: "get h = Some block \<Longrightarrow> decryptChk E block k = Inr d \<Longrightarrow> tryDecodeTreeNode E d = None \<Longrightarrow>
    encrypted_content E get h k d"
| ec_node: "get h = Some block \<Longrightarrow> decryptChk E block k = Inr raw \<Longrightarrow> tryDecodeTreeNode E raw = Some n \<Longrightarrow>
    tree_content E (chkOpener E) get (nlinks n) d \<Longrightarrow> encrypted_content E get h k d"

lemma readFileEncrypted_content:
  assumes "encrypted_content E get h k c"
  shows "readFileEncrypted E get h k None = ret (Some c)"
  using assms by (cases rule: encrypted_content.cases)
    (auto simp: readFileEncrypted_def normalizeMaxBytes_def assembleEncryptedChunks_def assembleLinks_content)

lemma readFileEncrypted_content_limit:
  assumes "encrypted_content E get h k c"
  shows "readFileEncrypted E get h k (Some (int m)) =
    (if length c \<le> m then ret (Some c) else throw (ContentExceedsMaxBytes (length c) m))"
  using assms
proof (cases rule: encrypted_content.cases)
  case (ec_blob block)
  then show ?thesis by (simp add: readFileEncrypted_def normalizeMaxBytes_def ensureWithinLimit_def)
next
  case (ec_node block raw n)
  then show ?thesis
    by (simp add: readFileEncrypted_def normalizeMaxBytes_def ensureWithinLimit_def foldl_sizes
        tree_content_length assembleEncryptedChunks_def assembleLinks_content within_def)
qed

lemma readFileEncryptedRange_content:
  assumes "encrypted_content E get h k c"
  shows "readFileEncryptedRange E get h k start stop = ret (Some (rangeSlice start stop c))"
  using assms
proof (cases rule: encrypted_content.cases)
  case (ec_blob block)
  then show ?thesis
    by (auto simp: readFileEncryptedRange_def rangeSlice_def slice_def min_def split: option.split)
next
  case (ec_node block raw n)
  then show ?thesis using readRangeLinks_content [of E "chkOpener E" get "nlinks n" c start stop 0]
    by (simp add: readFileEncryptedRange_def readEncryptedRangeFromNode_def option.map_ident)
qed

lemma readFileEncryptedStream_content:
  assumes "encrypted_content E get h k c" "0 < prefetch"
  shows "\<exists>ys. readFileEncryptedStream E get h k offset prefetch = Some (ys, None) \<and> concat ys = drop offset c"
  using assms(1)
proof (cases rule: encrypted_content.cases)
  case (ec_blob block)
  then show ?thesis by (auto simp: readFileEncryptedStream_def doneG_def yieldG_def)
next
  case (ec_node block raw n)
  with streams_content [OF ec_node(4) assms(2)] skip_streams_node show ?thesis
    by (fastforce simp: readFileEncryptedStream_def streamEncryptedChunksWithOffset_def)
qed

lemma chkOpener_opens:
  "opens (chkOpener E) get l d \<Longrightarrow>
   \<exists>k block. lkey l = Some k \<and> get (lhash l) = Some block \<and> decryptChk E block k = Inr d"
  by (auto simp: opens_def chkOpener_def liftR_def split: if_splits)

lemma single_link_encrypted:
  "tree_content E (chkOpener E) get [l] c \<Longrightarrow> tryDecodeTreeNode E c = None \<Longrightarrow>
   \<exists>k. lkey l = Some k \<and> encrypted_content E get (lhash l) k c"
  by (elim tree_content_ConsE) (auto dest!: chkOpener_opens intro: ec_blob ec_node)

lemma chkOpener_canon [simp]:
  "openBlock (chkOpener E) (canonLink l) b = openBlock (chkOpener E) l b"
  "checkLink (chkOpener E) (canonLink l) = checkLink (chkOpener E) l"
  by (simp_all add: chkOpener_def)

section \<open>What the writers leave behind\<close>

definition encLink :: "ext \<Rightarrow> bytes \<Rightarrow> Link" where
  "encLink E ch = (blobLink (sha256 E (fst (encryptChk E ch))) (length ch))\<lparr>lkey := Some (sha256 E ch)\<rparr>"

lemma encLink_simps [simp]:
  "lhash (encLink E ch) = sha256 E (fst (encryptChk E ch))" "lsize (encLink E ch) = length ch"
  "ltype (encLink E ch) = Blob" "lmeta (encLink E ch) = None" "lkey (encLink E ch) = Some (sha256 E ch)"
  by (simp_all add: encLink_def blobLink_def)

lemma opens_encLink:
  "aes_ok E \<Longrightarrow> digest_len E \<Longrightarrow> get (sha256 E (fst (encryptChk E ch))) = Some (fst (encryptChk E ch)) \<Longrightarrow>
   opens (chkOpener E) get (encLink E ch) ch"
  by (simp add: opens_def chkOpener_def)

lemma tree_content_encLinks:
  assumes "aes_ok E" "digest_len E"
  shows "(\<And>ch. ch \<in> set chs \<Longrightarrow> get (sha256 E (fst (encryptChk E ch))) = Some (fst (encryptChk E ch))) \<Longrightarrow>
    tree_content E (chkOpener E) get (map (encLink E) chs) (concat chs)"
  using assms by (induction chs) (auto intro!: tc_nil tc_blob opens_encLink)

lemma node_ok_encLinks:
  "c < 2 ^ 53 \<Longrightarrow> node_ok \<lparr>ntype = File, nlinks = map (encLink E) (chunks_of c d)\<rparr>"
  by (auto simp: node_ok_def link_ok_def linkTypeNum_def dest!: chunks_of_lengths)

lemma canonNode_encLinks [simp]:
  "canonNode \<lparr>ntype = t, nlinks = map (encLink E) chs\<rparr> = \<lparr>ntype = t, nlinks = map (encLink E) chs\<rparr>"
  by (simp add: canonNode_def)

definition encrypted_dir_at :: "ext \<Rightarrow> (hash \<Rightarrow> bytes option) \<Rightarrow> hash \<Rightarrow> bytes \<Rightarrow> TreeNode \<Rightarrow> bool" where
  "encrypted_dir_at E get h k n \<longleftrightarrow> getEncryptedDirectoryNode E get h k = ret (Some n)"

context content_store
begin

lemma putEncryptedBlock_run:
  assumes "sinv s"
  shows "\<exists>s'. putEncryptedBlock E ops d s = Some (Inr (sha256 E (fst (encryptChk E d)), sha256 E d), s')
    \<and> grows s s' \<and> stored s' (fst (encryptChk E d))"
proof -
  obtain ct k where e: "encryptChk E d = (ct, k)" by fastforce
  then have "k = sha256 E d" using snd_encryptChk [of E d] by simp
  with storePut_run [OF assms, of ct] e show ?thesis by (auto simp: putEncryptedBlock_def bindS_def)
qed

lemma putFileEncrypted_loop_run:
  assumes C: "cstore C = ops" "0 < chunkSize C" and s: "sinv s"
  shows "\<exists>s'. putFileEncrypted_loop E C d off links s =
      Some (Inr (links @ map (encLink E) (chunks_of (chunkSize C) (drop off d))), s')
    \<and> grows s s' \<and> (\<forall>ch\<in>set (chunks_of (chunkSize C) (drop off d)). stored s' (fst (encryptChk E ch)))"
  using s
proof (induction "length d - off" arbitrary: off links s rule: less_induct)
  case less
  show ?case
  proof (cases "off < length d")
    case False
    then show ?thesis using less.prems by (auto simp: putFileEncrypted_loop.simps)
  next
    case True
    let ?e = "min (off + chunkSize C) (length d)"
    let ?ch = "slice off ?e d"
    obtain s1 where s1: "putEncryptedBlock E ops ?ch s =
        Some (Inr (sha256 E (fst (encryptChk E ?ch)), sha256 E ?ch), s1)" "grows s s1" "stored s1 (fst (encryptChk E ?ch))"
      using putEncryptedBlock_run [OF less.prems] by blast
    have e: "length d - ?e < length d - off" using True C by auto
    from less.hyps [OF e grows_sinv [OF s1(2)], of "links @ [encLink E ?ch]"] obtain s2 where
      s2: "putFileEncrypted_loop E C d ?e (links @ [encLink E ?ch]) s1 =
        Some (Inr ((links @ [encLink E ?ch]) @ map (encLink E) (chunks_of (chunkSize C) (drop ?e d))), s2)"
        "grows s1 s2" "\<forall>ch\<in>set (chunks_of (chunkSize C) (drop ?e d)). stored s2 (fst (encryptChk E ch))" by blast
    have "putFileEncrypted_loop E C d off links s = putFileEncrypted_loop E C d ?e (links @ [encLink E ?ch]) s1"
      using True C s1 by (simp add: putFileEncrypted_loop.simps [of E C d off] bindS_def Let_def encLink_def)
    then show ?thesis using s1(2,3) s2 True C(2)
      by (auto simp: chunks_of_drop intro: grows_trans stored_grows)
  qed
qed

lemma putFileEncrypted_chunked:
  assumes C: "cstore C = ops" "0 < chunkSize C" "chunkSize C < length d" "chunkSize C < 2 ^ 53" and s: "sinv s"
    and E: "msgpack_ok E" "aes_ok E" "digest_len E"
  shows "\<exists>h k s'. putFileEncrypted E C d s = Some (Inr \<lparr>rhash = h, rsize = length d, rkey = k\<rparr>, s') \<and> grows s s' \<and>
    (inj_on (sha256 E) (offered s') \<longrightarrow> (\<exists>block raw n. store_get ops s' h = Some block \<and>
       decryptChk E block k = Inr raw \<and> tryDecodeTreeNode E raw = Some n \<and> ntype n = File \<and>
       tree_content E (chkOpener E) (store_get ops s') (nlinks n) d))"
proof -
  let ?chs = "chunks_of (chunkSize C) d"
  let ?n = "\<lparr>ntype = File, nlinks = map (encLink E) ?chs\<rparr>"
  let ?raw = "encodeTreeNode E ?n"
  obtain s1 where s1: "putFileEncrypted_loop E C d 0 [] s = Some (Inr (map (encLink E) ?chs), s1)"
      "grows s s1" "\<forall>ch\<in>set ?chs. stored s1 (fst (encryptChk E ch))"
    using putFileEncrypted_loop_run [OF C(1,2) s, of d 0 "[]"] by auto
  obtain s2 where s2: "putEncryptedBlock E ops ?raw s1 =
      Some (Inr (sha256 E (fst (encryptChk E ?raw)), sha256 E ?raw), s2)" "grows s1 s2" "stored s2 (fst (encryptChk E ?raw))"
    using putEncryptedBlock_run [OF grows_sinv [OF s1(2)]] by blast
  have run: "putFileEncrypted E C d s =
      Some (Inr \<lparr>rhash = sha256 E (fst (encryptChk E ?raw)), rsize = length d, rkey = sha256 E ?raw\<rparr>, s2)"
    using C s1 s2 length_chunks_of_gt_1 [OF C(2,3)]
    by (simp add: putFileEncrypted_def buildEncryptedTree_def encodeAndHash_def Let_def bindS_def)
  have dec: "tryDecodeTreeNode E ?raw = Some ?n"
    using tryDecode_encode [OF E(1) node_ok_encLinks [OF C(4)]] by simp
  have "tree_content E (chkOpener E) (store_get ops s2) (map (encLink E) ?chs) d"
    if inj: "inj_on (sha256 E) (offered s2)"
  proof -
    have "\<forall>ch\<in>set ?chs. stored s2 (fst (encryptChk E ch))" using s1(3) s2(2) stored_grows by blast
    with inj have "tree_content E (chkOpener E) (store_get ops s2) (map (encLink E) ?chs) (concat ?chs)"
      by (intro tree_content_encLinks [OF E(2,3)]) (simp add: stored_def)
    with C(2) show ?thesis by simp
  qed
  with dec run grows_trans [OF s1(2) s2(2)] s2(3) E show ?thesis
    by (auto simp: stored_def intro!: exI [of _ ?raw] exI [of _ ?n])
qed

lemma putFileEncrypted_run:
  assumes C: "cstore C = ops" "0 < chunkSize C" "chunkSize C < 2 ^ 53" and s: "sinv s"
    and E: "msgpack_ok E" "aes_ok E" "digest_len E"
    and blob: "length d \<le> chunkSize C \<Longrightarrow> tryDecodeTreeNode E d = None"
  shows "\<exists>h k s'. putFileEncrypted E C d s = Some (Inr \<lparr>rhash = h, rsize = length d, rkey = k\<rparr>, s') \<and> grows s s' \<and>
    (inj_on (sha256 E) (offered s') \<longrightarrow> encrypted_content E (store_get ops s') h k d)"
proof (cases "length d \<le> chunkSize C")
  case True
  obtain s' where s': "putEncryptedBlock E ops d s = Some (Inr (sha256 E (fst (encryptChk E d)), sha256 E d), s')"
      "grows s s'" "stored s' (fst (encryptChk E d))" using putEncryptedBlock_run [OF s] by blast
  have "encrypted_content E (store_get ops s') (sha256 E (fst (encryptChk E d))) (sha256 E d) d"
    if "inj_on (sha256 E) (offered s')"
    using that s'(3) blob [OF True] E by (intro ec_blob [where block = "fst (encryptChk E d)"]) (simp_all add: stored_def)
  with s' True C(1) show ?thesis by (auto simp: putFileEncrypted_def bindS_def)
next
  case False
  then have "chunkSize C < length d" by simp
  from putFileEncrypted_chunked [OF C(1,2) this C(3) s E] show ?thesis by (blast intro: ec_node)
qed

lemma putDirectoryEncrypted_run:
  assumes C: "cstore C = ops" "0 < chunkSize C" "chunkSize C < 2 ^ 53" and s: "sinv s"
    and E: "msgpack_ok E" "aes_ok E" "digest_len E" and es: "dir_ok es"
  shows "\<exists>r s'. putDirectoryEncrypted E C es s = Some (Inr r, s') \<and> grows s s' \<and>
    (inj_on (sha256 E) (offered s') \<longrightarrow>
      encrypted_dir_at E (store_get ops s') (rhash r) (rkey r) (canonNode (dirRaw E es)))"
proof -
  let ?d = "encodeTreeNode E (dirRaw E es)"
  have dec: "tryDecodeTreeNode E ?d = Some (canonNode (dirRaw E es))"
    using E es by (simp add: tryDecode_encode node_ok_dirRaw)
  have ty: "ntype (canonNode (dirRaw E es)) = Dir" by (simp add: dirRaw_def)
  have d: "fst (encodeAndHash E \<lparr>ntype = Dir, nlinks = map entryLink (sortEntries E es)\<rparr>) = ?d"
    by (simp add: encodeAndHash_def dirRaw_def Let_def)
  show ?thesis
  proof (cases "length ?d \<le> chunkSize C")
    case True
    obtain s' where s': "putEncryptedBlock E ops ?d s = Some (Inr (sha256 E (fst (encryptChk E ?d)), sha256 E ?d), s')"
        "grows s s'" "stored s' (fst (encryptChk E ?d))" using putEncryptedBlock_run [OF s] by blast
    have "encrypted_dir_at E (store_get ops s') (sha256 E (fst (encryptChk E ?d))) (sha256 E ?d) (canonNode (dirRaw E es))"
      if "inj_on (sha256 E) (offered s')"
      using that s'(3) dec ty E by (simp add: stored_def encrypted_dir_at_def getEncryptedDirectoryNode_def)
    with s' True C(1) d show ?thesis by (auto simp: putDirectoryEncrypted_def bindS_def Let_def)
  next
    case False
    then have "chunkSize C < length ?d" by simp
    from putFileEncrypted_chunked [OF C(1,2) this C(3) s E] obtain h k s' where
      s': "putFileEncrypted E C ?d s = Some (Inr \<lparr>rhash = h, rsize = length ?d, rkey = k\<rparr>, s')" "grows s s'"
      and c: "inj_on (sha256 E) (offered s') \<longrightarrow> (\<exists>block raw n. store_get ops s' h = Some block \<and>
         decryptChk E block k = Inr raw \<and> tryDecodeTreeNode E raw = Some n \<and> ntype n = File \<and>
         tree_content E (chkOpener E) (store_get ops s') (nlinks n) ?d)" by blast
    have "encrypted_dir_at E (store_get ops s') h k (canonNode (dirRaw E es))" if "inj_on (sha256 E) (offered s')"
      using c that dec ty by (auto simp: encrypted_dir_at_def getEncryptedDirectoryNode_def
          assembleEncryptedChunks_def assembleLinks_content)
    with s' False d show ?thesis by (auto simp: putDirectoryEncrypted_def Let_def)
  qed
qed

end

end
