(* ===== verification/WriteAt.thy ===== *)
theory WriteAt
  imports Encrypted
begin

text \<open>
  Patching bytes inside a file (\<open>tree/writeAt.ts\<close>): the chunks that overlap the write are rewritten
  and the nodes above them rebuilt; the other links are kept. The file also has the encrypted variant.
\<close>

section \<open>The part of a write that falls into a chunk\<close>

text \<open>The part of the write that falls into a chunk: where it goes and what is written.\<close>

definition chunkPatch :: "nat \<Rightarrow> nat \<Rightarrow> bytes \<Rightarrow> bytes \<Rightarrow> bytes comp" where
  "chunkPatch linkStart offset data chunkData =
     (let writeEnd = offset + length data;
          chunkWriteStart = offset - linkStart;
          chunkWriteEnd = min (length chunkData) (writeEnd - linkStart);
          dataReadStart = linkStart - offset;
          dataReadEnd = dataReadStart + (chunkWriteEnd - chunkWriteStart)
      in setBytes chunkData (slice dataReadStart dataReadEnd data) chunkWriteStart)"

definition childPatch :: "nat \<Rightarrow> nat \<Rightarrow> nat \<Rightarrow> bytes \<Rightarrow> bytes" where
  "childPatch linkStart linkEnd offset data =
     slice (linkStart - offset) (min (length data) (linkEnd - offset)) data"

section \<open>The unencrypted variant\<close>

definition fileLink :: "hash \<Rightarrow> nat \<Rightarrow> bytes option \<Rightarrow> Link" where
  "fileLink h n k = \<lparr>lhash = h, lname = None, lsize = n, lkey = k, ltype = File, lmeta = None\<rparr>"

partial_function (option) writeLinks ::
  "ext \<Rightarrow> 's config \<Rightarrow> Link list \<Rightarrow> nat \<Rightarrow> nat \<Rightarrow> bytes \<Rightarrow> 's \<Rightarrow> (Link list res \<times> 's) option" where
  "writeLinks E C links position offset data s = (case links of
     [] \<Rightarrow> retS [] s
   | link # rest \<Rightarrow>
       (let linkStart = position; linkEnd = position + lsize link; writeEnd = offset + length data in
        if linkEnd \<le> offset \<or> writeEnd \<le> linkStart
        then bindS (writeLinks E C rest linkEnd offset data) (\<lambda>ls. retS (link # ls)) s
        else (case store_get (cstore C) s (lhash link) of
           None \<Rightarrow> throwS (MissingChunk (lhash link)) s
         | Some chunkData \<Rightarrow>
             bindS (\<lambda>s1.
               if ltype link \<noteq> Blob then
                 bindS (liftC (liftR (decodeTreeNode E chunkData))) (\<lambda>childNode.
                 bindS (writeLinks E C (nlinks childNode) 0 (offset - linkStart)
                          (childPatch linkStart linkEnd offset data)) (\<lambda>newChildLinks.
                 let dh = encodeAndHash E \<lparr>ntype = File, nlinks = newChildLinks\<rparr> in
                 bindS (storePut (cstore C) (snd dh) (fst dh)) (\<lambda>_.
                 retS (fileLink (snd dh) (lsize link) None)))) s1
               else
                 bindS (liftC (chunkPatch linkStart offset data chunkData)) (\<lambda>newChunkData.
                 bindS (storePut (cstore C) (sha256 E newChunkData) newChunkData) (\<lambda>_.
                 retS (blobLink (sha256 E newChunkData) (length newChunkData)))) s1)
             (\<lambda>l. bindS (writeLinks E C rest linkEnd offset data) (\<lambda>ls. retS (l # ls))) s)))"

declare writeLinks.simps [code]

definition writeAtInNode ::
  "ext \<Rightarrow> 's config \<Rightarrow> TreeNode \<Rightarrow> nat \<Rightarrow> bytes \<Rightarrow> ('s, Link list) op" where
  "writeAtInNode E C node offset data = writeLinks E C (nlinks node) 0 offset data"

definition buildTreeFromLinks :: "ext \<Rightarrow> 's config \<Rightarrow> Link list \<Rightarrow> nat \<Rightarrow> ('s, hash) op" where
  "buildTreeFromLinks E C links totalSize =
     (if length links = 1 \<and> lsize (links ! 0) = totalSize then retS (lhash (links ! 0))
      else case encodeAndHash E \<lparr>ntype = File, nlinks = links\<rparr> of
        (d, h) \<Rightarrow> bindS (storePut (cstore C) h d) (\<lambda>_. retS h))"

definition writeAt :: "ext \<Rightarrow> 's config \<Rightarrow> hash \<Rightarrow> nat \<Rightarrow> bytes \<Rightarrow> ('s, FileResult) op" where
  "writeAt E C rootHash offset data s =
     (case store_get (cstore C) s rootHash of
        None \<Rightarrow> throwS (RootNotFound rootHash) s
      | Some rootData \<Rightarrow>
          (case tryDecodeTreeNode E rootData of
             None \<Rightarrow>
               if length rootData < offset + length data
               then throwS (WriteBeyondFile offset (length data) (length rootData)) s
               else bindS (liftC (setBytes rootData data offset)) (\<lambda>newData.
                    bindS (storePut (cstore C) (sha256 E newData) newData) (\<lambda>_.
                    retS \<lparr>rhash = sha256 E newData, rsize = length newData\<rparr>)) s
           | Some node \<Rightarrow>
               (let totalSize = foldl (\<lambda>sum l. sum + lsize l) 0 (nlinks node) in
                if totalSize < offset + length data
                then throwS (WriteBeyondFile offset (length data) totalSize) s
                else bindS (writeAtInNode E C node offset data) (\<lambda>newLinks.
                     bindS (buildTreeFromLinks E C newLinks totalSize) (\<lambda>h.
                     retS \<lparr>rhash = h, rsize = totalSize\<rparr>)) s)))"

section \<open>The encrypted variant\<close>

text \<open>The code takes the size of a \<open>Blob\<close> link as that of the ciphertext and subtracts the tag, which
  can go below zero: positions are integers.\<close>

definition linkPlainSize :: "Link \<Rightarrow> int" where
  "linkPlainSize l = (if ltype l = Blob then int (lsize l) - 16 else int (lsize l))"

text \<open>\<open>slice\<close> of a typed array with relative (possibly negative) bounds.\<close>

definition jsIndex :: "int \<Rightarrow> nat \<Rightarrow> nat" where
  "jsIndex i n = (if i < 0 then nat (max 0 (int n + i)) else min (nat i) n)"

definition jsSlice :: "int \<Rightarrow> int \<Rightarrow> bytes \<Rightarrow> bytes" where
  "jsSlice a b xs = slice (jsIndex a (length xs)) (jsIndex b (length xs)) xs"

definition chunkPatchEncrypted :: "int \<Rightarrow> int \<Rightarrow> bytes \<Rightarrow> bytes \<Rightarrow> bytes comp" where
  "chunkPatchEncrypted linkStart offset data chunkData =
     (let writeEnd = offset + int (length data);
          chunkWriteStart = max 0 (offset - linkStart);
          chunkWriteEnd = min (int (length chunkData)) (writeEnd - linkStart);
          dataReadStart = max 0 (linkStart - offset);
          dataReadEnd = dataReadStart + (chunkWriteEnd - chunkWriteStart)
      in setBytes chunkData (jsSlice dataReadStart dataReadEnd data) (nat chunkWriteStart))"

partial_function (option) writeLinksEncrypted ::
  "ext \<Rightarrow> 's config \<Rightarrow> Link list \<Rightarrow> int \<Rightarrow> int \<Rightarrow> bytes \<Rightarrow> 's \<Rightarrow> (Link list res \<times> 's) option" where
  "writeLinksEncrypted E C links position offset data s = (case links of
     [] \<Rightarrow> retS [] s
   | link # rest \<Rightarrow>
       (let linkStart = position; linkEnd = position + linkPlainSize link;
            writeEnd = offset + int (length data) in
        if linkEnd \<le> offset \<or> writeEnd \<le> linkStart
        then bindS (writeLinksEncrypted E C rest linkEnd offset data) (\<lambda>ls. retS (link # ls)) s
        else (case lkey link of
           None \<Rightarrow> throwS (MissingDecryptionKey (lhash link)) s
         | Some k \<Rightarrow>
             (case store_get (cstore C) s (lhash link) of
                None \<Rightarrow> throwS (MissingChunk (lhash link)) s
              | Some encryptedChunk \<Rightarrow>
                  bindS (liftC (liftR (decryptChk E encryptedChunk k))) (\<lambda>decryptedChunk.
                  bindS (\<lambda>s1.
                    if ltype link \<noteq> Blob then
                      bindS (liftC (liftR (decodeTreeNode E decryptedChunk))) (\<lambda>childNode.
                      bindS (writeLinksEncrypted E C (nlinks childNode) 0 (max 0 (offset - linkStart))
                               (jsSlice (max 0 (linkStart - offset))
                                  (min (int (length data)) (linkEnd - offset)) data)) (\<lambda>newChildLinks.
                      bindS (putEncryptedBlock E (cstore C)
                               (fst (encodeAndHash E \<lparr>ntype = File, nlinks = newChildLinks\<rparr>))) (\<lambda>hk.
                      retS (fileLink (fst hk) (nat (sum_list (map linkPlainSize newChildLinks)))
                              (Some (snd hk)))))) s1
                    else
                      bindS (liftC (chunkPatchEncrypted linkStart offset data decryptedChunk)) (\<lambda>newChunkData.
                      bindS (putEncryptedBlock E (cstore C) newChunkData) (\<lambda>hk.
                      retS ((blobLink (fst hk) (length (fst (encryptChk E newChunkData))))
                              \<lparr>lkey := Some (snd hk)\<rparr>))) s1)
                  (\<lambda>l. bindS (writeLinksEncrypted E C rest linkEnd offset data) (\<lambda>ls. retS (l # ls)))) s))))"

declare writeLinksEncrypted.simps [code]

definition buildEncryptedTreeFromLinks ::
  "ext \<Rightarrow> 's config \<Rightarrow> Link list \<Rightarrow> nat \<Rightarrow> ('s, hash \<times> bytes) op" where
  "buildEncryptedTreeFromLinks E C links totalSize =
     (if length links = 1 \<and> lkey (links ! 0) \<noteq> None \<and> lsize (links ! 0) = totalSize
      then retS (lhash (links ! 0), the (lkey (links ! 0)))
      else putEncryptedBlock E (cstore C) (fst (encodeAndHash E \<lparr>ntype = File, nlinks = links\<rparr>)))"

definition writeAtEncrypted ::
  "ext \<Rightarrow> 's config \<Rightarrow> hash \<Rightarrow> bytes \<Rightarrow> nat \<Rightarrow> bytes \<Rightarrow> ('s, EncryptedResult) op" where
  "writeAtEncrypted E C rootHash rootKey offset data s =
     (case store_get (cstore C) s rootHash of
        None \<Rightarrow> throwS (RootNotFound rootHash) s
      | Some encryptedRoot \<Rightarrow>
          bindS (liftC (liftR (decryptChk E encryptedRoot rootKey))) (\<lambda>decryptedRoot.
          case tryDecodeTreeNode E decryptedRoot of
            None \<Rightarrow>
              if length decryptedRoot < offset + length data
              then throwS (WriteBeyondFile offset (length data) (length decryptedRoot))
              else bindS (liftC (setBytes decryptedRoot data offset)) (\<lambda>newData.
                   bindS (putEncryptedBlock E (cstore C) newData) (\<lambda>hk.
                   retS \<lparr>rhash = fst hk, rsize = length newData, rkey = snd hk\<rparr>))
          | Some node \<Rightarrow>
              (let totalSize = foldl (\<lambda>sum l. sum + lsize l) 0 (nlinks node) in
               if totalSize < offset + length data
               then throwS (WriteBeyondFile offset (length data) totalSize)
               else bindS (writeLinksEncrypted E C (nlinks node) 0 (int offset) data) (\<lambda>newLinks.
                    bindS (buildEncryptedTreeFromLinks E C newLinks totalSize) (\<lambda>hk.
                    retS \<lparr>rhash = fst hk, rsize = totalSize, rkey = snd hk\<rparr>)))) s)"

section \<open>The overlay of a write on a part of the file\<close>

text \<open>\<open>overlay p off d c\<close>: the bytes \<open>c\<close>, which start at position \<open>p\<close> of the file, after writing \<open>d\<close>
  at position \<open>off\<close>.\<close>

definition overlay :: "nat \<Rightarrow> nat \<Rightarrow> bytes \<Rightarrow> bytes \<Rightarrow> bytes" where
  "overlay p off d c = take (off - p) c @ slice (p - off) (p + length c - off) d @ drop (off + length d - p) c"

lemma overlay_Nil [simp]: "overlay p off d [] = []"
  by (simp add: overlay_def)

lemma overlay_nth:
  "overlay p off d c =
   map (\<lambda>i. if off \<le> p + i \<and> p + i < off + length d then d ! (p + i - off) else c ! i) [0..<length c]"
proof (rule nth_equalityI)
  show len: "length (overlay p off d c) =
      length (map (\<lambda>i. if off \<le> p + i \<and> p + i < off + length d then d ! (p + i - off) else c ! i) [0..<length c])"
    by (simp add: overlay_def)
  fix i assume "i < length (overlay p off d c)"
  then have i: "i < length c" by (simp only: len length_map length_upt)
  consider "p + i < off" | "off \<le> p + i" "p + i < off + length d" | "off + length d \<le> p + i" by linarith
  then show "overlay p off d c ! i =
      map (\<lambda>i. if off \<le> p + i \<and> p + i < off + length d then d ! (p + i - off) else c ! i) [0..<length c] ! i"
  proof cases
    case 1
    with i show ?thesis by (simp add: overlay_def nth_append)
  next
    case 2
    then have "p - off + (i - (off - p)) = p + i - off" by linarith
    with 2 i show ?thesis by (auto simp: overlay_def nth_append nth_slice)
  next
    case 3
    then have "off + length d - p \<le> i" by linarith
    with 3 i show ?thesis
      by (cases "off \<le> p"; cases "off + length d \<le> p")
         (auto simp: overlay_def nth_append slice_def min_def intro!: arg_cong [where f = "(!) c"])
  qed
qed

lemma length_overlay [simp]: "length (overlay p off d c) = length c"
  by (simp add: overlay_nth)

lemma overlay_append: "overlay p off d (c1 @ c2) = overlay p off d c1 @ overlay (p + length c1) off d c2"
  unfolding overlay_nth
  by (rule nth_equalityI) (auto simp: nth_append ac_simps)

lemma overlay_outside: "p + length c \<le> off \<or> off + length d \<le> p \<Longrightarrow> overlay p off d c = c"
  unfolding overlay_nth by (rule nth_equalityI) auto

lemma overlay_overwrite: "off + length d \<le> length c \<Longrightarrow> overlay 0 off d c = overwrite off d c"
  by (simp add: overlay_def overwrite_def slice_to_end)

lemma overlay_child:
  "overlay 0 (off - p) (childPatch p (p + length c) off d) c = overlay p off d c"
proof -
  let ?d = "childPatch p (p + length c) off d"
  have "(if off - p \<le> i \<and> i < off - p + length ?d then ?d ! (i - (off - p)) else c ! i) =
        (if off \<le> p + i \<and> p + i < off + length d then d ! (p + i - off) else c ! i)"
    if i: "i < length c" for i
  proof -
    have eq: "off - p \<le> i \<and> i < off - p + length ?d \<longleftrightarrow> off \<le> p + i \<and> p + i < off + length d"
      using i by (auto simp: childPatch_def min_def)
    have "?d ! (i - (off - p)) = d ! (p + i - off)" if "off \<le> p + i" "p + i < off + length d"
      using that i by (auto simp: childPatch_def nth_slice intro: arg_cong [where f = "(!) d"])
    with eq show ?thesis by simp
  qed
  note key = this
  show ?thesis unfolding overlay_nth add_0 by (rule map_cong [OF refl], rule key) simp
qed

lemma chunkPatch_overlay:
  assumes "p < off + length d" "off < p + length c"
  shows "chunkPatch p off d c = ret (overlay p off d c)"
proof -
  let ?n = "min (length c) (off + length d - p) - (off - p)"
  let ?d = "slice (p - off) (p - off + ?n) d"
  have len: "length ?d = ?n" using assms by auto
  have "?n = min (p + length c - off - (p - off)) (length d - (p - off))"
    using assms by (cases "off \<le> p") (auto simp: min_def)
  then have d: "?d = slice (p - off) (p + length c - off) d"
    by (simp add: slice_def) (metis length_drop min.commute take_take take_all order_refl)
  have drop: "drop (off - p + ?n) c = drop (off + length d - p) c"
    using assms by (auto simp: min_def)
  have "overwrite (off - p) ?d c = overlay p off d c"
    by (simp only: overwrite_def overlay_def len drop) (simp only: d)
  moreover have "\<not> length c < off - p + length ?d" unfolding len using assms by auto
  ultimately show ?thesis unfolding chunkPatch_def setBytes_def Let_def by (simp only: if_False)
qed

section \<open>The write is an overwrite of the content\<close>

text \<open>One round of the loop: the link that replaces \<open>link\<close>.\<close>

definition writeHead :: "ext \<Rightarrow> 's config \<Rightarrow> Link \<Rightarrow> nat \<Rightarrow> nat \<Rightarrow> bytes \<Rightarrow> ('s, Link) op" where
  "writeHead E C link p off d s =
     (if p + lsize link \<le> off \<or> off + length d \<le> p then retS link s
      else (case store_get (cstore C) s (lhash link) of
         None \<Rightarrow> throwS (MissingChunk (lhash link)) s
       | Some raw \<Rightarrow>
           if ltype link \<noteq> Blob then
             bindS (liftC (liftR (decodeTreeNode E raw))) (\<lambda>n.
             bindS (writeLinks E C (nlinks n) 0 (off - p) (childPatch p (p + lsize link) off d)) (\<lambda>ls.
             bindS (storePut (cstore C) (sha256 E (encodeTreeNode E \<lparr>ntype = File, nlinks = ls\<rparr>))
                      (encodeTreeNode E \<lparr>ntype = File, nlinks = ls\<rparr>)) (\<lambda>_.
             retS (fileLink (sha256 E (encodeTreeNode E \<lparr>ntype = File, nlinks = ls\<rparr>)) (lsize link) None)))) s
           else
             bindS (liftC (chunkPatch p off d raw)) (\<lambda>raw'.
             bindS (storePut (cstore C) (sha256 E raw') raw') (\<lambda>_.
             retS (blobLink (sha256 E raw') (length raw')))) s))"

lemma writeAt_beyond:
  "file_content E (store_get (cstore C) s) h c \<Longrightarrow> length c < off + length d \<Longrightarrow>
   writeAt E C h off d s = Some (Inl (WriteBeyondFile off (length d) (length c)), s)"
  by (auto simp: file_content_simp writeAt_def foldl_sizes tree_content_length)

lemma writeLinks_Cons:
  "writeLinks E C (l # ls) p off d s =
   bindS (writeHead E C l p off d) (\<lambda>l'. bindS (writeLinks E C ls (p + lsize l) off d) (\<lambda>ls'. retS (l' # ls'))) s"
  by (subst writeLinks.simps)
     (simp add: writeHead_def bindS_def Let_def encodeAndHash_def split: option.split)

context content_store
begin

text \<open>The new link and the state it leaves: sizes kept, the store grown, the content overlaid.\<close>

definition head_run :: "'s config \<Rightarrow> Link \<Rightarrow> nat \<Rightarrow> nat \<Rightarrow> bytes \<Rightarrow> 's \<Rightarrow> bytes \<Rightarrow> bool" where
  "head_run C l p off d s c \<longleftrightarrow> (\<exists>l' s'. writeHead E C l p off d s = Some (Inr l', s') \<and> grows s s' \<and>
     lsize l' = lsize l \<and> (inj_on (sha256 E) (offered s') \<longrightarrow>
       tree_content E plain (store_get ops s') [l'] (overlay p off d c) \<and> tree_wf E (store_get ops s') [l']))"

definition links_run :: "'s config \<Rightarrow> Link list \<Rightarrow> nat \<Rightarrow> nat \<Rightarrow> bytes \<Rightarrow> 's \<Rightarrow> bytes \<Rightarrow> bool" where
  "links_run C ls p off d s c \<longleftrightarrow> (\<exists>ls' s'. writeLinks E C ls p off d s = Some (Inr ls', s') \<and> grows s s' \<and>
     map lsize ls' = map lsize ls \<and> (inj_on (sha256 E) (offered s') \<longrightarrow>
       tree_content E plain (store_get ops s') ls' (overlay p off d c) \<and> tree_wf E (store_get ops s') ls'))"

lemma links_run_Cons:
  assumes h: "head_run C l p off d s c" and l: "lsize l = length c"
    and r: "\<And>s1. grows s s1 \<Longrightarrow> links_run C ls (p + lsize l) off d s1 cs"
  shows "links_run C (l # ls) p off d s (c @ cs)"
proof -
  obtain l' s1 where 1: "writeHead E C l p off d s = Some (Inr l', s1)" "grows s s1" "lsize l' = lsize l"
      "inj_on (sha256 E) (offered s1) \<longrightarrow>
         tree_content E plain (store_get ops s1) [l'] (overlay p off d c) \<and> tree_wf E (store_get ops s1) [l']"
    using h unfolding head_run_def by blast
  obtain ls' s2 where 2: "writeLinks E C ls (p + lsize l) off d s1 = Some (Inr ls', s2)" "grows s1 s2"
      "map lsize ls' = map lsize ls"
      "inj_on (sha256 E) (offered s2) \<longrightarrow>
         tree_content E plain (store_get ops s2) ls' (overlay (p + lsize l) off d cs) \<and> tree_wf E (store_get ops s2) ls'"
    using r [OF 1(2)] unfolding links_run_def by blast
  have "writeLinks E C (l # ls) p off d s = Some (Inr (l' # ls'), s2)"
    using 1 2 by (simp add: writeLinks_Cons bindS_def)
  moreover have "tree_content E plain (store_get ops s2) (l' # ls') (overlay p off d (c @ cs)) \<and>
      tree_wf E (store_get ops s2) (l' # ls')" if inj: "inj_on (sha256 E) (offered s2)"
  proof -
    note le = grows_map_le [OF 2(2)]
    have a: "tree_content E plain (store_get ops s2) [l'] (overlay p off d c)" "tree_wf E (store_get ops s2) [l']"
      using 1(4) grows_inj [OF 2(2) inj] tree_content_mono [OF _ le] tree_wf_mono [OF _ le] by blast+
    have t: "tree_content E plain (store_get ops s2) ls' (overlay (p + lsize l) off d cs)" "tree_wf E (store_get ops s2) ls'"
      using 2(4) inj by blast+
    show ?thesis using tree_content_append [OF a(1) t(1)] tree_wf_append [OF a(2) t(2)]
      by (simp add: overlay_append l)
  qed
  ultimately show ?thesis
    unfolding links_run_def using 1 2 grows_trans [OF 1(2) 2(2)] by auto
qed

lemma head_run_keep:
  assumes "sinv s" "p + lsize l \<le> off \<or> off + length d \<le> p" "lsize l = length c"
    and "tree_content E plain (store_get ops s) [l] c" "tree_wf E (store_get ops s) [l]"
  shows "head_run C l p off d s c"
  using assms by (auto simp: head_run_def writeHead_def overlay_outside)

lemma head_run_blob:
  assumes C: "cstore C = ops" and s: "sinv s" and l: "ltype l = Blob" "lsize l = length c" "link_ok l"
    and g: "store_get ops s (lhash l) = Some c"
    and over: "\<not> (p + lsize l \<le> off \<or> off + length d \<le> p)"
  shows "head_run C l p off d s c"
proof -
  let ?c = "overlay p off d c"
  obtain b s' where p: "storePut ops (sha256 E ?c) ?c s = Some (Inr b, s')" "grows s s'" "stored s' ?c"
    using storePut_run [OF s] by blast
  have "writeHead E C l p off d s = Some (Inr (blobLink (sha256 E ?c) (length ?c)), s')"
    using C l g over p(1) chunkPatch_overlay [of p off d c] by (simp add: writeHead_def bindS_def not_le)
  moreover have "tree_content E plain (store_get ops s') [blobLink (sha256 E ?c) (length ?c)] ?c"
    if "inj_on (sha256 E) (offered s')"
    using that p(3) by (intro tree_content_single_blob) (simp_all add: blobLink_def stored_def)
  moreover have "tree_wf E (store_get ops s') [blobLink (sha256 E ?c) (length ?c)]"
    using l by (intro tw_blob tw_nil) (simp_all add: blobLink_def link_ok_def)
  ultimately show ?thesis unfolding head_run_def using p(2) l(2) by (auto simp: blobLink_def)
qed

lemma head_run_node:
  assumes C: "cstore C = ops" and E: "msgpack_ok E" and l: "ltype l \<noteq> Blob" "lsize l = length c" "link_ok l"
    and g: "store_get ops s (lhash l) = Some raw" "tryDecodeTreeNode E raw = Some n"
    and over: "\<not> (p + lsize l \<le> off \<or> off + length d \<le> p)"
    and IH: "links_run C (nlinks n) 0 (off - p) (childPatch p (p + lsize l) off d) s c"
  shows "head_run C l p off d s c"
proof -
  obtain ls s1 where 1: "writeLinks E C (nlinks n) 0 (off - p) (childPatch p (p + lsize l) off d) s = Some (Inr ls, s1)"
      "grows s s1" "inj_on (sha256 E) (offered s1) \<longrightarrow> tree_content E plain (store_get ops s1) ls (overlay p off d c)
        \<and> tree_wf E (store_get ops s1) ls"
    using IH unfolding links_run_def by (auto simp: l(2) overlay_child)
  let ?n = "\<lparr>ntype = File, nlinks = ls\<rparr>"
  obtain b s2 where 2: "storePut ops (sha256 E (encodeTreeNode E ?n)) (encodeTreeNode E ?n) s1 = Some (Inr b, s2)"
      "grows s1 s2" "stored s2 (encodeTreeNode E ?n)"
    using storePut_run [OF grows_sinv [OF 1(2)]] by blast
  let ?l = "fileLink (sha256 E (encodeTreeNode E ?n)) (lsize l) None"
  have run: "writeHead E C l p off d s = Some (Inr ?l, s2)"
    using C l g over 1(1) 2(1) by (simp add: writeHead_def bindS_def decodeTreeNode_def)
  have "tree_content E plain (store_get ops s2) [?l] (overlay p off d c) \<and> tree_wf E (store_get ops s2) [?l]"
    if inj: "inj_on (sha256 E) (offered s2)"
  proof -
    note le = grows_map_le [OF 2(2)]
    have t: "tree_content E plain (store_get ops s2) ls (overlay p off d c)" "tree_wf E (store_get ops s2) ls"
      using 1(3) grows_inj [OF 2(2) inj] tree_content_mono [OF _ le] tree_wf_mono [OF _ le] by blast+
    have "node_ok ?n" using tree_wf_link_ok [OF t(2)] by (simp add: node_ok_def)
    then have dec: "tryDecodeTreeNode E (encodeTreeNode E ?n) = Some (canonNode ?n)" by (rule tryDecode_encode [OF E])
    have get: "store_get ops s2 (lhash ?l) = Some (encodeTreeNode E ?n)"
      using 2(3) inj by (simp add: fileLink_def stored_def)
    have lk: "link_ok ?l" using l by (simp add: fileLink_def link_ok_def linkTypeNum_def)
    have ty: "ltype ?l \<noteq> Blob" "lsize ?l = length (overlay p off d c)" using l(2) by (simp_all add: fileLink_def)
    have "tree_content E plain (store_get ops s2) (nlinks (canonNode ?n)) (overlay p off d c)"
      "tree_wf E (store_get ops s2) (nlinks (canonNode ?n))"
      using tree_content_canon [OF t(1)] tree_wf_canon [OF t(2)] by simp_all
    with ty lk get dec opens_plain show ?thesis by (blast intro: tree_content_single_node tw_node tw_nil)
  qed
  with run show ?thesis unfolding head_run_def using grows_trans [OF 1(2) 2(2)] by (auto simp: fileLink_def)
qed

lemma buildTreeFromLinks_eq: "buildTreeFromLinks E C links n = buildTree E C links (Some n)"
  by (simp add: buildTreeFromLinks_def buildTree_def)

lemma writeLinks_run:
  assumes C: "cstore C = ops" and E: "msgpack_ok E"
  shows "tree_content E plain get ls c \<Longrightarrow> tree_wf E get ls \<Longrightarrow> get \<subseteq>\<^sub>m store_get ops s \<Longrightarrow> sinv s \<Longrightarrow>
    links_run C ls p off d s c"
proof (induction arbitrary: s p off d rule: tree_content.induct)
  case tc_nil
  then show ?case by (simp add: links_run_def writeLinks.simps tree_content.tc_nil tree_wf.tw_nil)
next
  case (tc_blob l c ls cs)
  from tc_blob.prems(1) tc_blob.hyps have wf: "link_ok l" "tree_wf E get ls" by (auto elim: tree_wf_ConsE)
  have get: "store_get ops s (lhash l) = Some c" using tc_blob by (simp add: map_le_trans_get)
  have "head_run C l p off d s c"
  proof (cases "p + lsize l \<le> off \<or> off + length d \<le> p")
    case True
    then show ?thesis using tc_blob wf get
      by (intro head_run_keep) (auto intro: tw_blob tw_nil tree_content_single_blob)
  next
    case False
    then show ?thesis using tc_blob wf get C by (intro head_run_blob)
  qed
  moreover have "links_run C ls (p + lsize l) off d s1 cs" if "grows s s1" for s1
    using that tc_blob.IH wf(2) map_le_trans [OF tc_blob.prems(2) grows_map_le [OF that]] grows_sinv by blast
  ultimately show ?case using tc_blob.hyps by (intro links_run_Cons)
next
  case (tc_node l raw n c ls cs)
  from tc_node.prems(1) tc_node.hyps have wf: "link_ok l" "tree_wf E get (nlinks n)" "tree_wf E get ls"
    by (auto elim: tree_wf_ConsE)
  have get: "store_get ops s (lhash l) = Some raw" using tc_node by (simp add: map_le_trans_get)
  have "head_run C l p off d s c"
  proof (cases "p + lsize l \<le> off \<or> off + length d \<le> p")
    case True
    then show ?thesis
      using tc_node wf get tree_content_mono [OF tc_node.hyps(4) tc_node.prems(2)] tree_wf_mono [OF wf(2) tc_node.prems(2)]
      by (intro head_run_keep) (auto intro: tw_node tw_nil tree_content_single_node)
  next
    case False
    then show ?thesis using tc_node wf get C E by (intro head_run_node) auto
  qed
  moreover have "links_run C ls (p + lsize l) off d s1 cs" if "grows s s1" for s1
    using that tc_node.IH(2) wf(3) map_le_trans [OF tc_node.prems(2) grows_map_le [OF that]] grows_sinv by blast
  ultimately show ?case using tc_node.hyps by (intro links_run_Cons)
qed

lemma buildTree_content:
  assumes C: "cstore C = ops" and E: "msgpack_ok E" and s: "sinv s"
    and t: "inj_on (sha256 E) (offered s) \<longrightarrow> tree_content E plain (store_get ops s) ls c \<and> tree_wf E (store_get ops s) ls"
    and c: "tryDecodeTreeNode E c = None"
  shows "\<exists>h s'. buildTree E C ls tot s = Some (Inr h, s') \<and> grows s s' \<and>
    (inj_on (sha256 E) (offered s') \<longrightarrow> file_content E (store_get ops s') h c \<and> file_wf E (store_get ops s') h)"
proof (cases "length ls = 1 \<and> Some (lsize (ls ! 0)) = tot")
  case True
  then obtain l where l: "ls = [l]" by (auto simp: length_Suc_conv)
  with True s t c single_link_content file_wf_single show ?thesis by (fastforce simp: buildTree_def)
next
  case False
  let ?n = "\<lparr>ntype = File, nlinks = ls\<rparr>"
  obtain s' where s': "buildTree E C ls tot s = Some (Inr (sha256 E (encodeTreeNode E ?n)), s')" "grows s s'"
      "stored s' (encodeTreeNode E ?n)"
    using buildTree_run [OF C s False] by blast
  have "file_content E (store_get ops s') (sha256 E (encodeTreeNode E ?n)) c
      \<and> file_wf E (store_get ops s') (sha256 E (encodeTreeNode E ?n))" if inj: "inj_on (sha256 E) (offered s')"
  proof (rule file_wf_node)
    have t': "tree_content E plain (store_get ops s) ls c" "tree_wf E (store_get ops s) ls"
      using t grows_inj [OF s'(2) inj] by blast+
    then show "tryDecodeTreeNode E (encodeTreeNode E ?n) = Some (canonNode ?n)"
      by (intro tryDecode_encode [OF E]) (auto simp: node_ok_def dest: tree_wf_link_ok)
    show "tree_content E plain (store_get ops s') (nlinks (canonNode ?n)) c"
      using tree_content_canon [OF tree_content_mono [OF t'(1) grows_map_le [OF s'(2)]]] by simp
    show "store_get ops s' (sha256 E (encodeTreeNode E ?n)) = Some (encodeTreeNode E ?n)"
      using s'(3) inj by (simp add: stored_def)
    show "tree_wf E (store_get ops s') (nlinks (canonNode ?n))"
      using tree_wf_canon [OF tree_wf_mono [OF t'(2) grows_map_le [OF s'(2)]]] by simp
  qed
  with s' show ?thesis by blast
qed

lemma writeAt_run:
  assumes C: "cstore C = ops" and E: "msgpack_ok E" and s: "sinv s"
    and f: "file_content E (store_get ops s) h c" "file_wf E (store_get ops s) h"
    and fits: "off + length d \<le> length c" and c: "tryDecodeTreeNode E (overwrite off d c) = None"
  shows "\<exists>h' s'. writeAt E C h off d s = Some (Inr \<lparr>rhash = h', rsize = length c\<rparr>, s') \<and> grows s s' \<and>
    (inj_on (sha256 E) (offered s') \<longrightarrow> file_content E (store_get ops s') h' (overwrite off d c)
       \<and> file_wf E (store_get ops s') h')"
  using f(1)
proof (cases rule: file_content.cases)
  case fc_blob
  let ?c = "overwrite off d c"
  obtain b s' where p: "storePut ops (sha256 E ?c) ?c s = Some (Inr b, s')" "grows s s'" "stored s' ?c"
    using storePut_run [OF s] by blast
  have "writeAt E C h off d s = Some (Inr \<lparr>rhash = sha256 E ?c, rsize = length c\<rparr>, s')"
    using fc_blob C fits p(1) by (simp add: writeAt_def setBytes_def bindS_def)
  moreover have "file_content E (store_get ops s') (sha256 E ?c) ?c \<and> file_wf E (store_get ops s') (sha256 E ?c)"
    if "inj_on (sha256 E) (offered s')"
    using that p(3) c by (intro file_wf_blob) (simp_all add: stored_def)
  ultimately show ?thesis using p(2) by blast
next
  case (fc_node raw n)
  then have "tree_wf E (store_get ops s) (nlinks n)" using f(2) by (simp add: file_wf_def)
  from writeLinks_run [OF C E fc_node(3) this map_le_refl s, of 0 off d]
  obtain ls s1 where 1: "writeLinks E C (nlinks n) 0 off d s = Some (Inr ls, s1)" "grows s s1"
      "inj_on (sha256 E) (offered s1) \<longrightarrow> tree_content E plain (store_get ops s1) ls (overwrite off d c)
        \<and> tree_wf E (store_get ops s1) ls"
    unfolding links_run_def by (auto simp: overlay_overwrite [OF fits])
  obtain h' s2 where 2: "buildTree E C ls (Some (length c)) s1 = Some (Inr h', s2)" "grows s1 s2"
      "inj_on (sha256 E) (offered s2) \<longrightarrow> file_content E (store_get ops s2) h' (overwrite off d c)
        \<and> file_wf E (store_get ops s2) h'"
    using buildTree_content [OF C E grows_sinv [OF 1(2)] 1(3) c] by blast
  have "writeAt E C h off d s = Some (Inr \<lparr>rhash = h', rsize = length c\<rparr>, s2)"
    using fc_node C fits 1(1) 2(1) tree_content_length [OF fc_node(3)]
    by (simp add: writeAt_def writeAtInNode_def bindS_def foldl_sizes buildTreeFromLinks_eq)
  with 2 show ?thesis using grows_trans [OF 1(2) 2(2)] by blast
qed

end

end
