(* ===== verification/Builder.thy ===== *)
theory Builder
  imports Encrypted
begin

text \<open>
  The builder classes (\<open>builder.ts\<close>) and the stream writer (\<open>streaming.ts\<close>): files cut by a chunker
  (a chunk size per chunk index), directories, and streams to which data is appended piece by piece.

  \<open>StreamBuilder\<close> and \<open>StreamWriter\<close> have the same buffering code and differ in how a chunk and the root
  node are stored; the buffering is modelled once, over the operation \<open>putChunk\<close> that stores a chunk.
\<close>

type_synonym chunker = "nat \<Rightarrow> nat"

definition DEFAULT_CHUNK_SIZE :: nat where
  "DEFAULT_CHUNK_SIZE = 2 * 1024 * 1024"

definition fixedChunker :: "nat \<Rightarrow> chunker" where
  "fixedChunker n = (\<lambda>_. n)"

definition videoChunker :: "nat \<Rightarrow> nat \<Rightarrow> chunker" where
  "videoChunker firstChunkSize regularChunkSize = (\<lambda>index. if index = 0 then firstChunkSize else regularChunkSize)"

section \<open>TreeBuilder\<close>

text \<open>The loop that cuts the data; it does not end when the chunker answers 0 before the end.\<close>

partial_function (option) cutChunks :: "chunker \<Rightarrow> bytes \<Rightarrow> nat \<Rightarrow> nat \<Rightarrow> bytes list option" where
  "cutChunks ck d offset chunkIndex =
     (if offset < length d then
        (let e = min (offset + ck chunkIndex) (length d)
         in Option.bind (cutChunks ck d e (chunkIndex + 1)) (\<lambda>rest. Some (slice offset e d # rest)))
      else Some [])"

declare cutChunks.simps [code]

text \<open>\<open>Promise.all(chunkList.map(putBlob))\<close> and the sequential loop store the same blobs; the puts are
  taken in list order.\<close>

fun putBlobs :: "ext \<Rightarrow> 's store_ops \<Rightarrow> bytes list \<Rightarrow> ('s, hash list) op" where
  "putBlobs E st [] = retS []"
| "putBlobs E st (c # cs) = bindS (putBlob E st c) (\<lambda>h. bindS (putBlobs E st cs) (\<lambda>hs. retS (h # hs)))"

definition builder_buildTree :: "ext \<Rightarrow> 's store_ops \<Rightarrow> Link list \<Rightarrow> nat option \<Rightarrow> ('s, hash) op" where
  "builder_buildTree E st links totalSize =
     (if length links = 1 \<and> Some (lsize (links ! 0)) = totalSize then retS (lhash (links ! 0))
      else case encodeAndHash E \<lparr>ntype = File, nlinks = links\<rparr> of
        (d, h) \<Rightarrow> bindS (storePut st h d) (\<lambda>_. retS h))"

definition builder_putFile :: "ext \<Rightarrow> 's store_ops \<Rightarrow> chunker \<Rightarrow> bytes \<Rightarrow> ('s, FileResult) op" where
  "builder_putFile E st ck d =
     (if length d \<le> ck 0
      then bindS (putBlob E st d) (\<lambda>h. retS \<lparr>rhash = h, rsize = length d\<rparr>)
      else bindS (liftC (map_option Inr (cutChunks ck d 0 0))) (\<lambda>chunkList.
           bindS (putBlobs E st chunkList) (\<lambda>chunkHashes.
           bindS (builder_buildTree E st
                    (map2 (\<lambda>h c. blobLink h (length c)) chunkHashes chunkList) (Some (length d))) (\<lambda>h.
           retS \<lparr>rhash = h, rsize = length d\<rparr>))))"

definition builder_putDirectory :: "ext \<Rightarrow> 's store_ops \<Rightarrow> chunker \<Rightarrow> TreeEntry list \<Rightarrow> ('s, hash) op" where
  "builder_putDirectory E st ck entries =
     (case encodeAndHash E \<lparr>ntype = Dir, nlinks = map (\<lambda>e. (entryLink e)\<lparr>lkey := None\<rparr>) (sortEntries E entries)\<rparr> of
        (d, h) \<Rightarrow>
          if length d \<le> ck 0 then bindS (storePut st h d) (\<lambda>_. retS h)
          else bindS (builder_putFile E st ck d) (\<lambda>r. retS (rhash r)))"

definition putTreeNode :: "ext \<Rightarrow> 's store_ops \<Rightarrow> LinkType \<Rightarrow> Link list \<Rightarrow> ('s, hash) op" where
  "putTreeNode E st nodeType links =
     (case encodeAndHash E \<lparr>ntype = nodeType, nlinks = links\<rparr> of
        (d, h) \<Rightarrow> bindS (storePut st h d) (\<lambda>_. retS h))"

section \<open>Buffered streams\<close>

record stream =
  sbuffer :: bytes
  sbufferOffset :: nat
  schunks :: "Link list"
  stotalSize :: nat

definition stream_init :: "chunker \<Rightarrow> stream" where
  "stream_init ck = \<lparr>sbuffer = replicate (ck 0) 0, sbufferOffset = 0, schunks = [], stotalSize = 0\<rparr>"

definition currentChunkSize :: "chunker \<Rightarrow> stream \<Rightarrow> nat" where
  "currentChunkSize ck W = ck (length (schunks W))"

definition flushChunk :: "(bytes \<Rightarrow> ('s, Link) op) \<Rightarrow> stream \<Rightarrow> ('s, stream) op" where
  "flushChunk putChunk W =
     (if sbufferOffset W = 0 then retS W
      else bindS (putChunk (take (sbufferOffset W) (sbuffer W))) (\<lambda>l.
           retS (W\<lparr>schunks := schunks W @ [l], sbufferOffset := 0\<rparr>)))"

text \<open>The buffer for the current chunk size: a new one when the size changes, with what was buffered.\<close>

definition resizeBuffer :: "nat \<Rightarrow> stream \<Rightarrow> bytes comp" where
  "resizeBuffer targetSize W =
     (if length (sbuffer W) \<noteq> targetSize
      then (if 0 < sbufferOffset W
            then setBytes (replicate targetSize 0) (take (sbufferOffset W) (sbuffer W)) 0
            else ret (replicate targetSize 0))
      else ret (sbuffer W))"

partial_function (option) appendLoop ::
  "(bytes \<Rightarrow> 's \<Rightarrow> (Link res \<times> 's) option) \<Rightarrow> chunker \<Rightarrow> bytes \<Rightarrow> nat \<Rightarrow> stream \<Rightarrow> 's \<Rightarrow> (stream res \<times> 's) option" where
  "appendLoop putChunk ck d offset W s =
     (if offset < length d then
        (let targetSize = currentChunkSize ck W in
         bindS (liftC (resizeBuffer targetSize W)) (\<lambda>buf s1.
         let toWrite = min (targetSize - sbufferOffset W) (length d - offset) in
         bindS (liftC (setBytes buf (slice offset (offset + toWrite) d) (sbufferOffset W))) (\<lambda>buf2 s2.
         let W2 = W\<lparr>sbuffer := buf2, sbufferOffset := sbufferOffset W + toWrite\<rparr> in
         bindS (\<lambda>s3. if sbufferOffset W2 = targetSize then flushChunk putChunk W2 s3 else retS W2 s3) (\<lambda>W3.
         appendLoop putChunk ck d (offset + toWrite) W3) s2) s1) s)
      else retS W s)"

declare appendLoop.simps [code]

definition stream_append :: "(bytes \<Rightarrow> ('s, Link) op) \<Rightarrow> chunker \<Rightarrow> bytes \<Rightarrow> stream \<Rightarrow> ('s, stream) op" where
  "stream_append putChunk ck d W =
     bindS (appendLoop putChunk ck d 0 W) (\<lambda>W'. retS (W'\<lparr>stotalSize := stotalSize W' + length d\<rparr>))"

section \<open>StreamBuilder and StreamWriter\<close>

definition putPlainChunk :: "ext \<Rightarrow> 's store_ops \<Rightarrow> bytes \<Rightarrow> ('s, Link) op" where
  "putPlainChunk E st chunk =
     (let h = sha256 E chunk in bindS (storePut st h chunk) (\<lambda>_. retS (blobLink h (length chunk))))"

definition putEncryptedChunk :: "ext \<Rightarrow> 's store_ops \<Rightarrow> bytes \<Rightarrow> ('s, Link) op" where
  "putEncryptedChunk E st chunk =
     bindS (putEncryptedBlock E st chunk) (\<lambda>hk.
     retS ((blobLink (fst hk) (length chunk))\<lparr>lkey := Some (snd hk)\<rparr>))"

definition builder_treeFromChunks :: "ext \<Rightarrow> 's store_ops \<Rightarrow> Link list \<Rightarrow> ('s, hash) op" where
  "builder_treeFromChunks E st chunks =
     (if length chunks = 1 then retS (lhash (chunks ! 0))
      else case encodeAndHash E \<lparr>ntype = File, nlinks = chunks\<rparr> of
        (d, h) \<Rightarrow> bindS (storePut st h d) (\<lambda>_. retS h))"

definition builder_currentRoot :: "ext \<Rightarrow> 's store_ops \<Rightarrow> stream \<Rightarrow> ('s, hash option) op" where
  "builder_currentRoot E st W =
     (if schunks W = [] \<and> sbufferOffset W = 0 then retS None
      else bindS (\<lambda>s. if 0 < sbufferOffset W
                      then bindS (putPlainChunk E st (take (sbufferOffset W) (sbuffer W)))
                             (\<lambda>l. retS (schunks W @ [l])) s
                      else retS (schunks W) s) (\<lambda>tempChunks.
           bindS (builder_treeFromChunks E st tempChunks) (\<lambda>h. retS (Some h))))"

definition builder_finalize :: "ext \<Rightarrow> 's store_ops \<Rightarrow> stream \<Rightarrow> ('s, FileResult) op" where
  "builder_finalize E st W0 =
     bindS (flushChunk (putPlainChunk E st) W0) (\<lambda>W.
     if schunks W = []
     then bindS (putBlob E st []) (\<lambda>h. retS \<lparr>rhash = h, rsize = 0\<rparr>)
     else bindS (builder_treeFromChunks E st (schunks W)) (\<lambda>h.
          retS \<lparr>rhash = h, rsize = stotalSize W\<rparr>))"

definition putStreamChunk :: "ext \<Rightarrow> 's store_ops \<Rightarrow> bool \<Rightarrow> bytes \<Rightarrow> ('s, Link) op" where
  "putStreamChunk E st unencrypted = (if unencrypted then putPlainChunk E st else putEncryptedChunk E st)"

definition treeFromChunks :: "ext \<Rightarrow> 's store_ops \<Rightarrow> bool \<Rightarrow> Link list \<Rightarrow> ('s, CID) op" where
  "treeFromChunks E st unencrypted chunks =
     (if length chunks = 1 then retS (cid (lhash (chunks ! 0)) (lkey (chunks ! 0)))
      else case encodeAndHash E \<lparr>ntype = File, nlinks = chunks\<rparr> of
        (d, nodeHash) \<Rightarrow>
          if unencrypted then bindS (storePut st nodeHash d) (\<lambda>_. retS (cid nodeHash None))
          else bindS (putEncryptedBlock E st d) (\<lambda>hk. retS (cid (fst hk) (Some (snd hk)))))"

definition currentRoot :: "ext \<Rightarrow> 's store_ops \<Rightarrow> bool \<Rightarrow> stream \<Rightarrow> ('s, CID option) op" where
  "currentRoot E st unencrypted W =
     (if schunks W = [] \<and> sbufferOffset W = 0 then retS None
      else bindS (\<lambda>s. if 0 < sbufferOffset W
                      then bindS (putStreamChunk E st unencrypted (take (sbufferOffset W) (sbuffer W)))
                             (\<lambda>l. retS (schunks W @ [l])) s
                      else retS (schunks W) s) (\<lambda>tempChunks.
           bindS (treeFromChunks E st unencrypted tempChunks) (\<lambda>c. retS (Some c))))"

record StreamResult =
  scid :: CID
  ssize :: nat

definition finalize :: "ext \<Rightarrow> 's store_ops \<Rightarrow> bool \<Rightarrow> stream \<Rightarrow> ('s, StreamResult) op" where
  "finalize E st unencrypted W0 =
     bindS (flushChunk (putStreamChunk E st unencrypted) W0) (\<lambda>W.
     if schunks W = [] then
       (if unencrypted then bindS (putBlob E st []) (\<lambda>h. retS \<lparr>scid = cid h None, ssize = 0\<rparr>)
        else bindS (putEncryptedBlock E st []) (\<lambda>hk. retS \<lparr>scid = cid (fst hk) (Some (snd hk)), ssize = 0\<rparr>))
     else bindS (treeFromChunks E st unencrypted (schunks W)) (\<lambda>c.
          retS \<lparr>scid = c, ssize = stotalSize W\<rparr>))"

definition stream_stats :: "stream \<Rightarrow> nat \<times> nat \<times> nat" where
  "stream_stats W = (length (schunks W), sbufferOffset W, stotalSize W)"

definition clear :: "stream \<Rightarrow> stream" where
  "clear W = W\<lparr>schunks := [], sbuffer := [], sbufferOffset := 0, stotalSize := 0\<rparr>"

section \<open>TreeBuilder with a fixed chunk size is \<open>putFile\<close>\<close>

lemma cutChunks_fixed: "0 < c \<Longrightarrow> cutChunks (fixedChunker c) d off i = Some (chunks_of c (drop off d))"
proof (induction "length d - off" arbitrary: off i rule: less_induct)
  case less
  show ?case
  proof (cases "off < length d")
    case True
    let ?e = "min (off + c) (length d)"
    have "length d - ?e < length d - off" using True less.prems by auto
    from less.hyps [OF this less.prems] have "cutChunks (fixedChunker c) d ?e (i + 1) = Some (chunks_of c (drop ?e d))" .
    with True less.prems show ?thesis
      by (simp add: cutChunks.simps [of _ _ off] chunks_of_drop Let_def fixedChunker_def)
  qed (simp add: cutChunks.simps)
qed

lemma putFile_loop_putBlobs:
  assumes c: "0 < chunkSize C"
  shows "putFile_loop E C d off links =
    bindS (putBlobs E (cstore C) (chunks_of (chunkSize C) (drop off d))) (\<lambda>hs.
      retS (links @ map2 (\<lambda>h ch. blobLink h (length ch)) hs (chunks_of (chunkSize C) (drop off d))))"
proof (induction "length d - off" arbitrary: off links rule: less_induct)
  case less
  show ?case
  proof (cases "off < length d")
    case True
    let ?e = "min (off + chunkSize C) (length d)"
    have lt: "length d - ?e < length d - off" using True c by auto
    have "putFile_loop E C d off links = bindS (putBlob E (cstore C) (slice off ?e d))
        (\<lambda>h. putFile_loop E C d ?e (links @ [blobLink h (length (slice off ?e d))]))"
      by (rule HOL.ext) (simp add: putFile_loop.simps [of E C d off] True Let_def)
    then show ?thesis
      unfolding less.hyps [OF lt] chunks_of_drop [OF c True] by (simp add: bindS_assoc del: bindS_simps)
  next
    case False
    then show ?thesis by (auto intro: HOL.ext simp: putFile_loop.simps)
  qed
qed

lemma builder_putFile_fixed:
  assumes "0 < c"
  shows "builder_putFile E st (fixedChunker c) d = putFile E \<lparr>cstore = st, chunkSize = c\<rparr> d"
proof -
  have "builder_buildTree E st ls n = buildTree E \<lparr>cstore = st, chunkSize = c\<rparr> ls n" for ls n
    by (simp add: builder_buildTree_def buildTree_def)
  moreover have "fixedChunker c 0 = c" by (simp add: fixedChunker_def)
  ultimately show ?thesis using assms
    by (simp add: builder_putFile_def putFile_def cutChunks_fixed liftC_ret putFile_loop_putBlobs
        bindS_assoc del: bindS_simps)
qed

section \<open>What a stream holds\<close>

definition buffered :: "stream \<Rightarrow> bytes" where
  "buffered W = take (sbufferOffset W) (sbuffer W)"

text \<open>Between two calls the buffer is never full, and has the size of the current chunk when it is in use.\<close>

definition stream_ok :: "chunker \<Rightarrow> stream \<Rightarrow> bool" where
  "stream_ok ck W \<longleftrightarrow> sbufferOffset W < currentChunkSize ck W \<and>
     (0 < sbufferOffset W \<longrightarrow> length (sbuffer W) = currentChunkSize ck W) \<and> (\<forall>l\<in>set (schunks W). link_ok l)"

definition chunker_ok :: "chunker \<Rightarrow> bool" where
  "chunker_ok ck \<longleftrightarrow> (\<forall>i. 0 < ck i \<and> ck i < 2 ^ 53)"

lemma stream_ok_init: "chunker_ok ck \<Longrightarrow> stream_ok ck (stream_init ck)"
  by (simp add: stream_ok_def stream_init_def currentChunkSize_def chunker_ok_def)

lemma resizeBuffer_run:
  assumes "stream_ok ck W"
  shows "\<exists>buf. resizeBuffer (currentChunkSize ck W) W = ret buf \<and> length buf = currentChunkSize ck W
    \<and> take (sbufferOffset W) buf = buffered W"
  using assms by (auto simp: resizeBuffer_def stream_ok_def setBytes_def buffered_def)

lemma take_overwrite: "off + length d \<le> length xs \<Longrightarrow> take (off + length d) (overwrite off d xs) = take off xs @ d"
  by (simp add: overwrite_def)

text \<open>A sequence of appends.\<close>

fun stream_appends :: "(bytes \<Rightarrow> ('s, Link) op) \<Rightarrow> chunker \<Rightarrow> bytes list \<Rightarrow> stream \<Rightarrow> ('s, stream) op" where
  "stream_appends putChunk ck [] W = retS W"
| "stream_appends putChunk ck (d # ds) W =
     bindS (stream_append putChunk ck d W) (stream_appends putChunk ck ds)"

text \<open>The contract of storing one chunk, for both ways of storing it.\<close>

locale chunk_writer = content_store E ops sinv offered
  for E :: ext and ops :: "'s store_ops" and sinv :: "'s \<Rightarrow> bool" and offered :: "'s \<Rightarrow> bytes set" +
  fixes opn :: opener and putChunk :: "bytes \<Rightarrow> ('s, Link) op"
  assumes putChunk_run: "sinv s \<Longrightarrow> \<exists>l s'. putChunk d s = Some (Inr l, s') \<and> grows s s' \<and>
      lsize l = length d \<and> (length d < 2 ^ 53 \<longrightarrow> link_ok l) \<and>
      (inj_on (sha256 E) (offered s') \<longrightarrow> tree_content E opn (store_get ops s') [l] d)"
begin

definition holds :: "'s \<Rightarrow> stream \<Rightarrow> bytes \<Rightarrow> bool" where
  "holds s W d \<longleftrightarrow> (\<exists>c. d = c @ buffered W \<and> sum_list (map lsize (schunks W)) = length c \<and>
     (inj_on (sha256 E) (offered s) \<longrightarrow> tree_content E opn (store_get ops s) (schunks W) c))"

lemma holds_grows:
  assumes h: "holds s W d" and g: "grows s s'"
  shows "holds s' W d"
proof -
  from h obtain c where c: "d = c @ buffered W \<and> sum_list (map lsize (schunks W)) = length c"
      "inj_on (sha256 E) (offered s) \<longrightarrow> tree_content E opn (store_get ops s) (schunks W) c"
    unfolding holds_def by blast
  have "inj_on (sha256 E) (offered s') \<longrightarrow> tree_content E opn (store_get ops s') (schunks W) c"
    using c(2) grows_inj [OF g] tree_content_mono [OF _ grows_map_le [OF g]] by blast
  with c(1) show ?thesis unfolding holds_def by blast
qed

lemma flush_run:
  assumes ck: "chunker_ok ck" and s: "sinv s" and W: "sbufferOffset W \<le> length (sbuffer W)" "length (sbuffer W) < 2 ^ 53"
    "\<forall>l\<in>set (schunks W). link_ok l" and h: "holds s W d"
  shows "\<exists>W' s'. flushChunk putChunk W s = Some (Inr W', s') \<and> grows s s' \<and> stream_ok ck W' \<and>
    holds s' W' d \<and> stotalSize W' = stotalSize W \<and> sbufferOffset W' = 0"
proof (cases "sbufferOffset W = 0")
  case True
  with ck s W h show ?thesis by (auto simp: flushChunk_def stream_ok_def chunker_ok_def currentChunkSize_def)
next
  case False
  obtain l s' where l: "putChunk (buffered W) s = Some (Inr l, s')" "grows s s'"
      "lsize l = length (buffered W) \<and> (length (buffered W) < 2 ^ 53 \<longrightarrow> link_ok l)"
      "inj_on (sha256 E) (offered s') \<longrightarrow> tree_content E opn (store_get ops s') [l] (buffered W)"
    using putChunk_run [OF s] by blast
  let ?W = "W\<lparr>schunks := schunks W @ [l], sbufferOffset := 0\<rparr>"
  from holds_grows [OF h l(2)] obtain c where c: "d = c @ buffered W \<and> sum_list (map lsize (schunks W)) = length c"
      "inj_on (sha256 E) (offered s') \<longrightarrow> tree_content E opn (store_get ops s') (schunks W) c"
    unfolding holds_def by blast
  have "holds s' ?W d"
    unfolding holds_def using c l(3,4)
    by (intro exI [of _ d]) (auto simp: buffered_def [of ?W] intro: tree_content_append)
  moreover have "stream_ok ck ?W"
    using ck W l(3) by (auto simp: stream_ok_def chunker_ok_def currentChunkSize_def buffered_def)
  moreover have "flushChunk putChunk W s = Some (Inr ?W, s')"
    using False l(1) by (simp add: flushChunk_def bindS_def buffered_def)
  ultimately show ?thesis using l(2) by auto
qed

lemma appendLoop_run:
  assumes ck: "chunker_ok ck"
  shows "sinv s \<Longrightarrow> stream_ok ck W \<Longrightarrow> holds s W d0 \<Longrightarrow>
    \<exists>W' s'. appendLoop putChunk ck d off W s = Some (Inr W', s') \<and> grows s s' \<and> stream_ok ck W' \<and>
      holds s' W' (d0 @ drop off d) \<and> stotalSize W' = stotalSize W"
proof (induction "length d - off" arbitrary: off W s d0 rule: less_induct)
  case less
  show ?case
  proof (cases "off < length d")
    case False
    then show ?thesis using less.prems by (auto simp: appendLoop.simps)
  next
    case True
    let ?t = "currentChunkSize ck W" and ?o = "sbufferOffset W"
    let ?n = "min (?t - ?o) (length d - off)"
    let ?d = "slice off (off + ?n) d"
    have t: "?o < ?t" "?t < 2 ^ 53" and n: "0 < ?n" "length ?d = ?n"
      using less.prems(2) True ck by (auto simp: stream_ok_def chunker_ok_def currentChunkSize_def)
    obtain buf where buf: "resizeBuffer ?t W = ret buf" "length buf = ?t" "take ?o buf = buffered W"
      using resizeBuffer_run [OF less.prems(2)] by blast
    let ?buf = "overwrite ?o ?d buf"
    let ?W = "W\<lparr>sbuffer := ?buf, sbufferOffset := ?o + ?n\<rparr>"
    have fit: "?o + length ?d \<le> length buf" using t n buf(2) by simp
    have bW: "buffered ?W = buffered W @ ?d"
      using take_overwrite [OF fit] buf(3) n(2) by (simp add: buffered_def [of ?W])
    have h: "holds s ?W (d0 @ ?d)" using less.prems(3) bW by (auto simp: holds_def)
    have "\<exists>W3 s3. (if sbufferOffset ?W = ?t then flushChunk putChunk ?W s else retS ?W s) = Some (Inr W3, s3) \<and>
        grows s s3 \<and> stream_ok ck W3 \<and> holds s3 W3 (d0 @ ?d) \<and> stotalSize W3 = stotalSize W"
    proof (cases "sbufferOffset ?W = ?t")
      case True
      then show ?thesis
        using flush_run [OF ck less.prems(1) _ _ _ h] less.prems(2) t buf(2) fit by (auto simp: stream_ok_def)
    next
      case False
      then show ?thesis using h less.prems t fit buf(2) n by (auto simp: stream_ok_def currentChunkSize_def)
    qed
    then obtain W3 s3 where 3: "(if sbufferOffset ?W = ?t then flushChunk putChunk ?W s else retS ?W s) = Some (Inr W3, s3)"
      "grows s s3" "stream_ok ck W3" "holds s3 W3 (d0 @ ?d)" "stotalSize W3 = stotalSize W" by blast
    have "length d - (off + ?n) < length d - off" using True n by linarith
    from less.hyps [OF this grows_sinv [OF 3(2)] 3(3,4)] obtain W' s' where
      W': "appendLoop putChunk ck d (off + ?n) W3 s3 = Some (Inr W', s')" "grows s3 s'" "stream_ok ck W'"
        "holds s' W' ((d0 @ ?d) @ drop (off + ?n) d)" "stotalSize W' = stotalSize W3" by blast
    have run: "appendLoop putChunk ck d off W s = appendLoop putChunk ck d (off + ?n) W3 s3"
      using True buf fit 3(1) by (subst appendLoop.simps) (simp add: bindS_def setBytes_def Let_def)
    have "holds s' W' (d0 @ drop off d)" using W'(4) slice_drop [of off ?n d] by (metis append_assoc)
    then show ?thesis unfolding run using W'(1,3,5) 3(5) grows_trans [OF 3(2) W'(2)] by auto
  qed
qed

lemma append_run:
  assumes "chunker_ok ck" "sinv s" "stream_ok ck W" "holds s W d0"
  shows "\<exists>W' s'. stream_append putChunk ck d W s = Some (Inr W', s') \<and> grows s s' \<and> stream_ok ck W' \<and>
    holds s' W' (d0 @ d) \<and> stotalSize W' = stotalSize W + length d"
proof -
  obtain W' s' where W': "appendLoop putChunk ck d 0 W s = Some (Inr W', s')" "grows s s'" "stream_ok ck W'"
      "holds s' W' (d0 @ d)" "stotalSize W' = stotalSize W"
    using appendLoop_run [OF assms, of d 0] by auto
  let ?W = "W'\<lparr>stotalSize := stotalSize W' + length d\<rparr>"
  have "holds s' ?W (d0 @ d)" "stream_ok ck ?W"
    using W'(3,4) by (simp_all add: holds_def buffered_def stream_ok_def currentChunkSize_def)
  with W' show ?thesis by (auto simp: stream_append_def bindS_def)
qed

lemma appends_run:
  assumes "chunker_ok ck"
  shows "sinv s \<Longrightarrow> stream_ok ck W \<Longrightarrow> holds s W d0 \<Longrightarrow>
    \<exists>W' s'. stream_appends putChunk ck ds W s = Some (Inr W', s') \<and> grows s s' \<and> stream_ok ck W' \<and>
      holds s' W' (d0 @ concat ds) \<and> stotalSize W' = stotalSize W + length (concat ds)"
proof (induction ds arbitrary: s W d0)
  case (Cons d ds)
  obtain W1 s1 where 1: "stream_append putChunk ck d W s = Some (Inr W1, s1)" "grows s s1" "stream_ok ck W1"
      "holds s1 W1 (d0 @ d)" "stotalSize W1 = stotalSize W + length d"
    using append_run [OF assms Cons.prems] by blast
  obtain W2 s2 where 2: "stream_appends putChunk ck ds W1 s1 = Some (Inr W2, s2)" "grows s1 s2" "stream_ok ck W2"
      "holds s2 W2 ((d0 @ d) @ concat ds)" "stotalSize W2 = stotalSize W1 + length (concat ds)"
    using Cons.IH [OF grows_sinv [OF 1(2)] 1(3,4)] by blast
  with 1 grows_trans [OF 1(2) 2(2)] show ?case by (auto simp: bindS_def)
qed simp

text \<open>After the last flush the chunk links alone hold the data.\<close>

lemma appends_flush_run:
  assumes ck: "chunker_ok ck" and s: "sinv s"
  shows "\<exists>W' s'. bindS (stream_appends putChunk ck ds (stream_init ck)) (flushChunk putChunk) s = Some (Inr W', s') \<and>
    grows s s' \<and> stotalSize W' = length (concat ds) \<and> (\<forall>l\<in>set (schunks W'). link_ok l) \<and>
    sum_list (map lsize (schunks W')) = length (concat ds) \<and>
    (inj_on (sha256 E) (offered s') \<longrightarrow> tree_content E opn (store_get ops s') (schunks W') (concat ds))"
proof -
  have "holds s (stream_init ck) []" by (simp add: holds_def stream_init_def buffered_def tc_nil)
  from appends_run [OF ck s stream_ok_init [OF ck] this, of ds] obtain W1 s1 where
    1: "stream_appends putChunk ck ds (stream_init ck) s = Some (Inr W1, s1)" "grows s s1" "stream_ok ck W1"
      "holds s1 W1 (concat ds)" "stotalSize W1 = length (concat ds)" by (auto simp: stream_init_def)
  have W1: "sbufferOffset W1 \<le> length (sbuffer W1) \<or> sbufferOffset W1 = 0"
    using 1(3) by (auto simp: stream_ok_def)
  have "\<exists>W' s'. flushChunk putChunk W1 s1 = Some (Inr W', s') \<and> grows s1 s' \<and> stream_ok ck W' \<and>
      holds s' W' (concat ds) \<and> stotalSize W' = stotalSize W1 \<and> sbufferOffset W' = 0"
  proof (cases "sbufferOffset W1 = 0")
    case True
    then show ?thesis using 1 grows_sinv [OF 1(2)] by (simp add: flushChunk_def)
  next
    case False
    then have "length (sbuffer W1) < 2 ^ 53" "sbufferOffset W1 \<le> length (sbuffer W1)"
      using 1(3) ck by (auto simp: stream_ok_def chunker_ok_def currentChunkSize_def)
    then show ?thesis using flush_run [OF ck grows_sinv [OF 1(2)] _ _ _ 1(4)] 1(3) by (simp add: stream_ok_def)
  qed
  then obtain W' s' where 2: "flushChunk putChunk W1 s1 = Some (Inr W', s')" "grows s1 s'" "stream_ok ck W'"
      "holds s' W' (concat ds)" "stotalSize W' = stotalSize W1" "sbufferOffset W' = 0" by blast
  have "sum_list (map lsize (schunks W')) = length (concat ds) \<and>
      (inj_on (sha256 E) (offered s') \<longrightarrow> tree_content E opn (store_get ops s') (schunks W') (concat ds))"
    using 2(4,6) by (auto simp: holds_def buffered_def)
  with 1 2 grows_trans [OF 1(2) 2(2)] show ?thesis by (auto simp: bindS_def stream_ok_def)
qed

end

section \<open>Both ways of storing a chunk keep the contract\<close>

sublocale content_store \<subseteq> plain_chunks: chunk_writer E ops sinv offered plain "putPlainChunk E ops"
proof
  fix s d
  assume "sinv s"
  from storePut_run [OF this, of d] obtain b s' where
    "storePut ops (sha256 E d) d s = Some (Inr b, s')" "grows s s'" "stored s' d" by blast
  then show "\<exists>l s'. putPlainChunk E ops d s = Some (Inr l, s') \<and> grows s s' \<and>
      lsize l = length d \<and> (length d < 2 ^ 53 \<longrightarrow> link_ok l) \<and>
      (inj_on (sha256 E) (offered s') \<longrightarrow> tree_content E plain (store_get ops s') [l] d)"
    by (auto simp: putPlainChunk_def bindS_def Let_def blobLink_def link_ok_def linkTypeNum_def stored_def
        intro!: tree_content_single_blob)
qed

context content_store
begin

lemma encrypted_chunks:
  assumes "aes_ok E" "digest_len E"
  shows "chunk_writer E ops sinv offered (chkOpener E) (putEncryptedChunk E ops)"
proof
  fix s d
  assume "sinv s"
  from putEncryptedBlock_run [OF this, of d] obtain s' where
    s': "putEncryptedBlock E ops d s = Some (Inr (sha256 E (fst (encryptChk E d)), sha256 E d), s')"
      "grows s s'" "stored s' (fst (encryptChk E d))" by blast
  then have "putEncryptedChunk E ops d s = Some (Inr (encLink E d), s')"
    by (simp add: putEncryptedChunk_def bindS_def encLink_def)
  moreover have "tree_content E (chkOpener E) (store_get ops s') [encLink E d] d" if "inj_on (sha256 E) (offered s')"
    using that s'(3) by (intro tree_content_single_blob opens_encLink assms) (simp_all add: stored_def)
  ultimately show "\<exists>l s'. putEncryptedChunk E ops d s = Some (Inr l, s') \<and> grows s s' \<and>
      lsize l = length d \<and> (length d < 2 ^ 53 \<longrightarrow> link_ok l) \<and>
      (inj_on (sha256 E) (offered s') \<longrightarrow> tree_content E (chkOpener E) (store_get ops s') [l] d)"
    using s'(2) by (auto simp: link_ok_def linkTypeNum_def)
qed

lemma treeFromChunks_plain:
  assumes E: "msgpack_ok E" and s: "sinv s" and ls: "ls \<noteq> []" "\<forall>l\<in>set ls. link_ok l"
    and t: "inj_on (sha256 E) (offered s) \<longrightarrow> tree_content E plain (store_get ops s) ls d"
    and d: "tryDecodeTreeNode E d = None"
  shows "\<exists>c s'. treeFromChunks E ops True ls s = Some (Inr c, s') \<and> grows s s' \<and>
    (inj_on (sha256 E) (offered s') \<longrightarrow> file_content E (store_get ops s') (chash c) d)"
proof (cases "length ls = 1")
  case True
  then obtain l where "ls = [l]" by (auto simp: length_Suc_conv)
  with s t d single_link_content show ?thesis by (auto simp: treeFromChunks_def cid_def)
next
  case False
  let ?n = "\<lparr>ntype = File, nlinks = ls\<rparr>"
  obtain b s' where s': "storePut ops (sha256 E (encodeTreeNode E ?n)) (encodeTreeNode E ?n) s = Some (Inr b, s')"
      "grows s s'" "stored s' (encodeTreeNode E ?n)" using storePut_run [OF s] by blast
  have "tryDecodeTreeNode E (encodeTreeNode E ?n) = Some (canonNode ?n)"
    using ls by (intro tryDecode_encode [OF E]) (simp add: node_ok_def)
  moreover have "tree_content E plain (store_get ops s') (nlinks (canonNode ?n)) d" if "inj_on (sha256 E) (offered s')"
    using tree_content_canon [OF tree_content_mono [OF _ grows_map_le [OF s'(2)]]] t grows_inj [OF s'(2) that] by simp
  ultimately have "file_content E (store_get ops s') (sha256 E (encodeTreeNode E ?n)) d"
    if "inj_on (sha256 E) (offered s')"
    using that s'(3) by (intro fc_node) (auto simp: stored_def)
  with s' False show ?thesis
    by (auto simp: treeFromChunks_def encodeAndHash_def Let_def bindS_def cid_def)
qed

lemma treeFromChunks_encrypted:
  assumes E: "msgpack_ok E" "aes_ok E" "digest_len E" and s: "sinv s" and ls: "ls \<noteq> []" "\<forall>l\<in>set ls. link_ok l"
    and t: "inj_on (sha256 E) (offered s) \<longrightarrow> tree_content E (chkOpener E) (store_get ops s) ls d"
    and d: "tryDecodeTreeNode E d = None"
  shows "\<exists>c s'. treeFromChunks E ops False ls s = Some (Inr c, s') \<and> grows s s' \<and>
    (inj_on (sha256 E) (offered s') \<longrightarrow> (\<exists>k. ckey c = Some k \<and> encrypted_content E (store_get ops s') (chash c) k d))"
proof (cases "length ls = 1")
  case True
  then obtain l where "ls = [l]" by (auto simp: length_Suc_conv)
  with s t d single_link_encrypted show ?thesis by (auto simp: treeFromChunks_def cid_def)
next
  case False
  let ?n = "\<lparr>ntype = File, nlinks = ls\<rparr>"
  let ?raw = "encodeTreeNode E ?n"
  obtain s' where s': "putEncryptedBlock E ops ?raw s = Some (Inr (sha256 E (fst (encryptChk E ?raw)), sha256 E ?raw), s')"
      "grows s s'" "stored s' (fst (encryptChk E ?raw))" using putEncryptedBlock_run [OF s] by blast
  have dec: "tryDecodeTreeNode E ?raw = Some (canonNode ?n)"
    using ls by (intro tryDecode_encode [OF E(1)]) (simp add: node_ok_def)
  have "encrypted_content E (store_get ops s') (sha256 E (fst (encryptChk E ?raw))) (sha256 E ?raw) d"
    if inj: "inj_on (sha256 E) (offered s')"
  proof (rule ec_node)
    show "store_get ops s' (sha256 E (fst (encryptChk E ?raw))) = Some (fst (encryptChk E ?raw))"
      using s'(3) inj by (simp add: stored_def)
    show "decryptChk E (fst (encryptChk E ?raw)) (sha256 E ?raw) = Inr ?raw" using E by simp
    show "tree_content E (chkOpener E) (store_get ops s') (nlinks (canonNode ?n)) d"
      using tree_content_canon [OF tree_content_mono [OF _ grows_map_le [OF s'(2)]]] t grows_inj [OF s'(2) inj] by simp
  qed (rule dec)
  with s' False show ?thesis
    by (auto simp: treeFromChunks_def encodeAndHash_def Let_def bindS_def cid_def)
qed

lemma stream_plain_run:
  assumes ck: "chunker_ok ck" and E: "msgpack_ok E" and s: "sinv s" and d: "tryDecodeTreeNode E (concat ds) = None"
  shows "\<exists>r s'. bindS (stream_appends (putStreamChunk E ops True) ck ds (stream_init ck)) (finalize E ops True) s
      = Some (Inr r, s') \<and> grows s s' \<and> ssize r = length (concat ds) \<and>
    (inj_on (sha256 E) (offered s') \<longrightarrow> file_content E (store_get ops s') (chash (scid r)) (concat ds))"
proof -
  obtain W s1 where W: "bindS (stream_appends (putPlainChunk E ops) ck ds (stream_init ck)) (flushChunk (putPlainChunk E ops)) s
        = Some (Inr W, s1)" "grows s s1" "stotalSize W = length (concat ds)" "\<forall>l\<in>set (schunks W). link_ok l"
      "sum_list (map lsize (schunks W)) = length (concat ds)"
      "inj_on (sha256 E) (offered s1) \<longrightarrow> tree_content E plain (store_get ops s1) (schunks W) (concat ds)"
    using plain_chunks.appends_flush_run [OF ck s, of ds] by blast
  note s1 = grows_sinv [OF W(2)]
  define K where "K W = (if schunks W = [] then bindS (putBlob E ops []) (\<lambda>h. retS \<lparr>scid = cid h None, ssize = 0\<rparr>)
     else bindS (treeFromChunks E ops True (schunks W)) (\<lambda>c. retS \<lparr>scid = c, ssize = stotalSize W\<rparr>))" for W :: stream
  have "finalize E ops True = (\<lambda>W. bindS (flushChunk (putPlainChunk E ops) W) K)"
    by (rule HOL.ext) (simp add: finalize_def putStreamChunk_def K_def [abs_def])
  then have run: "bindS (stream_appends (putStreamChunk E ops True) ck ds (stream_init ck)) (finalize E ops True) s = K W s1"
    using bindS_step(1) [where s = s and f = K and m = "bindS (stream_appends (putPlainChunk E ops) ck ds (stream_init ck))
      (flushChunk (putPlainChunk E ops))", OF W(1)] by (simp add: bindS_assoc putStreamChunk_def)
  show ?thesis
  proof (cases "schunks W = []")
    case True
    then have e: "concat ds = []" using W(5) by simp
    obtain s2 where s2: "putBlob E ops [] s1 = Some (Inr (sha256 E []), s2)" "grows s1 s2" "stored s2 []"
      using putBlob_run [OF s1] by blast
    have "file_content E (store_get ops s2) (sha256 E []) []" if "inj_on (sha256 E) (offered s2)"
      using that s2(3) d e by (intro fc_blob) (simp_all add: stored_def)
    with s2 True show ?thesis unfolding run K_def e
      using grows_trans [OF W(2) s2(2)] by (auto simp: bindS_def cid_def)
  next
    case False
    from treeFromChunks_plain [OF E s1 False W(4,6) d] obtain c s2 where
      "treeFromChunks E ops True (schunks W) s1 = Some (Inr c, s2)" "grows s1 s2"
      "inj_on (sha256 E) (offered s2) \<longrightarrow> file_content E (store_get ops s2) (chash c) (concat ds)" by blast
    with False W(3) show ?thesis unfolding run K_def
      using grows_trans [OF W(2)] by (auto simp: bindS_def)
  qed
qed

lemma stream_encrypted_run:
  assumes ck: "chunker_ok ck" and E: "msgpack_ok E" "aes_ok E" "digest_len E" and s: "sinv s"
    and d: "tryDecodeTreeNode E (concat ds) = None"
  shows "\<exists>r s'. bindS (stream_appends (putStreamChunk E ops False) ck ds (stream_init ck)) (finalize E ops False) s
      = Some (Inr r, s') \<and> grows s s' \<and> ssize r = length (concat ds) \<and>
    (inj_on (sha256 E) (offered s') \<longrightarrow> (\<exists>k. ckey (scid r) = Some k \<and>
       encrypted_content E (store_get ops s') (chash (scid r)) k (concat ds)))"
proof -
  obtain W s1 where W: "bindS (stream_appends (putEncryptedChunk E ops) ck ds (stream_init ck))
          (flushChunk (putEncryptedChunk E ops)) s
        = Some (Inr W, s1)" "grows s s1" "stotalSize W = length (concat ds)" "\<forall>l\<in>set (schunks W). link_ok l"
      "sum_list (map lsize (schunks W)) = length (concat ds)"
      "inj_on (sha256 E) (offered s1) \<longrightarrow> tree_content E (chkOpener E) (store_get ops s1) (schunks W) (concat ds)"
    using chunk_writer.appends_flush_run [OF encrypted_chunks [OF E(2,3)] ck s, of ds] by blast
  note s1 = grows_sinv [OF W(2)]
  define K where "K W = (if schunks W = [] then bindS (putEncryptedBlock E ops [])
       (\<lambda>hk. retS \<lparr>scid = cid (fst hk) (Some (snd hk)), ssize = 0\<rparr>)
     else bindS (treeFromChunks E ops False (schunks W)) (\<lambda>c. retS \<lparr>scid = c, ssize = stotalSize W\<rparr>))" for W :: stream
  have "finalize E ops False = (\<lambda>W. bindS (flushChunk (putEncryptedChunk E ops) W) K)"
    by (rule HOL.ext) (simp add: finalize_def putStreamChunk_def K_def [abs_def])
  then have run: "bindS (stream_appends (putStreamChunk E ops False) ck ds (stream_init ck)) (finalize E ops False) s = K W s1"
    using bindS_step(1) [where s = s and f = K and m = "bindS (stream_appends (putEncryptedChunk E ops) ck ds (stream_init ck))
      (flushChunk (putEncryptedChunk E ops))", OF W(1)] by (simp add: bindS_assoc putStreamChunk_def)
  show ?thesis
  proof (cases "schunks W = []")
    case True
    then have e: "concat ds = []" using W(5) by simp
    obtain s2 where s2: "putEncryptedBlock E ops [] s1 = Some (Inr (sha256 E (fst (encryptChk E [])), sha256 E []), s2)"
        "grows s1 s2" "stored s2 (fst (encryptChk E []))"
      using putEncryptedBlock_run [OF s1] by blast
    have "encrypted_content E (store_get ops s2) (sha256 E (fst (encryptChk E []))) (sha256 E []) []"
      if "inj_on (sha256 E) (offered s2)"
      using that s2(3) d e E by (intro ec_blob [where block = "fst (encryptChk E [])"]) (simp_all add: stored_def)
    with s2 True show ?thesis unfolding run K_def e
      using grows_trans [OF W(2) s2(2)] by (auto simp: bindS_def cid_def)
  next
    case False
    from treeFromChunks_encrypted [OF E s1 False W(4,6) d] obtain c s2 where
      "treeFromChunks E ops False (schunks W) s1 = Some (Inr c, s2)" "grows s1 s2"
      "inj_on (sha256 E) (offered s2) \<longrightarrow>
         (\<exists>k. ckey c = Some k \<and> encrypted_content E (store_get ops s2) (chash c) k (concat ds))" by blast
    with False W(3) show ?thesis unfolding run K_def
      using grows_trans [OF W(2)] by (auto simp: bindS_def)
  qed
qed

end

end
