(* ===== verification/Instance.thy ===== *)
theory Instance
  imports External
begin

text \<open>
  One concrete instance of the external parameters, for the witnesses of the properties: a small
  self-delimiting binary code in the place of MessagePack, a cipher that appends a 16-byte tag in
  the place of AES-GCM, and a 32-byte digest in the place of SHA-256 that separates short blocks. It
  shows that the hypotheses \<open>msgpack_ok\<close>, \<open>aes_ok\<close> and \<open>digest_len\<close> can hold together; it is not a
  model of those algorithms.
\<close>

section \<open>A self-delimiting code for MessagePack values\<close>

fun natEnc :: "nat \<Rightarrow> bytes" where
  "natEnc n = (if n < 255 then [of_nat n] else 255 # natEnc (n - 255))"

declare natEnc.simps [simp del]

fun natDec :: "bytes \<Rightarrow> (nat \<times> bytes) option" where
  "natDec [] = None"
| "natDec (b # bs) = (if b = 255 then map_option (\<lambda>(n, r). (n + 255, r)) (natDec bs)
                      else Some (unat b, bs))"

definition blkEnc :: "bytes \<Rightarrow> bytes" where
  "blkEnc b = natEnc (length b) @ b"

definition blkDec :: "bytes \<Rightarrow> (bytes \<times> bytes) option" where
  "blkDec bs = (case natDec bs of None \<Rightarrow> None
     | Some (n, r) \<Rightarrow> if length r < n then None else Some (take n r, drop n r))"

definition strEnc :: "string \<Rightarrow> bytes" where
  "strEnc s = blkEnc (map of_char s)"

definition strDec :: "bytes \<Rightarrow> (string \<times> bytes) option" where
  "strDec bs = map_option (\<lambda>(b, r). (map (\<lambda>w. char_of (unat w)) b, r)) (blkDec bs)"

fun mpEnc :: "mpval \<Rightarrow> bytes" where
  "mpEnc MNil = [0]"
| "mpEnc (MBool b) = [1, if b then 1 else 0]"
| "mpEnc (MInt i) = [2, if i < 0 then 1 else 0] @ natEnc (nat \<bar>i\<bar>)"
| "mpEnc (MStr s) = 3 # strEnc s"
| "mpEnc (MBin b) = 4 # blkEnc b"
| "mpEnc (MArr vs) = 5 # natEnc (length vs) @ concat (map mpEnc vs)"
| "mpEnc (MMap kvs) = 6 # natEnc (length kvs) @ concat (map (\<lambda>kv. strEnc (fst kv) @ mpEnc (snd kv)) kvs)"
| "mpEnc MOther = [7]"

text \<open>Decoding with fuel; the length of the input is enough, since every value takes a byte.\<close>

fun listDec :: "(bytes \<Rightarrow> ('a \<times> bytes) option) \<Rightarrow> nat \<Rightarrow> bytes \<Rightarrow> ('a list \<times> bytes) option" where
  "listDec f 0 bs = Some ([], bs)"
| "listDec f (Suc n) bs = (case f bs of None \<Rightarrow> None
     | Some (x, r) \<Rightarrow> map_option (\<lambda>(xs, r'). (x # xs, r')) (listDec f n r))"

definition pairDec :: "(bytes \<Rightarrow> (mpval \<times> bytes) option) \<Rightarrow> bytes \<Rightarrow> ((string \<times> mpval) \<times> bytes) option" where
  "pairDec f bs = (case strDec bs of None \<Rightarrow> None
     | Some (k, r) \<Rightarrow> map_option (\<lambda>(v, r'). ((k, v), r')) (f r))"

fun mpDec :: "nat \<Rightarrow> bytes \<Rightarrow> (mpval \<times> bytes) option" where
  "mpDec 0 bs = None"
| "mpDec (Suc n) [] = None"
| "mpDec (Suc n) (t # bs) =
    (if t = 0 then Some (MNil, bs)
     else if t = 1 then (case bs of [] \<Rightarrow> None | b # r \<Rightarrow> Some (MBool (b = 1), r))
     else if t = 2 then (case bs of [] \<Rightarrow> None
       | b # r \<Rightarrow> map_option (\<lambda>(m, r'). (MInt (if b = 1 then - int m else int m), r')) (natDec r))
     else if t = 3 then map_option (\<lambda>(s, r). (MStr s, r)) (strDec bs)
     else if t = 4 then map_option (\<lambda>(b, r). (MBin b, r)) (blkDec bs)
     else if t = 5 then (case natDec bs of None \<Rightarrow> None
       | Some (m, r) \<Rightarrow> map_option (\<lambda>(vs, r'). (MArr vs, r')) (listDec (mpDec n) m r))
     else if t = 6 then (case natDec bs of None \<Rightarrow> None
       | Some (m, r) \<Rightarrow> map_option (\<lambda>(vs, r'). (MMap vs, r')) (listDec (pairDec (mpDec n)) m r))
     else if t = 7 then Some (MOther, bs)
     else None)"

lemma natDec_natEnc [simp]: "natDec (natEnc n @ r) = Some (n, r)"
proof (induction n rule: natEnc.induct)
  case (1 n)
  show ?case
  proof (cases "n < 255")
    case True
    then have "unat (of_nat n :: 8 word) = n" by (simp add: unat_of_nat)
    moreover have "unat (255 :: 8 word) = 255" by simp
    ultimately have "(of_nat n :: 8 word) \<noteq> 255" using True by (metis less_irrefl)
    with True show ?thesis by (simp add: natEnc.simps unat_of_nat)
  next
    case False
    with 1 show ?thesis by (simp add: natEnc.simps [of n])
  qed
qed

lemma unat_of_char: "unat (of_char c :: 8 word) = of_char c"
proof -
  have "unat (of_nat (of_char c) :: 8 word) = of_char c"
    using nat_of_char_less_256 [of c] by (simp add: unat_of_nat)
  then show ?thesis by (simp add: of_nat_of_char)
qed

lemma blkDec_blkEnc [simp]: "blkDec (blkEnc b @ r) = Some (b, r)"
  by (simp add: blkDec_def blkEnc_def)

lemma strDec_strEnc [simp]: "strDec (strEnc s @ r) = Some (s, r)"
  by (simp add: strDec_def strEnc_def o_def unat_of_char)

lemma listDec_append:
  "(\<And>x r. x \<in> set xs \<Longrightarrow> f (g x @ r) = Some (x, r)) \<Longrightarrow>
   listDec f (length xs) (concat (map g xs) @ r) = Some (xs, r)"
  by (induction xs) auto

lemma length_mpEnc_pos: "0 < length (mpEnc v)"
  by (cases v) auto

lemma mpDec_mpEnc: "length (mpEnc v) \<le> n \<Longrightarrow> mpDec n (mpEnc v @ r) = Some (v, r)"
proof (induction v arbitrary: n r)
  case (MArr vs)
  then obtain m where n: "n = Suc m" by (cases n) auto
  have "length (mpEnc x) \<le> m" if "x \<in> set vs" for x
    using MArr.prems that by (auto simp: n length_concat dest!: split_list)
  then have "listDec (mpDec m) (length vs) (concat (map mpEnc vs) @ r) = Some (vs, r)"
    by (intro listDec_append MArr.IH)
  then show ?case by (simp add: n)
next
  case (MMap kvs)
  then obtain m where n: "n = Suc m" by (cases n) auto
  have "length (mpEnc (snd kv)) \<le> m" if "kv \<in> set kvs" for kv
    using MMap.prems that by (auto simp: n length_concat dest!: split_list)
  then have "listDec (pairDec (mpDec m)) (length kvs)
      (concat (map (\<lambda>kv. strEnc (fst kv) @ mpEnc (snd kv)) kvs) @ r) = Some (kvs, r)"
    by (intro listDec_append) (auto simp: pairDec_def MMap.IH)
  then show ?case by (simp add: n)
qed (case_tac [!] n, auto)

section \<open>The instance\<close>

text \<open>The block is folded into 31 bytes, turned by one place for each byte; the last byte is the length.\<close>

definition demoMix :: "8 word \<Rightarrow> bytes \<Rightarrow> bytes" where
  "demoMix b h = tl h @ [hd h + b]"

definition demoDigest :: "bytes \<Rightarrow> bytes" where
  "demoDigest d = fold demoMix d (replicate 31 0) @ [of_nat (length d)]"

lemma length_demoMix: "h \<noteq> [] \<Longrightarrow> length (fold demoMix d h) = length h"
  by (induction d arbitrary: h) (simp_all add: demoMix_def)

definition demo :: ext where
  "demo = \<lparr>subtleDigest = demoDigest,
           mpEncode = mpEnc,
           mpDecode = (\<lambda>bs. case mpDec (length bs) bs of Some (v, []) \<Rightarrow> Some v | _ \<Rightarrow> None),
           subtleDeriveKey = (\<lambda>k salt info. k),
           subtleEncrypt = (\<lambda>k iv p. p @ replicate 16 0),
           subtleDecrypt = (\<lambda>k iv c. if length c < 16 then None else Some (take (length c - 16) c)),
           localeCompare = (\<lambda>a b. if a < b then - 1 else if a = b then 0 else 1)\<rparr>"

lemma demo_msgpack [simp]: "msgpack_ok demo"
  using mpDec_mpEnc [of _ _ "[]"] by (simp add: msgpack_ok_def demo_def)

lemma demo_aes [simp]: "aes_ok demo"
  by (simp add: aes_ok_def demo_def)

lemma demo_digest_len [simp]: "digest_len demo"
  by (simp add: digest_len_def demo_def demoDigest_def length_demoMix)

end
