(* ===== verification/FileProps.thy ===== *)
theory FileProps
  imports WriteAt Builder Instance
begin

text \<open>
  The properties of files: what the writers store is what every reader returns, for plain and for
  encrypted files, whole, limited, by range and as streams; writes at an offset; the builders.

  The store is \<open>MemoryStore\<close> with a log of the blocks offered to it. \<open>no_collision E s\<close> says that no two
  different blocks of the log have the same hash; every property that reads back asks for it in the
  state the writes leave.
\<close>

abbreviation memConfig :: "nat \<Rightarrow> (memory \<times> bytes list) config" where
  "memConfig c \<equiv> \<lparr>cstore = memlog, chunkSize = c\<rparr>"

lemma file_run:
  assumes "msgpack_ok E" "memlog_inv E s" "0 < c" "c < 2 ^ 53"
    and "length d \<le> c \<Longrightarrow> tryDecodeTreeNode E d = None"
  shows "\<exists>h s'. putFile E (memConfig c) d s = Some (Inr \<lparr>rhash = h, rsize = length d\<rparr>, s') \<and> mem.logs.grows E s s' \<and>
    (no_collision E s' \<longrightarrow> file_content E (memory_get (fst s')) h d \<and> file_wf E (memory_get (fst s')) h)"
  using mem.logs.putFile_run [of "memConfig c" E s d] assms by simp

lemma encrypted_run:
  assumes "msgpack_ok E" "aes_ok E" "digest_len E" "memlog_inv E s" "0 < c" "c < 2 ^ 53"
    and "length d \<le> c \<Longrightarrow> tryDecodeTreeNode E d = None"
  shows "\<exists>h k s'. putFileEncrypted E (memConfig c) d s = Some (Inr \<lparr>rhash = h, rsize = length d, rkey = k\<rparr>, s') \<and>
    (no_collision E s' \<longrightarrow> encrypted_content E (memory_get (fst s')) h k d)"
  using mem.logs.putFileEncrypted_run [of "memConfig c" E s d] assms by auto

lemmas file_readers = readFile_content readFile_content_limit readFileRange_content
lemmas encrypted_readers = readFileEncrypted_content readFileEncrypted_content_limit readFileEncryptedRange_content

text \<open>The runs the witnesses use: a file of five bytes in chunks of two.\<close>

definition sampleFile :: bytes where
  "sampleFile = [1, 2, 3, 4, 5]"

lemma sampleFile_facts:
  "length sampleFile = 5" "tryDecodeTreeNode demo (overwrite 1 [7, 8] sampleFile) = None"
  "tryDecodeTreeNode demo (concat [[1], [], [2, 3, 4, 5]]) = None"
  by (simp add: sampleFile_def) code_simp+

lemma sample_runs:
  "case putFile demo (memConfig 2) sampleFile ([], []) of
     Some (r, s') \<Rightarrow> no_collision demo s' | None \<Rightarrow> False"
  "case putFileEncrypted demo (memConfig 2) sampleFile ([], []) of
     Some (r, s') \<Rightarrow> no_collision demo s' | None \<Rightarrow> False"
  by code_simp+

section \<open>Plain files\<close>

text \<open>C1. Storing a file returns (the chunking loop ends for every positive chunk size), and as long as
  no two of the blocks offered to the store have the same hash, reading the returned hash gives the
  file back: for a file that fits one chunk and for a chunked one. With a limit \<open>maxBytes\<close> the read
  gives the file when it fits and the error with the two sizes when it does not. A single-chunk file
  whose bytes happen to be a tree node's encoding is excluded: the reader would follow it.\<close>

theorem readFile_putFile:
  assumes "msgpack_ok E" "memlog_inv E s" "0 < c" "c < 2 ^ 53"
    and "length d \<le> c \<Longrightarrow> tryDecodeTreeNode E d = None"
  shows "\<exists>h s'. putFile E (memConfig c) d s = Some (Inr \<lparr>rhash = h, rsize = length d\<rparr>, s') \<and>
    (no_collision E s' \<longrightarrow>
      readFile E (store_get memlog s') h None = ret (Some d) \<and>
      (\<forall>m. readFile E (store_get memlog s') h (Some (int m)) =
         (if length d \<le> m then ret (Some d) else throw (ContentExceedsMaxBytes (length d) m))))"
  using file_run [OF assms] by (fastforce simp: file_readers)

theorem readFile_putFile_witness:
  "\<exists>h s'. putFile demo (memConfig 2) sampleFile ([], []) = Some (Inr \<lparr>rhash = h, rsize = 5\<rparr>, s')
     \<and> readFile demo (store_get memlog s') h None = ret (Some sampleFile)
     \<and> readFile demo (store_get memlog s') h (Some 3) = throw (ContentExceedsMaxBytes 5 3)"
proof -
  from readFile_putFile [of demo "([], [])" 2 sampleFile] sampleFile_facts(1) obtain h s' where
      run: "putFile demo (memConfig 2) sampleFile ([], []) = Some (Inr \<lparr>rhash = h, rsize = 5\<rparr>, s')"
      and rd: "no_collision demo s' \<longrightarrow> readFile demo (store_get memlog s') h None = ret (Some sampleFile) \<and>
        (\<forall>m. readFile demo (store_get memlog s') h (Some (int m)) =
          (if 5 \<le> m then ret (Some sampleFile) else throw (ContentExceedsMaxBytes 5 m)))" by auto
  note rd' = mp [OF rd run_no_collision [OF sample_runs(1) run]]
  have "readFile demo (store_get memlog s') h (Some (int 3)) = throw (ContentExceedsMaxBytes 5 3)"
    unfolding rd' [THEN conjunct2, THEN spec] by simp
  with rd' run show ?thesis unfolding of_nat_numeral by blast
qed

text \<open>C5. A byte range of a stored file is the slice of the file, for every start and every end, also
  beyond the file and when the end is missing.\<close>

theorem readFileRange_putFile:
  assumes "msgpack_ok E" "memlog_inv E s" "0 < c" "c < 2 ^ 53"
    and "length d \<le> c \<Longrightarrow> tryDecodeTreeNode E d = None"
  shows "\<exists>h s'. putFile E (memConfig c) d s = Some (Inr \<lparr>rhash = h, rsize = length d\<rparr>, s') \<and>
    (no_collision E s' \<longrightarrow> (\<forall>start.
      readFileRange E (store_get memlog s') h start None = ret (Some (drop start d)) \<and>
      (\<forall>e. readFileRange E (store_get memlog s') h start (Some e) = ret (Some (slice start e d)))))"
  using file_run [OF assms] by (fastforce simp: readFileRange_content rangeSlice_def)

theorem readFileRange_putFile_witness:
  "\<exists>h s'. putFile demo (memConfig 2) sampleFile ([], []) = Some (Inr \<lparr>rhash = h, rsize = 5\<rparr>, s')
     \<and> readFileRange demo (store_get memlog s') h 1 (Some 4) = ret (Some [2, 3, 4])"
proof -
  from readFileRange_putFile [of demo "([], [])" 2 sampleFile] sampleFile_facts(1) obtain h s' where
      run: "putFile demo (memConfig 2) sampleFile ([], []) = Some (Inr \<lparr>rhash = h, rsize = 5\<rparr>, s')"
      and rd: "no_collision demo s' \<longrightarrow>
        readFileRange demo (store_get memlog s') h 1 (Some 4) = ret (Some (slice 1 4 sampleFile))" by auto
  with run_no_collision [OF sample_runs(1) run] show ?thesis by (auto simp: sampleFile_def slice_def)
qed

text \<open>C34. Streaming a stored file from an offset yields chunks whose concatenation is the rest of the
  file, and ends without an error, for every prefetch depth above 0.\<close>

theorem readFileStream_putFile:
  assumes "msgpack_ok E" "memlog_inv E s" "0 < c" "c < 2 ^ 53" "0 < prefetch"
    and "length d \<le> c \<Longrightarrow> tryDecodeTreeNode E d = None"
  shows "\<exists>h s'. putFile E (memConfig c) d s = Some (Inr \<lparr>rhash = h, rsize = length d\<rparr>, s') \<and>
    (no_collision E s' \<longrightarrow> (\<exists>chunks.
      readFileStream E (store_get memlog s') h offset prefetch = Some (chunks, None) \<and> concat chunks = drop offset d))"
  using file_run [OF assms(1-4,6)] assms(5) by (auto dest!: readFileStream_content [where offset = offset])

theorem readFileStream_putFile_witness:
  "\<exists>h s' chunks. putFile demo (memConfig 2) sampleFile ([], []) = Some (Inr \<lparr>rhash = h, rsize = 5\<rparr>, s')
     \<and> readFileStream demo (store_get memlog s') h 3 2 = Some (chunks, None) \<and> concat chunks = [4, 5]"
proof -
  from readFileStream_putFile [of demo "([], [])" 2 2 sampleFile 3] sampleFile_facts(1) obtain h s' where
      run: "putFile demo (memConfig 2) sampleFile ([], []) = Some (Inr \<lparr>rhash = h, rsize = 5\<rparr>, s')"
      and rd: "no_collision demo s' \<longrightarrow> (\<exists>chunks.
        readFileStream demo (store_get memlog s') h 3 2 = Some (chunks, None) \<and> concat chunks = drop 3 sampleFile)"
    by auto
  with run_no_collision [OF sample_runs(1) run] show ?thesis by (auto simp: sampleFile_def)
qed

section \<open>Encrypted files\<close>

text \<open>C4. The same for encrypted files: the writer returns a hash and a key with which the whole read, the
  limited read and every range give the file's bytes.\<close>

theorem readFileEncrypted_putFileEncrypted:
  assumes "msgpack_ok E" "aes_ok E" "digest_len E" "memlog_inv E s" "0 < c" "c < 2 ^ 53"
    and "length d \<le> c \<Longrightarrow> tryDecodeTreeNode E d = None"
  shows "\<exists>h k s'. putFileEncrypted E (memConfig c) d s = Some (Inr \<lparr>rhash = h, rsize = length d, rkey = k\<rparr>, s') \<and>
    (no_collision E s' \<longrightarrow>
      readFileEncrypted E (store_get memlog s') h k None = ret (Some d) \<and>
      (\<forall>m. readFileEncrypted E (store_get memlog s') h k (Some (int m)) =
         (if length d \<le> m then ret (Some d) else throw (ContentExceedsMaxBytes (length d) m))) \<and>
      (\<forall>start stop. readFileEncryptedRange E (store_get memlog s') h k start (Some stop)
         = ret (Some (slice start stop d))))"
  using encrypted_run [OF assms] by (fastforce simp: encrypted_readers rangeSlice_def)

theorem readFileEncrypted_putFileEncrypted_witness:
  "\<exists>h k s'. putFileEncrypted demo (memConfig 2) sampleFile ([], []) = Some (Inr \<lparr>rhash = h, rsize = 5, rkey = k\<rparr>, s')
     \<and> readFileEncrypted demo (store_get memlog s') h k None = ret (Some sampleFile)"
proof -
  from readFileEncrypted_putFileEncrypted [of demo "([], [])" 2 sampleFile] sampleFile_facts(1) obtain h k s' where
      run: "putFileEncrypted demo (memConfig 2) sampleFile ([], []) = Some (Inr \<lparr>rhash = h, rsize = 5, rkey = k\<rparr>, s')"
      and rd: "no_collision demo s' \<longrightarrow> readFileEncrypted demo (store_get memlog s') h k None = ret (Some sampleFile)"
    by auto
  with run_no_collision [OF sample_runs(2) run] show ?thesis by auto
qed

text \<open>Streaming an encrypted file from an offset yields the decrypted rest of the file.\<close>

theorem readFileEncryptedStream_putFileEncrypted:
  assumes "msgpack_ok E" "aes_ok E" "digest_len E" "memlog_inv E s" "0 < c" "c < 2 ^ 53" "0 < prefetch"
    and "length d \<le> c \<Longrightarrow> tryDecodeTreeNode E d = None"
  shows "\<exists>h k s'. putFileEncrypted E (memConfig c) d s = Some (Inr \<lparr>rhash = h, rsize = length d, rkey = k\<rparr>, s') \<and>
    (no_collision E s' \<longrightarrow> (\<exists>chunks.
      readFileEncryptedStream E (store_get memlog s') h k offset prefetch = Some (chunks, None) \<and>
      concat chunks = drop offset d))"
  using encrypted_run [OF assms(1-6,8)] assms(7) by (auto dest!: readFileEncryptedStream_content [where offset = offset])

theorem readFileEncryptedStream_putFileEncrypted_witness:
  "\<exists>h k s' chunks. putFileEncrypted demo (memConfig 2) sampleFile ([], [])
       = Some (Inr \<lparr>rhash = h, rsize = 5, rkey = k\<rparr>, s')
     \<and> readFileEncryptedStream demo (store_get memlog s') h k 3 1 = Some (chunks, None) \<and> concat chunks = [4, 5]"
proof -
  from readFileEncryptedStream_putFileEncrypted [of demo "([], [])" 2 1 sampleFile 3] sampleFile_facts(1)
  obtain h k s' where
      run: "putFileEncrypted demo (memConfig 2) sampleFile ([], []) = Some (Inr \<lparr>rhash = h, rsize = 5, rkey = k\<rparr>, s')"
      and rd: "no_collision demo s' \<longrightarrow> (\<exists>chunks.
        readFileEncryptedStream demo (store_get memlog s') h k 3 1 = Some (chunks, None) \<and>
        concat chunks = drop 3 sampleFile)"
    by auto
  with run_no_collision [OF sample_runs(2) run] show ?thesis by (auto simp: sampleFile_def)
qed

section \<open>Writes at an offset\<close>

text \<open>C2. Writing inside a stored file returns a new root of the same size; reading it gives the old bytes
  with the written ones in place, and the old root still reads as before.\<close>

theorem writeAt_overwrites:
  assumes "msgpack_ok E" "memlog_inv E s" "0 < c" "c < 2 ^ 53"
    and "length f \<le> c \<Longrightarrow> tryDecodeTreeNode E f = None"
    and "off + length d \<le> length f" "tryDecodeTreeNode E (overwrite off d f) = None"
  shows "\<exists>h s1. putFile E (memConfig c) f s = Some (Inr \<lparr>rhash = h, rsize = length f\<rparr>, s1) \<and>
    (no_collision E s1 \<longrightarrow> (\<exists>h' s2. writeAt E (memConfig c) h off d s1 = Some (Inr \<lparr>rhash = h', rsize = length f\<rparr>, s2) \<and>
      (no_collision E s2 \<longrightarrow> readFile E (store_get memlog s2) h' None = ret (Some (overwrite off d f)) \<and>
         readFile E (store_get memlog s2) h None = ret (Some f))))"
proof -
  obtain h s1 where 1: "putFile E (memConfig c) f s = Some (Inr \<lparr>rhash = h, rsize = length f\<rparr>, s1)"
      "mem.logs.grows E s s1" "no_collision E s1 \<longrightarrow>
         file_content E (memory_get (fst s1)) h f \<and> file_wf E (memory_get (fst s1)) h"
    using file_run [OF assms(1-5)] by auto
  have "\<exists>h' s2. writeAt E (memConfig c) h off d s1 = Some (Inr \<lparr>rhash = h', rsize = length f\<rparr>, s2) \<and>
      (no_collision E s2 \<longrightarrow> readFile E (store_get memlog s2) h' None = ret (Some (overwrite off d f)) \<and>
         readFile E (store_get memlog s2) h None = ret (Some f))"
    if nc: "no_collision E s1"
  proof -
    have "memlog_inv E s1" using mem.logs.grows_sinv [OF 1(2)] .
    with nc 1(3) assms(1,6,7) mem.logs.writeAt_run [of "memConfig c" E s1 h f off d]
    obtain h' s2 where 2: "writeAt E (memConfig c) h off d s1 = Some (Inr \<lparr>rhash = h', rsize = length f\<rparr>, s2)"
        "mem.logs.grows E s1 s2" "no_collision E s2 \<longrightarrow> file_content E (memory_get (fst s2)) h' (overwrite off d f)"
      by auto
    have "file_content E (memory_get (fst s2)) h f"
      using 1(3) nc mem.logs.grows_map_le [OF 2(2)] by (auto intro: file_content_mono)
    with 2 show ?thesis by (auto simp: readFile_content)
  qed
  with 1(1) show ?thesis by blast
qed

lemma sample_write:
  "case bindS (putFile demo (memConfig 2) sampleFile) (\<lambda>r. writeAt demo (memConfig 2) (rhash r) 1 [7, 8]) ([], []) of
     Some (r, s') \<Rightarrow> no_collision demo s' | None \<Rightarrow> False"
  by code_simp

theorem writeAt_overwrites_witness:
  "\<exists>h s1 h' s2. putFile demo (memConfig 2) sampleFile ([], []) = Some (Inr \<lparr>rhash = h, rsize = 5\<rparr>, s1)
     \<and> writeAt demo (memConfig 2) h 1 [7, 8] s1 = Some (Inr \<lparr>rhash = h', rsize = 5\<rparr>, s2)
     \<and> readFile demo (store_get memlog s2) h' None = ret (Some [1, 7, 8, 4, 5])"
proof -
  from writeAt_overwrites [of demo "([], [])" 2 sampleFile 1 "[7, 8]"] sampleFile_facts(1,2) obtain h s1 where
      run: "putFile demo (memConfig 2) sampleFile ([], []) = Some (Inr \<lparr>rhash = h, rsize = 5\<rparr>, s1)"
      and w: "no_collision demo s1 \<longrightarrow> (\<exists>h' s2.
        writeAt demo (memConfig 2) h 1 [7, 8] s1 = Some (Inr \<lparr>rhash = h', rsize = 5\<rparr>, s2) \<and>
        (no_collision demo s2 \<longrightarrow>
          readFile demo (store_get memlog s2) h' None = ret (Some (overwrite 1 [7, 8] sampleFile))))" by auto
  from w run_no_collision [OF sample_runs(1) run] obtain h' s2 where
      run2: "writeAt demo (memConfig 2) h 1 [7, 8] s1 = Some (Inr \<lparr>rhash = h', rsize = 5\<rparr>, s2)"
      and rd: "no_collision demo s2 \<longrightarrow>
        readFile demo (store_get memlog s2) h' None = ret (Some (overwrite 1 [7, 8] sampleFile))" by blast
  have "bindS (putFile demo (memConfig 2) sampleFile) (\<lambda>r. writeAt demo (memConfig 2) (rhash r) 1 [7, 8]) ([], [])
      = Some (Inr \<lparr>rhash = h', rsize = 5\<rparr>, s2)" using run run2 by (simp add: bindS_def)
  with rd run_no_collision [OF sample_write] have
      "readFile demo (store_get memlog s2) h' None = ret (Some (overwrite 1 [7, 8] sampleFile))" by blast
  moreover have "overwrite 1 [7, 8] sampleFile = [1, 7, 8, 4, 5]" by (simp add: sampleFile_def overwrite_def)
  ultimately show ?thesis using run run2 by metis
qed

text \<open>A write that would reach beyond the end of a stored file fails with the offset, the length and the
  file size, and stores nothing.\<close>

theorem writeAt_beyond_end:
  assumes "msgpack_ok E" "memlog_inv E s" "0 < c" "c < 2 ^ 53"
    and "length f \<le> c \<Longrightarrow> tryDecodeTreeNode E f = None" "length f < off + length d"
  shows "\<exists>h s1. putFile E (memConfig c) f s = Some (Inr \<lparr>rhash = h, rsize = length f\<rparr>, s1) \<and>
    (no_collision E s1 \<longrightarrow>
      writeAt E (memConfig c) h off d s1 = Some (Inl (WriteBeyondFile off (length d) (length f)), s1))"
  using file_run [OF assms(1-5)] assms(6) by (fastforce intro!: writeAt_beyond)

theorem writeAt_beyond_end_witness:
  "\<exists>h s1. putFile demo (memConfig 2) sampleFile ([], []) = Some (Inr \<lparr>rhash = h, rsize = 5\<rparr>, s1)
     \<and> writeAt demo (memConfig 2) h 4 [7, 8] s1 = Some (Inl (WriteBeyondFile 4 2 5), s1)"
proof -
  from writeAt_beyond_end [of demo "([], [])" 2 sampleFile 4 "[7, 8]"] sampleFile_facts(1) obtain h s1 where
      run: "putFile demo (memConfig 2) sampleFile ([], []) = Some (Inr \<lparr>rhash = h, rsize = 5\<rparr>, s1)"
      and w: "no_collision demo s1 \<longrightarrow>
        writeAt demo (memConfig 2) h 4 [7, 8] s1 = Some (Inl (WriteBeyondFile 4 2 5), s1)" by auto
  with run_no_collision [OF sample_runs(1) run] show ?thesis by blast
qed

section \<open>Builders\<close>

text \<open>\<open>TreeBuilder.putFile\<close> with a fixed chunk size does exactly what \<open>putFile\<close> does, in every store
  and every state.\<close>

theorem builder_is_putFile:
  assumes "0 < c"
  shows "builder_putFile E st (fixedChunker c) d = putFile E \<lparr>cstore = st, chunkSize = c\<rparr> d"
  using assms by (rule builder_putFile_fixed)

theorem builder_is_putFile_witness:
  "builder_putFile demo memlog (fixedChunker 2) sampleFile ([], []) = putFile demo (memConfig 2) sampleFile ([], [])"
  using builder_is_putFile [of 2 demo memlog sampleFile] by simp

text \<open>Whatever pieces are appended to a plain \<open>StreamWriter\<close>, whatever the chunk sizes (each above 0),
  \<open>finalize\<close> returns the total size and a root that reads as the concatenation of the pieces.\<close>

theorem stream_writer_plain:
  assumes "chunker_ok ck" "msgpack_ok E" "memlog_inv E s" "tryDecodeTreeNode E (concat ds) = None"
  shows "\<exists>r s'. bindS (stream_appends (putStreamChunk E memlog True) ck ds (stream_init ck)) (finalize E memlog True) s
      = Some (Inr r, s') \<and> ssize r = length (concat ds) \<and>
    (no_collision E s' \<longrightarrow> readFile E (store_get memlog s') (chash (scid r)) None = ret (Some (concat ds)))"
  using mem.logs.stream_plain_run [of ck E s ds] assms by (fastforce simp: readFile_content)

lemma sample_stream_writer_plain:
  "case bindS (stream_appends (putStreamChunk demo memlog True) (videoChunker 1 3) [[1], [], [2, 3, 4, 5]]
       (stream_init (videoChunker 1 3))) (finalize demo memlog True) ([], []) of
     Some (r, s') \<Rightarrow> no_collision demo s' | None \<Rightarrow> False"
  by code_simp

theorem stream_writer_plain_witness:
  "\<exists>r s'. bindS (stream_appends (putStreamChunk demo memlog True) (videoChunker 1 3) [[1], [], [2, 3, 4, 5]]
       (stream_init (videoChunker 1 3))) (finalize demo memlog True) ([], []) = Some (Inr r, s') \<and> ssize r = 5
     \<and> readFile demo (store_get memlog s') (chash (scid r)) None = ret (Some sampleFile)"
proof -
  have "chunker_ok (videoChunker 1 3)" by (simp add: chunker_ok_def videoChunker_def)
  with stream_writer_plain [of "videoChunker 1 3" demo "([], [])" "[[1], [], [2, 3, 4, 5]]"] sampleFile_facts(3)
  obtain r s' where run: "bindS (stream_appends (putStreamChunk demo memlog True) (videoChunker 1 3)
        [[1], [], [2, 3, 4, 5]] (stream_init (videoChunker 1 3))) (finalize demo memlog True) ([], []) = Some (Inr r, s')"
      and r: "ssize r = 5" and rd: "no_collision demo s' \<longrightarrow> readFile demo (store_get memlog s') (chash (scid r)) None = ret (Some sampleFile)"
    by (auto simp: sampleFile_def)
  from rd run_no_collision [OF sample_stream_writer_plain run] run r show ?thesis by blast
qed

text \<open>C6. The same for the encrypting \<open>StreamWriter\<close>: \<open>finalize\<close> also returns a key, with which the root
  reads as the concatenation of the pieces.\<close>

theorem stream_writer_encrypted:
  assumes "chunker_ok ck" "msgpack_ok E" "aes_ok E" "digest_len E" "memlog_inv E s" "tryDecodeTreeNode E (concat ds) = None"
  shows "\<exists>r s'. bindS (stream_appends (putStreamChunk E memlog False) ck ds (stream_init ck)) (finalize E memlog False) s
      = Some (Inr r, s') \<and> ssize r = length (concat ds) \<and>
    (no_collision E s' \<longrightarrow> (\<exists>k. ckey (scid r) = Some k \<and>
       readFileEncrypted E (store_get memlog s') (chash (scid r)) k None = ret (Some (concat ds))))"
  using mem.logs.stream_encrypted_run [of ck E s ds] assms by (fastforce simp: readFileEncrypted_content)

lemma sample_stream_writer_encrypted:
  "case bindS (stream_appends (putStreamChunk demo memlog False) (videoChunker 1 3) [[1], [], [2, 3, 4, 5]]
       (stream_init (videoChunker 1 3))) (finalize demo memlog False) ([], []) of
     Some (r, s') \<Rightarrow> no_collision demo s' | None \<Rightarrow> False"
  by code_simp

theorem stream_writer_encrypted_witness:
  "\<exists>r s'. bindS (stream_appends (putStreamChunk demo memlog False) (videoChunker 1 3) [[1], [], [2, 3, 4, 5]]
       (stream_init (videoChunker 1 3))) (finalize demo memlog False) ([], []) = Some (Inr r, s') \<and> ssize r = 5
     \<and> (\<exists>k. ckey (scid r) = Some k \<and> readFileEncrypted demo (store_get memlog s') (chash (scid r)) k None = ret (Some sampleFile))"
proof -
  have "chunker_ok (videoChunker 1 3)" by (simp add: chunker_ok_def videoChunker_def)
  with stream_writer_encrypted [of "videoChunker 1 3" demo "([], [])" "[[1], [], [2, 3, 4, 5]]"] sampleFile_facts(3)
  obtain r s' where run: "bindS (stream_appends (putStreamChunk demo memlog False) (videoChunker 1 3)
        [[1], [], [2, 3, 4, 5]] (stream_init (videoChunker 1 3))) (finalize demo memlog False) ([], []) = Some (Inr r, s')"
      and r: "ssize r = 5" and rd: "no_collision demo s' \<longrightarrow> (\<exists>k. ckey (scid r) = Some k \<and> readFileEncrypted demo (store_get memlog s') (chash (scid r)) k None = ret (Some sampleFile))"
    by (auto simp: sampleFile_def)
  from rd run_no_collision [OF sample_stream_writer_encrypted run] run r show ?thesis by blast
qed

end
