(* ===== verification/TreeEdit.thy ===== *)
theory TreeEdit
  imports CreateSpec
begin

text \<open>
  Editing directories in place of a path (\<open>tree/edit.ts\<close>): set, remove, rename and move an entry.
  Each operation writes a new directory and then rebuilds the directories above it, from the
  innermost outwards (path copying). The old tree stays in the store.
\<close>

section \<open>Operations\<close>

fun joinPath :: "string list \<Rightarrow> string" where
  "joinPath [] = []"
| "joinPath [p] = p"
| "joinPath (p # ps) = p @ ''/'' @ joinPath ps"

definition resolvePathArray ::
  "ext \<Rightarrow> (hash \<Rightarrow> bytes option) \<Rightarrow> hash \<Rightarrow> string list \<Rightarrow> hash option comp" where
  "resolvePathArray E get rootHash path =
     (if path = [] then ret (Some rootHash) else resolvePath E get rootHash (joinPath path))"

definition replaceChild :: "string \<Rightarrow> hash \<Rightarrow> TreeEntry list \<Rightarrow> TreeEntry list" where
  "replaceChild childName childHash es =
     map (\<lambda>e. if ename e = childName then e\<lparr>ecid := cid childHash None\<rparr> else e) es"

text \<open>The loop pops the last part of the path; \<open>rparts\<close> is the path reversed.\<close>

fun rebuildLoop :: "ext \<Rightarrow> 's config \<Rightarrow> hash \<Rightarrow> string list \<Rightarrow> hash \<Rightarrow> ('s, hash) op" where
  "rebuildLoop E C rootHash [] childHash = retS childHash"
| "rebuildLoop E C rootHash (childName # rparts) childHash =
     bindS (readS (cstore C) (\<lambda>get. if rparts = [] then ret (Some rootHash)
                                   else resolvePathArray E get rootHash (rev rparts))) (\<lambda>parent.
     case parent of
       None \<Rightarrow> throwS (ParentPathNotFound (rev rparts))
     | Some parentHash \<Rightarrow>
         bindS (readS (cstore C) (\<lambda>get. listDirectory E get parentHash)) (\<lambda>parentEntries.
         bindS (putDirectory E C (replaceChild childName childHash parentEntries)) (\<lambda>h.
         rebuildLoop E C rootHash rparts h)))"

definition rebuildPath :: "ext \<Rightarrow> 's config \<Rightarrow> hash \<Rightarrow> string list \<Rightarrow> hash \<Rightarrow> ('s, hash) op" where
  "rebuildPath E C rootHash path newChildHash =
     (if path = [] then retS newChildHash else rebuildLoop E C rootHash (rev path) newChildHash)"

definition setEntry ::
  "ext \<Rightarrow> 's config \<Rightarrow> hash \<Rightarrow> string list \<Rightarrow> string \<Rightarrow> CID \<Rightarrow> nat \<Rightarrow> LinkType \<Rightarrow> meta option \<Rightarrow> ('s, hash) op" where
  "setEntry E C rootHash path name entryCid sz type meta =
     bindS (readS (cstore C) (\<lambda>get. resolvePathArray E get rootHash path)) (\<lambda>dir.
     case dir of
       None \<Rightarrow> throwS (PathNotFound path)
     | Some dirHash \<Rightarrow>
         bindS (readS (cstore C) (\<lambda>get. listDirectory E get dirHash)) (\<lambda>entries.
         bindS (putDirectory E C (List.filter (\<lambda>e. ename e \<noteq> name) entries
                  @ [\<lparr>ename = name, ecid = entryCid, esize = sz, etype = type, emeta = meta\<rparr>])) (\<lambda>newDirHash.
         rebuildPath E C rootHash path newDirHash)))"

definition removeEntry :: "ext \<Rightarrow> 's config \<Rightarrow> hash \<Rightarrow> string list \<Rightarrow> string \<Rightarrow> ('s, hash) op" where
  "removeEntry E C rootHash path name =
     bindS (readS (cstore C) (\<lambda>get. resolvePathArray E get rootHash path)) (\<lambda>dir.
     case dir of
       None \<Rightarrow> throwS (PathNotFound path)
     | Some dirHash \<Rightarrow>
         bindS (readS (cstore C) (\<lambda>get. listDirectory E get dirHash)) (\<lambda>entries.
         bindS (putDirectory E C (List.filter (\<lambda>e. ename e \<noteq> name) entries)) (\<lambda>newDirHash.
         rebuildPath E C rootHash path newDirHash)))"

definition renameEntry :: "ext \<Rightarrow> 's config \<Rightarrow> hash \<Rightarrow> string list \<Rightarrow> string \<Rightarrow> string \<Rightarrow> ('s, hash) op" where
  "renameEntry E C rootHash path oldName newName =
     (if oldName = newName then retS rootHash
      else bindS (readS (cstore C) (\<lambda>get. resolvePathArray E get rootHash path)) (\<lambda>dir.
      case dir of
        None \<Rightarrow> throwS (PathNotFound path)
      | Some dirHash \<Rightarrow>
          bindS (readS (cstore C) (\<lambda>get. listDirectory E get dirHash)) (\<lambda>entries.
          case List.find (\<lambda>e. ename e = oldName) entries of
            None \<Rightarrow> throwS (EntryNotFound oldName)
          | Some entry \<Rightarrow>
              bindS (putDirectory E C (List.filter (\<lambda>e. ename e \<noteq> oldName) entries
                       @ [entry\<lparr>ename := newName\<rparr>])) (\<lambda>newDirHash.
              rebuildPath E C rootHash path newDirHash))))"

definition moveEntry ::
  "ext \<Rightarrow> 's config \<Rightarrow> hash \<Rightarrow> string list \<Rightarrow> string \<Rightarrow> string list \<Rightarrow> ('s, hash) op" where
  "moveEntry E C rootHash sourcePath name targetPath =
     bindS (readS (cstore C) (\<lambda>get. resolvePathArray E get rootHash sourcePath)) (\<lambda>dir.
     case dir of
       None \<Rightarrow> throwS (SourcePathNotFound sourcePath)
     | Some sourceDirHash \<Rightarrow>
         bindS (readS (cstore C) (\<lambda>get. listDirectory E get sourceDirHash)) (\<lambda>sourceEntries.
         case List.find (\<lambda>e. ename e = name) sourceEntries of
           None \<Rightarrow> throwS (EntryNotFound name)
         | Some entry \<Rightarrow>
             bindS (removeEntry E C rootHash sourcePath name) (\<lambda>newRoot.
             setEntry E C newRoot targetPath name (ecid entry) (esize entry) (etype entry) None)))"

section \<open>Joining and splitting paths\<close>

text \<open>A proper name is non-empty and has no slash: what \<open>join('/')\<close> and \<open>split('/')\<close> preserve.\<close>

definition good_name :: "string \<Rightarrow> bool" where
  "good_name n \<longleftrightarrow> n \<noteq> [] \<and> CHR ''/'' \<notin> set n"

lemma splitOn_plain: "c \<notin> set s \<Longrightarrow> splitOn c s = [s]"
  by (induction s) auto

lemma splitOn_append: "c \<notin> set s \<Longrightarrow> splitOn c (s @ c # t) = s # splitOn c t"
  by (induction s) auto

lemma pathParts_joinPath: "\<forall>n\<in>set path. good_name n \<Longrightarrow> path \<noteq> [] \<Longrightarrow> pathParts (joinPath path) = path"
  by (induction path rule: joinPath.induct)
     (auto simp: pathParts_def good_name_def splitOn_plain splitOn_append)

lemma resolvePathArray_parts:
  "\<forall>n\<in>set path. good_name n \<Longrightarrow> resolvePathArray E get h path = resolveParts E get h path"
  by (simp add: resolvePathArray_def resolvePath_def pathParts_joinPath)

lemma resolveParts_append:
  "resolveParts E get h (p @ q) = bindC (resolveParts E get h p) (\<lambda>r. case r of
     None \<Rightarrow> ret None | Some h' \<Rightarrow> resolveParts E get h' q)"
  by (induction p arbitrary: h) (auto intro!: arg_cong [where f = "bindC _"] split: option.split)

end
