(* ===== verification/DirSpec.thy ===== *)
theory DirSpec
  imports TreeEdit "HOL-Library.Sublist"
begin

text \<open>
  The abstract view of directories: a well-formed directory is a finite map from names to hashes, the
  edits are map updates along a path, and path copying changes nothing else. The lemmas here carry
  the properties of \<open>setEntry\<close>, \<open>removeEntry\<close>, \<open>renameEntry\<close> and \<open>moveEntry\<close>.
\<close>

section \<open>Directories as maps\<close>

definition wf_dir :: "TreeNode \<Rightarrow> bool" where
  "wf_dir n \<longleftrightarrow> node_ok n \<and> (\<forall>l\<in>set (nlinks n). lname l \<noteq> None \<and> lname l \<noteq> Some [])
     \<and> distinct (map lname (nlinks n))"

definition lookupName :: "Link list \<Rightarrow> string \<Rightarrow> hash option" where
  "lookupName ls x = map_option lhash (List.find (\<lambda>l. lname l = Some x) ls)"

definition entryMap :: "TreeEntry list \<Rightarrow> string \<Rightarrow> hash option" where
  "entryMap es = map_of (map (\<lambda>e. (ename e, chash (ecid e))) es)"

definition wf_entries :: "TreeEntry list \<Rightarrow> bool" where
  "wf_entries es \<longleftrightarrow> dir_ok es \<and> (\<forall>e\<in>set es. ename e \<noteq> []) \<and> distinct (map ename es)"

definition is_dir :: "ext \<Rightarrow> (hash \<Rightarrow> bytes option) \<Rightarrow> hash \<Rightarrow> (string \<Rightarrow> hash option) \<Rightarrow> bool" where
  "is_dir E get h m \<longleftrightarrow> (\<exists>n. dir_at E get h n \<and> wf_dir n \<and> m = lookupName (nlinks n))"

fun dirsAlong :: "ext \<Rightarrow> (hash \<Rightarrow> bytes option) \<Rightarrow> hash \<Rightarrow> string list \<Rightarrow> bool" where
  "dirsAlong E get h p = (case getDirectoryNode E get h of
     Some (Inr (Some n)) \<Rightarrow> wf_dir n \<and>
       (case p of [] \<Rightarrow> True
        | x # p' \<Rightarrow> (case lookupName (nlinks n) x of None \<Rightarrow> False | Some c \<Rightarrow> dirsAlong E get c p'))
   | _ \<Rightarrow> False)"

declare dirsAlong.simps [simp del]

lemma dirsAlong_Nil: "dirsAlong E get h [] \<longleftrightarrow> (\<exists>m. is_dir E get h m)"
  by (auto simp: dirsAlong.simps is_dir_def dir_at_def split: option.splits sum.splits)

lemma dirsAlong_Cons:
  "dirsAlong E get h (x # p) \<longleftrightarrow> (\<exists>m c. is_dir E get h m \<and> m x = Some c \<and> dirsAlong E get c p)"
  by (subst dirsAlong.simps) (auto simp: is_dir_def dir_at_def split: option.splits sum.splits)

lemma is_dir_mono: "is_dir E get h m \<Longrightarrow> get \<subseteq>\<^sub>m get' \<Longrightarrow> is_dir E get' h m"
  unfolding is_dir_def by (blast dest: dir_at_mono)

lemma is_dir_unique: "is_dir E get h m \<Longrightarrow> is_dir E get h m' \<Longrightarrow> m = m'"
  by (auto simp: is_dir_def dir_at_def)

lemma dirsAlong_mono: "dirsAlong E get h p \<Longrightarrow> get \<subseteq>\<^sub>m get' \<Longrightarrow> dirsAlong E get' h p"
  by (induction p arbitrary: h) (auto simp: dirsAlong_Nil dirsAlong_Cons, (blast dest: is_dir_mono)+)

lemma resolveParts_dir:
  "is_dir E get h m \<Longrightarrow>
   resolveParts E get h (x # p) = (case m x of None \<Rightarrow> ret None | Some c \<Rightarrow> resolveParts E get c p)"
  by (auto simp: is_dir_def dir_at_def lookupName_def split: option.splits)

lemma find_map_of:
  "map_option lhash (List.find (\<lambda>l. lname l = Some x) ls) = map_of (map (\<lambda>l. (lname l, lhash l)) ls) (Some x)"
  by (induction ls) auto

lemma map_of_perm:
  assumes "mset xs = mset ys" "distinct (map fst xs)"
  shows "map_of xs = map_of ys"
proof -
  have "distinct (map fst ys)" using assms by (metis mset_eq_imp_distinct_iff mset_map)
  with assms show ?thesis by (metis map_of_inject_set mset_eq_setD)
qed

text \<open>Reading a well-formed directory gives well-formed entries with the same map; writing
  well-formed entries gives a well-formed directory with the same map.\<close>

definition entryOf :: "Link \<Rightarrow> TreeEntry" where
  "entryOf l = \<lparr>ename = the (lname l), ecid = cid (lhash l) (lkey l), esize = lsize l,
     etype = ltype l, emeta = lmeta l\<rparr>"

lemma linkEntries_named:
  "\<forall>l\<in>set ls. lname l \<noteq> None \<and> lname l \<noteq> Some [] \<Longrightarrow> linkEntries ls = map entryOf ls"
  by (induction ls) (auto simp: linkEntries_def List.map_filter_simps entryOf_def)

lemma entryLink_entryOf: "lname l \<noteq> None \<Longrightarrow> entryLink (entryOf l) = l"
  by (auto simp: entryLink_def entryOf_def cid_def)

lemma entryMap_entryOf:
  "\<forall>l\<in>set ls. lname l \<noteq> None \<Longrightarrow> entryMap (map entryOf ls) = lookupName ls"
  by (rule HOL.ext, induction ls) (auto simp: entryMap_def lookupName_def entryOf_def cid_def)

lemma linkEntries_wf:
  assumes "wf_dir n"
  shows "wf_entries (linkEntries (nlinks n))" "entryMap (linkEntries (nlinks n)) = lookupName (nlinks n)"
proof -
  have named: "\<forall>l\<in>set (nlinks n). lname l \<noteq> None \<and> lname l \<noteq> Some []" using assms by (simp add: wf_dir_def)
  note eq = linkEntries_named [OF named]
  have "map (Some \<circ> ename) (map entryOf (nlinks n)) = map lname (nlinks n)"
    using named by (auto simp: entryOf_def)
  then have "distinct (map ename (map entryOf (nlinks n)))"
    using assms unfolding wf_dir_def by (metis distinct_map map_map)
  moreover have "\<forall>e\<in>set (map entryOf (nlinks n)). entry_ok e \<and> ename e \<noteq> []"
    using assms named by (auto simp: entry_ok_def entryLink_entryOf wf_dir_def node_ok_def) (auto simp: entryOf_def)
  ultimately show "wf_entries (linkEntries (nlinks n))"
    by (simp add: eq wf_entries_def dir_ok_def)
  show "entryMap (linkEntries (nlinks n)) = lookupName (nlinks n)"
    using named by (simp add: eq entryMap_entryOf)
qed

lemma dirRaw_wf:
  assumes "wf_entries es"
  shows "wf_dir (canonNode (dirRaw E es))" "lookupName (nlinks (canonNode (dirRaw E es))) = entryMap es"
proof -
  have names: "map lname (nlinks (canonNode (dirRaw E es))) = map (Some \<circ> ename) (sortEntries E es)"
    by (simp add: dirRaw_def entryLink_def)
  have d0: "distinct (map ename (sortEntries E es))"
    using assms by (simp add: sortEntries_def wf_entries_def)
  then have d: "distinct (map (Some \<circ> ename) (sortEntries E es))"
    by (simp add: distinct_map comp_inj_on)
  show "wf_dir (canonNode (dirRaw E es))"
    using assms d unfolding wf_dir_def names
    by (auto simp: node_ok_def wf_entries_def dir_ok_def entry_ok_def link_ok_canonLink dirRaw_def) (auto simp: entryLink_def)
  have "map_of (map (\<lambda>e. (ename e, chash (ecid e))) (sortEntries E es)) =
        map_of (map (\<lambda>e. (ename e, chash (ecid e))) es)"
    using d0 by (intro map_of_perm) (simp_all add: sortEntries_def o_def)
  moreover have "map_of (map (\<lambda>l. (lname l, lhash l)) (map (canonLink \<circ> entryLink) es')) (Some x)
      = map_of (map (\<lambda>e. (ename e, chash (ecid e))) es') x" for es' x
    by (induction es') (auto simp: entryLink_def)
  ultimately show "lookupName (nlinks (canonNode (dirRaw E es))) = entryMap es"
    by (auto simp: lookupName_def find_map_of entryMap_def dirRaw_def o_def)
qed

section \<open>The edits of entry lists are map updates\<close>

lemma entryMap_notin: "x \<notin> ename ` set es \<Longrightarrow> entryMap es x = None"
  by (auto simp: entryMap_def map_of_eq_None_iff)

lemma entryMap_filter: "entryMap (List.filter (\<lambda>e. ename e \<noteq> x) es) = (entryMap es)(x := None)"
  by (rule HOL.ext, induction es) (auto simp: entryMap_def)

lemma entryMap_set:
  "entryMap (List.filter (\<lambda>e. ename e \<noteq> x) es @ [e]) = (entryMap es)(x := None, ename e := (if
     ename e \<noteq> x \<and> entryMap es (ename e) \<noteq> None then entryMap es (ename e) else Some (chash (ecid e))))"
proof -
  have "entryMap (xs @ ys) = entryMap ys ++ entryMap xs" for xs ys by (simp add: entryMap_def)
  moreover have "entryMap [e] = [ename e \<mapsto> chash (ecid e)]" by (simp add: entryMap_def)
  ultimately show ?thesis
    by (rule_tac HOL.ext) (auto simp: entryMap_filter map_add_def split: option.splits)
qed

lemma entryMap_replaceChild:
  "entryMap (replaceChild x c es) = (\<lambda>y. if y = x then map_option (\<lambda>_. c) (entryMap es x) else entryMap es y)"
  by (rule HOL.ext, induction es) (auto simp: entryMap_def replaceChild_def cid_def)

lemma wf_entries_filter: "wf_entries es \<Longrightarrow> wf_entries (List.filter P es)"
  by (auto simp: wf_entries_def dir_ok_def distinct_map_filter)

lemma wf_entries_snoc:
  "wf_entries es \<Longrightarrow> entry_ok e \<Longrightarrow> ename e \<noteq> [] \<Longrightarrow> ename e \<notin> ename ` set es \<Longrightarrow> wf_entries (es @ [e])"
  by (auto simp: wf_entries_def dir_ok_def)

lemma entry_ok_hash [simp]: "entry_ok (e\<lparr>ecid := c\<rparr>) = entry_ok e" "entry_ok (e\<lparr>ename := x\<rparr>) = entry_ok e"
  by (auto simp: entry_ok_def entryLink_def link_ok_def)

lemma wf_entries_replaceChild: "wf_entries es \<Longrightarrow> wf_entries (replaceChild x c es)"
proof -
  have names: "map ename (replaceChild x c es) = map ename es" by (simp add: replaceChild_def)
  assume "wf_entries es"
  moreover from this have "\<forall>e\<in>set (replaceChild x c es). entry_ok e \<and> ename e \<noteq> []"
    by (auto simp: wf_entries_def dir_ok_def replaceChild_def)
  ultimately show "wf_entries (replaceChild x c es)"
    by (simp add: wf_entries_def dir_ok_def names)
qed

section \<open>Path copying\<close>

text \<open>\<open>path_copy E get h h' p D\<close>: the tree at \<open>h'\<close> is the tree at \<open>h\<close> with the directory at path \<open>p\<close>
  replaced by \<open>D\<close>.\<close>

fun path_copy ::
  "ext \<Rightarrow> (hash \<Rightarrow> bytes option) \<Rightarrow> hash \<Rightarrow> hash \<Rightarrow> string list \<Rightarrow> hash \<Rightarrow> bool" where
  "path_copy E get h h' [] D \<longleftrightarrow> h' = D"
| "path_copy E get h h' (x # p) D \<longleftrightarrow> (\<exists>m c c'. is_dir E get h m \<and> m x = Some c \<and>
     is_dir E get h' (m(x \<mapsto> c')) \<and> path_copy E get c c' p D)"

lemma path_copy_mono: "path_copy E get h h' p D \<Longrightarrow> get \<subseteq>\<^sub>m get' \<Longrightarrow> path_copy E get' h h' p D"
  by (induction p arbitrary: h h') (simp, simp, blast dest: is_dir_mono)

lemma path_copy_at:
  "path_copy E get h h' p D \<Longrightarrow> resolveParts E get h' (p @ q) = resolveParts E get D q"
  by (induction p arbitrary: h h') (auto simp: resolveParts_dir simp del: resolveParts.simps)

lemma path_copy_frame:
  "path_copy E get h h' p D \<Longrightarrow> \<not> prefix p q \<Longrightarrow> \<not> prefix q p \<Longrightarrow>
   resolveParts E get h' q = resolveParts E get h q"
proof (induction p arbitrary: h h' q)
  case (Cons x p)
  from Cons.prems(1) obtain m c c' where d: "is_dir E get h m" "m x = Some c"
      "is_dir E get h' (m(x \<mapsto> c'))" "path_copy E get c c' p D" by auto
  from Cons.prems(3) obtain y q' where q: "q = y # q'" by (cases q) auto
  show ?case
  proof (cases "y = x")
    case True
    with Cons q d show ?thesis
      by (simp add: resolveParts_dir [OF d(1)] resolveParts_dir [OF d(3)] del: resolveParts.simps)
  next
    case False
    with q show ?thesis
      by (simp add: resolveParts_dir [OF d(1)] resolveParts_dir [OF d(3)] del: resolveParts.simps)
  qed
qed simp

lemma dirsAlong_resolve:
  "dirsAlong E get h p \<Longrightarrow> \<exists>h' m. resolveParts E get h p = ret (Some h') \<and> is_dir E get h' m"
  by (induction p arbitrary: h)
     (auto simp: dirsAlong_Nil dirsAlong_Cons resolveParts_dir simp del: resolveParts.simps(2))

lemma dirsAlong_resolve_mono:
  "dirsAlong E get h p \<Longrightarrow> get \<subseteq>\<^sub>m get' \<Longrightarrow> resolveParts E get' h p = resolveParts E get h p"
proof (induction p arbitrary: h)
  case (Cons x p)
  then obtain m c where "is_dir E get h m" "is_dir E get' h m" "m x = Some c" "dirsAlong E get c p"
    by (auto simp: dirsAlong_Cons dest: is_dir_mono)
  with Cons show ?case by (simp add: resolveParts_dir del: resolveParts.simps)
qed simp

lemma dirsAlong_append: "dirsAlong E get h (p @ q) \<Longrightarrow> dirsAlong E get h p"
  by (induction p arbitrary: h) (auto simp: dirsAlong_Cons, auto simp: dirsAlong_Nil dirsAlong.simps [of _ _ _ q]
      is_dir_def dir_at_def split: option.splits sum.splits)

text \<open>What a directory edit at \<open>path\<close> means for every other path: an update of the map at \<open>name\<close>
  changes neither the paths that leave \<open>path\<close> nor the other names of the directory.\<close>

lemma edit_at:
  "path_copy E get root h path D \<Longrightarrow> is_dir E get D m \<Longrightarrow>
   resolveParts E get h (path @ [name]) = ret (m name)"
  by (simp add: path_copy_at resolveParts_dir split: option.splits del: resolveParts.simps(2))

lemma edit_frame:
  assumes pc: "path_copy E get root h path D" and d: "resolveParts E get root path = ret (Some d)"
    and dirs: "is_dir E get d m" "is_dir E get D m'" and m': "\<And>y. y \<notin> N \<Longrightarrow> m' y = m y"
    and q: "\<forall>x\<in>N. \<not> prefix (path @ [x]) q" "\<not> prefix q path"
  shows "resolveParts E get h q = resolveParts E get root q"
proof (cases "prefix path q")
  case True
  then obtain r where r: "q = path @ r" by (auto simp: prefix_def)
  with q(2) obtain y r' where y: "r = y # r'" by (cases r) auto
  with q(1) r have "y \<notin> N" by auto
  with y r pc d show ?thesis
    by (simp add: path_copy_at resolveParts_append [of E get root path] resolveParts_dir [OF dirs(1)]
        resolveParts_dir [OF dirs(2)] m' del: resolveParts.simps(2))
next
  case False
  with pc q show ?thesis by (intro path_copy_frame)
qed

lemma edit_dirsAlong:
  assumes "path_copy E get h h' path D" "resolveParts E get h path = ret (Some d)" "dirsAlong E get h q"
    and dirs: "is_dir E get d m" "is_dir E get D m'" and m': "\<And>y. y \<noteq> name \<Longrightarrow> m' y = m y"
    and q: "\<not> prefix (path @ [name]) q"
  shows "dirsAlong E get h' q"
  using assms(1-3) q
proof (induction path arbitrary: h h' q)
  case Nil
  then have "h' = D" "h = d" by auto
  with Nil dirs m' show ?case
    by (cases q) (auto simp: dirsAlong_Nil dirsAlong_Cons dest: is_dir_unique, metis is_dir_unique m')
next
  case (Cons x p)
  from Cons.prems(1) obtain k c c' where k: "is_dir E get h k" "k x = Some c"
      "is_dir E get h' (k(x \<mapsto> c'))" "path_copy E get c c' p D" by auto
  then have d: "resolveParts E get c p = ret (Some d)"
    using Cons.prems(2) by (simp add: resolveParts_dir [OF k(1)] del: resolveParts.simps)
  show ?case
  proof (cases q)
    case Nil
    with k show ?thesis by (auto simp: dirsAlong_Nil)
  next
    case (Cons y q')
    from Cons.prems(3) have "\<exists>e. k y = Some e \<and> dirsAlong E get e q'"
      using is_dir_unique [OF k(1)] by (auto simp: Cons dirsAlong_Cons)
    moreover have "dirsAlong E get c' q'" if "y = x" "dirsAlong E get c q'"
      using Cons.IH [OF k(4) d that(2)] Cons.prems(4) that(1) Cons by simp
    ultimately have "\<exists>e. (k(x \<mapsto> c')) y = Some e \<and> dirsAlong E get e q'" using k(2) by auto
    with k(3) show ?thesis by (auto simp: Cons dirsAlong_Cons simp del: fun_upd_apply)
  qed
qed

section \<open>The operations\<close>

lemma found_entry:
  assumes "wf_dir n" "lookupName (nlinks n) x = Some c"
  shows "\<exists>e. List.find (\<lambda>e. ename e = x) (linkEntries (nlinks n)) = Some e \<and> chash (ecid e) = c \<and> entry_ok e"
proof -
  let ?en = "linkEntries (nlinks n)"
  have "map_option (chash \<circ> ecid) (List.find (\<lambda>e. ename e = x) es) = entryMap es x" for es
    by (induction es) (auto simp: entryMap_def)
  from this [of ?en] have "map_option (chash \<circ> ecid) (List.find (\<lambda>e. ename e = x) ?en) = Some c"
    by (simp only: linkEntries_wf(2) [OF assms(1)] assms(2))
  then obtain e where "List.find (\<lambda>e. ename e = x) ?en = Some e" "chash (ecid e) = c" by auto
  moreover from this(1) have "e \<in> set ?en" by (auto simp: find_Some_iff)
  ultimately show ?thesis using linkEntries_wf(1) [OF assms(1)] by (auto simp: wf_entries_def dir_ok_def)
qed

context content_store
begin

lemma putDirectory_dir:
  assumes C: "cstore C = ops" "0 < chunkSize C" "chunkSize C < 2 ^ 53" and s: "sinv s"
    and E: "msgpack_ok E" and es: "wf_entries es"
  shows "\<exists>h s'. putDirectory E C es s = Some (Inr h, s') \<and> grows s s' \<and>
    (inj_on (sha256 E) (offered s') \<longrightarrow> is_dir E (store_get ops s') h (entryMap es))"
  using putDirectory_run [OF C(1,2) s E C(3)] es dirRaw_wf [OF es]
  unfolding is_dir_def wf_entries_def by metis

lemma rebuildLoop_run:
  assumes C: "cstore C = ops" "0 < chunkSize C" "chunkSize C < 2 ^ 53" and E: "msgpack_ok E"
  shows "sinv s \<Longrightarrow> \<forall>n\<in>set rparts. good_name n \<Longrightarrow> dirsAlong E (store_get ops s) root (rev rparts) \<Longrightarrow>
    resolveParts E (store_get ops s) root (rev rparts) = ret (Some d) \<Longrightarrow>
    \<exists>h s'. rebuildLoop E C root rparts child s = Some (Inr h, s') \<and> grows s s' \<and>
      (inj_on (sha256 E) (offered s') \<longrightarrow> path_copy E (store_get ops s) d child q D \<longrightarrow>
       path_copy E (store_get ops s') root h (rev rparts @ q) D)"
proof (induction rparts arbitrary: s child d q)
  case Nil
  then show ?case by simp
next
  case (Cons x rp)
  let ?get = "store_get ops s"
  have along: "dirsAlong E ?get root (rev rp)" using Cons.prems(3) dirsAlong_append by simp
  then obtain h m where h: "resolveParts E ?get root (rev rp) = ret (Some h)" "is_dir E ?get h m"
    using dirsAlong_resolve by blast
  then have mx: "m x = Some d"
    using Cons.prems(4) by (auto simp: resolveParts_append resolveParts_dir simp del: resolveParts.simps(2)
        split: option.splits)
  from h(2) obtain n where n: "dir_at E ?get h n" "wf_dir n" "m = lookupName (nlinks n)"
    unfolding is_dir_def by blast
  let ?es = "replaceChild x child (linkEntries (nlinks n))"
  have em: "entryMap ?es = m(x \<mapsto> child)"
    using mx linkEntries_wf [OF n(2)] n(3) by (auto simp: entryMap_replaceChild)
  obtain h1 s1 where p: "putDirectory E C ?es s = Some (Inr h1, s1)" "grows s s1"
      "inj_on (sha256 E) (offered s1) \<longrightarrow> is_dir E (store_get ops s1) h1 (m(x \<mapsto> child))"
    using putDirectory_dir [OF C Cons.prems(1) E, of ?es] linkEntries_wf [OF n(2)] em
    by (auto simp: wf_entries_replaceChild)
  note le = grows_map_le [OF p(2)]
  have res: "resolveParts E (store_get ops s1) root (rev rp) = ret (Some h)"
    using dirsAlong_resolve_mono [OF along le] h(1) by simp
  obtain h2 s2 where r: "rebuildLoop E C root rp h1 s1 = Some (Inr h2, s2)" "grows s1 s2"
      "inj_on (sha256 E) (offered s2) \<longrightarrow> path_copy E (store_get ops s1) h h1 (x # q) D \<longrightarrow>
       path_copy E (store_get ops s2) root h2 (rev rp @ x # q) D"
    using Cons.IH [OF grows_sinv [OF p(2)] _ dirsAlong_mono [OF along le] res, of h1 "x # q"] Cons.prems(2)
    by (auto simp del: path_copy.simps)
  have "rebuildLoop E C root (x # rp) child s = rebuildLoop E C root rp h1 s1"
    using C(1) h(1) n(1) p(1) Cons.prems(2)
    by (auto simp: bindS_def readS_def resolvePathArray_parts listDirectory_dir_at)
  moreover have "path_copy E (store_get ops s1) h h1 (x # q) D"
    if "inj_on (sha256 E) (offered s2)" "path_copy E ?get d child q D"
    using p(3) grows_inj [OF r(2) that(1)] path_copy_mono [OF that(2) le] is_dir_mono [OF h(2) le] mx
    by auto
  ultimately show ?case using r grows_trans [OF p(2) r(2)] by auto
qed

text \<open>The common tail of the edits: write the new directory, then rebuild the path above it.\<close>

lemma edit_run:
  assumes C: "cstore C = ops" "0 < chunkSize C" "chunkSize C < 2 ^ 53" and E: "msgpack_ok E"
    and s: "sinv s" and path: "\<forall>n\<in>set path. good_name n" "dirsAlong E (store_get ops s) root path"
    and es: "wf_entries es"
  shows "\<exists>h s'. bindS (putDirectory E C es) (rebuildPath E C root path) s = Some (Inr h, s') \<and> grows s s' \<and>
    (inj_on (sha256 E) (offered s') \<longrightarrow>
      (\<exists>D. path_copy E (store_get ops s') root h path D \<and> is_dir E (store_get ops s') D (entryMap es)))"
proof -
  obtain d where d: "resolveParts E (store_get ops s) root path = ret (Some d)"
    using dirsAlong_resolve [OF path(2)] by blast
  obtain D s1 where p: "putDirectory E C es s = Some (Inr D, s1)" "grows s s1"
      "inj_on (sha256 E) (offered s1) \<longrightarrow> is_dir E (store_get ops s1) D (entryMap es)"
    using putDirectory_dir [OF C s E es] by blast
  note le = grows_map_le [OF p(2)]
  have "dirsAlong E (store_get ops s1) root (rev (rev path))"
    "resolveParts E (store_get ops s1) root (rev (rev path)) = ret (Some d)"
    using dirsAlong_mono [OF path(2) le] dirsAlong_resolve_mono [OF path(2) le] d by simp_all
  from rebuildLoop_run [OF C E grows_sinv [OF p(2)] _ this, of D "[]" D] path(1)
  obtain h s2 where r: "rebuildLoop E C root (rev path) D s1 = Some (Inr h, s2)" "grows s1 s2"
      "inj_on (sha256 E) (offered s2) \<longrightarrow> path_copy E (store_get ops s2) root h path D" by auto
  have "bindS (putDirectory E C es) (rebuildPath E C root path) s = Some (Inr h, s2)"
    using p(1) r(1) by (auto simp: bindS_def rebuildPath_def)
  moreover have "is_dir E (store_get ops s2) D (entryMap es)" if "inj_on (sha256 E) (offered s2)"
    using p(3) grows_inj [OF r(2) that] is_dir_mono [OF _ grows_map_le [OF r(2)]] by blast
  ultimately show ?thesis using r grows_trans [OF p(2) r(2)] by blast
qed

lemma setEntry_run:
  assumes C: "cstore C = ops" "0 < chunkSize C" "chunkSize C < 2 ^ 53" and E: "msgpack_ok E"
    and s: "sinv s" and path: "\<forall>n\<in>set path. good_name n" "dirsAlong E (store_get ops s) root path"
    and e: "entry_ok \<lparr>ename = name, ecid = c, esize = sz, etype = t, emeta = mt\<rparr>" "name \<noteq> []"
  shows "\<exists>d m h s'. resolveParts E (store_get ops s) root path = ret (Some d) \<and> is_dir E (store_get ops s) d m \<and>
    setEntry E C root path name c sz t mt s = Some (Inr h, s') \<and> grows s s' \<and>
    (inj_on (sha256 E) (offered s') \<longrightarrow> (\<exists>D. path_copy E (store_get ops s') root h path D
       \<and> is_dir E (store_get ops s') D (m(name \<mapsto> chash c))))"
proof -
  obtain d m where d: "resolveParts E (store_get ops s) root path = ret (Some d)" "is_dir E (store_get ops s) d m"
    using dirsAlong_resolve [OF path(2)] by blast
  then obtain n where n: "dir_at E (store_get ops s) d n" "wf_dir n" "m = lookupName (nlinks n)"
    unfolding is_dir_def by blast
  let ?e = "\<lparr>ename = name, ecid = c, esize = sz, etype = t, emeta = mt\<rparr>"
  let ?es = "List.filter (\<lambda>e. ename e \<noteq> name) (linkEntries (nlinks n)) @ [?e]"
  have wf: "wf_entries ?es"
    using linkEntries_wf(1) [OF n(2)] e by (intro wf_entries_snoc wf_entries_filter) auto
  have em: "entryMap ?es = m(name \<mapsto> chash c)"
    by (simp add: entryMap_set linkEntries_wf(2) [OF n(2)] n(3))
  have "setEntry E C root path name c sz t mt s = bindS (putDirectory E C ?es) (rebuildPath E C root path) s"
    using C(1) d(1) n(1) path(1)
    by (simp add: setEntry_def bindS_def readS_def resolvePathArray_parts listDirectory_dir_at)
  with edit_run [OF C E s path wf] d em show ?thesis by metis
qed

lemma removeEntry_run:
  assumes C: "cstore C = ops" "0 < chunkSize C" "chunkSize C < 2 ^ 53" and E: "msgpack_ok E"
    and s: "sinv s" and path: "\<forall>n\<in>set path. good_name n" "dirsAlong E (store_get ops s) root path"
  shows "\<exists>d m h s'. resolveParts E (store_get ops s) root path = ret (Some d) \<and> is_dir E (store_get ops s) d m \<and>
    removeEntry E C root path name s = Some (Inr h, s') \<and> grows s s' \<and>
    (inj_on (sha256 E) (offered s') \<longrightarrow> (\<exists>D. path_copy E (store_get ops s') root h path D
       \<and> is_dir E (store_get ops s') D (m(name := None))))"
proof -
  obtain d m where d: "resolveParts E (store_get ops s) root path = ret (Some d)" "is_dir E (store_get ops s) d m"
    using dirsAlong_resolve [OF path(2)] by blast
  then obtain n where n: "dir_at E (store_get ops s) d n" "wf_dir n" "m = lookupName (nlinks n)"
    unfolding is_dir_def by blast
  let ?es = "List.filter (\<lambda>e. ename e \<noteq> name) (linkEntries (nlinks n))"
  have "removeEntry E C root path name s = bindS (putDirectory E C ?es) (rebuildPath E C root path) s"
    using C(1) d(1) n(1) path(1)
    by (simp add: removeEntry_def bindS_def readS_def resolvePathArray_parts listDirectory_dir_at)
  with edit_run [OF C E s path wf_entries_filter [OF linkEntries_wf(1) [OF n(2)]]] d n
  show ?thesis by (metis entryMap_filter linkEntries_wf(2))
qed

lemma renameEntry_run:
  assumes C: "cstore C = ops" "0 < chunkSize C" "chunkSize C < 2 ^ 53" and E: "msgpack_ok E"
    and s: "sinv s" and path: "\<forall>n\<in>set path. good_name n" "dirsAlong E (store_get ops s) root path"
    and d: "resolveParts E (store_get ops s) root path = ret (Some d)" "is_dir E (store_get ops s) d m"
    and m: "m old = Some c" "m new = None" "new \<noteq> []"
  shows "\<exists>h s'. renameEntry E C root path old new s = Some (Inr h, s') \<and> grows s s' \<and>
    (inj_on (sha256 E) (offered s') \<longrightarrow> (\<exists>D. path_copy E (store_get ops s') root h path D
       \<and> is_dir E (store_get ops s') D (m(old := None, new \<mapsto> c))))"
proof -
  from d(2) obtain n where n: "dir_at E (store_get ops s) d n" "wf_dir n" "m = lookupName (nlinks n)"
    unfolding is_dir_def by blast
  let ?en = "linkEntries (nlinks n)"
  have em: "entryMap ?en = m" using linkEntries_wf(2) [OF n(2)] n(3) by simp
  obtain e where e: "List.find (\<lambda>e. ename e = old) ?en = Some e" "chash (ecid e) = c"
    using found_entry [OF n(2)] n(3) m(1) by blast
  then have ein: "e \<in> set ?en" "ename e = old" by (auto simp: find_Some_iff)
  let ?es = "List.filter (\<lambda>e. ename e \<noteq> old) ?en @ [e\<lparr>ename := new\<rparr>]"
  have fresh: "new \<notin> ename ` set ?en"
    using m(2) em by (auto simp: entryMap_def map_of_eq_None_iff image_image)
  have ne: "old \<noteq> new" using m by auto
  have wf: "wf_entries ?es"
    using linkEntries_wf(1) [OF n(2)] ein m(3) fresh
    by (intro wf_entries_snoc wf_entries_filter) (auto simp: wf_entries_def dir_ok_def)
  have mp: "entryMap ?es = m(old := None, new \<mapsto> c)"
    using ne m e by (auto simp: entryMap_set em)
  have "renameEntry E C root path old new s = bindS (putDirectory E C ?es) (rebuildPath E C root path) s"
    using C(1) d(1) n(1) path(1) e ne
    by (simp add: renameEntry_def bindS_def readS_def resolvePathArray_parts listDirectory_dir_at)
  with edit_run [OF C E s path wf] mp show ?thesis by metis
qed

lemma moveEntry_run:
  assumes C: "cstore C = ops" "0 < chunkSize C" "chunkSize C < 2 ^ 53" and E: "msgpack_ok E"
    and s: "sinv s"
    and src: "\<forall>n\<in>set src. good_name n" "dirsAlong E (store_get ops s) root src"
    and tgt: "\<forall>n\<in>set tgt. good_name n" "dirsAlong E (store_get ops s) root tgt"
    and out: "\<not> prefix (src @ [name]) tgt" "name \<noteq> []"
    and d: "resolveParts E (store_get ops s) root src = ret (Some d)" "is_dir E (store_get ops s) d m"
    and m: "m name = Some c"
  shows "\<exists>r s1. removeEntry E C root src name s = Some (Inr r, s1) \<and> grows s s1 \<and>
    (inj_on (sha256 E) (offered s1) \<longrightarrow> (\<exists>h s'.
      moveEntry E C root src name tgt s = Some (Inr h, s') \<and> grows s1 s' \<and>
      (inj_on (sha256 E) (offered s') \<longrightarrow>
        resolveParts E (store_get ops s') h (tgt @ [name]) = ret (Some c) \<and>
        (\<not> prefix (tgt @ [name]) (src @ [name]) \<longrightarrow>
          resolveParts E (store_get ops s') h (src @ [name]) = ret None))))"
proof -
  from d(2) obtain n where n: "dir_at E (store_get ops s) d n" "wf_dir n" "m = lookupName (nlinks n)"
    unfolding is_dir_def by blast
  obtain e where e: "List.find (\<lambda>e. ename e = name) (linkEntries (nlinks n)) = Some e" "chash (ecid e) = c"
    "entry_ok e" using found_entry [OF n(2)] n(3) m by blast
  obtain r s1 where r: "removeEntry E C root src name s = Some (Inr r, s1)" "grows s s1"
      "inj_on (sha256 E) (offered s1) \<longrightarrow> (\<exists>D. path_copy E (store_get ops s1) root r src D
         \<and> is_dir E (store_get ops s1) D (m(name := None)))"
    using removeEntry_run [OF C E s src, of name] d is_dir_unique by fastforce
  note le = grows_map_le [OF r(2)]
  have mv: "moveEntry E C root src name tgt s = setEntry E C r tgt name (ecid e) (esize e) (etype e) None s1"
    using C(1) d(1) n(1) src(1) e r(1)
    by (simp add: moveEntry_def bindS_def readS_def resolvePathArray_parts listDirectory_dir_at)
  have "\<exists>h s'. setEntry E C r tgt name (ecid e) (esize e) (etype e) None s1 = Some (Inr h, s') \<and> grows s1 s' \<and>
      (inj_on (sha256 E) (offered s') \<longrightarrow> resolveParts E (store_get ops s') h (tgt @ [name]) = ret (Some c) \<and>
        (\<not> prefix (tgt @ [name]) (src @ [name]) \<longrightarrow> resolveParts E (store_get ops s') h (src @ [name]) = ret None))"
    if inj: "inj_on (sha256 E) (offered s1)"
  proof -
    from r(3) inj obtain D where D: "path_copy E (store_get ops s1) root r src D"
        "is_dir E (store_get ops s1) D (m(name := None))" by blast
    have "resolveParts E (store_get ops s1) root src = ret (Some d)"
      using dirsAlong_resolve_mono [OF src(2) le] d(1) by simp
    from edit_dirsAlong [OF D(1) this dirsAlong_mono [OF tgt(2) le] is_dir_mono [OF d(2) le] D(2) _ out(1)]
    have along: "dirsAlong E (store_get ops s1) r tgt" by simp
    have ok: "entry_ok \<lparr>ename = name, ecid = ecid e, esize = esize e, etype = etype e, emeta = None\<rparr>"
      using e(3) by (auto simp: entry_ok_def entryLink_def link_ok_def)
    obtain d2 m2 h s' where set: "resolveParts E (store_get ops s1) r tgt = ret (Some d2)"
        "is_dir E (store_get ops s1) d2 m2"
        "setEntry E C r tgt name (ecid e) (esize e) (etype e) None s1 = Some (Inr h, s')" "grows s1 s'"
        "inj_on (sha256 E) (offered s') \<longrightarrow> (\<exists>D2. path_copy E (store_get ops s') r h tgt D2
           \<and> is_dir E (store_get ops s') D2 (m2(name \<mapsto> c)))"
      using setEntry_run [OF C E grows_sinv [OF r(2)] tgt(1) along ok out(2)] e(2) by blast
    note le' = grows_map_le [OF set(4)]
    have gone: "resolveParts E (store_get ops s') r (src @ [name]) = ret None"
      using edit_at [OF path_copy_mono [OF D(1) le'] is_dir_mono [OF D(2) le'], of name] by simp
    have res: "resolveParts E (store_get ops s') r tgt = ret (Some d2)"
      using dirsAlong_resolve_mono [OF along le'] set(1) by simp
    have "resolveParts E (store_get ops s') h (tgt @ [name]) = ret (Some c) \<and>
        (\<not> prefix (tgt @ [name]) (src @ [name]) \<longrightarrow> resolveParts E (store_get ops s') h (src @ [name]) = ret None)"
      if "inj_on (sha256 E) (offered s')"
    proof -
      from set(5) that obtain D2 where D2: "path_copy E (store_get ops s') r h tgt D2"
          "is_dir E (store_get ops s') D2 (m2(name \<mapsto> c))" by blast
      show ?thesis
        using edit_at [OF D2, of name] gone out(1)
          edit_frame [OF D2(1) res is_dir_mono [OF set(2) le'] D2(2), of "{name}" "src @ [name]"] by simp
    qed
    with set(3,4) show ?thesis by blast
  qed
  with r mv show ?thesis by auto
qed

end

end
