(* ===== verification/DirProps.thy ===== *)
theory DirProps
  imports DirSpec Encrypted Instance
begin

text \<open>
  The properties of directories: what is stored is what is listed, and each edit of a directory tree
  does what its name says at its path, changes nothing at other paths, and leaves the old root as it
  was. The store is \<open>MemoryStore\<close> with a log of the blocks offered to it.
\<close>

abbreviation dirConfig :: "nat \<Rightarrow> (memory \<times> bytes list) config" where
  "dirConfig c \<equiv> \<lparr>cstore = memlog, chunkSize = c\<rparr>"

text \<open>The tree the witnesses start from: a root with the file \<open>a\<close> and the empty directory \<open>x\<close>.\<close>

definition mkEntry :: "string \<Rightarrow> hash \<Rightarrow> LinkType \<Rightarrow> TreeEntry" where
  "mkEntry n h t = \<lparr>ename = n, ecid = cid h None, esize = 3, etype = t, emeta = None\<rparr>"

definition sampleDir :: "(memory \<times> bytes list, hash) op" where
  "sampleDir = bindS (putDirectory demo (dirConfig 200) []) (\<lambda>x.
     putDirectory demo (dirConfig 200) [mkEntry ''x'' x Dir, mkEntry ''a'' [1] Blob])"

definition sampleTree :: "hash \<times> memory \<times> bytes list" where
  "sampleTree = (case sampleDir ([], []) of Some (Inr h, s) \<Rightarrow> (h, s) | _ \<Rightarrow> ([], ([], [])))"

abbreviation sampleRoot :: hash where
  "sampleRoot \<equiv> fst sampleTree"

abbreviation sampleState :: "memory \<times> bytes list" where
  "sampleState \<equiv> snd sampleTree"

lemma sample_entry_ok: "entry_ok (mkEntry n h Blob)" "entry_ok (mkEntry n h Dir)"
  by (simp_all add: entry_ok_def mkEntry_def entryLink_def link_ok_def linkType_ok_def linkTypeNum_def)

lemma sample_inv: "memlog_inv demo sampleState"
proof -
  have dir: "\<exists>h s'. putDirectory demo (dirConfig 200) es s = Some (Inr h, s') \<and> memlog_inv demo s'"
    if "memlog_inv demo s" "dir_ok es" for s es
    using mem.logs.putDirectory_run [of "dirConfig 200" demo s es] that mem.logs.grows_sinv
    by (simp del: split_paired_Ex) blast
  have "\<exists>h s'. sampleDir ([], []) = Some (Inr h, s') \<and> memlog_inv demo s'"
    unfolding sampleDir_def bindS_def
    using dir [of "([], [])" "[]"] dir [of _ "[mkEntry ''x'' x Dir, mkEntry ''a'' [1] Blob]" for x]
    by (fastforce simp: dir_ok_def sample_entry_ok)
  then show ?thesis by (auto simp: sampleTree_def)
qed

text \<open>One evaluation of everything the witnesses ask of this tree.\<close>

definition clean :: "((hash res \<times> memory \<times> bytes list) option) \<Rightarrow> bool" where
  "clean r = (case r of Some (r, s') \<Rightarrow> no_collision demo s' | None \<Rightarrow> False)"

lemma sample_facts:
  "case sampleTree of (root, st) \<Rightarrow>
     dirsAlong demo (store_get memlog st) root [''x''] \<and>
     resolveParts demo (store_get memlog st) root [''a''] = ret (Some [1]) \<and>
     resolveParts demo (store_get memlog st) root [''b''] = ret None \<and>
     clean (setEntry demo (dirConfig 200) root [''x''] ''b'' (cid [7] None) 3 Blob None st) \<and>
     clean (removeEntry demo (dirConfig 200) root [] ''a'' st) \<and>
     clean (renameEntry demo (dirConfig 200) root [] ''a'' ''b'' st) \<and>
     clean (moveEntry demo (dirConfig 200) root [] ''a'' [''x''] st)"
  by code_simp

lemma sample_paths:
  "dirsAlong demo (store_get memlog sampleState) sampleRoot [''x'']"
  "dirsAlong demo (store_get memlog sampleState) sampleRoot []"
  "resolveParts demo (store_get memlog sampleState) sampleRoot [''a''] = ret (Some [1])"
  "resolveParts demo (store_get memlog sampleState) sampleRoot [''b''] = ret None"
  using sample_facts dirsAlong_append [of demo "store_get memlog sampleState" sampleRoot "[]" "[''x'']"]
  by (simp_all only: case_prod_beta append_Nil)

lemma sample_edits:
  "case setEntry demo (dirConfig 200) sampleRoot [''x''] ''b'' (cid [7] None) 3 Blob None sampleState of
     Some (r, s') \<Rightarrow> no_collision demo s' | None \<Rightarrow> False"
  "case removeEntry demo (dirConfig 200) sampleRoot [] ''a'' sampleState of
     Some (r, s') \<Rightarrow> no_collision demo s' | None \<Rightarrow> False"
  "case renameEntry demo (dirConfig 200) sampleRoot [] ''a'' ''b'' sampleState of
     Some (r, s') \<Rightarrow> no_collision demo s' | None \<Rightarrow> False"
  "case moveEntry demo (dirConfig 200) sampleRoot [] ''a'' [''x''] sampleState of
     Some (r, s') \<Rightarrow> no_collision demo s' | None \<Rightarrow> False"
  using sample_facts by (simp_all only: case_prod_beta clean_def)

lemma sample_good: "\<forall>n\<in>set [''x'']. good_name n" "\<forall>n\<in>set []. good_name n"
  by (simp_all add: good_name_def)

section \<open>Listing\<close>

text \<open>Listing a stored directory gives its entries in the order \<open>localeCompare\<close> sorts their names,
  every field kept (metadata with sorted keys), whether the encoding fits one block or is chunked
  itself.\<close>

theorem listDirectory_putDirectory:
  assumes "msgpack_ok E" "memlog_inv E s" "0 < c" "c < 2 ^ 53"
    and "dir_ok es" "\<forall>e\<in>set es. ename e \<noteq> []"
  shows "\<exists>h s'. putDirectory E (dirConfig c) es s = Some (Inr h, s') \<and>
    (no_collision E s' \<longrightarrow>
      listDirectory E (store_get memlog s') h = ret (map canonEntry (sortEntries E es)))"
  using mem.logs.putDirectory_run [of "dirConfig c" E s es] assms
  by (fastforce simp: listDirectory_dir_at linkEntries_dirRaw simp del: canonNode_simps)

lemma sample_list:
  "case putDirectory demo (dirConfig 20) [mkEntry ''b'' [1] Blob, mkEntry ''a'' [2] Blob] ([], []) of
     Some (r, s') \<Rightarrow> no_collision demo s' | None \<Rightarrow> False"
  "case putDirectoryEncrypted demo (dirConfig 20) [mkEntry ''b'' [1] Blob, mkEntry ''a'' [2] Blob] ([], []) of
     Some (r, s') \<Rightarrow> no_collision demo s' | None \<Rightarrow> False"
  "map canonEntry (sortEntries demo [mkEntry ''b'' [1] Blob, mkEntry ''a'' [2] Blob])
     = [mkEntry ''a'' [2] Blob, mkEntry ''b'' [1] Blob]"
  by code_simp+

theorem listDirectory_putDirectory_witness:
  "\<exists>h s'. putDirectory demo (dirConfig 20) [mkEntry ''b'' [1] Blob, mkEntry ''a'' [2] Blob] ([], []) = Some (Inr h, s')
     \<and> listDirectory demo (store_get memlog s') h = ret [mkEntry ''a'' [2] Blob, mkEntry ''b'' [1] Blob]"
proof -
  have "dir_ok [mkEntry ''b'' [1] Blob, mkEntry ''a'' [2] Blob]" by (simp add: dir_ok_def sample_entry_ok)
  with listDirectory_putDirectory [of demo "([], [])" 20 "[mkEntry ''b'' [1] Blob, mkEntry ''a'' [2] Blob]"]
  obtain h s' where run: "putDirectory demo (dirConfig 20) [mkEntry ''b'' [1] Blob, mkEntry ''a'' [2] Blob] ([], [])
        = Some (Inr h, s')" and rd: "no_collision demo s' \<longrightarrow>
      listDirectory demo (store_get memlog s') h = ret [mkEntry ''a'' [2] Blob, mkEntry ''b'' [1] Blob]"
    unfolding sample_list(3) by (auto simp: mkEntry_def)
  with run_no_collision [OF sample_list(1) run] show ?thesis by blast
qed

text \<open>The same for encrypted directories, with the returned hash and key.\<close>

theorem listDirectoryEncrypted_putDirectoryEncrypted:
  assumes "msgpack_ok E" "aes_ok E" "digest_len E" "memlog_inv E s" "0 < c" "c < 2 ^ 53"
    and "dir_ok es" "\<forall>e\<in>set es. ename e \<noteq> []"
  shows "\<exists>r s'. putDirectoryEncrypted E (dirConfig c) es s = Some (Inr r, s') \<and>
    (no_collision E s' \<longrightarrow>
      listDirectoryEncrypted E (store_get memlog s') (rhash r) (rkey r) = ret (map canonEntry (sortEntries E es)))"
  using mem.logs.putDirectoryEncrypted_run [of "dirConfig c" E s es] assms
  by (fastforce simp: listDirectoryEncrypted_def encrypted_dir_at_def linkEntries_dirRaw simp del: canonNode_simps)

theorem listDirectoryEncrypted_putDirectoryEncrypted_witness:
  "\<exists>r s'. putDirectoryEncrypted demo (dirConfig 20) [mkEntry ''b'' [1] Blob, mkEntry ''a'' [2] Blob] ([], [])
       = Some (Inr r, s')
     \<and> listDirectoryEncrypted demo (store_get memlog s') (rhash r) (rkey r)
       = ret [mkEntry ''a'' [2] Blob, mkEntry ''b'' [1] Blob]"
proof -
  have "dir_ok [mkEntry ''b'' [1] Blob, mkEntry ''a'' [2] Blob]" by (simp add: dir_ok_def sample_entry_ok)
  with listDirectoryEncrypted_putDirectoryEncrypted
    [of demo "([], [])" 20 "[mkEntry ''b'' [1] Blob, mkEntry ''a'' [2] Blob]"]
  obtain r s' where run: "putDirectoryEncrypted demo (dirConfig 20) [mkEntry ''b'' [1] Blob, mkEntry ''a'' [2] Blob] ([], [])
        = Some (Inr r, s')" and rd: "no_collision demo s' \<longrightarrow>
      listDirectoryEncrypted demo (store_get memlog s') (rhash r) (rkey r)
        = ret [mkEntry ''a'' [2] Blob, mkEntry ''b'' [1] Blob]"
    unfolding sample_list(3) by (auto simp: mkEntry_def)
  with run_no_collision [OF sample_list(2) run] show ?thesis by blast
qed

section \<open>Edits\<close>

text \<open>The paths an edit at the names \<open>N\<close> of the directory at \<open>path\<close> does not touch: neither on the way to
  the directory nor below one of the names.\<close>

definition off_path :: "string list \<Rightarrow> string set \<Rightarrow> string list \<Rightarrow> bool" where
  "off_path path N q \<longleftrightarrow> \<not> prefix q path \<and> (\<forall>x\<in>N. \<not> prefix (path @ [x]) q)"

text \<open>What every edit of the directory at \<open>path\<close> leaves alone: other paths resolve under the new root as
  under the old one, and the old root resolves as in the old store.\<close>

definition untouched ::
  "ext \<Rightarrow> (hash \<Rightarrow> bytes option) \<Rightarrow> (hash \<Rightarrow> bytes option) \<Rightarrow> hash \<Rightarrow> hash \<Rightarrow> string list \<Rightarrow> string set \<Rightarrow> bool" where
  "untouched E get get' root h path N \<longleftrightarrow>
     (\<forall>q. off_path path N q \<longrightarrow> resolveParts E get' h q = resolveParts E get' root q) \<and>
     (\<forall>q. dirsAlong E get root q \<longrightarrow> resolveParts E get' root q = resolveParts E get root q)"

lemma edit_untouched:
  assumes "get \<subseteq>\<^sub>m get'" "dirsAlong E get root path" "path_copy E get' root h path D"
    and "resolveParts E get root path = ret (Some d)" "is_dir E get d m" "is_dir E get' D m'"
    and "\<And>y. y \<notin> N \<Longrightarrow> m' y = m y"
  shows "untouched E get get' root h path N"
proof -
  have "resolveParts E get' root path = ret (Some d)"
    using dirsAlong_resolve_mono [OF assms(2,1)] assms(4) by simp
  then show ?thesis
    unfolding untouched_def off_path_def
    using edit_frame [OF assms(3) _ is_dir_mono [OF assms(5,1)] assms(6,7)] dirsAlong_resolve_mono [OF _ assms(1)]
    by blast
qed

text \<open>C3. \<open>setEntry\<close> on a path of directories returns a new root under which the entry's path resolves to
  the entry's hash; every other path resolves as before, and the old root still shows the old tree.\<close>

theorem setEntry_correct:
  assumes "msgpack_ok E" "memlog_inv E s" "0 < c" "c < 2 ^ 53"
    and "\<forall>n\<in>set path. good_name n" "dirsAlong E (store_get memlog s) root path"
    and "entry_ok \<lparr>ename = name, ecid = e, esize = sz, etype = t, emeta = mt\<rparr>" "name \<noteq> []"
  shows "\<exists>h s'. setEntry E (dirConfig c) root path name e sz t mt s = Some (Inr h, s') \<and>
    (no_collision E s' \<longrightarrow>
      resolveParts E (store_get memlog s') h (path @ [name]) = ret (Some (chash e)) \<and>
      untouched E (store_get memlog s) (store_get memlog s') root h path {name})"
proof -
  obtain d m h s' where run: "setEntry E (dirConfig c) root path name e sz t mt s = Some (Inr h, s')"
      "mem.logs.grows E s s'" and d: "resolveParts E (store_get memlog s) root path = ret (Some d)"
      "is_dir E (store_get memlog s) d m"
      and D: "no_collision E s' \<longrightarrow> (\<exists>D. path_copy E (store_get memlog s') root h path D
         \<and> is_dir E (store_get memlog s') D (m(name \<mapsto> chash e)))"
    using mem.logs.setEntry_run [of "dirConfig c" E s path root name e sz t mt] assms
    by (simp del: split_paired_Ex) blast
  then show ?thesis
    using mem.logs.grows_map_le [OF run(2)] edit_at assms(6)
      edit_untouched [OF _ assms(6) _ d, where N = "{name}" and m' = "m(name \<mapsto> chash e)"]
    by (metis (no_types, lifting) fun_upd_apply singletonI)
qed

theorem setEntry_correct_witness:
  "\<exists>h s'. setEntry demo (dirConfig 200) sampleRoot [''x''] ''b'' (cid [7] None) 3 Blob None sampleState = Some (Inr h, s')
     \<and> resolveParts demo (store_get memlog s') h [''x'', ''b''] = ret (Some [7])
     \<and> resolveParts demo (store_get memlog s') h [''a''] = resolveParts demo (store_get memlog s') sampleRoot [''a'']"
proof -
  have "entry_ok \<lparr>ename = ''b'', ecid = cid [7] None, esize = 3, etype = Blob, emeta = None\<rparr>"
    using sample_entry_ok(1) [of "''b''" "[7]"] by (simp add: mkEntry_def)
  with setEntry_correct [OF _ sample_inv _ _ sample_good(1) sample_paths(1), of 200 "''b''" "cid [7] None" 3 Blob None]
  obtain h s' where
      run: "setEntry demo (dirConfig 200) sampleRoot [''x''] ''b'' (cid [7] None) 3 Blob None sampleState = Some (Inr h, s')"
      and rd: "no_collision demo s' \<longrightarrow> resolveParts demo (store_get memlog s') h [''x'', ''b''] = ret (Some [7])
        \<and> untouched demo (store_get memlog sampleState) (store_get memlog s') sampleRoot h [''x''] {''b''}"
    by (auto simp: cid_def)
  have "off_path [''x''] {''b''} [''a'']" by (simp add: off_path_def)
  with rd run_no_collision [OF sample_edits(1) run] run show ?thesis unfolding untouched_def by blast
qed

text \<open>C30. \<open>removeEntry\<close> returns a new root under which the removed path does not resolve; every other path
  resolves as before, and the old root still shows the old tree. Removing a name that is not there is
  no error.\<close>

theorem removeEntry_correct:
  assumes "msgpack_ok E" "memlog_inv E s" "0 < c" "c < 2 ^ 53"
    and "\<forall>n\<in>set path. good_name n" "dirsAlong E (store_get memlog s) root path"
  shows "\<exists>h s'. removeEntry E (dirConfig c) root path name s = Some (Inr h, s') \<and>
    (no_collision E s' \<longrightarrow>
      resolveParts E (store_get memlog s') h (path @ [name]) = ret None \<and>
      untouched E (store_get memlog s) (store_get memlog s') root h path {name})"
proof -
  obtain d m h s' where run: "removeEntry E (dirConfig c) root path name s = Some (Inr h, s')"
      "mem.logs.grows E s s'" and d: "resolveParts E (store_get memlog s) root path = ret (Some d)"
      "is_dir E (store_get memlog s) d m"
      and D: "no_collision E s' \<longrightarrow> (\<exists>D. path_copy E (store_get memlog s') root h path D
         \<and> is_dir E (store_get memlog s') D (m(name := None)))"
    using mem.logs.removeEntry_run [of "dirConfig c" E s path root name] assms
    by (simp del: split_paired_Ex) blast
  then show ?thesis
    using mem.logs.grows_map_le [OF run(2)] edit_at assms(6)
      edit_untouched [OF _ assms(6) _ d, where N = "{name}" and m' = "m(name := None)"]
    by (metis (no_types, lifting) fun_upd_apply singletonI)
qed

theorem removeEntry_correct_witness:
  "\<exists>h s'. removeEntry demo (dirConfig 200) sampleRoot [] ''a'' sampleState = Some (Inr h, s')
     \<and> resolveParts demo (store_get memlog s') h [''a''] = ret None"
proof -
  from removeEntry_correct [OF _ sample_inv _ _ sample_good(2) sample_paths(2), of 200 "''a''"] obtain h s' where
      run: "removeEntry demo (dirConfig 200) sampleRoot [] ''a'' sampleState = Some (Inr h, s')"
      and rd: "no_collision demo s' \<longrightarrow> resolveParts demo (store_get memlog s') h [''a''] = ret None"
    by auto
  with run_no_collision [OF sample_edits(2) run] show ?thesis by blast
qed

text \<open>\<open>renameEntry\<close> of an existing entry to a fresh name: the new name resolves to what the old one
  did, the old one does not resolve, everything else is as before.\<close>

theorem renameEntry_correct:
  assumes "msgpack_ok E" "memlog_inv E s" "0 < c" "c < 2 ^ 53"
    and "\<forall>n\<in>set path. good_name n" "dirsAlong E (store_get memlog s) root path"
    and "resolveParts E (store_get memlog s) root (path @ [old]) = ret (Some e)"
    and "resolveParts E (store_get memlog s) root (path @ [new]) = ret None" "new \<noteq> []"
  shows "\<exists>h s'. renameEntry E (dirConfig c) root path old new s = Some (Inr h, s') \<and>
    (no_collision E s' \<longrightarrow>
      resolveParts E (store_get memlog s') h (path @ [new]) = ret (Some e) \<and>
      resolveParts E (store_get memlog s') h (path @ [old]) = ret None \<and>
      untouched E (store_get memlog s) (store_get memlog s') root h path {old, new})"
proof -
  obtain d m where d: "resolveParts E (store_get memlog s) root path = ret (Some d)"
      "is_dir E (store_get memlog s) d m"
    using dirsAlong_resolve [OF assms(6)] by blast
  have m: "m old = Some e" "m new = None"
    using assms(7,8) d by (auto simp: resolveParts_append resolveParts_dir simp del: resolveParts.simps(2)
        split: option.splits)
  then obtain h s' where run: "renameEntry E (dirConfig c) root path old new s = Some (Inr h, s')"
      "mem.logs.grows E s s'"
      and D: "no_collision E s' \<longrightarrow> (\<exists>D. path_copy E (store_get memlog s') root h path D
         \<and> is_dir E (store_get memlog s') D (m(old := None, new \<mapsto> e)))"
    using mem.logs.renameEntry_run [of "dirConfig c" E s path root d m old e new] assms d
    by (simp del: split_paired_Ex) blast
  have "old \<noteq> new" using m by auto
  have "resolveParts E (store_get memlog s') h (path @ [new]) = ret (Some e) \<and>
      resolveParts E (store_get memlog s') h (path @ [old]) = ret None \<and>
      untouched E (store_get memlog s) (store_get memlog s') root h path {old, new}" if "no_collision E s'"
  proof -
    from D that obtain D where D: "path_copy E (store_get memlog s') root h path D"
        "is_dir E (store_get memlog s') D (m(old := None, new \<mapsto> e))" by blast
    show ?thesis
      using edit_untouched [OF mem.logs.grows_map_le [OF run(2)] assms(6) D(1) d D(2), of "{old, new}"]
        edit_at [OF D, of new] edit_at [OF D, of old] \<open>old \<noteq> new\<close> by simp
  qed
  with run(1) show ?thesis by blast
qed

theorem renameEntry_correct_witness:
  "\<exists>h s'. renameEntry demo (dirConfig 200) sampleRoot [] ''a'' ''b'' sampleState = Some (Inr h, s')
     \<and> resolveParts demo (store_get memlog s') h [''b''] = ret (Some [1])
     \<and> resolveParts demo (store_get memlog s') h [''a''] = ret None"
proof -
  from renameEntry_correct [OF _ sample_inv _ _ sample_good(2) sample_paths(2), of 200 "''a''" "[1]" "''b''"]
    sample_paths(3,4) obtain h s' where
      run: "renameEntry demo (dirConfig 200) sampleRoot [] ''a'' ''b'' sampleState = Some (Inr h, s')"
      and rd: "no_collision demo s' \<longrightarrow> resolveParts demo (store_get memlog s') h [''b''] = ret (Some [1])
        \<and> resolveParts demo (store_get memlog s') h [''a''] = ret None"
    by auto
  with run_no_collision [OF sample_edits(3) run] show ?thesis by blast
qed

text \<open>C29. \<open>moveEntry\<close> of an existing entry to a directory that is not below the entry: the target path
  resolves to what the source did, and the source path does not resolve any more unless the target is
  the source directory itself or an ancestor entry was replaced.\<close>

theorem moveEntry_correct:
  assumes "msgpack_ok E" "memlog_inv E s" "0 < c" "c < 2 ^ 53"
    and "\<forall>n\<in>set src. good_name n" "dirsAlong E (store_get memlog s) root src"
    and "\<forall>n\<in>set tgt. good_name n" "dirsAlong E (store_get memlog s) root tgt"
    and "\<not> prefix (src @ [name]) tgt" "name \<noteq> []"
    and "resolveParts E (store_get memlog s) root (src @ [name]) = ret (Some e)"
  shows "\<exists>r s1. removeEntry E (dirConfig c) root src name s = Some (Inr r, s1) \<and>
    (no_collision E s1 \<longrightarrow> (\<exists>h s'. moveEntry E (dirConfig c) root src name tgt s = Some (Inr h, s') \<and>
      (no_collision E s' \<longrightarrow>
        resolveParts E (store_get memlog s') h (tgt @ [name]) = ret (Some e) \<and>
        (\<not> prefix (tgt @ [name]) (src @ [name]) \<longrightarrow>
          resolveParts E (store_get memlog s') h (src @ [name]) = ret None))))"
proof -
  obtain d m where d: "resolveParts E (store_get memlog s) root src = ret (Some d)"
      "is_dir E (store_get memlog s) d m"
    using dirsAlong_resolve [OF assms(6)] by blast
  have "m name = Some e"
    using assms(11) d by (auto simp: resolveParts_append resolveParts_dir simp del: resolveParts.simps(2)
        split: option.splits)
  with mem.logs.moveEntry_run [of "dirConfig c" E s src root tgt name d m e] assms d show ?thesis
    by fastforce
qed

theorem moveEntry_correct_witness:
  "\<exists>h s'. moveEntry demo (dirConfig 200) sampleRoot [] ''a'' [''x''] sampleState = Some (Inr h, s')
     \<and> resolveParts demo (store_get memlog s') h [''x'', ''a''] = ret (Some [1])
     \<and> resolveParts demo (store_get memlog s') h [''a''] = ret None"
proof -
  from moveEntry_correct [OF _ sample_inv _ _ sample_good(2) sample_paths(2) sample_good(1) sample_paths(1),
      of 200 "''a''" "[1]"] sample_paths(3) obtain r s1 where
      rm: "removeEntry demo (dirConfig 200) sampleRoot [] ''a'' sampleState = Some (Inr r, s1)"
      and mv: "no_collision demo s1 \<longrightarrow> (\<exists>h s'.
        moveEntry demo (dirConfig 200) sampleRoot [] ''a'' [''x''] sampleState = Some (Inr h, s') \<and>
        (no_collision demo s' \<longrightarrow> resolveParts demo (store_get memlog s') h [''x'', ''a''] = ret (Some [1])
          \<and> resolveParts demo (store_get memlog s') h [''a''] = ret None))"
    by auto
  from mv run_no_collision [OF sample_edits(2) rm] obtain h s' where
      run: "moveEntry demo (dirConfig 200) sampleRoot [] ''a'' [''x''] sampleState = Some (Inr h, s')"
      and rd: "no_collision demo s' \<longrightarrow> resolveParts demo (store_get memlog s') h [''x'', ''a''] = ret (Some [1])
          \<and> resolveParts demo (store_get memlog s') h [''a''] = ret None" by blast
  with run_no_collision [OF sample_edits(4) run] show ?thesis by blast
qed

end
