(* ===== verification/Verify.thy ===== *)
theory Verify
  imports Codec
begin

text \<open>
  The integrity check of a stored tree (\<open>verify.ts\<close>): a depth-first walk over every block reachable
  from a root, with the set of hashes already seen, that collects the hashes the store does not have.
  It is proved to end on every store with finitely many blocks (cyclic ones included) and to return
  exactly the reachable hashes that are missing, unless it reaches a node that has a link without a
  hash, on which it throws.

  All the walk reads of a decoded node are the hashes of its links, so the decoder is modelled here once
  more for these alone, on every MessagePack value: links of any shape, \<open>l\<close> an array or a byte array.
\<close>

section \<open>The hashes of a node's links\<close>

text \<open>The field \<open>hash\<close> of a decoded link: bytes, \<open>undefined\<close> or \<open>null\<close>, or a value of another type.\<close>

datatype linkHash = Bytes hash | NoHash | OtherHash

text \<open>One element of \<open>l\<close> under the function \<open>l => {hash: l.h, \<dots>}\<close>: reading a field of \<open>null\<close> throws, of any
  other value that is not an object gives \<open>undefined\<close>.\<close>

definition linkHashOf :: "mpval \<Rightarrow> linkHash option" where
  "linkHashOf v = (case v of
     MNil \<Rightarrow> None
   | MMap kvs \<Rightarrow> Some (case map_of kvs ''h'' of
       Some (MBin h) \<Rightarrow> Bytes h | None \<Rightarrow> NoHash | Some MNil \<Rightarrow> NoHash | Some _ \<Rightarrow> OtherHash)
   | _ \<Rightarrow> Some NoHash)"

text \<open>\<open>map\<close> of a byte array keeps its type: its elements become 0, which have no field \<open>hash\<close>. A value of
  another type has no function \<open>map\<close>.\<close>

definition nodeHashes :: "mpval \<Rightarrow> linkHash list option" where
  "nodeHashes v = (case v of
     MMap kvs \<Rightarrow>
       (case map_of kvs ''t'' of
          Some (MInt t) \<Rightarrow>
            if t \<noteq> linkTypeNum File \<and> t \<noteq> linkTypeNum Dir then None
            else (case map_of kvs ''l'' of
                    Some (MArr ls) \<Rightarrow> those (map linkHashOf ls)
                  | Some (MBin b) \<Rightarrow> Some (replicate (length b) NoHash)
                  | _ \<Rightarrow> None)
        | _ \<Rightarrow> None)
   | _ \<Rightarrow> None)"

definition tryDecodeHashes :: "ext \<Rightarrow> bytes \<Rightarrow> linkHash list option" where
  "tryDecodeHashes E d = Option.bind (mpDecode E d) nodeHashes"

section \<open>The walk\<close>

text \<open>The inner function \<open>check\<close> and its loop over the links of a node: \<open>checkAll\<close> runs \<open>check\<close> on
  every hash of a list. The state is the list \<open>missing\<close> and the set \<open>visited\<close> of hexadecimal hashes,
  in insertion order. \<open>toHex\<close> of \<open>undefined\<close> and of \<open>null\<close> throws. What it makes of a value of another type
  is not modelled; the result is \<open>None\<close> then.\<close>

type_synonym check_state = "hash list \<times> string list"

partial_function (option) checkAll ::
  "ext \<Rightarrow> (hash \<Rightarrow> bytes option) \<Rightarrow> linkHash list \<Rightarrow> check_state \<Rightarrow> check_state comp" where
  "checkAll E get hs st =
     (case hs of
        [] \<Rightarrow> ret st
      | link # rest \<Rightarrow>
          bindC
            (case link of
               NoHash \<Rightarrow> throw TypeError
             | OtherHash \<Rightarrow> None
             | Bytes h \<Rightarrow>
                 (if toHex h \<in> set (snd st) then ret st
                  else
                    (let st1 = (fst st, snd st @ [toHex h]) in
                     case get h of
                       None \<Rightarrow> ret (fst st1 @ [h], snd st1)
                     | Some d \<Rightarrow>
                         (case tryDecodeHashes E d of
                            Some links \<Rightarrow> checkAll E get links st1
                          | None \<Rightarrow> ret st1))))
            (checkAll E get rest))"

declare checkAll.simps [code]

record VerifyResult =
  vvalid :: bool
  vmissing :: "hash list"

definition verifyTree :: "ext \<Rightarrow> (hash \<Rightarrow> bytes option) \<Rightarrow> hash \<Rightarrow> VerifyResult comp" where
  "verifyTree E get rootHash =
     bindC (checkAll E get [Bytes rootHash] ([], []))
       (\<lambda>st. ret \<lparr>vvalid = (length (fst st) = 0), vmissing = fst st\<rparr>)"

text \<open>On the nodes of the decoder's interface the two models of the decoder agree.\<close>

lemma those_map_cong:
  "those (map f xs) = Some ys \<Longrightarrow> (\<And>x y. f x = Some y \<Longrightarrow> g x = Some (h y)) \<Longrightarrow> those (map g xs) = Some (map h ys)"
  by (induction xs arbitrary: ys) (auto split: option.splits)

lemma tryDecodeHashes_node:
  assumes "tryDecodeTreeNode E d = Some node"
  shows "tryDecodeHashes E d = Some (map (Bytes \<circ> lhash) (nlinks node))"
proof -
  have link: "linkHashOf v = Some ((Bytes \<circ> lhash) l)" if "decodeLink v = Some l" for v l
    using that by (auto simp: decodeLink_def linkHashOf_def binField_def split: mpval.splits option.splits)
  from assms obtain kvs t ls links where "mpDecode E d = Some (MMap kvs)" "map_of kvs ''t'' = Some (MInt t)"
      "t = linkTypeNum File \<or> t = linkTypeNum Dir" "map_of kvs ''l'' = Some (MArr ls)"
      "those (map decodeLink ls) = Some links" "nlinks node = links"
    by (auto simp: tryDecodeTreeNode_def nodeOfMsgpack_def split: option.splits mpval.splits if_splits)
  with those_map_cong [of decodeLink ls links linkHashOf "Bytes \<circ> lhash", OF _ link] show ?thesis
    by (auto simp: tryDecodeHashes_def nodeHashes_def)
qed

section \<open>Reachability\<close>

definition linkHashes :: "ext \<Rightarrow> (hash \<Rightarrow> bytes option) \<Rightarrow> hash \<Rightarrow> linkHash list" where
  "linkHashes E get h =
     (case Option.bind (get h) (tryDecodeHashes E) of None \<Rightarrow> [] | Some links \<Rightarrow> links)"

definition hashesOf :: "linkHash list \<Rightarrow> hash list" where
  "hashesOf links = concat (map (\<lambda>link. case link of Bytes h \<Rightarrow> [h] | _ \<Rightarrow> []) links)"

definition children :: "ext \<Rightarrow> (hash \<Rightarrow> bytes option) \<Rightarrow> hash \<Rightarrow> hash list" where
  "children E get h = hashesOf (linkHashes E get h)"

definition reaches :: "ext \<Rightarrow> (hash \<Rightarrow> bytes option) \<Rightarrow> (hash \<times> hash) set" where
  "reaches E get = {(a, b). b \<in> set (children E get a)}\<^sup>*"

lemma hashesOf_simps [simp]:
  "hashesOf [] = []" "hashesOf (Bytes h # links) = h # hashesOf links"
  "hashesOf (NoHash # links) = hashesOf links" "hashesOf (OtherHash # links) = hashesOf links"
  by (simp_all add: hashesOf_def)

lemma linkHashes_None [simp]: "get h = None \<Longrightarrow> linkHashes E get h = []"
  by (simp add: linkHashes_def)

text \<open>The walk with the node's cases folded: what happens at a hash not seen before.\<close>

lemma checkAll_Nil [simp]: "checkAll E get [] st = ret st"
  by (subst checkAll.simps) simp

lemma checkAll_NoHash [simp]: "checkAll E get (NoHash # rest) st = throw TypeError"
  by (subst checkAll.simps) simp

lemma checkAll_seen [simp]:
  "toHex h \<in> set (snd st) \<Longrightarrow> checkAll E get (Bytes h # rest) st = checkAll E get rest st"
  by (subst checkAll.simps) simp

lemma checkAll_new:
  "toHex h \<notin> set (snd st) \<Longrightarrow> checkAll E get (Bytes h # rest) st =
     bindC (checkAll E get (linkHashes E get h)
             (fst st @ (if get h = None then [h] else []), snd st @ [toHex h]))
       (checkAll E get rest)"
  by (subst checkAll.simps) (auto simp: linkHashes_def Let_def split: option.splits)

section \<open>What a run of the walk establishes\<close>

text \<open>From state \<open>st\<close> to \<open>st'\<close> on the hashes \<open>hs\<close>, with the newly seen hashes \<open>new\<close>: everything in \<open>hs\<close>
  is seen; what is newly seen is reachable from \<open>hs\<close>, has its children seen, and is reported exactly
  when the store misses it.\<close>

definition walked ::
  "ext \<Rightarrow> (hash \<Rightarrow> bytes option) \<Rightarrow> hash list \<Rightarrow> check_state \<Rightarrow> hash list \<Rightarrow> check_state \<Rightarrow> bool" where
  "walked E get hs st new st' \<longleftrightarrow>
     st' = (fst st @ List.filter (\<lambda>h. get h = None) new, snd st @ map toHex new)
     \<and> distinct (map toHex new) \<and> toHex ` set new \<inter> set (snd st) = {}
     \<and> toHex ` set hs \<subseteq> set (snd st')
     \<and> (\<forall>x\<in>set new. \<exists>h\<in>set hs. (h, x) \<in> reaches E get)
     \<and> (\<forall>x\<in>set new. toHex ` set (children E get x) \<subseteq> set (snd st'))"

lemma walked_Nil: "walked E get [] st [] st"
  by (simp add: walked_def)

lemma walked_seen:
  "toHex h \<in> set (snd st) \<Longrightarrow> walked E get rest st new st' \<Longrightarrow> walked E get (h # rest) st new st'"
  unfolding walked_def by (elim conjE, intro conjI) simp_all

lemma reaches_refl [simp]: "(h, h) \<in> reaches E get"
  by (simp add: reaches_def)

lemma reaches_child: "x \<in> set (children E get h) \<Longrightarrow> (x, y) \<in> reaches E get \<Longrightarrow> (h, y) \<in> reaches E get"
  unfolding reaches_def by (rule converse_rtrancl_into_rtrancl) auto

lemma walked_new:
  assumes h: "toHex h \<notin> set (snd st)"
    and sub: "walked E get (children E get h)
                (fst st @ (if get h = None then [h] else []), snd st @ [toHex h]) n1 st1"
    and rest: "walked E get rest st1 n2 st'"
  shows "walked E get (h # rest) st (h # n1 @ n2) st'"
proof -
  have n1: "toHex h \<notin> toHex ` set n1" and seen: "set (snd st1) \<subseteq> set (snd st')"
    using sub rest by (auto simp: walked_def)
  have "\<forall>x\<in>set n1. (h, x) \<in> reaches E get"
    using sub reaches_child by (fastforce simp: walked_def)
  then have "\<forall>x\<in>set (h # n1 @ n2). \<exists>c\<in>set (h # rest). (c, x) \<in> reaches E get"
    using rest by (auto simp: walked_def)
  moreover have "\<forall>x\<in>set (h # n1 @ n2). toHex ` set (children E get x) \<subseteq> set (snd st')"
    using sub rest seen unfolding walked_def by (metis (no_types, lifting) Un_iff insert_iff list.set(2) order_trans set_append)
  moreover have "toHex ` set (h # rest) \<subseteq> set (snd st')" and
      "st' = (fst st @ List.filter (\<lambda>h. get h = None) (h # n1 @ n2), snd st @ map toHex (h # n1 @ n2))" and
      "toHex ` set (h # n1 @ n2) \<inter> set (snd st) = {}"
    using h sub rest by (auto simp: walked_def)
  moreover have "distinct (map toHex (h # n1 @ n2))"
    using n1 sub rest by (auto simp: walked_def)
  ultimately show ?thesis unfolding walked_def by blast
qed

section \<open>The walk ends and is complete\<close>

text \<open>The blocks of the store that the walk has not seen: it shrinks whenever a node's links are
  entered.\<close>

definition unseen :: "(hash \<Rightarrow> bytes option) \<Rightarrow> check_state \<Rightarrow> hash set" where
  "unseen get st = {h \<in> dom get. toHex h \<notin> set (snd st)}"

text \<open>Links without a hash, and links with a hash of another type, among given links or in the blocks that
  can be reached from them.\<close>

definition meets :: "ext \<Rightarrow> (hash \<Rightarrow> bytes option) \<Rightarrow> linkHash \<Rightarrow> linkHash list \<Rightarrow> bool" where
  "meets E get l hs \<longleftrightarrow> l \<in> set hs \<or>
     (\<exists>h\<in>set (hashesOf hs). \<exists>x. (h, x) \<in> reaches E get \<and> l \<in> set (linkHashes E get x))"

lemma meets_rest: "meets E get l rest \<Longrightarrow> meets E get l (x # rest)"
  by (cases x) (auto simp: meets_def)

lemma meets_links: "meets E get l (linkHashes E get h) \<Longrightarrow> meets E get l (Bytes h # rest)"
proof (unfold meets_def, elim disjE bexE exE conjE)
  fix c x
  assume "c \<in> set (hashesOf (linkHashes E get h))" "(c, x) \<in> reaches E get" "l \<in> set (linkHashes E get x)"
  then show "l \<in> set (Bytes h # rest) \<or> (\<exists>c\<in>set (hashesOf (Bytes h # rest)). \<exists>x. (c, x) \<in> reaches E get \<and> l \<in> set (linkHashes E get x))"
    using reaches_child [of c E get h x] by (auto simp: children_def)
qed (auto intro!: exI [of _ h])

text \<open>A run of the walk ends in one of two ways: all that was walked is whole, or it threw on a link
  without a hash.\<close>

definition whole :: "ext \<Rightarrow> (hash \<Rightarrow> bytes option) \<Rightarrow> linkHash list \<Rightarrow> hash list \<Rightarrow> bool" where
  "whole E get hs new \<longleftrightarrow> NoHash \<notin> set hs \<and> (\<forall>x\<in>set new. NoHash \<notin> set (linkHashes E get x))"

definition ends :: "ext \<Rightarrow> (hash \<Rightarrow> bytes option) \<Rightarrow> linkHash list \<Rightarrow> check_state \<Rightarrow> check_state comp \<Rightarrow> bool" where
  "ends E get hs st r \<longleftrightarrow>
     (\<exists>new st'. r = ret st' \<and> walked E get (hashesOf hs) st new st' \<and> whole E get hs new) \<or>
     (r = throw TypeError \<and> meets E get NoHash hs)"

lemma ends_Nil: "ends E get [] st (ret st)"
  unfolding ends_def by (rule disjI1, rule exI [of _ "[]"]) (simp add: walked_Nil whole_def)

lemma ends_seen:
  assumes "toHex h \<in> set (snd st)" "ends E get rest st r"
  shows "ends E get (Bytes h # rest) st r"
  using assms(2) walked_seen [OF assms(1)] meets_rest
  unfolding ends_def whole_def by fastforce

lemma ends_new:
  assumes h: "toHex h \<notin> set (snd st)"
    and links: "ends E get (linkHashes E get h) (fst st @ (if get h = None then [h] else []), snd st @ [toHex h]) r"
    and rest: "\<And>st1 n1. r = ret st1 \<Longrightarrow>
      walked E get (children E get h) (fst st @ (if get h = None then [h] else []), snd st @ [toHex h]) n1 st1 \<Longrightarrow>
      ends E get rest st1 (f st1)"
  shows "ends E get (Bytes h # rest) st (bindC r f)"
  using links [unfolded ends_def]
proof (elim disjE exE conjE)
  fix n1 st1
  assume st1: "r = ret st1" "whole E get (linkHashes E get h) n1"
    and w: "walked E get (hashesOf (linkHashes E get h)) (fst st @ (if get h = None then [h] else []), snd st @ [toHex h]) n1 st1"
  from rest [OF st1(1) w [folded children_def]] st1(1)
  have "ends E get rest st1 (bindC r f)" by simp
  then show ?thesis
  proof (unfold ends_def, elim disjE exE conjE)
    fix n2 st'
    assume n2: "bindC r f = ret st'" "walked E get (hashesOf rest) st1 n2 st'" "whole E get rest n2"
    from walked_new [OF h w [folded children_def] n2(2)] n2(1,3) st1(2)
    show "(\<exists>new st'. bindC r f = ret st' \<and> walked E get (hashesOf (Bytes h # rest)) st new st' \<and>
        whole E get (Bytes h # rest) new) \<or> bindC r f = throw TypeError \<and> meets E get NoHash (Bytes h # rest)"
      by (auto simp: whole_def intro!: exI [of _ "h # n1 @ n2"])
  qed (simp add: meets_rest)
qed (simp add: ends_def meets_links)

lemma checkAll_run:
  "finite (dom get) \<Longrightarrow> \<not> meets E get OtherHash hs \<Longrightarrow> ends E get hs st (checkAll E get hs st)"
proof (induction "card (unseen get st)" arbitrary: hs st rule: less_induct)
  case less
  have "ends E get hs st0 (checkAll E get hs st0)" if "unseen get st0 \<subseteq> unseen get st" for st0
    using that less.prems(2)
  proof (induction hs arbitrary: st0)
    case Nil
    then show ?case by (simp add: ends_Nil)
  next
    case (Cons l rest)
    have rest: "\<not> meets E get OtherHash rest" using Cons.prems(2) meets_rest by blast
    show ?case
    proof (cases l)
      case NoHash
      then show ?thesis by (simp add: ends_def meets_def)
    next
      case OtherHash
      with Cons.prems(2) show ?thesis by (simp add: meets_def)
    next
      case (Bytes h)
      show ?thesis
      proof (cases "toHex h \<in> set (snd st0)")
        case True
        with Cons.IH [OF Cons.prems(1) rest] Bytes show ?thesis by (simp add: ends_seen)
      next
        case new: False
        let ?st1 = "(fst st0 @ (if get h = None then [h] else []), snd st0 @ [toHex h])"
        have "ends E get (linkHashes E get h) ?st1 (checkAll E get (linkHashes E get h) ?st1)"
        proof (cases "get h")
          case None
          then show ?thesis by (simp add: ends_Nil)
        next
          case (Some d)
          have "unseen get ?st1 \<subset> unseen get st"
            using Cons.prems new Some by (auto simp: unseen_def)
          moreover have "finite (unseen get st)" using less.prems by (simp add: unseen_def dom_def)
          ultimately have "card (unseen get ?st1) < card (unseen get st)" by (simp add: psubset_card_mono)
          moreover have "\<not> meets E get OtherHash (linkHashes E get h)" using Cons.prems(2) Bytes meets_links by blast
          ultimately show ?thesis using less.hyps less.prems(1) by blast
        qed
        moreover have "unseen get st2 \<subseteq> unseen get st" if "walked E get (children E get h) ?st1 n1 st2" for n1 st2
          using that Cons.prems(1) by (auto simp: walked_def unseen_def)
        ultimately show ?thesis
          unfolding Bytes checkAll_new [OF new] using Cons.IH [OF _ rest] by (intro ends_new [OF new]) blast+
      qed
    qed
  qed
  then show ?case by simp
qed

text \<open>A walk from the root that returns has seen exactly what can be reached.\<close>

lemma walked_root:
  assumes "walked E get [root] ([], []) new st"
  shows "set new = {x. (root, x) \<in> reaches E get}"
proof -
  have closed: "y \<in> set new" if "x \<in> set new" "y \<in> set (children E get x)" for x y
    using assms that unfolding walked_def by (auto simp: image_subset_iff inj_image_mem_iff [OF inj_toHex])
  have "x \<in> set new" if "(root, x) \<in> reaches E get" for x
    using that assms unfolding reaches_def
    by (induction rule: rtrancl_induct) (auto simp: walked_def inj_image_mem_iff [OF inj_toHex] intro: closed)
  then show ?thesis using assms by (auto simp: walked_def)
qed

lemma verifyTree_run:
  assumes "finite (dom get)" "\<And>h. (root, h) \<in> reaches E get \<Longrightarrow> OtherHash \<notin> set (linkHashes E get h)"
  shows "if \<exists>h. (root, h) \<in> reaches E get \<and> NoHash \<in> set (linkHashes E get h)
    then verifyTree E get root = throw TypeError
    else \<exists>missing. verifyTree E get root = ret \<lparr>vvalid = (missing = []), vmissing = missing\<rparr>
      \<and> distinct missing \<and> set missing = {h. (root, h) \<in> reaches E get \<and> get h = None}"
proof -
  have "\<not> meets E get OtherHash [Bytes root]" using assms(2) by (auto simp: meets_def)
  from checkAll_run [OF assms(1) this, of "([], [])", unfolded ends_def]
  show ?thesis
  proof (elim disjE exE conjE)
    fix new st
    assume st: "checkAll E get [Bytes root] ([], []) = ret st" "whole E get [Bytes root] new"
      and "walked E get (hashesOf [Bytes root]) ([], []) new st"
    then have w: "walked E get [root] ([], []) new st" by simp
    from walked_root [OF w] st w show ?thesis
      by (auto simp: verifyTree_def walked_def whole_def distinct_map)
  next
    assume "checkAll E get [Bytes root] ([], []) = throw TypeError" "meets E get NoHash [Bytes root]"
    then show ?thesis by (auto simp: verifyTree_def meets_def)
  qed
qed

end
