(* ===== verification/Visibility.thy ===== *)
theory Visibility
  imports Crypto
begin

unbundle bit_operations_syntax

text \<open>
  Keys of link-visible trees (\<open>visibility.ts\<close>): the encryption key of a tree masked by XOR with the
  link key of the URL, and the older AES-GCM form of the masked key. The random link key is an
  argument wherever one is needed.
\<close>

section \<open>Operations\<close>

definition computeKeyId :: "ext \<Rightarrow> bytes \<Rightarrow> bytes" where
  "computeKeyId E linkKey = slice 0 8 (sha256 E linkKey)"

text \<open>An element read past the end is \<open>undefined\<close>, which \<open>^\<close> takes as 0.\<close>

definition byteAt :: "bytes \<Rightarrow> nat \<Rightarrow> 8 word" where
  "byteAt a i = (if i < length a then a ! i else 0)"

definition xor32 :: "bytes \<Rightarrow> bytes \<Rightarrow> bytes" where
  "xor32 a b = map (\<lambda>i. byteAt a i XOR byteAt b i) [0..<32]"

text \<open>The decryption of the older format; every exception becomes \<open>null\<close>.\<close>

definition decryptAesGcm :: "ext \<Rightarrow> bytes \<Rightarrow> bytes \<Rightarrow> bytes option" where
  "decryptAesGcm E encryptedKey linkKey =
     subtleDecrypt E linkKey (slice 0 12 encryptedKey) (drop 12 encryptedKey)"

definition encryptKeyForLink :: "bytes \<Rightarrow> bytes \<Rightarrow> bytes" where
  "encryptKeyForLink chkKey linkKey = xor32 chkKey linkKey"

definition decryptKeyFromLink :: "ext \<Rightarrow> bytes \<Rightarrow> bytes \<Rightarrow> bytes option" where
  "decryptKeyFromLink E encryptedKey linkKey =
     (if length linkKey \<noteq> 32 then None
      else if length encryptedKey = 32 then Some (xor32 encryptedKey linkKey)
      else if length encryptedKey = 60 then decryptAesGcm E encryptedKey linkKey
      else None)"

text \<open>The object \<open>hex\<close>: the same functions on hexadecimal strings.\<close>

definition hex_computeKeyId :: "ext \<Rightarrow> string \<Rightarrow> string" where
  "hex_computeKeyId E linkKeyHex = toHex (computeKeyId E (fromHex linkKeyHex))"

definition hex_encryptKeyForLink :: "string \<Rightarrow> string \<Rightarrow> string" where
  "hex_encryptKeyForLink chkKeyHex linkKeyHex = toHex (encryptKeyForLink (fromHex chkKeyHex) (fromHex linkKeyHex))"

definition hex_decryptKeyFromLink :: "ext \<Rightarrow> string \<Rightarrow> string \<Rightarrow> string option" where
  "hex_decryptKeyFromLink E encryptedKeyHex linkKeyHex =
     map_option toHex (decryptKeyFromLink E (fromHex encryptedKeyHex) (fromHex linkKeyHex))"

section \<open>Masking and unmasking\<close>

lemma length_xor32 [simp]: "length (xor32 a b) = 32"
  by (simp add: xor32_def)

lemma byteAt_xor32: "i < 32 \<Longrightarrow> byteAt (xor32 a b) i = byteAt a i XOR byteAt b i"
  by (simp add: byteAt_def [of "xor32 a b"]) (simp add: xor32_def)

lemma xor32_cancel: "length a = 32 \<Longrightarrow> xor32 (xor32 a b) b = a"
  by (rule nth_equalityI, simp, simp add: xor32_def [of "xor32 a b"] byteAt_xor32 xor.assoc) (simp add: byteAt_def)

lemma decryptKeyFromLink_encrypt:
  "length chkKey = 32 \<Longrightarrow> length linkKey = 32 \<Longrightarrow>
   decryptKeyFromLink E (encryptKeyForLink chkKey linkKey) linkKey = Some chkKey"
  by (simp add: decryptKeyFromLink_def encryptKeyForLink_def xor32_cancel)

lemma decryptKeyFromLink_legacy:
  assumes "aes_ok E" "length chkKey = 32" "length linkKey = 32" "length iv = 12"
  shows "decryptKeyFromLink E (iv @ subtleEncrypt E linkKey iv chkKey) linkKey = Some chkKey"
  using assms by (simp add: decryptKeyFromLink_def decryptAesGcm_def aes_okD slice_append_left)

text \<open>The mask hides the key: every key of 32 bytes has a link key that gives the same masked bytes.\<close>

lemma encryptKeyForLink_any:
  "length chkKey = 32 \<Longrightarrow> length other = 32 \<Longrightarrow> length linkKey = 32 \<Longrightarrow>
   encryptKeyForLink other (xor32 other (encryptKeyForLink chkKey linkKey)) = encryptKeyForLink chkKey linkKey"
  unfolding encryptKeyForLink_def
  by (rule nth_equalityI) (simp_all add: xor32_def byteAt_def flip: xor.assoc)

lemma hex_roundtrip:
  "length chkKey = 32 \<Longrightarrow> length linkKey = 32 \<Longrightarrow>
   hex_decryptKeyFromLink E (hex_encryptKeyForLink (toHex chkKey) (toHex linkKey)) (toHex linkKey) = Some (toHex chkKey)"
  by (simp add: hex_decryptKeyFromLink_def hex_encryptKeyForLink_def decryptKeyFromLink_encrypt)

end
