(* ===== verification/CoreProps.thy ===== *)
theory CoreProps
  imports Verify Visibility Store Instance
begin

text \<open>
  The properties of the components below the trees: the node codec, content-hash-key encryption, the
  in-memory store, the integrity check and the keys of link-visible trees. Each property with a
  hypothesis has a witness on the concrete instance \<open>demo\<close> of the external functions.
\<close>

section \<open>Codec\<close>


definition sampleNode :: TreeNode where
  "sampleNode = \<lparr>ntype = Dir, nlinks =
     [\<lparr>lhash = [1, 2], lname = Some ''a'', lsize = 3, lkey = Some [9], ltype = Blob,
       lmeta = Some [(''z'', MInt 1), (''b'', MStr ''x'')]\<rparr>]\<rparr>"


text \<open>The encoding, and so the hash, of a tree node does not depend on the order in which the keys of
  its links' metadata were written.\<close>

theorem encoding_ignores_key_order:
  assumes "list_all2 same_up_to_key_order ls ls'"
  shows "encodeAndHash E \<lparr>ntype = t, nlinks = ls\<rparr> = encodeAndHash E \<lparr>ntype = t, nlinks = ls'\<rparr>"
proof -
  from assms have "map encodeLink ls = map encodeLink ls'"
    by (induction rule: list_all2_induct) (simp_all add: encodeLink_key_order)
  then show ?thesis by (simp add: encodeAndHash_def encodeTreeNode_def nodeToMsgpack_def)
qed

theorem encoding_ignores_key_order_witness:
  "encodeAndHash demo sampleNode = encodeAndHash demo \<lparr>ntype = Dir, nlinks =
     [\<lparr>lhash = [1, 2], lname = Some ''a'', lsize = 3, lkey = Some [9], ltype = Blob,
       lmeta = Some [(''b'', MStr ''x''), (''z'', MInt 1)]\<rparr>]\<rparr>"
  unfolding sampleNode_def
  by (rule encoding_ignores_key_order) (simp add: same_up_to_key_order_def add_mset_commute)

section \<open>Encryption\<close>

text \<open>C33. What \<open>encryptChk\<close> produces, \<open>decryptChk\<close> opens with the returned key; the key is the hash of
  the plaintext, and the ciphertext is longer by the tag of 16 bytes.\<close>

theorem chk_roundtrip:
  assumes "aes_ok E" "digest_len E" "encryptChk E d = (ct, k)"
  shows "decryptChk E ct k = Inr d \<and> k = contentHash E d \<and> length ct = encryptedSizeChk (length d)"
proof -
  from assms(3) have "ct = fst (encryptChk E d)" "k = sha256 E d"
    by (simp_all flip: snd_encryptChk)
  with assms(1,2) show ?thesis
    by (simp_all add: contentHash_def)
qed

theorem chk_roundtrip_witness:
  "decryptChk demo (fst (encryptChk demo [7, 8])) (snd (encryptChk demo [7, 8])) = Inr [7, 8]"
  by (rule chk_roundtrip [OF demo_aes demo_digest_len prod.collapse [symmetric], THEN conjunct1])

text \<open>Decryption with a key that is not 32 bytes long, or of data shorter than the tag, is an error
  before any cryptography runs; nothing else decides between the two.\<close>

theorem decryptChk_guards:
  "(decryptChk E ct k = Inl ChkKeyLength \<longleftrightarrow> length k \<noteq> 32) \<and>
   (decryptChk E ct k = Inl ChkDataTooShort \<longleftrightarrow> length k = 32 \<and> length ct < 16)"
  by (auto simp: decryptChk_def MIN_CHK_ENCRYPTED_SIZE_def TAG_SIZE_def split: option.splits)

section \<open>MemoryStore\<close>

text \<open>\<open>MemoryStore\<close> is a map from hashes to blocks that never overwrites: \<open>put\<close> answers whether the
  block was new and keeps the old block otherwise, \<open>delete\<close> answers whether there was one, \<open>has\<close> and
  \<open>get\<close> agree, \<open>clear\<close> forgets everything.\<close>

theorem memory_refines_map:
  "(fst (memory_put h d m) \<longleftrightarrow> memory_get m h = None) \<and>
   memory_get (snd (memory_put h d m)) =
     (if memory_get m h = None then (memory_get m)(h \<mapsto> d) else memory_get m) \<and>
   (fst (memory_delete h m) \<longleftrightarrow> memory_get m h \<noteq> None) \<and>
   memory_get (snd (memory_delete h m)) = (memory_get m)(h := None) \<and>
   (memory_has m h \<longleftrightarrow> memory_get m h \<noteq> None) \<and>
   memory_get (memory_clear m) = Map.empty"
  unfolding memory_get_put memory_get_delete
  by (auto simp: memory_put_def memory_delete_def memory_get_def memory_has_def memory_clear_def Let_def)

text \<open>C31. What a \<open>MemoryStore\<close> holds after any sequence of \<open>put\<close> (of any data under any hash), \<open>delete\<close> and
  \<open>clear\<close>: \<open>get\<close> answers the data of the first \<open>put\<close> under the hash since it was last absent, as long as no
  \<open>delete\<close> of the hash and no \<open>clear\<close> came after; \<open>keys\<close> lists the hashes that \<open>get\<close> answers, each once, read
  back from their hexadecimal form; \<open>size\<close> is their number and \<open>totalBytes\<close> the sum of the lengths.\<close>

theorem memory_history:
  "(memory_get (memory_after ops) h = Some d \<longleftrightarrow>
      (\<exists>pre post. ops = pre @ MPut h d # post \<and> memory_get (memory_after pre) h = None \<and>
         MDelete h \<notin> set post \<and> MClear \<notin> set post)) \<and>
    set (memory_keys (memory_after ops)) = dom (memory_get (memory_after ops)) \<and>
    distinct (memory_keys (memory_after ops)) \<and>
    memory_size (memory_after ops) = card (dom (memory_get (memory_after ops))) \<and>
    memory_totalBytes (memory_after ops) =
      (\<Sum>h'\<in>dom (memory_get (memory_after ops)). length (the (memory_get (memory_after ops) h')))"
  unfolding memory_get_after memory_kept_def
  by (simp add: memory_after_wf memory_keys_get distinct_memory_keys memory_size_card memory_totalBytes_sum)

section \<open>Integrity check\<close>

text \<open>C28. On a store with finitely many blocks \<open>verifyTree\<close> ends, also on cyclic trees. It lists without repetition
  exactly the hashes that can be reached from the root through the links of stored nodes and are not in
  the store, and calls the tree valid when there are none; unless a block that can be reached is a node
  with a link that has no hash: then it throws a \<open>TypeError\<close>. Blocks may be any data whatever but for nodes
  with a link whose hash is neither bytes nor absent, such as a number.\<close>

theorem verifyTree_complete:
  assumes "finite (dom get)" "\<forall>h. (root, h) \<in> reaches E get \<longrightarrow> OtherHash \<notin> set (linkHashes E get h)"
  shows "if \<exists>h. (root, h) \<in> reaches E get \<and> NoHash \<in> set (linkHashes E get h)
    then verifyTree E get root = throw TypeError
    else \<exists>missing. verifyTree E get root = ret \<lparr>vvalid = (missing = []), vmissing = missing\<rparr>
      \<and> distinct missing \<and> set missing = {h. (root, h) \<in> reaches E get \<and> get h = None}"
  using assms by (intro verifyTree_run) blast+

text \<open>A node with a link to a missing block, and a node with a link that has no hash.\<close>

definition sampleBlocks :: "hash \<rightharpoonup> bytes" where
  "sampleBlocks = [[0] \<mapsto> encodeTreeNode demo sampleNode,
     [3] \<mapsto> mpEncode demo (MMap [(''l'', MArr [MMap []]), (''t'', MInt 1)])]"

lemma sample_links:
  "linkHashes demo sampleBlocks [0] = [Bytes [1, 2]]" "linkHashes demo sampleBlocks [3] = [NoHash]"
  by code_simp+

lemma sample_other: "OtherHash \<notin> set (linkHashes demo sampleBlocks h)"
  using sample_links by (cases "h = [0]"; cases "h = [3]") (auto simp: linkHashes_def sampleBlocks_def)

theorem verifyTree_complete_witness:
  "\<exists>missing. verifyTree demo sampleBlocks [0] = ret \<lparr>vvalid = (missing = []), vmissing = missing\<rparr>
      \<and> set missing = {h. ([0], h) \<in> reaches demo sampleBlocks \<and> sampleBlocks h = None} \<and> missing = [[1, 2]]
      \<and> verifyTree demo sampleBlocks [3] = throw TypeError"
proof -
  have fin: "finite (dom sampleBlocks)" by (simp add: sampleBlocks_def)
  have ok: "verifyTree demo sampleBlocks [0] = ret \<lparr>vvalid = False, vmissing = [[1, 2]]\<rparr>"
    unfolding sampleBlocks_def by code_simp
  have "\<exists>h. ([3], h) \<in> reaches demo sampleBlocks \<and> NoHash \<in> set (linkHashes demo sampleBlocks h)"
    by (rule exI [of _ "[3]"]) (simp add: sample_links)
  with verifyTree_complete [OF fin, of "[3]" demo] sample_other
  have "verifyTree demo sampleBlocks [3] = throw TypeError" by simp
  with verifyTree_complete [OF fin, of "[0]" demo] sample_other ok show ?thesis
    by (auto split: if_splits)
qed

section \<open>Link-visible keys\<close>

text \<open>A tree key masked with the link key of a URL is recovered by \<open>decryptKeyFromLink\<close>, from the XOR
  form of 32 bytes and from the older AES-GCM form (a nonce of 12 bytes before the ciphertext).\<close>

theorem link_key_roundtrip:
  assumes "length chkKey = 32" "length linkKey = 32" "aes_ok E" "length iv = 12"
  shows "decryptKeyFromLink E (encryptKeyForLink chkKey linkKey) linkKey = Some chkKey \<and>
    hex_decryptKeyFromLink E (hex_encryptKeyForLink (toHex chkKey) (toHex linkKey)) (toHex linkKey)
      = Some (toHex chkKey) \<and>
    decryptKeyFromLink E (iv @ subtleEncrypt E linkKey iv chkKey) linkKey = Some chkKey"
  using assms by (simp_all add: decryptKeyFromLink_encrypt hex_roundtrip decryptKeyFromLink_legacy)

theorem link_key_roundtrip_witness:
  "decryptKeyFromLink demo (encryptKeyForLink (replicate 32 7) (replicate 32 9)) (replicate 32 9)
     = Some (replicate 32 7)
   \<and> decryptKeyFromLink demo (replicate 12 1 @ subtleEncrypt demo (replicate 32 9) (replicate 12 1) (replicate 32 7))
       (replicate 32 9) = Some (replicate 32 7)"
  using link_key_roundtrip [of "replicate 32 7" "replicate 32 9" demo "replicate 12 1"] by simp

text \<open>A masked key says nothing about the key: for every other key there is a link key under which it
  has the same masked form.\<close>

theorem masked_key_hides:
  assumes "length chkKey = 32" "length linkKey = 32" "length other = 32"
  shows "\<exists>linkKey'. length linkKey' = 32 \<and> encryptKeyForLink other linkKey' = encryptKeyForLink chkKey linkKey"
  using encryptKeyForLink_any [OF assms(1,3,2)] by (metis length_xor32)

theorem masked_key_hides_witness:
  "\<exists>linkKey'. length linkKey' = 32 \<and>
     encryptKeyForLink (replicate 32 1) linkKey' = encryptKeyForLink (replicate 32 2) (replicate 32 3)"
  by (rule masked_key_hides) simp_all

end
