(* ===== verification/EditEncrypted.thy ===== *)
theory EditEncrypted
  imports Encrypted TreeEdit
begin

text \<open>
  Editing encrypted directories (\<open>tree/editEncrypted.ts\<close>). A directory is reached by a hash and a key;
  every edit gives a new root hash and a new root key. The keys collected on the way down are used
  again when the parents are rebuilt.
\<close>

section \<open>Walking down\<close>

text \<open>\<open>resolvePathAndCollectKeys\<close>: the directory's hash and key and the keys along the path.\<close>

fun collectKeys ::
  "ext \<Rightarrow> (hash \<Rightarrow> bytes option) \<Rightarrow> hash \<Rightarrow> bytes \<Rightarrow> string list \<Rightarrow> bytes list
   \<Rightarrow> (hash \<times> bytes \<times> bytes list) option comp" where
  "collectKeys E get h k [] pathKeys = ret (Some (h, k, pathKeys))"
| "collectKeys E get h k (segment # path) pathKeys =
     bindC (listDirectoryEncrypted E get h k) (\<lambda>entries.
     case List.find (\<lambda>e. ename e = segment) entries of
       None \<Rightarrow> ret None
     | Some entry \<Rightarrow>
         (case ckey (ecid entry) of
            None \<Rightarrow> ret None
          | Some k' \<Rightarrow> collectKeys E get (chash (ecid entry)) k' path (pathKeys @ [k'])))"

definition resolvePathAndCollectKeys ::
  "ext \<Rightarrow> (hash \<Rightarrow> bytes option) \<Rightarrow> hash \<Rightarrow> bytes \<Rightarrow> string list
   \<Rightarrow> (hash \<times> bytes \<times> bytes list) option comp" where
  "resolvePathAndCollectKeys E get rootHash rootKey path = collectKeys E get rootHash rootKey path []"

text \<open>The inner loop of \<open>rebuildPathEncrypted\<close>: from the root to the parent; \<open>parts\<close> is the whole
  path to it (for the error), \<open>i\<close> the index of the next part.\<close>

fun parentFrom ::
  "ext \<Rightarrow> (hash \<Rightarrow> bytes option) \<Rightarrow> string list \<Rightarrow> bytes list \<Rightarrow> nat \<Rightarrow> hash \<Rightarrow> bytes \<Rightarrow> string list
   \<Rightarrow> (hash \<times> bytes) comp" where
  "parentFrom E get parts pathKeys i h k [] = ret (h, k)"
| "parentFrom E get parts pathKeys i h k (p # ps) =
     bindC (listDirectoryEncrypted E get h k) (\<lambda>entries.
     case List.find (\<lambda>e. ename e = p) entries of
       None \<Rightarrow> throw (ParentPathNotFound parts)
     | Some entry \<Rightarrow>
         (case ckey (ecid entry) of
            None \<Rightarrow> throw (ParentPathNotFound parts)
          | Some k' \<Rightarrow>
              parentFrom E get parts pathKeys (i + 1) (chash (ecid entry))
                (if i < length pathKeys then pathKeys ! i else k') ps))"

section \<open>Rebuilding the path\<close>

definition replaceChildEncrypted :: "string \<Rightarrow> hash \<Rightarrow> bytes \<Rightarrow> TreeEntry list \<Rightarrow> TreeEntry list" where
  "replaceChildEncrypted childName childHash childKey es =
     map (\<lambda>e. if ename e = childName then e\<lparr>ecid := cid childHash (Some childKey)\<rparr> else e) es"

fun rebuildLoopEncrypted ::
  "ext \<Rightarrow> 's config \<Rightarrow> hash \<Rightarrow> bytes \<Rightarrow> bytes list \<Rightarrow> string list \<Rightarrow> hash \<Rightarrow> bytes \<Rightarrow> ('s, hash \<times> bytes) op" where
  "rebuildLoopEncrypted E C rootHash rootKey pathKeys [] childHash childKey = retS (childHash, childKey)"
| "rebuildLoopEncrypted E C rootHash rootKey pathKeys (childName # rparts) childHash childKey =
     bindS (readS (cstore C) (\<lambda>get. parentFrom E get (rev rparts) pathKeys 0 rootHash rootKey (rev rparts))) (\<lambda>pk.
     bindS (readS (cstore C) (\<lambda>get. listDirectoryEncrypted E get (fst pk) (snd pk))) (\<lambda>parentEntries.
     bindS (putDirectoryEncrypted E C (replaceChildEncrypted childName childHash childKey parentEntries)) (\<lambda>r.
     rebuildLoopEncrypted E C rootHash rootKey pathKeys rparts (rhash r) (rkey r))))"

definition rebuildPathEncrypted ::
  "ext \<Rightarrow> 's config \<Rightarrow> hash \<Rightarrow> bytes \<Rightarrow> string list \<Rightarrow> bytes list \<Rightarrow> hash \<Rightarrow> bytes \<Rightarrow> ('s, hash \<times> bytes) op" where
  "rebuildPathEncrypted E C rootHash rootKey path pathKeys newChildHash newChildKey =
     (if path = [] then retS (newChildHash, newChildKey)
      else rebuildLoopEncrypted E C rootHash rootKey pathKeys (rev path) newChildHash newChildKey)"

section \<open>The edits\<close>

definition setEntryEncrypted ::
  "ext \<Rightarrow> 's config \<Rightarrow> hash \<Rightarrow> bytes \<Rightarrow> string list \<Rightarrow> string \<Rightarrow> CID \<Rightarrow> nat \<Rightarrow> LinkType \<Rightarrow> meta option
   \<Rightarrow> ('s, hash \<times> bytes) op" where
  "setEntryEncrypted E C rootHash rootKey path name entryCid sz type meta =
     bindS (readS (cstore C) (\<lambda>get. resolvePathAndCollectKeys E get rootHash rootKey path)) (\<lambda>resolved.
     case resolved of
       None \<Rightarrow> throwS (PathNotFound path)
     | Some (dirHash, dirKey, pathKeys) \<Rightarrow>
         bindS (readS (cstore C) (\<lambda>get. listDirectoryEncrypted E get dirHash dirKey)) (\<lambda>entries.
         bindS (putDirectoryEncrypted E C (List.filter (\<lambda>e. ename e \<noteq> name) entries
                  @ [\<lparr>ename = name, ecid = entryCid, esize = sz, etype = type, emeta = meta\<rparr>])) (\<lambda>newDir.
         rebuildPathEncrypted E C rootHash rootKey path pathKeys (rhash newDir) (rkey newDir))))"

definition removeEntryEncrypted ::
  "ext \<Rightarrow> 's config \<Rightarrow> hash \<Rightarrow> bytes \<Rightarrow> string list \<Rightarrow> string \<Rightarrow> ('s, hash \<times> bytes) op" where
  "removeEntryEncrypted E C rootHash rootKey path name =
     bindS (readS (cstore C) (\<lambda>get. resolvePathAndCollectKeys E get rootHash rootKey path)) (\<lambda>resolved.
     case resolved of
       None \<Rightarrow> throwS (PathNotFound path)
     | Some (dirHash, dirKey, pathKeys) \<Rightarrow>
         bindS (readS (cstore C) (\<lambda>get. listDirectoryEncrypted E get dirHash dirKey)) (\<lambda>entries.
         bindS (putDirectoryEncrypted E C (List.filter (\<lambda>e. ename e \<noteq> name) entries)) (\<lambda>newDir.
         rebuildPathEncrypted E C rootHash rootKey path pathKeys (rhash newDir) (rkey newDir))))"

definition renameEntryEncrypted ::
  "ext \<Rightarrow> 's config \<Rightarrow> hash \<Rightarrow> bytes \<Rightarrow> string list \<Rightarrow> string \<Rightarrow> string \<Rightarrow> ('s, hash \<times> bytes) op" where
  "renameEntryEncrypted E C rootHash rootKey path oldName newName =
     (if oldName = newName then retS (rootHash, rootKey)
      else bindS (readS (cstore C) (\<lambda>get. resolvePathAndCollectKeys E get rootHash rootKey path)) (\<lambda>resolved.
      case resolved of
        None \<Rightarrow> throwS (PathNotFound path)
      | Some (dirHash, dirKey, pathKeys) \<Rightarrow>
          bindS (readS (cstore C) (\<lambda>get. listDirectoryEncrypted E get dirHash dirKey)) (\<lambda>entries.
          case List.find (\<lambda>e. ename e = oldName) entries of
            None \<Rightarrow> throwS (EntryNotFound oldName)
          | Some entry \<Rightarrow>
              bindS (putDirectoryEncrypted E C (List.filter (\<lambda>e. ename e \<noteq> oldName) entries
                       @ [entry\<lparr>ename := newName\<rparr>])) (\<lambda>newDir.
              rebuildPathEncrypted E C rootHash rootKey path pathKeys (rhash newDir) (rkey newDir)))))"

definition moveEntryEncrypted ::
  "ext \<Rightarrow> 's config \<Rightarrow> hash \<Rightarrow> bytes \<Rightarrow> string list \<Rightarrow> string \<Rightarrow> string list \<Rightarrow> ('s, hash \<times> bytes) op" where
  "moveEntryEncrypted E C rootHash rootKey sourcePath name targetPath =
     bindS (readS (cstore C) (\<lambda>get. resolvePathAndCollectKeys E get rootHash rootKey sourcePath)) (\<lambda>src.
     case src of
       None \<Rightarrow> throwS (SourcePathNotFound sourcePath)
     | Some (srcHash, srcKey, _) \<Rightarrow>
         bindS (readS (cstore C) (\<lambda>get. listDirectoryEncrypted E get srcHash srcKey)) (\<lambda>sourceEntries.
         case List.find (\<lambda>e. ename e = name) sourceEntries of
           None \<Rightarrow> throwS (EntryNotFound name)
         | Some entryToMove \<Rightarrow>
             bindS (removeEntryEncrypted E C rootHash rootKey sourcePath name) (\<lambda>hk.
             bindS (readS (cstore C) (\<lambda>get. resolvePathAndCollectKeys E get (fst hk) (snd hk) targetPath)) (\<lambda>tgt.
             case tgt of
               None \<Rightarrow> throwS (TargetPathNotFound targetPath)
             | Some (tgtHash, tgtKey, tgtKeys) \<Rightarrow>
                 bindS (readS (cstore C) (\<lambda>get. listDirectoryEncrypted E get tgtHash tgtKey)) (\<lambda>targetEntries.
                 if \<exists>e\<in>set targetEntries. ename e = name then throwS (EntryAlreadyExists name)
                 else bindS (putDirectoryEncrypted E C (targetEntries @ [entryToMove])) (\<lambda>newDir.
                      rebuildPathEncrypted E C (fst hk) (snd hk) targetPath tgtKeys
                        (rhash newDir) (rkey newDir)))))))"

end
