(* ===== verification/Bep52.thy ===== *)
theory Bep52
  imports Store
begin

text \<open>
  The BitTorrent v2 merkle trees (\<open>bep52.ts\<close>): binary trees over the hashes of blocks of 16 KiB, padded
  with zero hashes to a power of two; roots, full trees in flat layout, inclusion proofs, piece
  layers, and the builders over whole files and over streams.

  The specification is \<open>mnode\<close>: the hash of the perfect binary tree of a given depth over a leaf
  function. Roots, flat trees, proofs and piece layers are all compared with it.
\<close>

section \<open>Arithmetic on the flat layout\<close>

definition BEP52_BLOCK_SIZE :: nat where
  "BEP52_BLOCK_SIZE = 16 * 1024"

definition ZERO_HASH :: hash where
  "ZERO_HASH = replicate 32 0"

text \<open>The loop \<open>while (n < blocks) n <<= 1\<close>. The shift works on 32-bit integers, so it can wrap; then the
  loop does not end.\<close>

partial_function (option) numLeafsLoop :: "32 word \<Rightarrow> int \<Rightarrow> int option" where
  "numLeafsLoop n blocks = (if sint n < blocks then numLeafsLoop (push_bit 1 n) blocks else Some (sint n))"

declare numLeafsLoop.simps [code]

definition merkleNumLeafs :: "int \<Rightarrow> int option" where
  "merkleNumLeafs blocks = (if blocks \<le> 0 then Some 0 else numLeafsLoop 1 blocks)"

definition merkleGetParent :: "int \<Rightarrow> int" where
  "merkleGetParent idx = (idx - 1) div 2"

definition merkleGetSibling :: "int \<Rightarrow> int" where
  "merkleGetSibling idx = idx + (if odd idx then 1 else - 1)"

definition merkleGetFirstChild :: "int \<Rightarrow> int" where
  "merkleGetFirstChild idx = idx * 2 + 1"

definition merkleFirstLeaf :: "int \<Rightarrow> int" where
  "merkleFirstLeaf numLeafs = numLeafs - 1"

definition merkleNumNodes :: "int \<Rightarrow> int" where
  "merkleNumNodes numLeafs = numLeafs * 2 - 1"

section \<open>Hashing\<close>

definition merkleHashPair :: "ext \<Rightarrow> hash \<Rightarrow> hash \<Rightarrow> hash comp" where
  "merkleHashPair E left right =
     bindC (setBytes (replicate 64 0) left 0) (\<lambda>c1.
     bindC (setBytes c1 right 32) (\<lambda>combined. ret (sha256 E combined)))"

fun merklePadHash :: "ext \<Rightarrow> nat \<Rightarrow> hash comp" where
  "merklePadHash E 0 = ret ZERO_HASH"
| "merklePadHash E (Suc i) = bindC (merklePadHash E i) (\<lambda>pad. merkleHashPair E pad pad)"

text \<open>One level: neighbours are paired, an odd last one with the padding of the level.\<close>

fun pairLevel :: "ext \<Rightarrow> hash \<Rightarrow> hash list \<Rightarrow> hash list comp" where
  "pairLevel E padHash (a # b # rest) =
     bindC (merkleHashPair E a b) (\<lambda>h. bindC (pairLevel E padHash rest) (\<lambda>hs. ret (h # hs)))"
| "pairLevel E padHash [a] = bindC (merkleHashPair E a padHash) (\<lambda>h. ret [h])"
| "pairLevel E padHash [] = ret []"

text \<open>The loop \<open>while (levelSize > 1)\<close>. The code halves \<open>levelSize\<close> as a fraction; rounding up at every
  step takes the same number of steps.\<close>

function rootLoop :: "ext \<Rightarrow> hash list \<Rightarrow> hash \<Rightarrow> nat \<Rightarrow> hash comp" where
  "rootLoop E current padHash levelSize =
     (if 1 < levelSize then
        bindC (pairLevel E padHash current) (\<lambda>nextLevel.
        bindC (merkleHashPair E padHash padHash) (\<lambda>padHash'.
        rootLoop E nextLevel padHash' ((levelSize + 1) div 2)))
      else ret (current ! 0))"
  by pat_completeness auto
termination
  by (relation "measure (\<lambda>(E, current, padHash, levelSize). levelSize)") auto

declare rootLoop.simps [simp del]

definition merkleRoot :: "ext \<Rightarrow> hash list \<Rightarrow> nat option \<Rightarrow> hash comp" where
  "merkleRoot E leaves numLeafs =
     (if leaves = [] then ret ZERO_HASH
      else if length leaves = 1 \<and> (numLeafs = None \<or> numLeafs = Some 1) then ret (leaves ! 0)
      else bindC (case numLeafs of Some n \<Rightarrow> ret n
                  | None \<Rightarrow> map_option (Inr \<circ> nat) (merkleNumLeafs (int (length leaves)))) (\<lambda>targetLeafs.
           rootLoop E leaves ZERO_HASH targetLeafs))"

section \<open>Full trees and proofs\<close>

text \<open>The flat array of nodes; an element that was never assigned is \<open>undefined\<close>, here \<open>None\<close>. Passing
  \<open>undefined\<close> to \<open>merkleHashPair\<close> is a \<open>TypeError\<close>.\<close>

type_synonym flat_tree = "hash option list"

definition nodeAt :: "flat_tree \<Rightarrow> int \<Rightarrow> hash option" where
  "nodeAt t i = (if 0 \<le> i \<and> i < int (length t) then t ! nat i else None)"

definition pairAt :: "ext \<Rightarrow> flat_tree \<Rightarrow> nat \<Rightarrow> hash comp" where
  "pairAt E t i = (case (nodeAt t (int i), nodeAt t (int i + 1)) of
     (Some l, Some r) \<Rightarrow> merkleHashPair E l r
   | _ \<Rightarrow> throw TypeError)"

text \<open>The inner loop of a level: \<open>n\<close> pairs from index \<open>i\<close> on, their parents from \<open>parent\<close> on.\<close>

fun buildLevel :: "ext \<Rightarrow> nat \<Rightarrow> nat \<Rightarrow> nat \<Rightarrow> flat_tree \<Rightarrow> flat_tree comp" where
  "buildLevel E 0 i parent tree = ret tree"
| "buildLevel E (Suc n) i parent tree =
     bindC (pairAt E tree i) (\<lambda>h. buildLevel E n (i + 2) (parent + 1) (tree[parent := Some h]))"

function buildLevels :: "ext \<Rightarrow> nat \<Rightarrow> nat \<Rightarrow> flat_tree \<Rightarrow> flat_tree comp" where
  "buildLevels E levelStart levelSize tree =
     (if 1 < levelSize then
        (let parent = nat (merkleGetParent (int levelStart)) in
         bindC (buildLevel E ((levelSize + 1) div 2) levelStart parent tree) (\<lambda>tree'.
         buildLevels E parent (levelSize div 2) tree'))
      else ret tree)"
  by pat_completeness auto
termination
  by (relation "measure (\<lambda>(E, levelStart, levelSize, tree). levelSize)") auto

declare buildLevels.simps [simp del]

definition merkleBuildTree :: "ext \<Rightarrow> hash list \<Rightarrow> flat_tree comp" where
  "merkleBuildTree E leaves =
     (if leaves = [] then ret [Some ZERO_HASH]
      else bindC (map_option Inr (merkleNumLeafs (int (length leaves)))) (\<lambda>numLeafs.
        let numNodes = nat (merkleNumNodes numLeafs);
            firstLeaf = nat (merkleFirstLeaf numLeafs);
            tree = fold (\<lambda>i t. t[firstLeaf + i := Some (if i < length leaves then leaves ! i else ZERO_HASH)])
                     [0..<nat numLeafs] (replicate numNodes None)
        in buildLevels E firstLeaf (nat numLeafs) tree))"

function proofLoop :: "flat_tree \<Rightarrow> int \<Rightarrow> hash option list" where
  "proofLoop tree idx =
     (if 0 < idx then nodeAt tree (merkleGetSibling idx) # proofLoop tree (merkleGetParent idx) else [])"
  by pat_completeness auto
termination
  by (relation "measure (\<lambda>(tree, idx). nat idx)") (auto simp: merkleGetParent_def)

declare proofLoop.simps [simp del]

definition merkleGetProof :: "flat_tree \<Rightarrow> int \<Rightarrow> int \<Rightarrow> hash option list" where
  "merkleGetProof tree leafIndex numLeafs = proofLoop tree (merkleFirstLeaf numLeafs + leafIndex)"

fun verifyLoop :: "ext \<Rightarrow> hash \<Rightarrow> int \<Rightarrow> hash list \<Rightarrow> hash comp" where
  "verifyLoop E h idx [] = ret h"
| "verifyLoop E h idx (uncle # proof) =
     bindC (if odd idx then merkleHashPair E h uncle else merkleHashPair E uncle h) (\<lambda>h'.
     verifyLoop E h' (merkleGetParent idx) proof)"

definition merkleVerifyProof :: "ext \<Rightarrow> hash \<Rightarrow> int \<Rightarrow> hash list \<Rightarrow> hash \<Rightarrow> int \<Rightarrow> bool comp" where
  "merkleVerifyProof E leaf leafIndex proof root numLeafs =
     bindC (verifyLoop E leaf (merkleFirstLeaf numLeafs + leafIndex) proof) (\<lambda>h. ret (hashEquals h root))"

section \<open>The builder over whole files\<close>

record Bep52Result =
  broot :: hash
  bsize :: nat
  bblockCount :: nat
  bleafHashes :: "hash list"
  bpieceLayers :: "hash list option"

text \<open>The constructor's checks; \<open>&\<close> works on 32-bit integers. It answers the blocks per piece, which is a
  whole number for every accepted size below \<open>2 ^ 32\<close> and is above 1 exactly when the piece is larger
  than a block.\<close>

definition bep52_config :: "nat \<Rightarrow> nat comp" where
  "bep52_config pieceSize =
     (if pieceSize < BEP52_BLOCK_SIZE then throw PieceSizeTooSmall
      else if and (of_nat pieceSize :: 32 word) (of_nat (pieceSize - 1)) \<noteq> 0 then throw PieceSizeNotPowerOf2
      else ret (pieceSize div BEP52_BLOCK_SIZE))"

text \<open>Hash a block and put it into the store, when there is one.\<close>

definition storeBlock :: "ext \<Rightarrow> 's store_ops option \<Rightarrow> bytes \<Rightarrow> ('s, hash) op" where
  "storeBlock E st block =
     (let h = sha256 E block
      in case st of None \<Rightarrow> retS h | Some ops \<Rightarrow> bindS (storePut ops h block) (\<lambda>_. retS h))"

text \<open>The loop over the blocks, from block \<open>i\<close> on, \<open>n\<close> blocks.\<close>

fun hashBlocks :: "ext \<Rightarrow> 's store_ops option \<Rightarrow> bytes \<Rightarrow> nat \<Rightarrow> nat \<Rightarrow> ('s, hash list) op" where
  "hashBlocks E st data 0 i = retS []"
| "hashBlocks E st data (Suc n) i =
     (let start = i * BEP52_BLOCK_SIZE; stop = min (start + BEP52_BLOCK_SIZE) (length data)
      in bindS (storeBlock E st (slice start stop data)) (\<lambda>h.
         bindS (hashBlocks E st data n (i + 1)) (\<lambda>hs. retS (h # hs))))"

fun pieceLoop :: "ext \<Rightarrow> nat \<Rightarrow> hash list \<Rightarrow> nat \<Rightarrow> nat \<Rightarrow> hash list comp" where
  "pieceLoop E blocksPerPiece leafHashes 0 p = ret []"
| "pieceLoop E blocksPerPiece leafHashes (Suc n) p =
     (let start = p * blocksPerPiece; stop = min (start + blocksPerPiece) (length leafHashes)
      in bindC (merkleRoot E (slice start stop leafHashes) (Some blocksPerPiece)) (\<lambda>pieceRoot.
         bindC (pieceLoop E blocksPerPiece leafHashes n (p + 1)) (\<lambda>layers. ret (pieceRoot # layers))))"

definition ceilDiv :: "nat \<Rightarrow> nat \<Rightarrow> nat" where
  "ceilDiv a b = (a + b - 1) div b"

definition computePieceLayers :: "ext \<Rightarrow> nat \<Rightarrow> hash list \<Rightarrow> hash list comp" where
  "computePieceLayers E blocksPerPiece leafHashes =
     pieceLoop E blocksPerPiece leafHashes (ceilDiv (length leafHashes) blocksPerPiece) 0"

definition buildFromHashes :: "ext \<Rightarrow> nat \<Rightarrow> hash list \<Rightarrow> nat \<Rightarrow> Bep52Result comp" where
  "buildFromHashes E blocksPerPiece leafHashes sz =
     bindC (map_option Inr (merkleNumLeafs (int (length leafHashes)))) (\<lambda>numLeafs.
     bindC (merkleRoot E leafHashes (Some (nat numLeafs))) (\<lambda>root.
     bindC (if 1 < blocksPerPiece
            then bindC (computePieceLayers E blocksPerPiece leafHashes) (\<lambda>l. ret (Some l))
            else ret None) (\<lambda>layers.
     ret \<lparr>broot = root, bsize = sz, bblockCount = length leafHashes, bleafHashes = leafHashes,
          bpieceLayers = layers\<rparr>)))"

definition emptyResult :: Bep52Result where
  "emptyResult = \<lparr>broot = ZERO_HASH, bsize = 0, bblockCount = 0, bleafHashes = [], bpieceLayers = None\<rparr>"

definition buildFromData :: "ext \<Rightarrow> 's store_ops option \<Rightarrow> nat \<Rightarrow> bytes \<Rightarrow> ('s, Bep52Result) op" where
  "buildFromData E st blocksPerPiece data =
     (let blockCount = ceilDiv (length data) BEP52_BLOCK_SIZE in
      if blockCount = 0 then retS emptyResult
      else bindS (hashBlocks E st data blockCount 0) (\<lambda>leafHashes.
           liftC (buildFromHashes E blocksPerPiece leafHashes (length data))))"

section \<open>The builder over streams\<close>

record bep_stream =
  bbuffer :: bytes
  bbufferOffset :: nat
  bstreamHashes :: "hash list"
  btotalSize :: nat

definition bep_init :: bep_stream where
  "bep_init = \<lparr>bbuffer = replicate BEP52_BLOCK_SIZE 0, bbufferOffset = 0, bstreamHashes = [], btotalSize = 0\<rparr>"

definition flushBlock :: "ext \<Rightarrow> 's store_ops option \<Rightarrow> bep_stream \<Rightarrow> ('s, bep_stream) op" where
  "flushBlock E st W =
     (if bbufferOffset W = 0 then retS W
      else bindS (storeBlock E st (slice 0 (bbufferOffset W) (bbuffer W))) (\<lambda>h.
           retS (W\<lparr>bstreamHashes := bstreamHashes W @ [h], bbufferOffset := 0\<rparr>)))"

partial_function (option) bepLoop ::
  "ext \<Rightarrow> 's store_ops option \<Rightarrow> bytes \<Rightarrow> nat \<Rightarrow> bep_stream \<Rightarrow> 's \<Rightarrow> (bep_stream res \<times> 's) option" where
  "bepLoop E st d offset W s =
     (if offset < length d then
        (let space = BEP52_BLOCK_SIZE - bbufferOffset W;
             toWrite = min space (length d - offset) in
         bindS (liftC (setBytes (bbuffer W) (slice offset (offset + toWrite) d) (bbufferOffset W))) (\<lambda>buf s1.
         let W1 = W\<lparr>bbuffer := buf, bbufferOffset := bbufferOffset W + toWrite\<rparr> in
         bindS (\<lambda>s2. if bbufferOffset W1 = BEP52_BLOCK_SIZE then flushBlock E st W1 s2 else retS W1 s2)
           (bepLoop E st d (offset + toWrite)) s1) s)
      else retS W s)"

declare bepLoop.simps [code]

definition bep_append :: "ext \<Rightarrow> 's store_ops option \<Rightarrow> bytes \<Rightarrow> bep_stream \<Rightarrow> ('s, bep_stream) op" where
  "bep_append E st d W =
     bindS (bepLoop E st d 0 W) (\<lambda>W'. retS (W'\<lparr>btotalSize := btotalSize W' + length d\<rparr>))"

definition bep_finalize :: "ext \<Rightarrow> 's store_ops option \<Rightarrow> bep_stream \<Rightarrow> ('s, Bep52Result) op" where
  "bep_finalize E st W0 =
     bindS (flushBlock E st W0) (\<lambda>W.
     if bstreamHashes W = [] then retS emptyResult
     else liftC (
       bindC (map_option Inr (merkleNumLeafs (int (length (bstreamHashes W))))) (\<lambda>numLeafs.
       bindC (merkleRoot E (bstreamHashes W) (Some (nat numLeafs))) (\<lambda>root.
       ret \<lparr>broot = root, bsize = btotalSize W, bblockCount = length (bstreamHashes W),
            bleafHashes = bstreamHashes W, bpieceLayers = None\<rparr>))))"

definition bep_stats :: "bep_stream \<Rightarrow> nat \<times> nat \<times> nat" where
  "bep_stats W = (length (bstreamHashes W), bbufferOffset W, btotalSize W)"

fun bep_appends :: "ext \<Rightarrow> 's store_ops option \<Rightarrow> bytes list \<Rightarrow> bep_stream \<Rightarrow> ('s, bep_stream) op" where
  "bep_appends E st [] W = retS W"
| "bep_appends E st (d # ds) W = bindS (bep_append E st d W) (bep_appends E st ds)"

end
