(* ===== verification/Bep52Spec.thy ===== *)
theory Bep52Spec
  imports Bep52
begin

text \<open>
  The specification of the BitTorrent v2 trees and the lemmas that relate roots, flat trees, proofs,
  piece layers and the stream builder to it.
\<close>

section \<open>Rounding up to a power of two\<close>

lemma sint_power: "i \<le> 30 \<Longrightarrow> sint (2 ^ i :: 32 word) = 2 ^ i"
proof -
  assume "i \<le> 30"
  then have "(2 :: int) ^ i \<le> 2 ^ 30" by (rule power_increasing) simp
  moreover have "sint (word_of_int (2 ^ i) :: 32 word) = signed_take_bit 31 (2 ^ i)"
    by (simp only: signed_of_int) simp
  moreover have "- 2147483648 \<le> (2 :: int) ^ i" by (rule order_trans [of _ 0]) simp_all
  ultimately show ?thesis by (subst (asm) signed_take_bit_int_eq_self) simp_all
qed

lemma numLeafsLoop_run:
  "0 < b \<Longrightarrow> b \<le> 2 ^ 30 \<Longrightarrow> i \<le> 30 \<Longrightarrow> i = 0 \<or> 2 ^ (i - 1) < b \<Longrightarrow>
   \<exists>k\<le>30. numLeafsLoop (2 ^ i) b = Some (2 ^ k) \<and> b \<le> 2 ^ k \<and> (k = 0 \<or> 2 ^ (k - 1) < b)"
proof (induction "30 - i" arbitrary: i)
  case 0
  then show ?case by (intro exI [of _ 30]) (simp add: numLeafsLoop.simps sint_power)
next
  case (Suc n)
  show ?case
  proof (cases "2 ^ i < b")
    case True
    have "push_bit 1 (2 ^ i :: 32 word) = 2 ^ Suc i" by (simp add: push_bit_eq_mult)
    with Suc.hyps(1) [of "Suc i"] Suc.hyps(2) Suc.prems True show ?thesis
      by (simp add: numLeafsLoop.simps [of "2 ^ i"] sint_power mult.commute)
  next
    case False
    with Suc show ?thesis by (intro exI [of _ i]) (simp add: numLeafsLoop.simps sint_power)
  qed
qed

lemma merkleNumLeafs_run:
  "0 < b \<Longrightarrow> b \<le> 2 ^ 30 \<Longrightarrow> \<exists>k\<le>30. merkleNumLeafs b = Some (2 ^ k) \<and> b \<le> 2 ^ k \<and> (k = 0 \<or> 2 ^ (k - 1) < b)"
  using numLeafsLoop_run [of b 0] by (simp add: merkleNumLeafs_def)

lemma numLeafsLoop_zero: "0 < b \<Longrightarrow> numLeafsLoop 0 b = None"
proof (rule ccontr)
  assume "0 < b" "numLeafsLoop 0 b \<noteq> None"
  then obtain r where "numLeafsLoop 0 b = Some r" by blast
  then have "(0 :: 32 word) = 0 \<longrightarrow> b \<le> 0"
    by (rule numLeafsLoop.raw_induct [of "\<lambda>n c r. n = 0 \<longrightarrow> c \<le> 0", rotated]) (auto split: if_splits)
  with \<open>0 < b\<close> show False by simp
qed

lemma numLeafsLoop_diverges: "2 ^ 30 < b \<Longrightarrow> i \<le> 30 \<Longrightarrow> numLeafsLoop (2 ^ i) b = None"
proof (induction "30 - i" arbitrary: i)
  case 0
  then have i: "i = 30" by simp
  have "sint (2 ^ 31 :: 32 word) < b" using 0(2) by (simp add: sint_uint signed_take_bit_def not_int_def mask_eq_exp_minus_1)
  moreover have "push_bit 1 (2 ^ 31 :: 32 word) = 0" by (simp add: push_bit_eq_mult)
  ultimately have "numLeafsLoop (2 ^ 31) b = numLeafsLoop 0 b"
    by (simp only: numLeafsLoop.simps [of "2 ^ 31"] if_True)
  moreover have "push_bit 1 (2 ^ 30 :: 32 word) = 2 ^ 31" by (simp add: push_bit_eq_mult)
  moreover have "sint (2 ^ 30 :: 32 word) < b" using 0(2) by (simp only: sint_power)
  ultimately show ?case
    using 0(2) numLeafsLoop_zero [of b] unfolding i by (simp only: numLeafsLoop.simps [of "2 ^ 30"] if_True) simp
next
  case (Suc n)
  have "push_bit 1 (2 ^ i :: 32 word) = 2 ^ Suc i" by (simp add: push_bit_eq_mult)
  moreover have "(2 :: int) ^ i \<le> 2 ^ 30" using Suc.prems(2) by (intro power_increasing) auto
  ultimately show ?case using Suc.hyps(1) [of "Suc i"] Suc.hyps(2) Suc.prems
    by (simp add: numLeafsLoop.simps [of "2 ^ i"] sint_power mult.commute)
qed

section \<open>Perfect trees\<close>

definition hp :: "ext \<Rightarrow> hash \<Rightarrow> hash \<Rightarrow> hash" where
  "hp E l r = sha256 E (l @ r)"

text \<open>\<open>mnode E f d j\<close>: the root of the subtree of depth \<open>d\<close> over the leaves \<open>f (j * 2 ^ d), \<dots>\<close>.\<close>

fun mnode :: "ext \<Rightarrow> (nat \<Rightarrow> hash) \<Rightarrow> nat \<Rightarrow> nat \<Rightarrow> hash" where
  "mnode E f 0 j = f j"
| "mnode E f (Suc d) j = hp E (mnode E f d (2 * j)) (mnode E f d (2 * j + 1))"

definition leafAt :: "hash list \<Rightarrow> nat \<Rightarrow> hash" where
  "leafAt leaves j = (if j < length leaves then leaves ! j else ZERO_HASH)"

fun padH :: "ext \<Rightarrow> nat \<Rightarrow> hash" where
  "padH E 0 = ZERO_HASH"
| "padH E (Suc d) = hp E (padH E d) (padH E d)"

definition hashes32 :: "hash list \<Rightarrow> bool" where
  "hashes32 hs \<longleftrightarrow> (\<forall>h\<in>set hs. length h = 32)"

lemma length_ZERO_HASH [simp]: "length ZERO_HASH = 32"
  by (simp add: ZERO_HASH_def)

lemma length_hp [simp]: "digest_len E \<Longrightarrow> length (hp E l r) = 32"
  by (simp add: hp_def)

lemma length_leafAt [simp]: "hashes32 leaves \<Longrightarrow> length (leafAt leaves j) = 32"
  by (simp add: leafAt_def hashes32_def)

lemma length_mnode: "digest_len E \<Longrightarrow> (\<And>j. length (f j) = 32) \<Longrightarrow> length (mnode E f d j) = 32"
  by (cases d) simp_all

lemma length_padH [simp]: "digest_len E \<Longrightarrow> length (padH E d) = 32"
  by (cases d) simp_all

lemma merkleHashPair_32 [simp]:
  "length l = 32 \<Longrightarrow> length r = 32 \<Longrightarrow> merkleHashPair E l r = ret (hp E l r)"
  by (simp add: merkleHashPair_def setBytes_def overwrite_def hp_def)

lemma merklePadHash_padH: "digest_len E \<Longrightarrow> merklePadHash E d = ret (padH E d)"
  by (induction d) simp_all

lemma mnode_pad: "length leaves \<le> j * 2 ^ d \<Longrightarrow> mnode E (leafAt leaves) d j = padH E d"
proof (induction d arbitrary: j)
  case (Suc d)
  have "length leaves \<le> (2 * j) * 2 ^ d" "length leaves \<le> (2 * j + 1) * 2 ^ d"
    using Suc.prems by (simp_all add: algebra_simps)
  with Suc.IH show ?case by simp
qed (simp add: leafAt_def)

text \<open>Composition: a deeper tree is the tree over the roots of its subtrees.\<close>

lemma mnode_compose: "mnode E (mnode E f d) e j = mnode E f (d + e) j"
  by (induction e arbitrary: j) simp_all

section \<open>Roots\<close>

lemma pairLevel_run:
  assumes "digest_len E" "\<And>j. length (f j) = 32" "\<And>j. m \<le> j \<Longrightarrow> f j = pad"
  shows "pairLevel E pad (map f [k..<m]) =
    ret (map (\<lambda>j. hp E (f (k + 2 * j)) (f (k + 2 * j + 1))) [0..<(m - k + 1) div 2])"
proof (induction "m - k" arbitrary: k rule: less_induct)
  case less
  consider "m \<le> k" | "m = Suc k" | "Suc k < m" by linarith
  then show ?case
  proof cases
    case 1
    then show ?thesis by simp
  next
    case 2
    then show ?thesis using assms(2) [of k] assms(2) [of m] assms(3) [of m] by simp
  next
    case 3
    have up: "[k..<m] = k # (k + 1) # [k + 2..<m]" using 3 by (simp add: upt_conv_Cons)
    have n: "(m - k + 1) div 2 = Suc ((m - (k + 2) + 1) div 2)" using 3 by simp
    have "[0..<(m - k + 1) div 2] = 0 # map Suc [0..<(m - (k + 2) + 1) div 2]"
      unfolding n by (simp add: upt_conv_Cons map_Suc_upt del: upt_Suc)
    with up less.hyps [of "k + 2"] 3 assms(2) show ?thesis
      by (simp add: o_def)
  qed
qed

lemma rootLoop_run:
  assumes "digest_len E" "\<And>j. length (f j) = 32" "0 < m"
  shows "(\<And>j. m \<le> j \<Longrightarrow> mnode E f d j = padH E d) \<Longrightarrow>
    rootLoop E (map (mnode E f d) [0..<m]) (padH E d) (2 ^ e) = ret (mnode E f (d + e) 0)"
  using assms(3)
proof (induction e arbitrary: d m)
  case 0
  then show ?case by (simp add: rootLoop.simps)
next
  case (Suc e)
  have len: "length (mnode E f d j) = 32" for j using assms(1,2) by (rule length_mnode)
  have "pairLevel E (padH E d) (map (mnode E f d) [0..<m]) =
      ret (map (mnode E f (Suc d)) [0..<(m + 1) div 2])"
    using pairLevel_run [OF assms(1), of "mnode E f d" m "padH E d" 0] len Suc.prems(1) by simp
  moreover have "mnode E f (Suc d) j = padH E (Suc d)" if "(m + 1) div 2 \<le> j" for j
    using that Suc.prems(1) [of "2 * j"] Suc.prems(1) [of "2 * j + 1"] by simp
  moreover have "0 < (m + 1) div 2" using Suc.prems(2) by simp
  ultimately have "rootLoop E (map (mnode E f (Suc d)) [0..<(m + 1) div 2]) (padH E (Suc d)) (2 ^ e)
      = ret (mnode E f (d + Suc e) 0)"
    and "pairLevel E (padH E d) (map (mnode E f d) [0..<m]) = ret (map (mnode E f (Suc d)) [0..<(m + 1) div 2])"
    using Suc.IH [of "(m + 1) div 2" "Suc d"] by (simp_all del: mnode.simps padH.simps)
  moreover have "1 < (2 :: nat) ^ Suc e" "((2 :: nat) ^ Suc e + 1) div 2 = 2 ^ e"
    using one_less_power [of "2 :: nat" "Suc e"] by simp_all
  moreover have "merkleHashPair E (padH E d) (padH E d) = ret (padH E (Suc d))" using assms(1) by simp
  ultimately show ?case by (subst rootLoop.simps) (simp only: if_True bindC_simps)
qed

lemma map_leafAt: "map (mnode E (leafAt leaves) 0) [0..<length leaves] = leaves"
  by (rule nth_equalityI) (simp_all add: leafAt_def)

lemma merkleRoot_run:
  assumes "digest_len E" "hashes32 leaves" "leaves \<noteq> []"
  shows "merkleRoot E leaves (Some (2 ^ k)) = ret (mnode E (leafAt leaves) k 0)"
proof (cases "length leaves = 1 \<and> k = 0")
  case True
  then show ?thesis using assms(3) by (simp add: merkleRoot_def leafAt_def)
next
  case False
  have "rootLoop E leaves ZERO_HASH (2 ^ k) = ret (mnode E (leafAt leaves) k 0)"
    using rootLoop_run [of E "leafAt leaves" "length leaves" 0 k] assms mnode_pad [of leaves _ 0 E]
    by (simp add: map_leafAt)
  with False assms(3) show ?thesis by (auto simp: merkleRoot_def)
qed

section \<open>The flat tree\<close>

text \<open>Node \<open>p\<close> of level \<open>l\<close> (the root is level 0) has the index \<open>2 ^ l - 1 + p\<close>.\<close>

definition flatIdx :: "nat \<Rightarrow> nat \<Rightarrow> nat" where
  "flatIdx l p = 2 ^ l - 1 + p"

definition filledFrom :: "ext \<Rightarrow> (nat \<Rightarrow> hash) \<Rightarrow> nat \<Rightarrow> nat \<Rightarrow> flat_tree \<Rightarrow> bool" where
  "filledFrom E f k L t \<longleftrightarrow> length t = 2 ^ Suc k - 1 \<and>
     (\<forall>l p. L \<le> l \<longrightarrow> l \<le> k \<longrightarrow> p < 2 ^ l \<longrightarrow> t ! flatIdx l p = Some (mnode E f (k - l) p))"

lemma flatIdx_less: "l \<le> k \<Longrightarrow> p < 2 ^ l \<Longrightarrow> flatIdx l p < 2 ^ Suc k - 1"
proof -
  assume "l \<le> k" "p < 2 ^ l"
  moreover from this have "(2 :: nat) ^ Suc l \<le> 2 ^ Suc k" by (intro power_increasing) auto
  moreover have "(1 :: nat) \<le> 2 ^ l" by simp
  ultimately show ?thesis unfolding flatIdx_def power_Suc by linarith
qed

lemma buildLevel_run:
  "\<lbrakk>parent + n \<le> i; i + 2 * n \<le> length t; \<And>x. length (v x) = 32;
    \<And>x. i \<le> x \<Longrightarrow> x < i + 2 * n \<Longrightarrow> t ! x = Some (v x)\<rbrakk> \<Longrightarrow>
   \<exists>t'. buildLevel E n i parent t = ret t' \<and> length t' = length t \<and>
     (\<forall>x<n. t' ! (parent + x) = Some (hp E (v (i + 2 * x)) (v (i + 2 * x + 1)))) \<and>
     (\<forall>y. y < parent \<or> parent + n \<le> y \<longrightarrow> t' ! y = t ! y)"
proof (induction n arbitrary: i parent t)
  case (Suc n)
  let ?h = "hp E (v i) (v (i + 1))"
  have "nodeAt t (int i) = Some (v i)" "nodeAt t (int i + 1) = Some (v (i + 1))"
    using Suc.prems(2,4) by (simp_all add: nodeAt_def nat_add_distrib)
  then have pair: "pairAt E t i = ret ?h" using Suc.prems(3) by (simp add: pairAt_def)
  obtain t' where t': "buildLevel E n (i + 2) (parent + 1) (t[parent := Some ?h]) = ret t'"
      "length t' = length t"
      "\<forall>x<n. t' ! (parent + 1 + x) = Some (hp E (v (i + 2 + 2 * x)) (v (i + 2 + 2 * x + 1)))"
      "\<forall>y. y < parent + 1 \<or> parent + 1 + n \<le> y \<longrightarrow> t' ! y = t[parent := Some ?h] ! y"
    using Suc.IH [of "parent + 1" "i + 2" "t[parent := Some ?h]"] Suc.prems by auto
  have "t' ! (parent + x) = Some (hp E (v (i + 2 * x)) (v (i + 2 * x + 1)))" if "x < Suc n" for x
    using that t'(3) [THEN spec, of "x - 1"] t'(4) [THEN spec, of parent] Suc.prems(1,2)
    by (cases x) auto
  moreover have "t' ! y = t ! y" if "y < parent \<or> parent + Suc n \<le> y" for y
    using that t'(4) [THEN spec, of y] by auto
  ultimately show ?case using t'(1,2) pair by simp
qed simp

lemma buildLevels_run:
  assumes E: "digest_len E" "\<And>j. length (f j) = 32"
  shows "L \<le> k \<Longrightarrow> filledFrom E f k L t \<Longrightarrow>
    \<exists>t'. buildLevels E (2 ^ L - 1) (2 ^ L) t = ret t' \<and> filledFrom E f k 0 t'"
proof (induction L arbitrary: t)
  case 0
  then show ?case by (simp add: buildLevels.simps)
next
  case (Suc L)
  let ?v = "\<lambda>x. mnode E f (k - Suc L) (x - (2 ^ Suc L - 1))"
  have pos: "(1 :: nat) \<le> 2 ^ L" by simp
  have parent: "nat (merkleGetParent (int (2 ^ Suc L - 1))) = 2 ^ L - 1"
    using pos by (simp add: merkleGetParent_def of_nat_diff nat_diff_distrib nat_power_eq)
  have size: "((2 :: nat) ^ Suc L + 1) div 2 = 2 ^ L" "(2 :: nat) ^ Suc L div 2 = 2 ^ L" "(1 :: nat) < 2 ^ Suc L"
    using one_less_power [of "2 :: nat" "Suc L"] by simp_all
  have len: "(2 ^ Suc L - 1) + 2 * 2 ^ L \<le> length t"
    using flatIdx_less [OF Suc.prems(1), of "2 ^ Suc L - 1"] Suc.prems(2) pos
    by (simp add: filledFrom_def flatIdx_def)
  have vals: "t ! x = Some (?v x)" if "2 ^ Suc L - 1 \<le> x" "x < 2 ^ Suc L - 1 + 2 * 2 ^ L" for x
    using Suc.prems that unfolding filledFrom_def flatIdx_def
    by (metis add_diff_cancel_left' le_Suc_ex le_refl nat_add_left_cancel_less power_Suc)
  obtain t' where t': "buildLevel E (2 ^ L) (2 ^ Suc L - 1) (2 ^ L - 1) t = ret t'" "length t' = length t"
      "\<forall>x<2 ^ L. t' ! (2 ^ L - 1 + x) = Some (hp E (?v (2 ^ Suc L - 1 + 2 * x)) (?v (2 ^ Suc L - 1 + 2 * x + 1)))"
      "\<forall>y. y < 2 ^ L - 1 \<or> 2 ^ L - 1 + 2 ^ L \<le> y \<longrightarrow> t' ! y = t ! y"
    using buildLevel_run [of "2 ^ L - 1" "2 ^ L" "2 ^ Suc L - 1" t ?v E] len vals length_mnode [OF E] pos
    by (auto simp: mult_2)
  have "filledFrom E f k L t'"
    unfolding filledFrom_def
  proof (intro conjI allI impI)
    show "length t' = 2 ^ Suc k - 1" using t'(2) Suc.prems(2) by (simp add: filledFrom_def)
    fix l p :: nat assume l: "L \<le> l" "l \<le> k" "p < 2 ^ l"
    show "t' ! flatIdx l p = Some (mnode E f (k - l) p)"
    proof (cases "l = L")
      case True
      then have "k - l = Suc (k - Suc L)" using Suc.prems(1) by simp
      with l True t'(3) show ?thesis by (simp add: flatIdx_def)
    next
      case False
      then have "(2 :: nat) ^ Suc L \<le> 2 ^ l" using l(1) by (intro power_increasing) auto
      then have "2 ^ L - 1 + 2 ^ L \<le> flatIdx l p" using pos by (simp add: flatIdx_def)
      then show ?thesis using t'(4) Suc.prems(2) l False unfolding filledFrom_def by auto
    qed
  qed
  from Suc.IH [OF _ this] Suc.prems(1) t'(1) show ?case
    by (subst buildLevels.simps) (simp only: parent size if_True Let_def bindC_simps Suc_leD)
qed

lemma fill_leaves:
  "length t = a + n \<Longrightarrow> \<exists>t'. fold (\<lambda>i t. t[a + i := Some (g i)]) [0..<m] t = t' \<and> length t' = length t \<and>
     (\<forall>i<m. i < n \<longrightarrow> t' ! (a + i) = Some (g i))"
  by (induction m) (auto simp: nth_list_update less_Suc_eq)

lemma merkleBuildTree_run:
  assumes E: "digest_len E" "hashes32 leaves" and n: "leaves \<noteq> []" "length leaves \<le> 2 ^ 30"
  shows "\<exists>k t. merkleNumLeafs (int (length leaves)) = Some (2 ^ k) \<and> length leaves \<le> 2 ^ k \<and>
    merkleBuildTree E leaves = ret t \<and> filledFrom E (leafAt leaves) k 0 t"
proof -
  obtain k where k: "merkleNumLeafs (int (length leaves)) = Some (2 ^ k)" "int (length leaves) \<le> 2 ^ k"
    using merkleNumLeafs_run [of "int (length leaves)"] n by auto
  have pos: "(1 :: nat) \<le> 2 ^ k" by simp
  have "nat (merkleNumNodes (2 ^ k)) = nat (2 ^ Suc k) - nat 1"
    unfolding merkleNumNodes_def using one_le_power [of "2 :: int" "Suc k"]
    by (subst nat_diff_distrib [symmetric]) (simp_all add: mult.commute)
  then have num: "nat (merkleNumNodes (2 ^ k)) = 2 ^ Suc k - 1" "nat (merkleFirstLeaf (2 ^ k)) = 2 ^ k - 1"
    "nat (2 ^ k) = 2 ^ k"
    by (simp_all add: merkleFirstLeaf_def nat_diff_distrib nat_mult_distrib nat_power_eq)
  let ?g = "\<lambda>i. if i < length leaves then leaves ! i else ZERO_HASH"
  let ?t = "fold (\<lambda>i t. t[(2 ^ k - 1) + i := Some (?g i)]) [0..<2 ^ k] (replicate (2 ^ Suc k - 1) None)"
  have "length ?t = 2 ^ Suc k - 1 \<and> (\<forall>i<2 ^ k. ?t ! (2 ^ k - 1 + i) = Some (?g i))"
    using fill_leaves [of "replicate (2 ^ Suc k - 1) None" "2 ^ k - 1" "2 ^ k" ?g "2 ^ k"] pos by (auto simp: mult_2)
  then have "filledFrom E (leafAt leaves) k k ?t"
    by (auto simp: filledFrom_def flatIdx_def leafAt_def dest: antisym)
  from buildLevels_run [OF E(1) length_leafAt [OF E(2)] order_refl this]
  show ?thesis using k n(1) num by (auto simp: merkleBuildTree_def Let_def nat_power_eq)
qed

section \<open>Proofs\<close>

text \<open>The uncles of node \<open>p\<close> of level \<open>l\<close>, from that level up to the root.\<close>

fun uncles :: "ext \<Rightarrow> (nat \<Rightarrow> hash) \<Rightarrow> nat \<Rightarrow> nat \<Rightarrow> nat \<Rightarrow> hash list" where
  "uncles E f k 0 p = []"
| "uncles E f k (Suc l) p =
     mnode E f (k - Suc l) (if even p then p + 1 else p - 1) # uncles E f k l (p div 2)"

lemma length_uncles [simp]: "length (uncles E f k l p) = l"
  by (induction l arbitrary: p) simp_all

lemma int_flatIdx: "int (flatIdx l p) = 2 ^ l - 1 + int p"
  unfolding flatIdx_def of_nat_add by (simp add: of_nat_diff)

lemma flatIdx_parent: "merkleGetParent (int (flatIdx (Suc l) p)) = int (flatIdx l (p div 2))"
proof -
  have "int (flatIdx (Suc l) p) - 1 = 2 * (2 ^ l - 1) + int p" by (simp add: int_flatIdx)
  then show ?thesis by (simp add: merkleGetParent_def int_flatIdx zdiv_int)
qed

lemma flatIdx_odd [simp]: "even (flatIdx (Suc l) p) \<longleftrightarrow> odd p"
proof -
  have "flatIdx (Suc l) p + 1 = 2 * 2 ^ l + p" using one_le_power [of "2 :: nat" "Suc l"] by (simp add: flatIdx_def)
  then have "even (flatIdx (Suc l) p + 1) \<longleftrightarrow> even p" by simp
  then show ?thesis by auto
qed

lemma nodeAt_nat: "i < length t \<Longrightarrow> nodeAt t (int i) = t ! i"
  by (simp add: nodeAt_def)

lemma proofLoop_run:
  assumes "filledFrom E f k 0 t"
  shows "l \<le> k \<Longrightarrow> p < 2 ^ l \<Longrightarrow> proofLoop t (int (flatIdx l p)) = map Some (uncles E f k l p)"
proof (induction l arbitrary: p)
  case 0
  then show ?case by (simp add: proofLoop.simps flatIdx_def)
next
  case (Suc l)
  let ?q = "if even p then p + 1 else p - 1"
  have q: "?q < 2 ^ Suc l" using Suc.prems(2) by (auto elim!: evenE simp: Suc_le_eq)
  have sib: "merkleGetSibling (int (flatIdx (Suc l) p)) = int (flatIdx (Suc l) ?q)"
  proof -
    have "odd (int (flatIdx (Suc l) p)) \<longleftrightarrow> even p" by simp
    then show ?thesis unfolding merkleGetSibling_def int_flatIdx by (auto elim!: oddE)
  qed
  have "nodeAt t (int (flatIdx (Suc l) ?q)) = Some (mnode E f (k - Suc l) ?q)"
    using assms q Suc.prems(1) flatIdx_less [OF Suc.prems(1) q]
    unfolding filledFrom_def by (subst nodeAt_nat) auto
  moreover have "0 < int (flatIdx (Suc l) p)"
    using one_less_power [of "2 :: nat" "Suc l"] unfolding of_nat_0_less_iff flatIdx_def by linarith
  ultimately show ?case
    using Suc.IH [of "p div 2"] Suc.prems sib by (subst proofLoop.simps) (simp add: flatIdx_parent)
qed

lemma mnode_step:
  "Suc l \<le> k \<Longrightarrow> mnode E f (k - l) (p div 2) =
     (if even p then hp E (mnode E f (k - Suc l) p) (mnode E f (k - Suc l) (p + 1))
      else hp E (mnode E f (k - Suc l) (p - 1)) (mnode E f (k - Suc l) p))"
  by (cases "even p") (auto simp flip: Suc_diff_Suc simp: Suc_le_eq elim!: evenE oddE)

lemma verifyLoop_run:
  assumes "digest_len E" "\<And>j. length (f j) = 32"
  shows "l \<le> k \<Longrightarrow> verifyLoop E (mnode E f (k - l) p) (int (flatIdx l p)) (uncles E f k l p)
    = ret (mnode E f k (p div 2 ^ l))"
proof (induction l arbitrary: p)
  case (Suc l)
  have len: "length (mnode E f d j) = 32" for d j using assms by (rule length_mnode)
  have "verifyLoop E (mnode E f (k - Suc l) p) (int (flatIdx (Suc l) p)) (uncles E f k (Suc l) p) =
      verifyLoop E (mnode E f (k - l) (p div 2)) (int (flatIdx l (p div 2))) (uncles E f k l (p div 2))"
    unfolding mnode_step [OF Suc.prems] by (simp add: flatIdx_parent len)
  with Suc show ?case by (simp add: div_mult2_eq)
qed simp

text \<open>The blocks the verifier hashes, and those of the tree.\<close>

fun verifyBlocks :: "ext \<Rightarrow> hash \<Rightarrow> int \<Rightarrow> hash list \<Rightarrow> bytes list" where
  "verifyBlocks E h idx [] = []"
| "verifyBlocks E h idx (u # proof) =
     (let b = (if odd idx then h @ u else u @ h) in b # verifyBlocks E (sha256 E b) (merkleGetParent idx) proof)"

definition treeBlocks :: "ext \<Rightarrow> (nat \<Rightarrow> hash) \<Rightarrow> nat \<Rightarrow> bytes list" where
  "treeBlocks E f k =
     concat (map (\<lambda>l. map (\<lambda>q. mnode E f (k - Suc l) (2 * q) @ mnode E f (k - Suc l) (2 * q + 1)) [0..<2 ^ l]) [0..<k])"

lemma mnode_block:
  "Suc l \<le> k \<Longrightarrow> q < 2 ^ l \<Longrightarrow> \<exists>b\<in>set (treeBlocks E f k). mnode E f (k - l) q = sha256 E b \<and>
     b = mnode E f (k - Suc l) (2 * q) @ mnode E f (k - Suc l) (2 * q + 1)"
  by (auto simp flip: Suc_diff_Suc simp: Suc_le_eq treeBlocks_def hp_def intro!: bexI [of _ l])

text \<open>On the leftmost path every index is a left child, so a proof for a higher node also passes when it
  starts at the index of a lower one.\<close>

lemma verifyLoop_leftmost:
  "length pf \<le> l \<Longrightarrow> verifyLoop E h (int (flatIdx (l + c) 0)) pf = verifyLoop E h (int (flatIdx l 0)) pf"
proof (induction pf arbitrary: h l)
  case (Cons u pf)
  then obtain m where "l = Suc m" by (cases l) auto
  with Cons show ?case by (simp add: flatIdx_parent)
qed simp

lemma verifyLoop_sound:
  assumes E: "digest_len E" "\<And>j. length (f j) = 32"
  shows "\<lbrakk>l \<le> k; p < 2 ^ l; length h = 32; hashes32 pf; length pf = l;
     inj_on (sha256 E) (set (treeBlocks E f k) \<union> set (verifyBlocks E h (int (flatIdx l p)) pf));
     verifyLoop E h (int (flatIdx l p)) pf = ret (mnode E f k (p div 2 ^ l))\<rbrakk> \<Longrightarrow>
   h = mnode E f (k - l) p"
proof (induction l arbitrary: h p pf)
  case (Suc l)
  have len: "length (mnode E f d j) = 32" for d j using E by (rule length_mnode)
  obtain u us where u: "pf = u # us" "length u = 32" "hashes32 us" "length us = l"
    using Suc.prems(4,5) by (cases pf) (auto simp: hashes32_def)
  define b where "b = (if even p then h @ u else u @ h)"
  have step: "verifyLoop E (sha256 E b) (int (flatIdx l (p div 2))) us = ret (mnode E f k (p div 2 div 2 ^ l))"
    using Suc.prems(3,7) u(1,2) by (auto simp: b_def flatIdx_parent hp_def div_mult2_eq split: if_splits)
  have blocks: "set (verifyBlocks E h (int (flatIdx (Suc l) p)) pf)
      = insert b (set (verifyBlocks E (sha256 E b) (int (flatIdx l (p div 2))) us))"
    by (simp add: u(1) b_def flatIdx_parent Let_def)
  have "sha256 E b = mnode E f (k - l) (p div 2)"
    using Suc.IH [OF _ _ _ u(3,4) _ step] Suc.prems(1,2,6) E(1) unfolding blocks
    by (auto intro: inj_on_subset)
  moreover obtain c where c: "c \<in> set (treeBlocks E f k)" "mnode E f (k - l) (p div 2) = sha256 E c"
      "c = mnode E f (k - Suc l) (2 * (p div 2)) @ mnode E f (k - Suc l) (2 * (p div 2) + 1)"
    using mnode_block [OF Suc.prems(1), of "p div 2"] Suc.prems(2) by auto
  ultimately have "b = c" using Suc.prems(6) unfolding blocks by (auto dest: inj_onD)
  then show ?case
    using c(3) len u(2) Suc.prems(3) unfolding b_def by (auto elim!: evenE oddE split: if_splits)
qed simp

section \<open>Piece layers\<close>

lemma mnode_cong: "(\<And>x. j * 2 ^ d \<le> x \<Longrightarrow> x < (j + 1) * 2 ^ d \<Longrightarrow> f x = g x) \<Longrightarrow> mnode E f d j = mnode E g d j"
proof (induction d arbitrary: j)
  case (Suc d)
  have "mnode E f d (2 * j) = mnode E g d (2 * j)"
    by (rule Suc.IH) (auto intro!: Suc.prems simp: algebra_simps)
  moreover have "mnode E f d (2 * j + 1) = mnode E g d (2 * j + 1)"
    by (rule Suc.IH) (auto intro!: Suc.prems simp: algebra_simps)
  ultimately show ?case by simp
qed simp

lemma mnode_shift: "e \<le> d \<Longrightarrow> mnode E (\<lambda>x. f (q * 2 ^ d + x)) e j = mnode E f e (q * 2 ^ (d - e) + j)"
proof (induction e arbitrary: j)
  case (Suc e)
  then have "(2 :: nat) ^ (d - e) = 2 * 2 ^ (d - Suc e)" by (metis Suc_diff_Suc Suc_le_lessD power_Suc)
  with Suc show ?case by (simp add: algebra_simps)
qed simp

lemma merkleRoot_piece:
  assumes E: "digest_len E" "hashes32 leaves" and p: "p * 2 ^ d < length leaves"
  shows "merkleRoot E (slice (p * 2 ^ d) (min (p * 2 ^ d + 2 ^ d) (length leaves)) leaves) (Some (2 ^ d))
    = ret (mnode E (leafAt leaves) d p)"
proof -
  let ?s = "slice (p * 2 ^ d) (min (p * 2 ^ d + 2 ^ d) (length leaves)) leaves"
  have "hashes32 ?s" using E(2) by (auto simp: hashes32_def slice_def dest!: in_set_takeD in_set_dropD)
  moreover have "?s \<noteq> []" using p by (simp add: slice_def min_le_iff_disj not_le)
  moreover have "mnode E (leafAt ?s) d 0 = mnode E (\<lambda>x. leafAt leaves (p * 2 ^ d + x)) d 0"
    by (rule mnode_cong) (auto simp: leafAt_def nth_slice)
  ultimately show ?thesis
    using merkleRoot_run [OF E(1), of ?s d] mnode_shift [of d d E "leafAt leaves" p 0] by simp
qed

lemma pieceLoop_run:
  assumes E: "digest_len E" "hashes32 leaves"
  shows "(q + n) * 2 ^ d < length leaves + 2 ^ d \<Longrightarrow>
    pieceLoop E (2 ^ d) leaves n q = ret (map (mnode E (leafAt leaves) d) [q..<q + n])"
proof (induction n arbitrary: q)
  case (Suc n)
  have "q * 2 ^ d < length leaves" using Suc.prems by (simp add: algebra_simps)
  from merkleRoot_piece [OF E this] Suc show ?case by (simp add: Let_def upt_conv_Cons del: upt_Suc)
qed simp

lemma ceilDiv_less: "0 < b \<Longrightarrow> ceilDiv a b * b < a + b"
  unfolding ceilDiv_def by (metis add_gr_0 diff_less div_times_less_eq_dividend le_less_trans zero_less_one)

lemma ceilDiv_ge: "0 < b \<Longrightarrow> a \<le> ceilDiv a b * b"
proof -
  assume "0 < b"
  then have "(a + b - 1) < ((a + b - 1) div b + 1) * b" using dividend_less_div_times [of b "a + b - 1"] by (simp add: algebra_simps)
  with \<open>0 < b\<close> show ?thesis by (simp add: ceilDiv_def algebra_simps)
qed

lemma computePieceLayers_run:
  assumes "digest_len E" "hashes32 leaves"
  shows "computePieceLayers E (2 ^ d) leaves =
    ret (map (mnode E (leafAt leaves) d) [0..<ceilDiv (length leaves) (2 ^ d)])"
  using pieceLoop_run [OF assms, of 0 "ceilDiv (length leaves) (2 ^ d)" d] ceilDiv_less [of "2 ^ d" "length leaves"]
  by (simp add: computePieceLayers_def)

section \<open>The stream builder\<close>

text \<open>Storing a block always succeeds: its hash, and the store with the block put.\<close>

definition putSt :: "ext \<Rightarrow> 's store_ops option \<Rightarrow> bytes \<Rightarrow> 's \<Rightarrow> 's" where
  "putSt E st b s = (case st of None \<Rightarrow> s | Some ops \<Rightarrow> snd (store_put ops (sha256 E b) b s))"

lemma storeBlock_run [simp]: "storeBlock E st b s = Some (Inr (sha256 E b), putSt E st b s)"
  by (auto simp: storeBlock_def putSt_def Let_def retS_def bindS_def storePut_def split: option.split prod.split)

abbreviation B :: nat where "B \<equiv> BEP52_BLOCK_SIZE"

lemma B_pos [simp]: "0 < BEP52_BLOCK_SIZE"
  by (simp add: BEP52_BLOCK_SIZE_def)

lemma slice_chunks:
  "map (\<lambda>i. slice (i * c) (min (i * c + c) (length d)) d) [q..<q + n] = take n (chunks_of c (drop (q * c) d))"
  if "0 < c" "(q + n) * c < length d + c"
  using that(2)
proof (induction n arbitrary: q)
  case (Suc n)
  have "q * c < length d" using Suc.prems by (simp add: algebra_simps)
  then have "chunks_of c (drop (q * c) d) = slice (q * c) (min (q * c + c) (length d)) d # chunks_of c (drop (Suc q * c) d)"
    using \<open>0 < c\<close> by (simp add: chunks_of_step slice_def min_def add.commute)
  with Suc.IH [of "Suc q"] Suc.prems show ?case by (simp add: upt_conv_Cons del: upt_Suc)
qed simp

lemma hashBlocks_run:
  "hashBlocks E st d n i s =
     (let bs = map (\<lambda>i. slice (i * B) (min (i * B + B) (length d)) d) [i..<i + n]
      in Some (Inr (map (sha256 E) bs), fold (putSt E st) bs s))"
  by (induction n arbitrary: i s)
     (simp_all add: retS_def bindS_def Let_def upt_conv_Cons del: upt_Suc)

lemma length_chunks_of: "0 < c \<Longrightarrow> length (chunks_of c d) = ceilDiv (length d) c"
proof (induction c d rule: chunks_of.induct)
  case (1 c d)
  show ?case
  proof (cases "d = []")
    case False
    then have "length (chunks_of c d) = Suc (ceilDiv (length d - c) c)" using 1 by (simp add: chunks_of_step)
    also have "\<dots> = ceilDiv (length d) c"
    proof (cases "c \<le> length d")
      case True
      then have "length d + c - 1 = (length d - c + c - 1) + c" using 1 by simp
      then show ?thesis using 1 unfolding ceilDiv_def by (metis add.commute div_add_self2 less_numeral_extra(3) plus_1_eq_Suc)
    next
      case le: False
      then have "(length d + c - 1) div c = 1"
        using False 1 by (intro div_nat_eqI) (auto simp: Suc_le_eq simp flip: length_greater_0_conv)
      moreover have "(c - 1) div c = 0" using 1 by simp
      ultimately show ?thesis using le by (simp add: ceilDiv_def)
    qed
    finally show ?thesis .
  qed (use 1 in \<open>simp add: ceilDiv_def\<close>)
qed

lemma hashBlocks_all:
  "hashBlocks E st d (ceilDiv (length d) B) 0 s =
     Some (Inr (map (sha256 E) (chunks_of B d)), fold (putSt E st) (chunks_of B d) s)"
  using slice_chunks [of B 0 "ceilDiv (length d) B" d] ceilDiv_less [of B "length d"]
  by (simp add: hashBlocks_run Let_def flip: length_chunks_of)

text \<open>A stream after the data \<open>D\<close>: the full blocks are hashed and stored, the rest is in the buffer.\<close>

definition fullLen :: "bytes \<Rightarrow> nat" where
  "fullLen D = length D div B * B"

definition streamed :: "ext \<Rightarrow> 's store_ops option \<Rightarrow> 's \<Rightarrow> bytes \<Rightarrow> bep_stream \<Rightarrow> 's \<Rightarrow> bool" where
  "streamed E st s0 D W s \<longleftrightarrow> length (bbuffer W) = B \<and> bbufferOffset W < B \<and>
     take (bbufferOffset W) (bbuffer W) = drop (fullLen D) D \<and> bbufferOffset W = length D mod B \<and>
     bstreamHashes W = map (sha256 E) (chunks_of B (take (fullLen D) D)) \<and>
     s = fold (putSt E st) (chunks_of B (take (fullLen D) D)) s0"

lemma length_rest: "length (drop (fullLen D) D) = length D mod B"
  by (simp add: fullLen_def modulo_nat_def)

lemma chunks_of_append: "0 < c \<Longrightarrow> length xs = n * c \<Longrightarrow> chunks_of c (xs @ ys) = chunks_of c xs @ chunks_of c ys"
proof (induction n arbitrary: xs)
  case (Suc n)
  then have "xs \<noteq> []" by auto
  with Suc show ?case by (simp add: chunks_of_step [of c "xs @ ys"] chunks_of_step [of c xs])
qed simp

lemma chunks_of_single: "xs \<noteq> [] \<Longrightarrow> length xs \<le> c \<Longrightarrow> chunks_of c xs = [xs]"
  using chunks_of_step [of c xs] by (cases "c = 0") simp_all

text \<open>Extending the data by a piece that stays below, or just fills, the current block.\<close>

lemma full_extend:
  assumes "length D mod B + length t < B"
  shows "fullLen (D @ t) = fullLen D" "length (D @ t) mod B = length D mod B + length t"
proof -
  have eq: "length D + length t = (length D mod B + length t) + B * (length D div B)"
    using mult_div_mod_eq [of B "length D"] by linarith
  have "(length D + length t) div B = length D div B" "(length D + length t) mod B = length D mod B + length t"
    unfolding eq using assms B_pos by (simp_all only: div_mult_self2 mod_mult_self2 div_less mod_less)
  then show "fullLen (D @ t) = fullLen D" "length (D @ t) mod B = length D mod B + length t"
    by (simp_all add: fullLen_def)
qed

lemma full_complete:
  assumes "length D mod B + length t = B"
  shows "fullLen (D @ t) = length (D @ t)" "length (D @ t) mod B = 0"
    "chunks_of B (D @ t) = chunks_of B (take (fullLen D) D) @ [drop (fullLen D) D @ t]"
proof -
  have len: "length (D @ t) = (length D div B + 1) * B"
    using assms div_mult_mod_eq [of "length D" B] unfolding length_append add_mult_distrib mult_1 by linarith
  then show "fullLen (D @ t) = length (D @ t)" "length (D @ t) mod B = 0"
    unfolding fullLen_def len by simp_all
  have "D @ t = take (fullLen D) D @ (drop (fullLen D) D @ t)" by simp
  moreover have "length (drop (fullLen D) D @ t) = B" using assms length_rest [of D] by simp
  moreover have "length (take (fullLen D) D) = length D div B * B" by (simp add: fullLen_def)
  ultimately show "chunks_of B (D @ t) = chunks_of B (take (fullLen D) D) @ [drop (fullLen D) D @ t]"
    by (metis B_pos chunks_of_append chunks_of_single length_0_conv less_not_refl order_refl)
qed

lemma streamed_write:
  assumes W: "streamed E st s0 D W s" and t: "length D mod B + length t < B"
  shows "streamed E st s0 (D @ t)
    (W\<lparr>bbuffer := overwrite (bbufferOffset W) t (bbuffer W), bbufferOffset := bbufferOffset W + length t\<rparr>) s"
proof -
  have "fullLen D \<le> length D" by (simp add: fullLen_def)
  with W t full_extend [OF t] show ?thesis
    by (auto simp: streamed_def overwrite_def)
qed

lemma streamed_total [simp]: "streamed E st s0 D (W\<lparr>btotalSize := n\<rparr>) s = streamed E st s0 D W s"
  by (simp add: streamed_def)

lemma streamed_flush:
  assumes W: "streamed E st s0 D W s" and t: "length D mod B + length t = B"
  shows "\<exists>W'. flushBlock E st (W\<lparr>bbuffer := overwrite (bbufferOffset W) t (bbuffer W), bbufferOffset := B\<rparr>) s
      = Some (Inr W', putSt E st (drop (fullLen D) D @ t) s) \<and> btotalSize W' = btotalSize W \<and>
    streamed E st s0 (D @ t) W' (putSt E st (drop (fullLen D) D @ t) s)"
proof -
  have blk: "slice 0 B (overwrite (bbufferOffset W) t (bbuffer W)) = drop (fullLen D) D @ t"
    using W t by (auto simp: streamed_def overwrite_def)
  show ?thesis
    using W t blk full_complete [OF t]
    by (auto simp: flushBlock_def bindS_def retS_def streamed_def simp del: slice_0)
qed

lemma bepLoop_run:
  "streamed E st s0 D W s \<Longrightarrow> \<exists>W' s'. bepLoop E st d off W s = Some (Inr W', s') \<and>
     btotalSize W' = btotalSize W \<and> streamed E st s0 (D @ drop off d) W' s'"
proof (induction "length d - off" arbitrary: off W s D rule: less_induct)
  case less
  show ?case
  proof (cases "off < length d")
    case False
    with less.prems show ?thesis by (simp add: bepLoop.simps [of E st d off] retS_def)
  next
    case True
    let ?n = "min (B - bbufferOffset W) (length d - off)"
    let ?t = "slice off (off + ?n) d"
    have W: "length (bbuffer W) = B" "bbufferOffset W = length D mod B" "bbufferOffset W < B"
      using less.prems by (simp_all add: streamed_def)
    have len: "length ?t = ?n" by simp
    have n: "0 < ?n" using True W(3) by simp
    have rest: "drop off d = ?t @ drop (off + ?n) d" by (simp add: slice_drop)
    let ?W1 = "W\<lparr>bbuffer := overwrite (bbufferOffset W) ?t (bbuffer W), bbufferOffset := bbufferOffset W + ?n\<rparr>"
    have step: "bepLoop E st d off W s =
        bindS (\<lambda>s2. if bbufferOffset W + ?n = B then flushBlock E st ?W1 s2 else retS ?W1 s2)
          (bepLoop E st d (off + ?n)) s"
      using True W(1,3) len by (subst bepLoop.simps) (simp add: setBytes_def Let_def bindS_def)
    obtain W1 s1 where 1: "(if bbufferOffset W + ?n = B then flushBlock E st ?W1 s else retS ?W1 s) = Some (Inr W1, s1)"
        "btotalSize W1 = btotalSize W" "streamed E st s0 (D @ ?t) W1 s1"
    proof (cases "bbufferOffset W + ?n = B")
      case True
      with streamed_flush [OF less.prems, of ?t] W(2) len that show ?thesis by auto
    next
      case False
      then have "length D mod B + length ?t < B" using W(2,3) len unfolding min_def by (auto split: if_splits)
      from streamed_write [OF less.prems this] False len that [of ?W1 s] show ?thesis by (simp add: retS_def)
    qed
    have "length d - (off + ?n) < length d - off" using n True by linarith
    from less.hyps [OF this 1(3)] obtain W' s' where "bepLoop E st d (off + ?n) W1 s1 = Some (Inr W', s')"
        "btotalSize W' = btotalSize W1" "streamed E st s0 ((D @ ?t) @ drop (off + ?n) d) W' s'" by blast
    then show ?thesis using 1(1,2) rest unfolding step by (simp add: bindS_def)
  qed
qed

lemma bep_appends_run:
  "streamed E st s0 D W s \<Longrightarrow> btotalSize W = length D \<Longrightarrow> \<exists>W' s'. bep_appends E st ds W s = Some (Inr W', s') \<and>
     btotalSize W' = length (D @ concat ds) \<and> streamed E st s0 (D @ concat ds) W' s'"
proof (induction ds arbitrary: D W s)
  case Nil
  then show ?case by (simp add: retS_def)
next
  case (Cons d ds)
  from bepLoop_run [OF Cons.prems(1), of d 0] obtain W1 s1 where 1: "bepLoop E st d 0 W s = Some (Inr W1, s1)"
      "btotalSize W1 = btotalSize W" "streamed E st s0 (D @ d) W1 s1" by auto
  let ?W = "W1\<lparr>btotalSize := btotalSize W1 + length d\<rparr>"
  have "streamed E st s0 (D @ d) ?W s1" using 1(3) by simp
  from Cons.IH [OF this] 1(1,2) Cons.prems(2) show ?case
    by (simp add: bep_append_def bindS_def retS_def)
qed

lemma streamed_init: "streamed E st s [] bep_init s"
  by (simp add: streamed_def bep_init_def fullLen_def)

lemma chunks_of_full: "chunks_of B D = chunks_of B (take (fullLen D) D) @ (if length D mod B = 0 then [] else [drop (fullLen D) D])"
proof -
  have "chunks_of B (take (fullLen D) D @ drop (fullLen D) D) =
      chunks_of B (take (fullLen D) D) @ chunks_of B (drop (fullLen D) D)"
    by (rule chunks_of_append [of _ _ "length D div B"]) (simp_all add: fullLen_def)
  moreover have "chunks_of B (drop (fullLen D) D) = (if length D mod B = 0 then [] else [drop (fullLen D) D])"
    using length_rest [of D] chunks_of_single [of "drop (fullLen D) D" B]
    by (metis B_pos chunks_of_Nil length_0_conv less_imp_le mod_less_divisor)
  ultimately show ?thesis by simp
qed

lemma bep_stream_is_build:
  "bindS (bep_appends E st ds bep_init) (bep_finalize E st) s = buildFromData E st 1 (concat ds) s"
proof -
  let ?D = "concat ds"
  obtain W s1 where W: "bep_appends E st ds bep_init s = Some (Inr W, s1)" "btotalSize W = length ?D"
      "streamed E st s ?D W s1"
    using bep_appends_run [OF streamed_init [of E st s], of ds] by (auto simp: bep_init_def)
  have flush: "\<exists>W'. flushBlock E st W s1 = Some (Inr W', fold (putSt E st) (chunks_of B ?D) s) \<and>
      bstreamHashes W' = map (sha256 E) (chunks_of B ?D) \<and> btotalSize W' = length ?D"
    using W(2,3) chunks_of_full [of ?D]
    by (auto simp: flushBlock_def streamed_def retS_def bindS_def)
  have "ceilDiv (length ?D) B = 0 \<longleftrightarrow> chunks_of B ?D = []"
    by (metis B_pos length_0_conv length_chunks_of)
  with flush W(1) show ?thesis
    by (auto simp: bep_finalize_def bindS_def buildFromData_def Let_def hashBlocks_all buildFromHashes_def
        liftC_def retS_def)
qed

end
