(* ===== verification/Bep52Props.thy ===== *)
theory Bep52Props
  imports Bep52Spec Instance
begin

text \<open>The properties of the BitTorrent v2 trees.\<close>

section \<open>Sizes\<close>

text \<open>\<open>merkleNumLeafs\<close> returns the least power of two that is at least the number of blocks, as long as
  there are at most \<open>2 ^ 30\<close> blocks; above that the 32-bit shift wraps to 0 and the loop never ends.\<close>

theorem merkleNumLeafs_correct:
  "(0 < b \<and> b \<le> 2 ^ 30 \<longrightarrow> (\<exists>k\<le>30. merkleNumLeafs b = Some (2 ^ k) \<and> b \<le> 2 ^ k \<and> (k = 0 \<or> 2 ^ (k - 1) < b)))
   \<and> (2 ^ 30 < b \<longrightarrow> merkleNumLeafs b = None)"
  using merkleNumLeafs_run [of b] numLeafsLoop_diverges [of b 0] by (auto simp: merkleNumLeafs_def)

theorem merkleNumLeafs_correct_witness:
  "(\<exists>k. merkleNumLeafs 5 = Some (2 ^ k) \<and> 5 \<le> (2 :: int) ^ k) \<and> merkleNumLeafs (2 ^ 40) = None"
  using merkleNumLeafs_correct [of 5] merkleNumLeafs_correct [of "2 ^ 40"] by auto

section \<open>Trees and proofs\<close>

text \<open>C35. For up to \<open>2 ^ 30\<close> leaves the flat tree is built, its first node is the merkle root, and the proof
  taken from the tree for any leaf (padding leaves included) verifies against that root.\<close>

theorem merkle_proofs_complete:
  assumes "digest_len E" "hashes32 leaves" "leaves \<noteq> []" "length leaves \<le> 2 ^ 30"
  shows "\<exists>k t root. merkleNumLeafs (int (length leaves)) = Some (2 ^ k) \<and> merkleBuildTree E leaves = ret t \<and>
    nodeAt t 0 = Some root \<and> merkleRoot E leaves None = ret root \<and>
    (\<forall>i. i < 2 ^ k \<longrightarrow> (\<exists>pf. merkleGetProof t (int i) (2 ^ k) = map Some pf \<and>
      merkleVerifyProof E (leafAt leaves i) (int i) pf root (2 ^ k) = ret True))"
proof -
  obtain k t where k: "merkleNumLeafs (int (length leaves)) = Some (2 ^ k)"
      and t: "merkleBuildTree E leaves = ret t" "filledFrom E (leafAt leaves) k 0 t"
    using merkleBuildTree_run [OF assms] by blast
  let ?root = "mnode E (leafAt leaves) k 0"
  have len: "length (leafAt leaves j) = 32" for j using assms(2) by simp
  have "nodeAt t (int (flatIdx 0 0)) = Some ?root"
    using t(2) flatIdx_less [of 0 k 0] unfolding filledFrom_def by (subst nodeAt_nat) auto
  then have "nodeAt t 0 = Some ?root" by (simp add: flatIdx_def)
  moreover have "merkleRoot E leaves None = ret ?root"
  proof (cases "length leaves = 1")
    case True
    then have "k = 0"
      using k power_inject_exp [of "2 :: int" k 0] by (simp add: merkleNumLeafs_def numLeafsLoop.simps)
    with True assms(3) show ?thesis by (simp add: merkleRoot_def leafAt_def)
  next
    case False
    with merkleRoot_run [OF assms(1-3), of k] k assms(3) show ?thesis
      by (simp add: merkleRoot_def nat_power_eq)
  qed
  moreover have "merkleVerifyProof E (leafAt leaves i) (int i) (uncles E (leafAt leaves) k k i) ?root (2 ^ k) = ret True
      \<and> merkleGetProof t (int i) (2 ^ k) = map Some (uncles E (leafAt leaves) k k i)" if "i < 2 ^ k" for i
    using verifyLoop_run [OF assms(1), of "leafAt leaves" k k i] len proofLoop_run [OF t(2) order_refl that] that
    by (simp add: merkleVerifyProof_def merkleGetProof_def merkleFirstLeaf_def int_flatIdx hashEquals_iff)
  ultimately show ?thesis using k t(1) by blast
qed

theorem merkle_proofs_complete_witness:
  "\<exists>k t root. merkleNumLeafs 3 = Some (2 ^ k) \<and>
    merkleBuildTree demo [replicate 32 1, replicate 32 2, replicate 32 3] = ret t \<and>
    nodeAt t 0 = Some root \<and> merkleRoot demo [replicate 32 1, replicate 32 2, replicate 32 3] None = ret root"
  using merkle_proofs_complete [of demo "[replicate 32 1, replicate 32 2, replicate 32 3]"]
  by (fastforce simp: hashes32_def)

text \<open>C36. A proof of full length that verifies against the merkle root of some leaves proves the leaf: as
  long as no two different blocks hashed in the tree or by the verifier have the same hash, the leaf
  that was presented is the one at that index.\<close>

theorem merkle_proofs_sound:
  assumes "digest_len E" "hashes32 leaves" "leaves \<noteq> []" "merkleRoot E leaves (Some (2 ^ k)) = ret root"
    and "i < 2 ^ k" "length leaf = 32" "hashes32 pf" "length pf = k"
    and "inj_on (sha256 E) (set (treeBlocks E (leafAt leaves) k) \<union> set (verifyBlocks E leaf (2 ^ k - 1 + int i) pf))"
    and "merkleVerifyProof E leaf (int i) pf root (2 ^ k) = ret True"
  shows "leaf = leafAt leaves i"
proof -
  have root: "root = mnode E (leafAt leaves) k 0"
    using merkleRoot_run [OF assms(1-3), of k] assms(4) by simp
  have len: "length (leafAt leaves j) = 32" for j using assms(2) by simp
  have "verifyLoop E leaf (int (flatIdx k i)) pf = ret (mnode E (leafAt leaves) k (i div 2 ^ k))"
    using assms(5,10) root
    by (simp add: merkleVerifyProof_def merkleFirstLeaf_def int_flatIdx bindC_eq_ret_iff hashEquals_iff)
  from verifyLoop_sound [OF assms(1) _ order_refl assms(5-8) _ this] len assms(9)
  show ?thesis by (simp add: int_flatIdx)
qed

theorem merkle_proofs_sound_witness:
  "replicate 32 1 = leafAt [replicate 32 1, replicate 32 2] 0"
proof (rule merkle_proofs_sound [where E = demo and k = 1 and pf = "[replicate 32 2]"])
  show "inj_on (sha256 demo) (set (treeBlocks demo (leafAt [replicate 32 1, replicate 32 2]) 1) \<union>
      set (verifyBlocks demo (replicate 32 1) (2 ^ 1 - 1 + int 0) [replicate 32 2]))"
    by (simp add: treeBlocks_def leafAt_def)
  show "merkleRoot demo [replicate 32 1, replicate 32 2] (Some (2 ^ 1)) =
      ret (hp demo (replicate 32 1) (replicate 32 2))"
    using merkleRoot_run [of demo "[replicate 32 1, replicate 32 2]" 1] by (simp add: hashes32_def leafAt_def)
qed (simp_all add: hashes32_def merkleVerifyProof_def merkleFirstLeaf_def hashEquals_iff)

text \<open>The verifier does not look at the length of the proof: for every tree of two levels or more it
  accepts the parent of the first two leaves as the leaf 0, with the proof of that parent.\<close>

theorem merkle_short_proof_accepted:
  assumes "digest_len E" "hashes32 leaves" "leaves \<noteq> []" "merkleRoot E leaves (Some (2 ^ Suc k)) = ret root"
  shows "\<exists>pf. length pf = k \<and>
    merkleVerifyProof E (sha256 E (leafAt leaves 0 @ leafAt leaves 1)) 0 pf root (2 ^ Suc k) = ret True"
proof -
  let ?f = "leafAt leaves"
  have len: "length (?f j) = 32" for j using assms(2) by simp
  have "root = mnode E ?f (Suc k) 0" using merkleRoot_run [OF assms(1-3), of "Suc k"] assms(4) by simp
  moreover have "verifyLoop E (mnode E ?f 1 0) (int (flatIdx (k + 1) 0)) (uncles E ?f (Suc k) k 0) = ret (mnode E ?f (Suc k) 0)"
    using verifyLoop_run [OF assms(1), of ?f k "Suc k" 0] len by (simp only: verifyLoop_leftmost length_uncles) simp
  moreover have "int (flatIdx (k + 1) 0) = merkleFirstLeaf (2 ^ Suc k) + 0" by (simp add: int_flatIdx merkleFirstLeaf_def)
  ultimately have "merkleVerifyProof E (mnode E ?f 1 0) 0 (uncles E ?f (Suc k) k 0) root (2 ^ Suc k) = ret True"
    by (simp add: merkleVerifyProof_def hashEquals_iff)
  then show ?thesis by (intro exI [of _ "uncles E ?f (Suc k) k 0"]) (simp add: hp_def)
qed

theorem merkle_short_proof_accepted_witness:
  "\<exists>pf. length pf = 1 \<and> merkleVerifyProof demo (sha256 demo (replicate 32 1 @ replicate 32 2)) 0 pf
     (mnode demo (leafAt [replicate 32 1, replicate 32 2, replicate 32 3]) 2 0) 4 = ret True"
  using merkle_short_proof_accepted [of demo "[replicate 32 1, replicate 32 2, replicate 32 3]" 1
      "mnode demo (leafAt [replicate 32 1, replicate 32 2, replicate 32 3]) 2 0"]
    merkleRoot_run [of demo "[replicate 32 1, replicate 32 2, replicate 32 3]" 2]
  by (simp add: hashes32_def leafAt_def)

text \<open>The piece layer of a file has one hash per piece, the root of the piece's blocks; the merkle tree
  over the piece layer, padded with the padding hash of that level, has the root of the whole file.\<close>

theorem piece_layers_correct:
  assumes "digest_len E" "hashes32 leaves" "leaves \<noteq> []" "merkleRoot E leaves (Some (2 ^ (d + e))) = ret root"
  shows "\<exists>layers pad. computePieceLayers E (2 ^ d) leaves = ret layers \<and>
    length layers = ceilDiv (length leaves) (2 ^ d) \<and> merklePadHash E d = ret pad \<and>
    root = mnode E (\<lambda>p. if p < length layers then layers ! p else pad) e 0"
proof -
  let ?n = "ceilDiv (length leaves) (2 ^ d)"
  let ?layers = "map (mnode E (leafAt leaves) d) [0..<?n]"
  have "(if p < length ?layers then ?layers ! p else padH E d) = mnode E (leafAt leaves) d p" for p
  proof (cases "p < ?n")
    case False
    then have "length leaves \<le> p * 2 ^ d"
      using ceilDiv_ge [of "2 ^ d" "length leaves"] by (meson mult_le_mono1 not_le order_trans zero_less_numeral zero_less_power)
    with False show ?thesis by (simp add: mnode_pad)
  qed simp
  then have "mnode E (\<lambda>p. if p < length ?layers then ?layers ! p else padH E d) e 0 = mnode E (leafAt leaves) (d + e) 0"
    by (simp only: mnode_compose)
  then show ?thesis
    using computePieceLayers_run [OF assms(1,2), of d] merklePadHash_padH [OF assms(1), of d]
      merkleRoot_run [OF assms(1-3), of "d + e"] assms(4) by (intro exI [of _ ?layers] exI [of _ "padH E d"]) simp
qed

theorem piece_layers_correct_witness:
  "\<exists>layers. computePieceLayers demo (2 ^ 1) [replicate 32 1, replicate 32 2, replicate 32 3] = ret layers
     \<and> length layers = 2"
  using piece_layers_correct [of demo "[replicate 32 1, replicate 32 2, replicate 32 3]" 1 1
      "mnode demo (leafAt [replicate 32 1, replicate 32 2, replicate 32 3]) 2 0"]
    merkleRoot_run [of demo "[replicate 32 1, replicate 32 2, replicate 32 3]" 2]
  by (auto simp: hashes32_def ceilDiv_def)

section \<open>Builders\<close>

text \<open>C37. Appending pieces to the stream builder and finalizing gives the same result and leaves the same
  store as building the tree from the concatenated data, whatever the pieces are. The piece size is the
  default, one block: the stream builder ignores the option.\<close>

theorem bep_stream_equals_build:
  "bindS (bep_appends E st ds bep_init) (bep_finalize E st) s = buildFromData E st 1 (concat ds) s"
  by (rule bep_stream_is_build)

end
