(* ===== verification/NHash.thy ===== *)
theory NHash
  imports Types
begin

text \<open>
  The identifiers \<open>nhash\<close> and \<open>npath\<close> (\<open>nhash.ts\<close>): type-length-value encodings of a hash or a path,
  written in bech32. The packages \<open>@scure/base\<close> (bech32) and \<open>@noble/hashes\<close> (hexadecimal) and the
  text encoder are parameters, in a record of their own.
\<close>

section \<open>External functions\<close>

record textops =
  toWords :: "bytes \<Rightarrow> nat list"                                   \<comment> \<open>\<open>bech32.toWords\<close>\<close>
  fromWords :: "nat list \<Rightarrow> bytes option"                          \<comment> \<open>\<open>bech32.fromWords\<close>; \<open>None\<close>: it throws\<close>
  bechEncode :: "string \<Rightarrow> nat list \<Rightarrow> nat \<Rightarrow> string option"         \<comment> \<open>\<open>bech32.encode\<close> with a size limit\<close>
  bechDecode :: "string \<Rightarrow> nat \<Rightarrow> (string \<times> nat list) option"       \<comment> \<open>\<open>bech32.decode\<close>: prefix and words\<close>
  hexToBytes :: "string \<Rightarrow> bytes option"
  bytesToHex :: "bytes \<Rightarrow> string"
  utf8Encode :: "string \<Rightarrow> bytes"                                  \<comment> \<open>\<open>TextEncoder.encode\<close>\<close>
  utf8Decode :: "bytes \<Rightarrow> string"                                  \<comment> \<open>\<open>TextDecoder('utf-8').decode\<close>\<close>

text \<open>What bech32 promises: decoding an encoded string gives the prefix and the words back, the string
  starts with the prefix and the separator \<open>1\<close>, and words stand for their bytes. The two prefixes in
  use are lower case.\<close>

definition bech_ok :: "textops \<Rightarrow> bool" where
  "bech_ok B \<longleftrightarrow>
     (\<forall>d. fromWords B (toWords B d) = Some d) \<and>
     (\<forall>p d n s. p \<in> {''nhash'', ''npath''} \<longrightarrow> bechEncode B p (toWords B d) n = Some s \<longrightarrow>
        bechDecode B s n = Some (p, toWords B d) \<and> (\<exists>r. s = p @ ''1'' @ r))"

definition hex_ok :: "textops \<Rightarrow> bool" where
  "hex_ok B \<longleftrightarrow> (\<forall>d. hexToBytes B (bytesToHex B d) = Some d \<and> (d \<noteq> [] \<longrightarrow> bytesToHex B d \<noteq> []))"

section \<open>Type-length-value lists\<close>

definition BECH32_MAX_SIZE :: nat where
  "BECH32_MAX_SIZE = 5000"

definition TLV_HASH :: nat where "TLV_HASH = 0"
definition TLV_PUBKEY :: nat where "TLV_PUBKEY = 2"
definition TLV_TREE_NAME :: nat where "TLV_TREE_NAME = 3"
definition TLV_PATH :: nat where "TLV_PATH = 4"
definition TLV_DECRYPT_KEY :: nat where "TLV_DECRYPT_KEY = 5"

lemmas tlv_types = TLV_HASH_def TLV_PUBKEY_def TLV_TREE_NAME_def TLV_PATH_def TLV_DECRYPT_KEY_def

text \<open>The object from types to value lists; a type that is not there has the empty list. Types are
  bytes, so the ascending order of the keys is the order of \<open>[0..<256]\<close>.\<close>

type_synonym tlv = "nat \<Rightarrow> bytes list"

fun parseTLV :: "bytes \<Rightarrow> tlv \<Rightarrow> tlv res" where
  "parseTLV [] result = Inr result"
| "parseTLV [t] result = Inl TlvUnexpectedEnd"
| "parseTLV (t # l # rest) result =
     (if length rest < unat l then Inl (TlvNotEnoughData (unat t) (unat l))
      else parseTLV (drop (unat l) rest) (result(unat t := result (unat t) @ [take (unat l) rest])))"

definition encodeEntry :: "nat \<Rightarrow> bytes \<Rightarrow> bytes res" where
  "encodeEntry t v =
     (if 255 < length v then Inl (TlvValueTooLong t (length v)) else Inr (of_nat t # of_nat (length v) # v))"

fun encodeEntries :: "(nat \<times> bytes) list \<Rightarrow> bytes res" where
  "encodeEntries [] = Inr []"
| "encodeEntries (tv # rest) =
     bindR (encodeEntry (fst tv) (snd tv)) (\<lambda>e. bindR (encodeEntries rest) (\<lambda>es. Inr (e @ es)))"

definition tlvEntries :: "tlv \<Rightarrow> (nat \<times> bytes) list" where
  "tlvEntries tlv = concat (map (\<lambda>t. map (Pair t) (tlv t)) [0..<256])"

definition encodeTLV :: "tlv \<Rightarrow> bytes res" where
  "encodeTLV tlv = encodeEntries (tlvEntries tlv)"

definition encodeBech32 :: "textops \<Rightarrow> string \<Rightarrow> bytes \<Rightarrow> string res" where
  "encodeBech32 B prefix data =
     (case bechEncode B prefix (toWords B data) BECH32_MAX_SIZE of None \<Rightarrow> Inl Bech32Error | Some s \<Rightarrow> Inr s)"

section \<open>nhash\<close>

definition noTLV :: tlv where
  "noTLV = (\<lambda>_. [])"

definition encodeNhashTlv :: "bytes \<Rightarrow> bytes option \<Rightarrow> bytes res" where
  "encodeNhashTlv hashBytes keyBytes =
     (if length hashBytes \<noteq> 32 then Inl (HashLength (length hashBytes))
      else (case keyBytes of
         None \<Rightarrow> encodeTLV (noTLV(TLV_HASH := [hashBytes]))
       | Some k \<Rightarrow>
           if length k \<noteq> 32 then Inl (DecryptKeyLength (length k))
           else encodeTLV (noTLV(TLV_HASH := [hashBytes], TLV_DECRYPT_KEY := [k]))))"

text \<open>The four forms of the argument: a hexadecimal string, the bytes, a CID, and a pair of hexadecimal
  strings. \<open>hexToBytes\<close> throws on anything else; an empty \<open>decryptKey\<close> counts as none.\<close>

datatype NHashInput = HexInput string | BytesInput bytes | CidInput CID | NHashData string "string option"

definition hexBytes :: "textops \<Rightarrow> string \<Rightarrow> bytes res" where
  "hexBytes B s = (case hexToBytes B s of None \<Rightarrow> Inl InvalidHex | Some d \<Rightarrow> Inr d)"

definition optKey :: "textops \<Rightarrow> string option \<Rightarrow> bytes option res" where
  "optKey B k = (case k of None \<Rightarrow> Inr None
     | Some s \<Rightarrow> if s = [] then Inr None else bindR (hexBytes B s) (\<lambda>d. Inr (Some d)))"

definition nhashEncode :: "textops \<Rightarrow> NHashInput \<Rightarrow> string res" where
  "nhashEncode B inp = (case inp of
     HexInput s \<Rightarrow> bindR (hexBytes B s) (\<lambda>h. bindR (encodeNhashTlv h None) (encodeBech32 B ''nhash''))
   | BytesInput h \<Rightarrow> bindR (encodeNhashTlv h None) (encodeBech32 B ''nhash'')
   | CidInput c \<Rightarrow> bindR (encodeNhashTlv (chash c) (ckey c)) (encodeBech32 B ''nhash'')
   | NHashData s k \<Rightarrow>
       bindR (hexBytes B s) (\<lambda>h. bindR (optKey B k) (\<lambda>key.
       bindR (encodeNhashTlv h key) (encodeBech32 B ''nhash''))))"

definition stripScheme :: "string \<Rightarrow> string" where
  "stripScheme code = (if take 9 code = ''hashtree:'' then drop 9 code else code)"

text \<open>\<open>bech32.decode\<close>, the check of the prefix, and the bytes of the words.\<close>

definition decodeBech32 :: "textops \<Rightarrow> string \<Rightarrow> string \<Rightarrow> bytes res" where
  "decodeBech32 B expected code =
     (case bechDecode B (stripScheme code) BECH32_MAX_SIZE of
        None \<Rightarrow> Inl Bech32Error
      | Some (p, words) \<Rightarrow>
          if p \<noteq> expected then Inl (WrongPrefix p)
          else (case fromWords B words of None \<Rightarrow> Inl Bech32Error | Some d \<Rightarrow> Inr d))"

text \<open>The first value of a type, and the optional key.\<close>

definition firstOf :: "tlv \<Rightarrow> nat \<Rightarrow> bytes option" where
  "firstOf tlv t = (case tlv t of [] \<Rightarrow> None | v # _ \<Rightarrow> Some v)"

definition keyOf :: "tlv \<Rightarrow> bytes option res" where
  "keyOf tlv = (case firstOf tlv TLV_DECRYPT_KEY of None \<Rightarrow> Inr None
     | Some k \<Rightarrow> if length k \<noteq> 32 then Inl (DecryptKeyLength (length k)) else Inr (Some k))"

definition nhashDecode :: "textops \<Rightarrow> string \<Rightarrow> CID res" where
  "nhashDecode B code =
     bindR (decodeBech32 B ''nhash'' code) (\<lambda>data.
     if length data = 32 then Inr (cid data None)
     else bindR (parseTLV data noTLV) (\<lambda>tlv.
       case firstOf tlv TLV_HASH of
         None \<Rightarrow> Inl MissingHash
       | Some h \<Rightarrow> if length h \<noteq> 32 then Inl MissingHash else bindR (keyOf tlv) (\<lambda>k. Inr (cid h k))))"

section \<open>npath\<close>

record NPathData =
  npubkey :: string
  ntreeName :: string
  npath :: "string list"
  ndecryptKey :: "string option"

definition npathEncode :: "textops \<Rightarrow> NPathData \<Rightarrow> string res" where
  "npathEncode B data =
     bindR (hexBytes B (npubkey data)) (\<lambda>pubkeyBytes.
     if length pubkeyBytes \<noteq> 32 then Inl (PubkeyLength (length pubkeyBytes))
     else bindR (optKey B (ndecryptKey data)) (\<lambda>key.
       let tlv1 = noTLV(TLV_PUBKEY := [pubkeyBytes], TLV_TREE_NAME := [utf8Encode B (ntreeName data)]);
           tlv2 = (if 0 < length (npath data) then tlv1(TLV_PATH := map (utf8Encode B) (npath data)) else tlv1)
       in case key of
            None \<Rightarrow> bindR (encodeTLV tlv2) (encodeBech32 B ''npath'')
          | Some k \<Rightarrow>
              if length k \<noteq> 32 then Inl (DecryptKeyLength (length k))
              else bindR (encodeTLV (tlv2(TLV_DECRYPT_KEY := [k]))) (encodeBech32 B ''npath'')))"

definition npathDecode :: "textops \<Rightarrow> string \<Rightarrow> NPathData res" where
  "npathDecode B code =
     bindR (decodeBech32 B ''npath'' code) (\<lambda>data.
     bindR (parseTLV data noTLV) (\<lambda>tlv.
     case firstOf tlv TLV_PUBKEY of
       None \<Rightarrow> Inl MissingPubkey
     | Some pk \<Rightarrow>
         if length pk \<noteq> 32 then Inl MissingPubkey
         else (case firstOf tlv TLV_TREE_NAME of
            None \<Rightarrow> Inl MissingTreeName
          | Some name \<Rightarrow>
              bindR (keyOf tlv) (\<lambda>k.
              Inr \<lparr>npubkey = bytesToHex B pk, ntreeName = utf8Decode B name,
                   npath = map (utf8Decode B) (tlv TLV_PATH), ndecryptKey = map_option (bytesToHex B) k\<rparr>))))"

section \<open>Either kind\<close>

datatype DecodeResult = NHashResult CID | NPathResult NPathData

definition decode :: "textops \<Rightarrow> string \<Rightarrow> DecodeResult res" where
  "decode B code0 =
     (let code = stripScheme code0 in
      if take 6 code = ''nhash1'' then bindR (nhashDecode B code) (\<lambda>c. Inr (NHashResult c))
      else if take 6 code = ''npath1'' then bindR (npathDecode B code) (\<lambda>d. Inr (NPathResult d))
      else Inl UnknownPrefix)"

definition isWordChar :: "char \<Rightarrow> bool" where
  "isWordChar c \<longleftrightarrow> (97 \<le> (of_char c :: nat) \<and> (of_char c :: nat) \<le> 122) \<or> (48 \<le> (of_char c :: nat) \<and> (of_char c :: nat) \<le> 57)"

definition isNHash :: "string option \<Rightarrow> bool" where
  "isNHash value = (let v = (case value of None \<Rightarrow> [] | Some s \<Rightarrow> s)
     in take 6 v = ''nhash1'' \<and> drop 6 v \<noteq> [] \<and> list_all isWordChar (drop 6 v))"

definition isNPath :: "string option \<Rightarrow> bool" where
  "isNPath value = (let v = (case value of None \<Rightarrow> [] | Some s \<Rightarrow> s)
     in take 6 v = ''npath1'' \<and> drop 6 v \<noteq> [] \<and> list_all isWordChar (drop 6 v))"

section \<open>TLV round trip\<close>

lemma parse_encodeEntry:
  "encodeEntry t v = Inr e \<Longrightarrow> t < 256 \<Longrightarrow> parseTLV (e @ rest) r = parseTLV rest (r(t := r t @ [v]))"
  by (auto simp: encodeEntry_def unat_of_nat split: if_splits)

text \<open>Parsing entries appends each value to the list of its type.\<close>

definition addEntries :: "(nat \<times> bytes) list \<Rightarrow> tlv \<Rightarrow> tlv" where
  "addEntries es r = (\<lambda>t. r t @ map snd (List.filter (\<lambda>tv. fst tv = t) es))"

lemma parse_encodeEntries:
  "encodeEntries es = Inr bs \<Longrightarrow> \<forall>tv\<in>set es. fst tv < 256 \<Longrightarrow> parseTLV bs r = Inr (addEntries es r)"
proof (induction es arbitrary: bs r)
  case Nil
  then show ?case by (simp add: addEntries_def)
next
  case (Cons tv es)
  then obtain e bs' where e: "encodeEntry (fst tv) (snd tv) = Inr e" "encodeEntries es = Inr bs'" "bs = e @ bs'"
    by (auto simp: bindR_eq_Inr_iff)
  have "parseTLV bs r = Inr (addEntries es (r(fst tv := r (fst tv) @ [snd tv])))"
    using parse_encodeEntry [OF e(1)] Cons e by simp
  also have "addEntries es (r(fst tv := r (fst tv) @ [snd tv])) = addEntries (tv # es) r"
    by (auto simp: addEntries_def fun_eq_iff)
  finally show ?case .
qed

lemma filter_tlvEntries:
  "List.filter (\<lambda>tv. fst tv = t) (tlvEntries tlv) = (if t < 256 then map (Pair t) (tlv t) else [])"
proof -
  have "List.filter (\<lambda>tv. fst tv = t) (concat (map (\<lambda>x. map (Pair x) (tlv x)) xs))
      = concat (map (\<lambda>x. if x = t then map (Pair t) (tlv t) else []) xs)" for xs
    by (induction xs) (auto simp: filter_empty_conv)
  moreover have "concat (map (\<lambda>x. if x = t then map (Pair t) (tlv t) else []) [0..<n])
      = (if t < n then map (Pair t) (tlv t) else [])" for n
    by (induction n) auto
  ultimately show ?thesis by (simp add: tlvEntries_def)
qed

lemma parse_encodeTLV:
  assumes "encodeTLV tlv = Inr bs" "\<And>t. 256 \<le> t \<Longrightarrow> tlv t = []"
  shows "parseTLV bs noTLV = Inr tlv"
proof -
  have "addEntries (tlvEntries tlv) noTLV = tlv"
    using assms(2) by (auto simp: addEntries_def noTLV_def filter_tlvEntries fun_eq_iff not_less o_def)
  then show ?thesis
    using parse_encodeEntries [of "tlvEntries tlv" bs noTLV] assms(1) by (auto simp: encodeTLV_def tlvEntries_def)
qed

lemma length_encodeEntries: "encodeEntries es = Inr bs \<Longrightarrow> length bs = (\<Sum>tv\<leftarrow>es. length (snd tv) + 2)"
  by (induction es arbitrary: bs) (auto simp: bindR_eq_Inr_iff encodeEntry_def split: if_splits)

section \<open>bech32 round trip\<close>

lemma decodeBech32_encode:
  assumes "bech_ok B" "p \<in> {''nhash'', ''npath''}" "encodeBech32 B p d = Inr s"
  shows "decodeBech32 B p s = Inr d" "decodeBech32 B p (''hashtree:'' @ s) = Inr d" "take 6 s = p @ ''1''"
    "stripScheme s = s" "stripScheme (''hashtree:'' @ s) = s"
proof -
  from assms(3) have enc: "bechEncode B p (toWords B d) BECH32_MAX_SIZE = Some s"
    by (auto simp: encodeBech32_def split: option.splits)
  with assms(1,2) obtain r where s: "s = p @ ''1'' @ r"
      and dec: "bechDecode B s BECH32_MAX_SIZE = Some (p, toWords B d)" "fromWords B (toWords B d) = Some d"
    unfolding bech_ok_def by blast
  show strip: "stripScheme s = s" "stripScheme (''hashtree:'' @ s) = s" using s assms(2) by (auto simp: stripScheme_def)
  show "decodeBech32 B p s = Inr d" "decodeBech32 B p (''hashtree:'' @ s) = Inr d"
    using dec unfolding decodeBech32_def strip by simp_all
  show "take 6 s = p @ ''1''" using s assms(2) by auto
qed

end
