(* ===== verification/NHashProps.thy ===== *)
theory NHashProps
  imports NHash
begin

text \<open>The properties of the identifiers \<open>nhash\<close> and \<open>npath\<close>, with a concrete instance of the text functions
  for the witnesses.\<close>

section \<open>An instance\<close>

definition demoText :: textops where
  "demoText = \<lparr>
     toWords = map unat,
     fromWords = (\<lambda>ws. Some (map of_nat ws)),
     bechEncode = (\<lambda>p ws n. Some (p @ ''1'' @ map char_of ws)),
     bechDecode = (\<lambda>s n. let p = takeWhile (\<lambda>c. c \<noteq> CHR ''1'') s in Some (p, map of_char (drop (length p + 1) s))),
     hexToBytes = (\<lambda>s. Some (fromHex s)),
     bytesToHex = toHex,
     utf8Encode = map of_char,
     utf8Decode = map (\<lambda>b. char_of (unat b))\<rparr>"

lemma unat_mod_256 [simp]: "unat (b :: 8 word) mod 256 = unat b"
  using unat_byte_less [of b] by simp

lemma demoText_bech [simp]: "bech_ok demoText"
proof -
  have "takeWhile (\<lambda>c. c \<noteq> CHR ''1'') (p @ CHR ''1'' # r) = p" if "p \<in> {''nhash'', ''npath''}" for p r
    using that by auto
  then show ?thesis by (auto simp: bech_ok_def demoText_def Let_def o_def)
qed

lemma toHex_eq_Nil [simp]: "toHex d = [] \<longleftrightarrow> d = []"
  using toHex_eq_iff [of d "[]"] by (simp add: toHex_def)

lemma demoText_hex [simp]: "hex_ok demoText"
  by (simp add: hex_ok_def demoText_def)

section \<open>nhash\<close>

lemma length_32_tlv:
  assumes "encodeNhashTlv h k = Inr d"
  shows "length h = 32 \<and> (\<forall>key. k = Some key \<longrightarrow> length key = 32) \<and> length d \<noteq> 32 \<and>
    parseTLV d noTLV = Inr (case k of None \<Rightarrow> noTLV(TLV_HASH := [h])
      | Some key \<Rightarrow> noTLV(TLV_HASH := [h], TLV_DECRYPT_KEY := [key]))"
proof -
  let ?t = "case k of None \<Rightarrow> noTLV(TLV_HASH := [h]) | Some key \<Rightarrow> noTLV(TLV_HASH := [h], TLV_DECRYPT_KEY := [key])"
  have len: "length h = 32" "\<forall>key. k = Some key \<longrightarrow> length key = 32" and enc: "encodeTLV ?t = Inr d"
    using assms by (auto simp: encodeNhashTlv_def split: if_splits option.splits)
  have "(TLV_HASH, h) \<in> set (tlvEntries ?t)"
    by (cases k) (simp_all add: tlvEntries_def tlv_types image_iff)
  then have "34 \<le> length d"
    using length_encodeEntries [of "tlvEntries ?t" d] enc len(1) member_le_sum_list [of 34 "map (\<lambda>tv. length (snd tv) + 2) (tlvEntries ?t)"]
    by (force simp: encodeTLV_def)
  moreover have "parseTLV d noTLV = Inr ?t"
    using enc by (rule parse_encodeTLV) (auto simp: noTLV_def tlv_types split: option.splits)
  ultimately show ?thesis using len by auto
qed

text \<open>C40. Decoding an encoded \<open>nhash\<close> gives the hash and the key back, with and without the scheme
  \<open>hashtree:\<close>, and through the generic \<open>decode\<close>.\<close>

theorem nhash_roundtrip:
  assumes "bech_ok B" "nhashEncode B (CidInput c) = Inr s"
  shows "nhashDecode B s = Inr c \<and> nhashDecode B (''hashtree:'' @ s) = Inr c \<and> decode B s = Inr (NHashResult c)"
proof -
  obtain d where d: "encodeNhashTlv (chash c) (ckey c) = Inr d" and s: "encodeBech32 B ''nhash'' d = Inr s"
    using assms(2) by (auto simp: nhashEncode_def bindR_eq_Inr_iff)
  note b = decodeBech32_encode [OF assms(1) _ s, simplified]
  have "bindR (keyOf (case ckey c of None \<Rightarrow> noTLV(TLV_HASH := [chash c])
      | Some key \<Rightarrow> noTLV(TLV_HASH := [chash c], TLV_DECRYPT_KEY := [key]))) (\<lambda>k. Inr (cid (chash c) k)) = Inr c"
    using length_32_tlv [OF d]
    by (cases c) (auto simp: keyOf_def firstOf_def noTLV_def tlv_types cid_def split: option.splits)
  moreover have "firstOf (case ckey c of None \<Rightarrow> noTLV(TLV_HASH := [chash c])
      | Some key \<Rightarrow> noTLV(TLV_HASH := [chash c], TLV_DECRYPT_KEY := [key])) TLV_HASH = Some (chash c)"
    by (auto simp: firstOf_def tlv_types split: option.split)
  ultimately show ?thesis using length_32_tlv [OF d] b by (simp add: nhashDecode_def decode_def Let_def)
qed

theorem nhash_roundtrip_witness:
  "\<exists>s. nhashEncode demoText (CidInput (cid (replicate 32 5) (Some (replicate 32 6)))) = Inr s
     \<and> nhashDecode demoText s = Inr (cid (replicate 32 5) (Some (replicate 32 6)))"
proof -
  have "\<exists>d. encodeNhashTlv (replicate 32 5) (Some (replicate 32 6)) = Inr d"
    by (simp add: encodeNhashTlv_def encodeTLV_def tlvEntries_def noTLV_def tlv_types upt_conv_Cons encodeEntry_def)
  then obtain s where "nhashEncode demoText (CidInput (cid (replicate 32 5) (Some (replicate 32 6)))) = Inr s"
    by (auto simp: nhashEncode_def encodeBech32_def cid_def demoText_def)
  with nhash_roundtrip [OF demoText_bech this] show ?thesis by blast
qed

text \<open>Encoding fails exactly on hashes and keys that are not 32 bytes long (or when the bech32 string is
  too long), the hash being checked first.\<close>

theorem nhash_encode_errors:
  "(nhashEncode B (CidInput c) = Inl (HashLength n) \<longleftrightarrow> length (chash c) = n \<and> n \<noteq> 32) \<and>
   (nhashEncode B (CidInput c) = Inl (DecryptKeyLength n) \<longleftrightarrow>
      length (chash c) = 32 \<and> (\<exists>k. ckey c = Some k \<and> length k = n \<and> n \<noteq> 32))"
proof -
  have enc: "\<exists>d. encodeEntries es = Inr d" if "\<forall>tv\<in>set es. length (snd tv) = 32" for es
    using that by (induction es) (auto simp: encodeEntry_def)
  have "\<exists>d. encodeNhashTlv h k = Inr d" if "length h = 32" "\<forall>key. k = Some key \<longrightarrow> length key = 32" for h k
    using that by (auto simp: encodeNhashTlv_def encodeTLV_def tlvEntries_def noTLV_def intro!: enc split: option.split if_splits)
  then have ok: "\<exists>d. encodeNhashTlv (chash c) (ckey c) = Inr d"
    if "length (chash c) = 32" "\<forall>key. ckey c = Some key \<longrightarrow> length key = 32" using that by blast
  show ?thesis
  proof (cases "length (chash c) = 32 \<and> (\<forall>key. ckey c = Some key \<longrightarrow> length key = 32)")
    case True
    with ok show ?thesis
      by (auto simp: nhashEncode_def encodeBech32_def split: option.splits)
  next
    case False
    then show ?thesis by (auto simp: nhashEncode_def encodeNhashTlv_def)
  qed
qed

section \<open>npath\<close>

lemma optKey_hex: "hex_ok B \<Longrightarrow> (\<forall>d. k = Some d \<longrightarrow> d \<noteq> []) \<Longrightarrow> optKey B (map_option (bytesToHex B) k) = Inr k"
  by (auto simp: optKey_def hexBytes_def hex_ok_def split: option.splits)

text \<open>Decoding an encoded \<open>npath\<close> gives the public key, the tree name, the path segments in order and
  the key back, for names that the text encoder carries.\<close>

theorem npath_roundtrip:
  assumes "bech_ok B" "hex_ok B" "npathEncode B data = Inr s"
    and "data = \<lparr>npubkey = bytesToHex B pk, ntreeName = name, npath = path, ndecryptKey = map_option (bytesToHex B) k\<rparr>"
    and "\<forall>x\<in>set (name # path). utf8Decode B (utf8Encode B x) = x" "\<forall>d. k = Some d \<longrightarrow> d \<noteq> []"
  shows "npathDecode B s = Inr data \<and> decode B (''hashtree:'' @ s) = Inr (NPathResult data)"
proof -
  let ?t1 = "noTLV(TLV_PUBKEY := [pk], TLV_TREE_NAME := [utf8Encode B name])"
  let ?t2 = "if 0 < length path then ?t1(TLV_PATH := map (utf8Encode B) path) else ?t1"
  let ?t = "case k of None \<Rightarrow> ?t2 | Some key \<Rightarrow> ?t2(TLV_DECRYPT_KEY := [key])"
  have pk: "hexBytes B (bytesToHex B pk) = Inr pk" using assms(2) by (simp add: hexBytes_def hex_ok_def)
  obtain d where len: "length pk = 32" "\<forall>key. k = Some key \<longrightarrow> length key = 32" and d: "encodeTLV ?t = Inr d"
      and s: "encodeBech32 B ''npath'' d = Inr s"
    using assms(3) unfolding assms(4) npathEncode_def
    by (auto simp: pk optKey_hex [OF assms(2,6)] Let_def bindR_eq_Inr_iff split: option.splits if_splits)
  have parse: "parseTLV d noTLV = Inr ?t"
    using d by (rule parse_encodeTLV) (auto simp: noTLV_def tlv_types split: option.splits)
  have fields: "firstOf ?t TLV_PUBKEY = Some pk" "firstOf ?t TLV_TREE_NAME = Some (utf8Encode B name)"
      "?t TLV_PATH = map (utf8Encode B) path" "keyOf ?t = Inr k"
    using len(2) by (auto simp: firstOf_def keyOf_def tlv_types noTLV_def split: option.split)
  have path: "map (utf8Decode B) (map (utf8Encode B) path) = path"
    using assms(5) by (induction path) auto
  note b = decodeBech32_encode [OF assms(1) _ s, simplified]
  have "npathDecode B s = Inr data"
    unfolding npathDecode_def b(1) bindR_simps parse fields path using assms(4,5) len(1) by simp
  moreover have "take 6 s \<noteq> ''nhash1''" using b(3) by simp
  ultimately show ?thesis using b(3,5) by (simp add: decode_def Let_def)
qed

definition sampleNPath :: NPathData where
  "sampleNPath = \<lparr>npubkey = toHex (replicate 32 5), ntreeName = ''home'', npath = [''a'', ''b''], ndecryptKey = None\<rparr>"

theorem npath_roundtrip_witness:
  "\<exists>s. npathEncode demoText sampleNPath = Inr s \<and> npathDecode demoText s = Inr sampleNPath"
proof -
  have utf: "\<forall>x\<in>set [''home'', ''a'', ''b'']. utf8Decode demoText (utf8Encode demoText x) = x"
    by code_simp
  have "length (fromHex (toHex (replicate 32 (5 :: 8 word)))) = 32" by simp
  then obtain s where s: "npathEncode demoText sampleNPath = Inr s"
    by (auto simp: npathEncode_def sampleNPath_def hexBytes_def demoText_def optKey_def encodeTLV_def tlvEntries_def
        noTLV_def tlv_types upt_conv_Cons encodeEntry_def encodeBech32_def Let_def)
  have "sampleNPath = \<lparr>npubkey = bytesToHex demoText (replicate 32 5), ntreeName = ''home'', npath = [''a'', ''b''],
      ndecryptKey = map_option (bytesToHex demoText) None\<rparr>"
    by (simp add: sampleNPath_def demoText_def)
  from npath_roundtrip [OF demoText_bech demoText_hex s this utf] s show ?thesis by simp
qed

end
