(* ===== verification/Fallback.thy ===== *)
theory Fallback
  imports Store Instance
begin

text \<open>
  The cascading store (\<open>store/fallback.ts\<close>): reads try the primary store and then each fallback in turn,
  with a timeout; what a fallback delivers is cached in the primary store, also when it arrives after
  the timeout. Writes go to the primary store and, without waiting, to the fallbacks that take them.

  What a fallback does with a request is an argument of the call: it answers in time, rejects, or
  answers after the timeout. A late answer is a pending write to the primary store that can happen at
  any later moment; pending writes are part of the state, and \<open>settle\<close> performs one of them.
\<close>

section \<open>State\<close>

datatype fetch = InTime "bytes option" | Rejected | Late "bytes option"

text \<open>A fallback: its identity, and whether it has a \<open>put\<close>.\<close>

record fallback_ref =
  fid :: nat
  fwritable :: bool

record 's fallback_state =
  primary :: 's
  fallbacks :: "fallback_ref list"
  latePuts :: "(hash \<times> bytes) list"
  sentPuts :: "(nat \<times> hash \<times> bytes) list"

section \<open>Operations\<close>

definition fallback_put :: "'s store_ops \<Rightarrow> hash \<Rightarrow> bytes \<Rightarrow> 's fallback_state \<Rightarrow> bool \<times> 's fallback_state" where
  "fallback_put ops h d st =
     (case store_put ops h d (primary st) of (success, s') \<Rightarrow>
        (success, st\<lparr>primary := s', sentPuts := sentPuts st
           @ map (\<lambda>f. (fid f, h, d)) (List.filter fwritable (fallbacks st))\<rparr>))"

text \<open>The loop over the fallbacks; \<open>answers\<close> has what each of them does. An answer in time is put twice:
  by the callback for late data, which is registered for every answer, and by the loop itself.\<close>

fun fallbackLoop ::
  "'s store_ops \<Rightarrow> hash \<Rightarrow> fetch list \<Rightarrow> 's fallback_state \<Rightarrow> bytes option \<times> 's fallback_state" where
  "fallbackLoop ops h [] st = (None, st)"
| "fallbackLoop ops h (answer # rest) st = (case answer of
     InTime (Some d) \<Rightarrow>
       (let s1 = snd (store_put ops h d (primary st)); s2 = snd (store_put ops h d s1)
        in (Some d, st\<lparr>primary := s2\<rparr>))
   | Late (Some d) \<Rightarrow> fallbackLoop ops h rest (st\<lparr>latePuts := latePuts st @ [(h, d)]\<rparr>)
   | _ \<Rightarrow> fallbackLoop ops h rest st)"

definition fallback_get ::
  "'s store_ops \<Rightarrow> (nat \<Rightarrow> fetch) \<Rightarrow> hash \<Rightarrow> 's fallback_state \<Rightarrow> bytes option \<times> 's fallback_state" where
  "fallback_get ops answers h st = (case store_get ops (primary st) h of
     Some d \<Rightarrow> (Some d, st)
   | None \<Rightarrow> fallbackLoop ops h (map (answers \<circ> fid) (fallbacks st)) st)"

definition fallback_has :: "'s store_ops \<Rightarrow> hash \<Rightarrow> 's fallback_state \<Rightarrow> bool" where
  "fallback_has ops h st = store_has ops (primary st) h"

definition fallback_delete :: "'s store_ops \<Rightarrow> hash \<Rightarrow> 's fallback_state \<Rightarrow> bool \<times> 's fallback_state" where
  "fallback_delete ops h st =
     (case store_delete ops h (primary st) of (b, s') \<Rightarrow> (b, st\<lparr>primary := s'\<rparr>))"

definition addFallback :: "fallback_ref \<Rightarrow> 's fallback_state \<Rightarrow> 's fallback_state" where
  "addFallback f st = st\<lparr>fallbacks := fallbacks st @ [f]\<rparr>"

text \<open>\<open>indexOf\<close> and \<open>splice(idx, 1)\<close>: the first occurrence goes.\<close>

definition removeFallback :: "fallback_ref \<Rightarrow> 's fallback_state \<Rightarrow> 's fallback_state" where
  "removeFallback f st = st\<lparr>fallbacks := remove1 f (fallbacks st)\<rparr>"

text \<open>The callback of a late answer runs: the pending put at \<open>i\<close> is done.\<close>

definition settle :: "'s store_ops \<Rightarrow> nat \<Rightarrow> 's fallback_state \<Rightarrow> 's fallback_state" where
  "settle ops i st = (if i < length (latePuts st)
     then st\<lparr>primary := snd (store_put ops (fst (latePuts st ! i)) (snd (latePuts st ! i)) (primary st)),
             latePuts := take i (latePuts st) @ drop (Suc i) (latePuts st)\<rparr>
     else st)"

section \<open>Interleavings\<close>

text \<open>The answers of honest fallbacks: data under its own hash.\<close>

definition honest :: "ext \<Rightarrow> hash \<Rightarrow> fetch \<Rightarrow> bool" where
  "honest E h a = (case a of InTime (Some d) \<Rightarrow> sha256 E d = h | Late (Some d) \<Rightarrow> sha256 E d = h | _ \<Rightarrow> True)"

text \<open>The calls of clients and the callbacks of late answers, in any order.\<close>

inductive fallback_step :: "ext \<Rightarrow> 's store_ops \<Rightarrow> 's fallback_state \<Rightarrow> 's fallback_state \<Rightarrow> bool"
  for E :: ext and ops :: "'s store_ops" where
  step_put: "fallback_step E ops st (snd (fallback_put ops (sha256 E d) d st))"
| step_get: "(\<And>i. honest E h (answers i)) \<Longrightarrow> fallback_step E ops st (snd (fallback_get ops answers h st))"
| step_delete: "fallback_step E ops st (snd (fallback_delete ops h st))"
| step_add: "fallback_step E ops st (addFallback f st)"
| step_remove: "fallback_step E ops st (removeFallback f st)"
| step_settle: "fallback_step E ops st (settle ops i st)"

inductive_cases fallback_stepE: "fallback_step E ops st st'"

section \<open>The invariant\<close>

text \<open>The contract of a primary store with deletion.\<close>

locale deleting_store = hash_store E ops sinv
  for E :: ext and ops :: "'s store_ops" and sinv :: "'s \<Rightarrow> bool" +
  assumes inv_delete: "sinv s \<Longrightarrow> sinv (snd (store_delete ops h s))"
begin

definition fallback_inv :: "'s fallback_state \<Rightarrow> bool" where
  "fallback_inv st \<longleftrightarrow> sinv (primary st) \<and> (\<forall>(h, d)\<in>set (latePuts st). sha256 E d = h)"

lemma inv_putH: "sinv s \<Longrightarrow> sha256 E d = h \<Longrightarrow> sinv (snd (store_put ops h d s))"
  using inv_put by blast

lemma fallback_inv_late:
  "fallback_inv st \<Longrightarrow> sha256 E d = h \<Longrightarrow> fallback_inv (st\<lparr>latePuts := latePuts st @ [(h, d)]\<rparr>)"
  by (auto simp: fallback_inv_def)

lemma fallback_inv_put:
  "fallback_inv st \<Longrightarrow> sha256 E d = h \<Longrightarrow> fallback_inv (st\<lparr>primary := snd (store_put ops h d (primary st))\<rparr>)"
  by (auto simp: fallback_inv_def inv_putH)

lemma fallbackLoop_inv:
  "fallback_inv st \<Longrightarrow> \<forall>a\<in>set as. honest E h a \<Longrightarrow> fallback_inv (snd (fallbackLoop ops h as st))"
proof (induction as arbitrary: st)
  case (Cons a as)
  have twice: "fallback_inv (st\<lparr>primary := snd (store_put ops h d (snd (store_put ops h d (primary st))))\<rparr>)"
    if "sha256 E d = h" for d
    using fallback_inv_put [OF fallback_inv_put [OF Cons.prems(1) that] that] by simp
  show ?case
    using Cons twice by (auto simp: honest_def Let_def fallback_inv_late split: fetch.splits option.splits)
qed simp

lemma fallback_step_inv: "fallback_step E ops st st' \<Longrightarrow> fallback_inv st \<Longrightarrow> fallback_inv st'"
proof (induction rule: fallback_step.induct)
  case (step_put st d)
  then show ?case using inv_put [of "primary st" d]
    by (auto simp: fallback_inv_def fallback_put_def split: prod.splits)
next
  case (step_get h answers st)
  then show ?case using fallbackLoop_inv by (auto simp: fallback_get_def split: option.splits)
next
  case (step_delete st h)
  then show ?case using inv_delete [of "primary st" h]
    by (auto simp: fallback_inv_def fallback_delete_def split: prod.splits)
next
  case (step_settle st i)
  then show ?case
    by (auto simp: fallback_inv_def settle_def split_beta inv_putH dest!: in_set_takeD in_set_dropD)
qed (auto simp: fallback_inv_def addFallback_def removeFallback_def)

lemma fallback_steps_inv: "(fallback_step E ops)\<^sup>*\<^sup>* st st' \<Longrightarrow> fallback_inv st \<Longrightarrow> fallback_inv st'"
  by (induction rule: rtranclp_induct) (auto intro: fallback_step_inv)

lemma fallbackLoop_result:
  "\<forall>a\<in>set as. honest E h a \<Longrightarrow> sinv (primary st) \<Longrightarrow> store_get ops (primary st) h = None \<Longrightarrow>
   (case fst (fallbackLoop ops h as st) of
      None \<Rightarrow> (\<forall>d. InTime (Some d) \<notin> set as) \<and> primary (snd (fallbackLoop ops h as st)) = primary st
    | Some d \<Rightarrow> InTime (Some d) \<in> set as \<and> store_get ops (primary (snd (fallbackLoop ops h as st))) h = Some d)"
proof (induction as arbitrary: st)
  case (Cons a as)
  have put: "store_get ops (snd (store_put ops h d (snd (store_put ops h d (primary st))))) h = Some d"
    if "sha256 E d = h" for d
    using that Cons.prems(2,3) inv_putH [OF Cons.prems(2) that] by (auto simp: get_put)
  have IH: "case fst (fallbackLoop ops h as st1) of
      None \<Rightarrow> (\<forall>d. InTime (Some d) \<notin> set as) \<and> primary (snd (fallbackLoop ops h as st1)) = primary st1
    | Some d \<Rightarrow> InTime (Some d) \<in> set as \<and> store_get ops (primary (snd (fallbackLoop ops h as st1))) h = Some d"
    if "primary st1 = primary st" for st1
    using Cons.IH [of st1] Cons.prems that by simp
  show ?case
  proof (cases a)
    case (InTime r)
    then show ?thesis using IH [of st] put Cons.prems(1)
      by (cases r) (auto simp: honest_def Let_def split: option.splits)
  next
    case Rejected
    then show ?thesis using IH [of st] by (auto split: option.splits)
  next
    case (Late r)
    then show ?thesis
      using IH [of st] IH [of "st\<lparr>latePuts := latePuts st @ [(h, the r)]\<rparr>"]
      by (cases r) (auto split: option.splits)
  qed
qed simp

end

interpretation fbm: deleting_store E memoryStore "memory_inv E" for E
  by unfold_locales (simp add: memory_inv_delete)

section \<open>Properties\<close>

text \<open>A store with one fallback, and the state after a read whose answer came too late and was then cached.\<close>

definition sampleFallback :: "memory fallback_state" where
  "sampleFallback = \<lparr>primary = [], fallbacks = [\<lparr>fid = 0, fwritable = True\<rparr>], latePuts = [], sentPuts = []\<rparr>"

definition sampleCached :: "memory fallback_state" where
  "sampleCached = settle memoryStore 0
     (snd (fallback_get memoryStore (\<lambda>_. Late (Some [5])) (sha256 demo [5]) sampleFallback))"

text \<open>Over a memory store, in every interleaving of puts, gets, deletes, changes of the fallback list and
  late answers of honest fallbacks, the primary store stays content-addressed; so whatever a later read
  finds there has the requested hash.\<close>

theorem fallback_content_addressed:
  assumes "memory_inv E (primary st)" "latePuts st = []"
    and "(fallback_step E memoryStore)\<^sup>*\<^sup>* st st'"
  shows "memory_inv E (primary st') \<and>
    (memory_get (primary st') h = Some d \<longrightarrow> fallback_get memoryStore answers h st' = (Some d, st') \<and> verify E h d)"
proof -
  have "fbm.fallback_inv E st" using assms(1,2) by (simp add: fbm.fallback_inv_def)
  from fbm.fallback_steps_inv [OF assms(3) this] have "memory_inv E (primary st')"
    by (simp add: fbm.fallback_inv_def)
  then show ?thesis by (auto simp: fallback_get_def memory_inv_def)
qed

theorem fallback_content_addressed_witness:
  "fallback_get memoryStore (\<lambda>_. Rejected) (sha256 demo [5]) sampleCached = (Some [5], sampleCached)
   \<and> verify demo (sha256 demo [5]) [5]"
proof -
  have "fallback_step demo memoryStore sampleFallback
          (snd (fallback_get memoryStore (\<lambda>_. Late (Some [5])) (sha256 demo [5]) sampleFallback))"
    by (rule step_get) (simp add: honest_def)
  then have steps: "(fallback_step demo memoryStore)\<^sup>*\<^sup>* sampleFallback sampleCached"
    unfolding sampleCached_def by (rule rtranclp.rtrancl_into_rtrancl [OF r_into_rtranclp]) (rule step_settle)
  have "memory_get (primary sampleCached) (sha256 demo [5]) = Some [5]"
    by (simp add: sampleCached_def sampleFallback_def settle_def fallback_get_def memory_get_def memory_put_def)
  moreover have "memory_inv demo (primary sampleFallback)" "latePuts sampleFallback = []"
    by (simp_all add: sampleFallback_def)
  ultimately show ?thesis
    using fallback_content_addressed [OF _ _ steps, of "sha256 demo [5]" "[5]" "\<lambda>_. Rejected"] by blast
qed

text \<open>A read that misses the primary store returns the data of some fallback that answered in time and
  leaves it cached in the primary store; it returns nothing only when no fallback answered in time with
  data, and then the primary store is unchanged.\<close>

theorem fallback_get_caches:
  assumes "memory_inv E (primary st)" "memory_get (primary st) h = None" "\<forall>i. honest E h (answers i)"
  shows "case fallback_get memoryStore answers h st of
      (None, st') \<Rightarrow> (\<forall>f d. f \<in> set (fallbacks st) \<longrightarrow> answers (fid f) \<noteq> InTime (Some d)) \<and> primary st' = primary st
    | (Some d, st') \<Rightarrow> (\<exists>f. f \<in> set (fallbacks st) \<and> answers (fid f) = InTime (Some d)) \<and> memory_get (primary st') h = Some d"
proof -
  have "\<forall>a\<in>set (map (answers \<circ> fid) (fallbacks st)). honest E h a" using assms(3) by simp
  from fbm.fallbackLoop_result [OF this, of st] assms(1,2) show ?thesis
    by (auto simp: fallback_get_def image_iff split: prod.split option.splits) metis+
qed

theorem fallback_get_caches_witness:
  "\<exists>st'. fallback_get memoryStore (\<lambda>_. InTime (Some [5])) (sha256 demo [5]) sampleFallback = (Some [5], st')
     \<and> memory_get (primary st') (sha256 demo [5]) = Some [5]"
proof -
  define h where "h = sha256 demo [5]"
  have "fst (fallback_get memoryStore (\<lambda>_. InTime (Some [5])) h sampleFallback) = Some [5]"
    by (simp add: sampleFallback_def fallback_get_def memory_get_def Let_def)
  then obtain st' where eq: "fallback_get memoryStore (\<lambda>_. InTime (Some [5])) h sampleFallback = (Some [5], st')"
    by (metis prod.collapse)
  have "memory_inv demo (primary sampleFallback)" "memory_get (primary sampleFallback) h = None"
    "\<forall>i. honest demo h (InTime (Some [5]))"
    by (simp_all add: sampleFallback_def memory_inv_empty memory_get_def honest_def h_def)
  from fallback_get_caches [OF this(1,2), of "\<lambda>_. InTime (Some [5])", OF this(3)] eq
  show ?thesis unfolding h_def [symmetric] by simp
qed

end
