(* ===== verification/TreeRoot.thy ===== *)
theory TreeRoot
  imports Types "HOL-Library.AList"
begin

text \<open>
  The registry of tree roots (\<open>hashtree-tree-root/src/index.ts\<close>): one record per tree, written by the user
  or by what Nostr, the worker and other sources report, kept in a persistent store, announced to
  listeners, and published with a delay and retries.

  Everything the class does between two turns of the event loop is one function on the state. What
  the JavaScript runtime calls later is part of the state: the timeouts that were set, the publications
  that were started and have not ended, the \<open>resolve\<close> calls that wait. A JavaScript \<open>Map\<close> is an association
  list in insertion order (\<open>AList.update\<close> keeps the place of a key, \<open>AList.delete\<close> removes it).

  Records are changed in place by \<open>mergeKey\<close>, \<open>mergeSameHashMetadata\<close> and the end of a publication; each
  such change is followed by a save, and none of them changes the hash, which is all that the end of
  a publication compares. So records are values here.
\<close>

section \<open>Records\<close>

datatype TreeVisibility = Public | LinkVisible | Private

datatype TreeRootSource = LocalWrite | Nostr | Prefetch | Worker

record TreeRootRecord =
  rhash :: hash
  rkey :: "hash option"
  rvisibility :: TreeVisibility
  rupdatedAt :: int
  rsource :: TreeRootSource
  rdirty :: bool
  rencryptedKey :: "string option"
  rkeyId :: "string option"
  rselfEncryptedKey :: "string option"
  rselfEncryptedLinkKey :: "string option"

text \<open>The optional arguments of the setters.\<close>

record RootOptions =
  okey :: "hash option"
  ovisibility :: "TreeVisibility option"
  oencryptedKey :: "string option"
  okeyId :: "string option"
  oselfEncryptedKey :: "string option"
  oselfEncryptedLinkKey :: "string option"

definition noOptions :: RootOptions where
  "noOptions = \<lparr>okey = None, ovisibility = None, oencryptedKey = None, okeyId = None,
     oselfEncryptedKey = None, oselfEncryptedLinkKey = None\<rparr>"

text \<open>\<open>a ?? b\<close>, and the truth of an optional string: \<open>undefined\<close> and the empty string are false.\<close>

definition orElse :: "'a option \<Rightarrow> 'a option \<Rightarrow> 'a option" where
  "orElse a b = (case a of None \<Rightarrow> b | Some x \<Rightarrow> Some x)"

definition truthy :: "string option \<Rightarrow> bool" where
  "truthy s = (case s of None \<Rightarrow> False | Some x \<Rightarrow> x \<noteq> [])"

section \<open>Persistence\<close>

text \<open>The interface \<open>RegistryPersistence\<close>, over a state.\<close>

record 'p persistence_ops =
  p_save :: "string \<Rightarrow> TreeRootRecord \<Rightarrow> 'p \<Rightarrow> 'p"
  p_load :: "string \<Rightarrow> 'p \<Rightarrow> TreeRootRecord option \<times> 'p"
  p_delete :: "string \<Rightarrow> 'p \<Rightarrow> 'p"
  p_loadAll :: "'p \<Rightarrow> (string \<times> TreeRootRecord) list \<times> 'p"

text \<open>The stored form. A \<open>hash\<close> that is not a string in the parsed data makes \<open>fromHex\<close> throw; it is
  \<open>None\<close> here.\<close>

record PersistedRecord =
  phash :: "string option"
  pkey :: "string option"
  pvisibility :: TreeVisibility
  pupdatedAt :: int
  psource :: TreeRootSource
  pdirty :: bool
  pencryptedKey :: "string option"
  pkeyId :: "string option"
  pselfEncryptedKey :: "string option"
  pselfEncryptedLinkKey :: "string option"

definition serializeRecord :: "TreeRootRecord \<Rightarrow> PersistedRecord" where
  "serializeRecord r = \<lparr>phash = Some (toHex (rhash r)), pkey = map_option toHex (rkey r),
     pvisibility = rvisibility r, pupdatedAt = rupdatedAt r, psource = rsource r, pdirty = rdirty r,
     pencryptedKey = rencryptedKey r, pkeyId = rkeyId r, pselfEncryptedKey = rselfEncryptedKey r,
     pselfEncryptedLinkKey = rselfEncryptedLinkKey r\<rparr>"

definition deserializeRecord :: "PersistedRecord \<Rightarrow> TreeRootRecord option" where
  "deserializeRecord p = (case phash p of None \<Rightarrow> None
     | Some h \<Rightarrow> Some \<lparr>rhash = fromHex h,
         rkey = (if truthy (pkey p) then map_option fromHex (pkey p) else None),
         rvisibility = pvisibility p, rupdatedAt = pupdatedAt p, rsource = psource p, rdirty = pdirty p,
         rencryptedKey = pencryptedKey p, rkeyId = pkeyId p, rselfEncryptedKey = pselfEncryptedKey p,
         rselfEncryptedLinkKey = pselfEncryptedLinkKey p\<rparr>)"

text \<open>The item in \<open>localStorage\<close>: none, text that \<open>JSON.parse\<close> rejects, or the object with its entries in
  order (the keys have a slash, so none is an array index, and enumeration is insertion order).\<close>

datatype storageItem = NoItem | Unparsable | Item "(string \<times> PersistedRecord) list"

record local_storage =
  lsWindow :: bool                                            \<comment> \<open>\<open>typeof window !== 'undefined'\<close>\<close>
  lsFull :: bool                                              \<comment> \<open>\<open>setItem\<close> throws\<close>
  lsItem :: storageItem
  lsCache :: "(string \<times> TreeRootRecord) list option"

fun parseEntries :: "(string \<times> PersistedRecord) list \<Rightarrow> (string \<times> TreeRootRecord) list \<Rightarrow> (string \<times> TreeRootRecord) list" where
  "parseEntries [] result = result"
| "parseEntries (kp # rest) result = parseEntries rest
     (case deserializeRecord (snd kp) of None \<Rightarrow> result | Some r \<Rightarrow> AList.update (fst kp) r result)"

definition ls_loadAll :: "local_storage \<Rightarrow> (string \<times> TreeRootRecord) list \<times> local_storage" where
  "ls_loadAll p =
     (if \<not> lsWindow p then ([], p)
      else (case lsItem p of
         NoItem \<Rightarrow> ([], p)
       | Unparsable \<Rightarrow> ([], p\<lparr>lsCache := Some []\<rparr>)
       | Item data \<Rightarrow> (let result = parseEntries data [] in (result, p\<lparr>lsCache := Some result\<rparr>))))"

text \<open>\<open>if (!this.cache) this.cache = this.loadAll()\<close>.\<close>

definition ls_cached :: "local_storage \<Rightarrow> (string \<times> TreeRootRecord) list \<times> local_storage" where
  "ls_cached p = (case lsCache p of
     Some c \<Rightarrow> (c, p)
   | None \<Rightarrow> (case ls_loadAll p of (c, p') \<Rightarrow> (c, p'\<lparr>lsCache := Some c\<rparr>)))"

text \<open>Write the whole cache; an exception of \<open>setItem\<close> is swallowed.\<close>

definition ls_persist :: "(string \<times> TreeRootRecord) list \<Rightarrow> local_storage \<Rightarrow> local_storage" where
  "ls_persist c p = (if lsFull p then p\<lparr>lsCache := Some c\<rparr>
     else p\<lparr>lsCache := Some c, lsItem := Item (map (\<lambda>kr. (fst kr, serializeRecord (snd kr))) c)\<rparr>)"

definition ls_save :: "string \<Rightarrow> TreeRootRecord \<Rightarrow> local_storage \<Rightarrow> local_storage" where
  "ls_save key r p =
     (if \<not> lsWindow p then p
      else (case ls_cached p of (c, p') \<Rightarrow> ls_persist (AList.update key r c) p'))"

definition ls_load :: "string \<Rightarrow> local_storage \<Rightarrow> TreeRootRecord option \<times> local_storage" where
  "ls_load key p = (case ls_cached p of (c, p') \<Rightarrow> (map_of c key, p'))"

definition ls_delete :: "string \<Rightarrow> local_storage \<Rightarrow> local_storage" where
  "ls_delete key p =
     (if \<not> lsWindow p then p
      else (case ls_cached p of (c, p') \<Rightarrow> ls_persist (AList.delete key c) p'))"

definition LocalStoragePersistence :: "local_storage persistence_ops" where
  "LocalStoragePersistence = \<lparr>p_save = ls_save, p_load = ls_load, p_delete = ls_delete, p_loadAll = ls_loadAll\<rparr>"

section \<open>State\<close>

text \<open>A listener of a key: a callback of a client, or the callback a pending \<open>resolve\<close> subscribed.\<close>

datatype Listener = Callback nat | Waiter nat

datatype Call = ToListener nat string "TreeRootRecord option" | ToGlobal nat string "TreeRootRecord option"

record 'p registry =
  records :: "(string \<times> TreeRootRecord) list"
  listeners :: "(string \<times> Listener list) list"
  globalListeners :: "nat list"
  persistence :: 'p
  publishTimers :: "(string \<times> nat) list"
  publishFn :: bool                                          \<comment> \<open>whether it was set\<close>
  timeouts :: "(nat \<times> string \<times> string \<times> nat) list"         \<comment> \<open>scheduled: id, npub, tree name, delay\<close>
  inFlight :: "(nat \<times> string \<times> string \<times> TreeRootRecord) list" \<comment> \<open>publications that were started\<close>
  waiting :: "(nat \<times> string) list"                           \<comment> \<open>\<open>resolve\<close> calls: id, key\<close>
  resolved :: "(nat \<times> TreeRootRecord option) list"           \<comment> \<open>what they resolved to\<close>
  calls :: "Call list"                                       \<comment> \<open>calls of listeners, in order\<close>
  nextId :: nat

definition publishDelay :: nat where "publishDelay = 1000"
definition retryDelay :: nat where "retryDelay = 5000"

definition makeKey :: "string \<Rightarrow> string \<Rightarrow> string" where
  "makeKey npub treeName = npub @ ''/'' @ treeName"

text \<open>\<open>const [npub, ...parts] = key.split('/'); treeName = parts.join('/')\<close>: what is before and after the
  first slash.\<close>

definition splitKey :: "string \<Rightarrow> string \<times> string" where
  "splitKey key = (takeWhile (\<lambda>c. c \<noteq> CHR ''/'') key, drop 1 (dropWhile (\<lambda>c. c \<noteq> CHR ''/'') key))"

section \<open>Listeners\<close>

definition addToSet :: "'a \<Rightarrow> 'a list \<Rightarrow> 'a list" where
  "addToSet x xs = (if x \<in> set xs then xs else xs @ [x])"

definition subscribeKey :: "string \<Rightarrow> Listener \<Rightarrow> 'p registry \<Rightarrow> 'p registry" where
  "subscribeKey key l st = st\<lparr>listeners := AList.update key
     (addToSet l (case map_of (listeners st) key of None \<Rightarrow> [] | Some ls \<Rightarrow> ls)) (listeners st)\<rparr>"

definition unsubscribeKey :: "string \<Rightarrow> Listener \<Rightarrow> 'p registry \<Rightarrow> 'p registry" where
  "unsubscribeKey key l st = (case map_of (listeners st) key of
     None \<Rightarrow> st
   | Some ls \<Rightarrow>
       (let ls' = removeAll l ls
        in if ls' = [] then st\<lparr>listeners := AList.delete key (listeners st)\<rparr>
           else st\<lparr>listeners := AList.update key ls' (listeners st)\<rparr>))"

text \<open>A listener is called: a client's callback is recorded, a waiting \<open>resolve\<close> takes the first record
  that is not \<open>null\<close> and unsubscribes.\<close>

definition callListener :: "string \<Rightarrow> TreeRootRecord option \<Rightarrow> Listener \<Rightarrow> 'p registry \<Rightarrow> 'p registry" where
  "callListener key r l st = (case l of
     Callback n \<Rightarrow> st\<lparr>calls := calls st @ [ToListener n key r]\<rparr>
   | Waiter w \<Rightarrow>
       if w \<in> fst ` set (waiting st) \<and> r \<noteq> None
       then unsubscribeKey key (Waiter w)
              (st\<lparr>waiting := AList.delete w (waiting st), resolved := resolved st @ [(w, r)]\<rparr>)
       else st)"

definition notify :: "string \<Rightarrow> TreeRootRecord option \<Rightarrow> 'p registry \<Rightarrow> 'p registry" where
  "notify key r st =
     (let keyListeners = (case map_of (listeners st) key of None \<Rightarrow> [] | Some ls \<Rightarrow> ls);
          st1 = fold (callListener key r) keyListeners st
      in st1\<lparr>calls := calls st1 @ map (\<lambda>n. ToGlobal n key r) (globalListeners st1)\<rparr>)"

text \<open>\<open>subscribe\<close>: the snapshot goes out in a microtask, which nothing can precede but the rest of the
  running turn.\<close>

definition subscribe :: "string \<Rightarrow> string \<Rightarrow> nat \<Rightarrow> 'p registry \<Rightarrow> 'p registry" where
  "subscribe npub treeName n st =
     (let key = makeKey npub treeName; st1 = subscribeKey key (Callback n) st
      in case map_of (records st) key of
           None \<Rightarrow> st1
         | Some r \<Rightarrow> st1\<lparr>calls := calls st1 @ [ToListener n key (Some r)]\<rparr>)"

definition unsubscribe :: "string \<Rightarrow> string \<Rightarrow> nat \<Rightarrow> 'p registry \<Rightarrow> 'p registry" where
  "unsubscribe npub treeName n st = unsubscribeKey (makeKey npub treeName) (Callback n) st"

definition subscribeAll :: "nat \<Rightarrow> 'p registry \<Rightarrow> 'p registry" where
  "subscribeAll n st = st\<lparr>globalListeners := addToSet n (globalListeners st)\<rparr>"

definition unsubscribeAll :: "nat \<Rightarrow> 'p registry \<Rightarrow> 'p registry" where
  "unsubscribeAll n st = st\<lparr>globalListeners := removeAll n (globalListeners st)\<rparr>"

text \<open>\<open>resolve\<close> answers a record it has; otherwise it waits, under a new number.\<close>

definition resolveRoot :: "string \<Rightarrow> string \<Rightarrow> 'p registry \<Rightarrow> 'p registry" where
  "resolveRoot npub treeName st =
     (let key = makeKey npub treeName; w = nextId st; st1 = st\<lparr>nextId := w + 1\<rparr>
      in case map_of (records st) key of
           Some r \<Rightarrow> st1\<lparr>resolved := resolved st @ [(w, Some r)]\<rparr>
         | None \<Rightarrow> subscribeKey key (Waiter w) (st1\<lparr>waiting := waiting st @ [(w, key)]\<rparr>))"

definition resolveTimeout :: "nat \<Rightarrow> 'p registry \<Rightarrow> 'p registry" where
  "resolveTimeout w st = (case map_of (waiting st) w of
     None \<Rightarrow> st
   | Some key \<Rightarrow> unsubscribeKey key (Waiter w)
       (st\<lparr>waiting := AList.delete w (waiting st), resolved := resolved st @ [(w, None)]\<rparr>))"

section \<open>Publication\<close>

definition clearTimer :: "string \<Rightarrow> 'p registry \<Rightarrow> 'p registry" where
  "clearTimer key st = (case map_of (publishTimers st) key of
     None \<Rightarrow> st
   | Some i \<Rightarrow> st\<lparr>timeouts := AList.delete i (timeouts st)\<rparr>)"

definition schedulePublish :: "string \<Rightarrow> string \<Rightarrow> nat \<Rightarrow> 'p registry \<Rightarrow> 'p registry" where
  "schedulePublish npub treeName delay st0 =
     (let key = makeKey npub treeName; st = clearTimer key st0; timer = nextId st
      in st\<lparr>timeouts := timeouts st @ [(timer, npub, treeName, delay)], nextId := timer + 1,
            publishTimers := AList.update key timer (publishTimers st)\<rparr>)"

text \<open>\<open>doPublish\<close> up to the call of the publish function.\<close>

definition doPublish :: "string \<Rightarrow> string \<Rightarrow> 'p registry \<Rightarrow> 'p registry" where
  "doPublish npub treeName st = (case map_of (records st) (makeKey npub treeName) of
     None \<Rightarrow> st
   | Some r \<Rightarrow>
       if \<not> rdirty r \<or> \<not> publishFn st then st
       else st\<lparr>inFlight := inFlight st @ [(nextId st, npub, treeName, r)], nextId := nextId st + 1\<rparr>)"

text \<open>What the publish function answers: its boolean, or a rejection.\<close>

datatype outcome = Published | NotPublished | PublishRejected

definition publishDone :: "'p persistence_ops \<Rightarrow> nat \<Rightarrow> outcome \<Rightarrow> 'p registry \<Rightarrow> 'p registry" where
  "publishDone ops i out st0 = (case map_of (inFlight st0) i of
     None \<Rightarrow> st0
   | Some (npub, treeName, r) \<Rightarrow>
       (let key = makeKey npub treeName; st = st0\<lparr>inFlight := AList.delete i (inFlight st0)\<rparr>
        in case out of
             Published \<Rightarrow>
               (case map_of (records st) key of
                  None \<Rightarrow> st
                | Some currentRecord \<Rightarrow>
                    if toHex (rhash currentRecord) = toHex (rhash r)
                    then (let r' = currentRecord\<lparr>rdirty := False\<rparr>
                          in st\<lparr>records := AList.update key r' (records st),
                                persistence := p_save ops key r' (persistence st)\<rparr>)
                    else st)
           | _ \<Rightarrow> if map_of (publishTimers st) key = None then schedulePublish npub treeName retryDelay st else st))"

definition timerFires :: "nat \<Rightarrow> 'p registry \<Rightarrow> 'p registry" where
  "timerFires i st = (case map_of (timeouts st) i of
     None \<Rightarrow> st
   | Some (npub, treeName, delay) \<Rightarrow>
       doPublish npub treeName (st\<lparr>timeouts := AList.delete i (timeouts st),
         publishTimers := AList.delete (makeKey npub treeName) (publishTimers st)\<rparr>))"

definition flushOne :: "string \<times> nat \<Rightarrow> 'p registry \<Rightarrow> 'p registry" where
  "flushOne kt st =
     (let st1 = st\<lparr>timeouts := AList.delete (snd kt) (timeouts st),
                   publishTimers := AList.delete (fst kt) (publishTimers st)\<rparr>;
          (npub, treeName) = splitKey (fst kt)
      in if npub \<noteq> [] \<and> treeName \<noteq> [] then doPublish npub treeName st1 else st1)"

definition flushPendingPublishes :: "'p registry \<Rightarrow> 'p registry" where
  "flushPendingPublishes st = (if \<not> publishFn st then st else fold flushOne (publishTimers st) st)"

definition cancelPendingPublish :: "string \<Rightarrow> string \<Rightarrow> 'p registry \<Rightarrow> 'p registry" where
  "cancelPendingPublish npub treeName st =
     (let key = makeKey npub treeName in case map_of (publishTimers st) key of
        None \<Rightarrow> st
      | Some i \<Rightarrow> st\<lparr>timeouts := AList.delete i (timeouts st),
                     publishTimers := AList.delete key (publishTimers st)\<rparr>)"

definition setPublishFn :: "'p registry \<Rightarrow> 'p registry" where
  "setPublishFn st = st\<lparr>publishFn := True\<rparr>"

section \<open>Updates\<close>

definition shouldAcceptUpdate :: "TreeRootRecord option \<Rightarrow> hash \<Rightarrow> hash option \<Rightarrow> int \<Rightarrow> bool" where
  "shouldAcceptUpdate existing h key updatedAt = (case existing of
     None \<Rightarrow> True
   | Some e \<Rightarrow>
       if rdirty e then False
       else if updatedAt < rupdatedAt e then False
       else if rupdatedAt e = updatedAt \<and> toHex (rhash e) = toHex h
       then (case key of None \<Rightarrow> False
             | Some k \<Rightarrow> (case rkey e of None \<Rightarrow> True | Some k' \<Rightarrow> toHex k' \<noteq> toHex k))
       else True)"

text \<open>\<open>mergeSameHashMetadata\<close>: the changed record, or \<open>None\<close> when nothing changed. One field after the
  other, each with the flag \<open>changed\<close>.\<close>

definition mergeField ::
  "bool \<Rightarrow> (TreeRootRecord \<Rightarrow> TreeRootRecord) \<Rightarrow> TreeRootRecord \<times> bool \<Rightarrow> TreeRootRecord \<times> bool" where
  "mergeField cond upd ec = (if cond then (upd (fst ec), True) else ec)"

definition mergeSameHashMetadata :: "TreeRootRecord option \<Rightarrow> hash \<Rightarrow> RootOptions \<Rightarrow> TreeRootRecord option" where
  "mergeSameHashMetadata existing h opts = (case existing of
     None \<Rightarrow> None
   | Some e \<Rightarrow>
       if rdirty e then None
       else if toHex (rhash e) \<noteq> toHex h then None
       else (let s1 = mergeField (rkey e = None \<and> okey opts \<noteq> None) (rkey_update (\<lambda>_. okey opts)) (e, False);
                 s2 = mergeField (rvisibility e = Public \<and> ovisibility opts \<noteq> None \<and> ovisibility opts \<noteq> Some Public)
                        (rvisibility_update (\<lambda>_. the (ovisibility opts))) s1;
                 s3 = mergeField (\<not> truthy (rencryptedKey e) \<and> truthy (oencryptedKey opts))
                        (rencryptedKey_update (\<lambda>_. oencryptedKey opts)) s2;
                 s4 = mergeField (\<not> truthy (rkeyId e) \<and> truthy (okeyId opts)) (rkeyId_update (\<lambda>_. okeyId opts)) s3;
                 s5 = mergeField (\<not> truthy (rselfEncryptedKey e) \<and> truthy (oselfEncryptedKey opts))
                        (rselfEncryptedKey_update (\<lambda>_. oselfEncryptedKey opts)) s4;
                 s6 = mergeField (\<not> truthy (rselfEncryptedLinkKey e) \<and> truthy (oselfEncryptedLinkKey opts))
                        (rselfEncryptedLinkKey_update (\<lambda>_. oselfEncryptedLinkKey opts)) s5
             in if snd s6 then Some (fst s6) else None))"

text \<open>Store a record in the map, in the persistent store, and tell the listeners.\<close>

definition putRecord :: "'p persistence_ops \<Rightarrow> string \<Rightarrow> TreeRootRecord \<Rightarrow> 'p registry \<Rightarrow> 'p registry" where
  "putRecord ops key r st = notify key (Some r)
     (st\<lparr>records := AList.update key r (records st), persistence := p_save ops key r (persistence st)\<rparr>)"

definition setLocal ::
  "'p persistence_ops \<Rightarrow> int \<Rightarrow> string \<Rightarrow> string \<Rightarrow> hash \<Rightarrow> RootOptions \<Rightarrow> 'p registry \<Rightarrow> 'p registry" where
  "setLocal ops nowMs npub treeName h opts st =
     (let cacheKey = makeKey npub treeName;
          existing = map_of (records st) cacheKey;
          visibility = (case orElse (ovisibility opts) (map_option rvisibility existing) of None \<Rightarrow> Public | Some v \<Rightarrow> v);
          field = (\<lambda>o' e'. orElse o' (Option.bind existing e'));
          r = \<lparr>rhash = h, rkey = okey opts, rvisibility = visibility, rupdatedAt = nowMs div 1000,
               rsource = LocalWrite, rdirty = True,
               rencryptedKey = field (oencryptedKey opts) rencryptedKey, rkeyId = field (okeyId opts) rkeyId,
               rselfEncryptedKey = field (oselfEncryptedKey opts) rselfEncryptedKey,
               rselfEncryptedLinkKey = field (oselfEncryptedLinkKey opts) rselfEncryptedLinkKey\<rparr>
      in schedulePublish npub treeName publishDelay (putRecord ops cacheKey r st))"

text \<open>\<open>setFromResolver\<close> and \<open>setFromWorker\<close> differ in the source they record; both answer whether anything
  changed.\<close>

definition remoteRecord ::
  "TreeRootSource \<Rightarrow> TreeRootRecord option \<Rightarrow> hash \<Rightarrow> int \<Rightarrow> RootOptions \<Rightarrow> TreeRootRecord" where
  "remoteRecord src existing h updatedAt opts =
     (let sameHash = (case existing of None \<Rightarrow> False | Some e \<Rightarrow> toHex (rhash e) = toHex h);
          known = (if sameHash then existing else None)
      in \<lparr>rhash = h, rkey = orElse (okey opts) (Option.bind known rkey),
          rvisibility = (case ovisibility opts of None \<Rightarrow> Public | Some v \<Rightarrow> v),
          rupdatedAt = updatedAt, rsource = src, rdirty = False,
          rencryptedKey = orElse (oencryptedKey opts) (Option.bind known rencryptedKey),
          rkeyId = orElse (okeyId opts) (Option.bind known rkeyId),
          rselfEncryptedKey = orElse (oselfEncryptedKey opts) (Option.bind known rselfEncryptedKey),
          rselfEncryptedLinkKey = orElse (oselfEncryptedLinkKey opts) (Option.bind known rselfEncryptedLinkKey)\<rparr>)"

definition setRemote ::
  "TreeRootSource \<Rightarrow> 'p persistence_ops \<Rightarrow> string \<Rightarrow> string \<Rightarrow> hash \<Rightarrow> int \<Rightarrow> RootOptions \<Rightarrow> 'p registry \<Rightarrow> bool \<times> 'p registry" where
  "setRemote src ops npub treeName h updatedAt opts st =
     (let cacheKey = makeKey npub treeName;
          existing = map_of (records st) cacheKey
      in if \<not> shouldAcceptUpdate existing h (okey opts) updatedAt
         then (case mergeSameHashMetadata existing h opts of
                 Some e' \<Rightarrow> (True, putRecord ops cacheKey e' st)
               | None \<Rightarrow> (False, st))
         else (True, putRecord ops cacheKey (remoteRecord src existing h updatedAt opts) st))"

definition setFromResolver ::
  "'p persistence_ops \<Rightarrow> string \<Rightarrow> string \<Rightarrow> hash \<Rightarrow> int \<Rightarrow> RootOptions \<Rightarrow> 'p registry \<Rightarrow> bool \<times> 'p registry" where
  "setFromResolver = setRemote Nostr"

definition setFromWorker ::
  "'p persistence_ops \<Rightarrow> string \<Rightarrow> string \<Rightarrow> hash \<Rightarrow> int \<Rightarrow> RootOptions \<Rightarrow> 'p registry \<Rightarrow> bool \<times> 'p registry" where
  "setFromWorker = setRemote Worker"

definition mergeKey :: "'p persistence_ops \<Rightarrow> string \<Rightarrow> string \<Rightarrow> hash \<Rightarrow> hash \<Rightarrow> 'p registry \<Rightarrow> bool \<times> 'p registry" where
  "mergeKey ops npub treeName h k st =
     (let cacheKey = makeKey npub treeName in
      case map_of (records st) cacheKey of
        None \<Rightarrow> (False, st)
      | Some e \<Rightarrow>
          if toHex (rhash e) \<noteq> toHex h then (False, st)
          else if rkey e \<noteq> None then (False, st)
          else (True, putRecord ops cacheKey (e\<lparr>rkey := Some k\<rparr>) st))"

text \<open>The options of \<open>setFromExternal\<close> are the key, the visibility and the time; the other fields of a
  known record are dropped when the record is replaced.\<close>

definition setFromExternal ::
  "'p persistence_ops \<Rightarrow> int \<Rightarrow> string \<Rightarrow> string \<Rightarrow> hash \<Rightarrow> TreeRootSource \<Rightarrow> hash option \<Rightarrow> TreeVisibility option \<Rightarrow>
   int option \<Rightarrow> 'p registry \<Rightarrow> 'p registry" where
  "setFromExternal ops nowMs npub treeName h src key vis at st =
     (let cacheKey = makeKey npub treeName;
          existing = map_of (records st) cacheKey;
          sameHash = (case existing of None \<Rightarrow> False | Some e \<Rightarrow> toHex (rhash e) = toHex h);
          updatedAt = (case at of Some t \<Rightarrow> t | None \<Rightarrow> nowMs div 1000)
      in if (case existing of None \<Rightarrow> False | Some e \<Rightarrow> rdirty e) then st
         else if \<not> shouldAcceptUpdate existing h key updatedAt
         then (case mergeSameHashMetadata existing h (noOptions\<lparr>okey := key, ovisibility := vis\<rparr>) of
                 Some e' \<Rightarrow> putRecord ops cacheKey e' st
               | None \<Rightarrow> st)
         else putRecord ops cacheKey
                \<lparr>rhash = h, rkey = orElse key (if sameHash then Option.bind existing rkey else None),
                 rvisibility = (case orElse vis (map_option rvisibility existing) of None \<Rightarrow> Public | Some v \<Rightarrow> v),
                 rupdatedAt = updatedAt, rsource = src, rdirty = False, rencryptedKey = None, rkeyId = None,
                 rselfEncryptedKey = None, rselfEncryptedLinkKey = None\<rparr> st)"

definition deleteRoot :: "'p persistence_ops \<Rightarrow> string \<Rightarrow> string \<Rightarrow> 'p registry \<Rightarrow> 'p registry" where
  "deleteRoot ops npub treeName st0 =
     (let key = makeKey npub treeName; st = cancelPendingPublish npub treeName st0
      in notify key None (st\<lparr>records := AList.delete key (records st),
                             persistence := p_delete ops key (persistence st)\<rparr>))"

section \<open>Lookups and start\<close>

definition getRoot :: "string \<Rightarrow> string \<Rightarrow> 'p registry \<Rightarrow> TreeRootRecord option" where
  "getRoot npub treeName st = map_of (records st) (makeKey npub treeName)"

definition getByKey :: "string \<Rightarrow> 'p registry \<Rightarrow> TreeRootRecord option" where
  "getByKey key st = map_of (records st) key"

definition getAllRecords :: "'p registry \<Rightarrow> (string \<times> TreeRootRecord) list" where
  "getAllRecords st = records st"

definition hasRoot :: "string \<Rightarrow> string \<Rightarrow> 'p registry \<Rightarrow> bool" where
  "hasRoot npub treeName st \<longleftrightarrow> map_of (records st) (makeKey npub treeName) \<noteq> None"

definition getVisibility :: "string \<Rightarrow> string \<Rightarrow> 'p registry \<Rightarrow> TreeVisibility option" where
  "getVisibility npub treeName st = map_option rvisibility (map_of (records st) (makeKey npub treeName))"

definition hydrateOne :: "string \<times> TreeRootRecord \<Rightarrow> 'p registry \<Rightarrow> 'p registry" where
  "hydrateOne kr st =
     (let st1 = st\<lparr>records := AList.update (fst kr) (snd kr) (records st)\<rparr>;
          (npub, treeName) = splitKey (fst kr)
      in if rdirty (snd kr) \<and> npub \<noteq> [] \<and> treeName \<noteq> [] then schedulePublish npub treeName publishDelay st1 else st1)"

definition newRegistry :: "'p persistence_ops \<Rightarrow> 'p \<Rightarrow> 'p registry" where
  "newRegistry ops p = (case p_loadAll ops p of (persisted, p') \<Rightarrow>
     fold hydrateOne persisted
       \<lparr>records = [], listeners = [], globalListeners = [], persistence = p', publishTimers = [], publishFn = False,
        timeouts = [], inFlight = [], waiting = [], resolved = [], calls = [], nextId = 0\<rparr>)"

end
