(* ===== verification/TreeRootSpec.thy ===== *)
theory TreeRootSpec
  imports TreeRoot
begin

text \<open>
  The invariant of the registry of tree roots. \<open>sched_inv\<close> says of the scheduling state that the map of
  timers and the timeouts of the runtime agree, and that every record with unpublished changes has a
  timer or a running publication of its hash, but for a set of keys: those whose timer was spent before
  there was a publish function, or was cancelled; \<open>saved\<close> says that the persistent store has exactly the
  records. The contract of the persistent store is the locale \<open>root_persistence\<close>; it is interpreted by
  \<open>LocalStoragePersistence\<close>.
\<close>

section \<open>Maps\<close>

lemma set_alist_delete: "set (AList.delete k al) = {kv \<in> set al. fst kv \<noteq> k}"
  by (auto simp: AList.delete_eq)

section \<open>Keys\<close>

definition name_ok :: "string \<Rightarrow> string \<Rightarrow> bool" where
  "name_ok npub treeName \<longleftrightarrow> npub \<noteq> [] \<and> CHR ''/'' \<notin> set npub \<and> treeName \<noteq> []"

definition key_ok :: "string \<Rightarrow> bool" where
  "key_ok key \<longleftrightarrow> fst (splitKey key) \<noteq> [] \<and> snd (splitKey key) \<noteq> []"

lemma splitKey_makeKey: "CHR ''/'' \<notin> set npub \<Longrightarrow> splitKey (makeKey npub treeName) = (npub, treeName)"
proof -
  assume a: "CHR ''/'' \<notin> set npub"
  then have "\<And>c. c \<in> set npub \<Longrightarrow> c \<noteq> CHR ''/''" by auto
  then show ?thesis by (simp add: splitKey_def makeKey_def takeWhile_append2 dropWhile_append2)
qed

lemma key_ok_makeKey: "name_ok npub treeName \<Longrightarrow> key_ok (makeKey npub treeName)"
  by (simp add: key_ok_def name_ok_def splitKey_makeKey)

lemma makeKey_splitKey: "snd (splitKey key) \<noteq> [] \<Longrightarrow> makeKey (fst (splitKey key)) (snd (splitKey key)) = key"
proof -
  assume a: "snd (splitKey key) \<noteq> []"
  let ?P = "\<lambda>c. c \<noteq> CHR ''/''"
  obtain c r where d: "dropWhile ?P key = c # r" using a by (cases "dropWhile ?P key") (auto simp: splitKey_def)
  then have "c = CHR ''/''" using hd_dropWhile [of ?P key] by auto
  then have "makeKey (fst (splitKey key)) (snd (splitKey key)) = takeWhile ?P key @ dropWhile ?P key"
    using d by (simp add: splitKey_def makeKey_def)
  then show ?thesis by simp
qed

section \<open>Scheduling\<close>

definition timers_ok :: "'p registry \<Rightarrow> bool" where
  "timers_ok st \<longleftrightarrow> distinct (map fst (publishTimers st)) \<and> distinct (map fst (timeouts st)) \<and>
     (\<forall>i\<in>fst ` set (timeouts st). i < nextId st) \<and>
     (\<forall>k i. map_of (publishTimers st) k = Some i \<longleftrightarrow>
        (\<exists>n t d. map_of (timeouts st) i = Some (n, t, d) \<and> makeKey n t = k))"

definition flights_ok :: "'p registry \<Rightarrow> bool" where
  "flights_ok st \<longleftrightarrow> distinct (map fst (inFlight st)) \<and> (\<forall>i\<in>fst ` set (inFlight st). i < nextId st)"

definition pendingAt :: "'p registry \<Rightarrow> string \<Rightarrow> hash \<Rightarrow> bool" where
  "pendingAt st k h \<longleftrightarrow> map_of (publishTimers st) k \<noteq> None \<or>
     (\<exists>i n t r. (i, n, t, r) \<in> set (inFlight st) \<and> makeKey n t = k \<and> rhash r = h)"

lemma pendingAt_timer: "map_of (publishTimers st) k = Some i \<Longrightarrow> pendingAt st k h"
  by (simp add: pendingAt_def)

lemma pendingAt_flight: "(i, n, t, r) \<in> set (inFlight st) \<Longrightarrow> pendingAt st (makeKey n t) (rhash r)"
  unfolding pendingAt_def by blast

lemma pendingAt_mono:
  "pendingAt st k h \<Longrightarrow> (map_of (publishTimers st) k \<noteq> None \<Longrightarrow> map_of (publishTimers st') k \<noteq> None) \<Longrightarrow>
   set (inFlight st) \<subseteq> set (inFlight st') \<Longrightarrow> pendingAt st' k h"
  unfolding pendingAt_def by blast

text \<open>The invariant, with a set of keys whose unpublished records may be unscheduled for the moment.\<close>

definition sched_inv :: "string set \<Rightarrow> 'p registry \<Rightarrow> bool" where
  "sched_inv K st \<longleftrightarrow> timers_ok st \<and> flights_ok st \<and>
     (\<forall>k r. map_of (records st) k = Some r \<and> rdirty r \<longrightarrow> key_ok k \<and> (k \<in> K \<or> pendingAt st k (rhash r)))"

text \<open>The part of the state that the listeners do not touch.\<close>

definition core :: "'p registry \<Rightarrow> _" where
  "core st = (records st, persistence st, publishTimers st, publishFn st, timeouts st, inFlight st, nextId st)"

lemma core_eq_iff: "core st = core st' \<longleftrightarrow> records st = records st' \<and> persistence st = persistence st' \<and>
    publishTimers st = publishTimers st' \<and> publishFn st = publishFn st' \<and> timeouts st = timeouts st' \<and>
    inFlight st = inFlight st' \<and> nextId st = nextId st'"
  by (simp add: core_def)

lemma core_unsubscribeKey [simp]: "core (unsubscribeKey key l st) = core st"
  by (simp add: core_def unsubscribeKey_def Let_def split: option.split)

lemma core_subscribeKey [simp]: "core (subscribeKey key l st) = core st"
  by (simp add: core_def subscribeKey_def)

lemma core_listening [simp]:
  "core (st\<lparr>calls := c\<rparr>) = core st" "core (st\<lparr>waiting := w\<rparr>) = core st" "core (st\<lparr>resolved := v\<rparr>) = core st"
  "core (st\<lparr>globalListeners := g\<rparr>) = core st"
  by (simp_all add: core_def)

lemma core_callListener [simp]: "core (callListener key r l st) = core st"
  by (simp add: callListener_def split: Listener.split)

lemma core_fold_callListener [simp]: "core (fold (callListener key r) ls st) = core st"
  by (induction ls arbitrary: st) simp_all

lemma core_notify [simp]: "core (notify key r st) = core st"
  by (simp add: notify_def Let_def)

lemma notify_simps [simp]:
  "records (notify key r st) = records st" "persistence (notify key r st) = persistence st"
  "publishTimers (notify key r st) = publishTimers st" "publishFn (notify key r st) = publishFn st"
  "timeouts (notify key r st) = timeouts st" "inFlight (notify key r st) = inFlight st"
  "nextId (notify key r st) = nextId st"
  using core_notify [of key r st] unfolding core_eq_iff by simp_all

lemma sched_inv_cong: "core st = core st' \<Longrightarrow> sched_inv K st = sched_inv K st'"
  by (simp add: core_eq_iff sched_inv_def timers_ok_def flights_ok_def pendingAt_def)

lemma sched_inv_notify [simp]: "sched_inv K (notify key r st) = sched_inv K st"
  by (rule sched_inv_cong) simp

lemma sched_inv_mono: "sched_inv K st \<Longrightarrow> K \<subseteq> K' \<Longrightarrow> sched_inv K' st"
  by (auto simp: sched_inv_def)

text \<open>One lemma per operation on the schedule.\<close>

lemma timers_ok_unique:
  assumes "timers_ok st" "map_of (timeouts st) i = Some (n, t, d)" "map_of (timeouts st) j = Some (n', t', d')"
    and "makeKey n t = makeKey n' t'"
  shows "i = j"
proof -
  have "map_of (publishTimers st) (makeKey n t) = Some i" "map_of (publishTimers st) (makeKey n t) = Some j"
    using assms by (auto simp: timers_ok_def)
  then show ?thesis by simp
qed

text \<open>Removing the timer of a key together with its timeout.\<close>

definition dropTimer :: "string \<Rightarrow> nat \<Rightarrow> 'p registry \<Rightarrow> 'p registry" where
  "dropTimer k i st = st\<lparr>timeouts := AList.delete i (timeouts st), publishTimers := AList.delete k (publishTimers st)\<rparr>"

lemma dropTimer_simps [simp]:
  "records (dropTimer k i st) = records st" "persistence (dropTimer k i st) = persistence st"
  "publishFn (dropTimer k i st) = publishFn st" "inFlight (dropTimer k i st) = inFlight st"
  "nextId (dropTimer k i st) = nextId st"
  "publishTimers (dropTimer k i st) = AList.delete k (publishTimers st)"
  "timeouts (dropTimer k i st) = AList.delete i (timeouts st)"
  by (simp_all add: dropTimer_def)

lemma timers_ok_drop:
  assumes "timers_ok st" "map_of (publishTimers st) k = Some i"
  shows "timers_ok (dropTimer k i st)"
proof -
  obtain n t d where i: "map_of (timeouts st) i = Some (n, t, d)" "makeKey n t = k"
    using assms by (auto simp: timers_ok_def)
  have other: "makeKey n' t' \<noteq> k" if "j \<noteq> i" "map_of (timeouts st) j = Some (n', t', d')" for j n' t' d'
    using timers_ok_unique [OF assms(1) i(1) that(2)] i(2) that(1) by blast
  have iff: "map_of (publishTimers st) k' = Some j \<longleftrightarrow> (\<exists>n t d. map_of (timeouts st) j = Some (n, t, d) \<and> makeKey n t = k')" for k' j
    using assms(1) unfolding timers_ok_def by blast
  have match: "map_of (AList.delete k (publishTimers st)) k' = Some j \<longleftrightarrow>
      (\<exists>n t d. map_of (AList.delete i (timeouts st)) j = Some (n, t, d) \<and> makeKey n t = k')" for k' j
  proof (cases "j = i")
    case True
    have "map_of (publishTimers st) k' = Some i \<longleftrightarrow> k' = k"
      using iff [of k' i] i by auto
    with True show ?thesis by (auto simp: delete_conv')
  next
    case False
    with iff [of k' j] other [OF False] assms(2) show ?thesis by (auto simp: delete_conv')
  qed
  have ids: "\<forall>j\<in>fst ` set (AList.delete i (timeouts st)). j < nextId st"
    using assms(1) by (auto simp: timers_ok_def set_alist_delete)
  have d: "distinct (map fst (AList.delete k (publishTimers st)))" "distinct (map fst (AList.delete i (timeouts st)))"
    using assms(1) by (auto simp: timers_ok_def intro: distinct_delete)
  show ?thesis unfolding timers_ok_def dropTimer_simps by (intro conjI allI d ids match)
qed

lemma sched_inv_drop:
  assumes "sched_inv K st" "map_of (publishTimers st) k = Some i"
  shows "sched_inv (insert k K) (dropTimer k i st)"
proof -
  have "pendingAt (dropTimer k i st) k' h" if "pendingAt st k' h" "k' \<noteq> k" for k' h
    using that by (elim pendingAt_mono) (simp_all add: delete_conv')
  with assms timers_ok_drop [OF _ assms(2)] show ?thesis
    unfolding sched_inv_def flights_ok_def dropTimer_simps by blast
qed

lemma schedulePublish_simps [simp]:
  "records (schedulePublish n t d st) = records st" "persistence (schedulePublish n t d st) = persistence st"
  "publishFn (schedulePublish n t d st) = publishFn st" "inFlight (schedulePublish n t d st) = inFlight st"
  "nextId (schedulePublish n t d st) = Suc (nextId st)"
  "publishTimers (schedulePublish n t d st) = AList.update (makeKey n t) (nextId st) (publishTimers st)"
  by (simp_all add: schedulePublish_def clearTimer_def Let_def split: option.split)

lemma timeouts_schedulePublish:
  "timeouts (schedulePublish n t d st) =
     (case map_of (publishTimers st) (makeKey n t) of None \<Rightarrow> timeouts st | Some i \<Rightarrow> AList.delete i (timeouts st))
     @ [(nextId st, n, t, d)]"
  by (simp add: schedulePublish_def clearTimer_def Let_def split: option.split)

lemma timers_ok_schedule:
  assumes "timers_ok st"
  shows "timers_ok (schedulePublish n t d st)"
proof -
  let ?k = "makeKey n t" and ?st = "schedulePublish n t d st"
  have fresh: "map_of (timeouts st) (nextId st) = None"
    using assms by (force simp: timers_ok_def map_of_eq_None_iff)
  have out: "map_of (timeouts ?st) j = (if j = nextId st then Some (n, t, d)
      else if map_of (publishTimers st) ?k = Some j then None else map_of (timeouts st) j)" for j
    using fresh by (auto simp: timeouts_schedulePublish map_add_def delete_conv' split: option.split)
  have old: "map_of (publishTimers st) k = Some i \<longleftrightarrow> (\<exists>n t d. map_of (timeouts st) i = Some (n, t, d) \<and> makeKey n t = k)" for k i
    using assms by (simp add: timers_ok_def)
  have match: "map_of (publishTimers ?st) k = Some i \<longleftrightarrow> (\<exists>n t d. map_of (timeouts ?st) i = Some (n, t, d) \<and> makeKey n t = k)" for k i
  proof (cases "i = nextId st")
    case True
    have "map_of (publishTimers st) k \<noteq> Some (nextId st)" using old fresh by simp
    with True show ?thesis by (simp add: out update_conv')
  next
    case False
    then show ?thesis using old [of k i] old [of ?k i] by (auto simp: out update_conv')
  qed
  have ids: "\<forall>i\<in>fst ` set (timeouts ?st). i < nextId ?st"
    using assms by (auto simp: timers_ok_def timeouts_schedulePublish set_alist_delete less_Suc_eq split: option.splits)
  have "distinct (map fst (timeouts ?st))"
    using assms fresh
    by (auto simp: timers_ok_def timeouts_schedulePublish distinct_delete set_alist_delete map_of_eq_None_iff split: option.split)
  moreover have "distinct (map fst (publishTimers ?st))"
    using assms by (simp add: timers_ok_def distinct_update)
  ultimately show ?thesis using match ids unfolding timers_ok_def by blast
qed

lemma sched_inv_schedule:
  assumes "sched_inv K st"
  shows "sched_inv (K - {makeKey n t}) (schedulePublish n t d st)"
proof -
  have "timers_ok (schedulePublish n t d st)" using assms by (simp add: sched_inv_def timers_ok_schedule)
  moreover have "flights_ok (schedulePublish n t d st)" using assms by (auto simp: sched_inv_def flights_ok_def)
  moreover have "pendingAt (schedulePublish n t d st) k h" if "pendingAt st k h" for k h
    using that by (rule pendingAt_mono) (auto simp: update_conv')
  moreover have "pendingAt (schedulePublish n t d st) (makeKey n t) h" for h
    by (rule pendingAt_timer) (simp add: update_conv')
  ultimately show ?thesis using assms unfolding sched_inv_def schedulePublish_simps by blast
qed

lemma sched_inv_doPublish:
  assumes "sched_inv K st" "publishFn st"
  shows "sched_inv (K - {makeKey n t}) (doPublish n t st)"
proof (cases "\<exists>r. map_of (records st) (makeKey n t) = Some r \<and> rdirty r")
  case True
  then obtain r where r: "map_of (records st) (makeKey n t) = Some r" "rdirty r" by blast
  let ?st = "st\<lparr>inFlight := inFlight st @ [(nextId st, n, t, r)], nextId := nextId st + 1\<rparr>"
  have st': "doPublish n t st = ?st" using r assms(2) by (simp add: doPublish_def)
  have "timers_ok ?st" using assms(1) by (auto simp: sched_inv_def timers_ok_def)
  moreover have "flights_ok ?st" using assms(1) by (force simp: sched_inv_def flights_ok_def)
  moreover have "pendingAt ?st k h" if "pendingAt st k h" for k h
    using that by (rule pendingAt_mono) auto
  moreover have "pendingAt ?st (makeKey n t) (rhash r)" by (rule pendingAt_flight [of "nextId st"]) simp
  ultimately show ?thesis using assms(1) r(1) unfolding st' sched_inv_def by auto
next
  case False
  then have "doPublish n t st = st" by (auto simp: doPublish_def split: option.split)
  with False assms(1) show ?thesis by (auto simp: sched_inv_def)
qed

text \<open>A record replaced by one that is clean, or that keeps its hash and state.\<close>

lemma sched_inv_record:
  assumes "sched_inv (insert k K) st" "records st' = AList.update k r (records st)"
    and "publishTimers st' = publishTimers st" "timeouts st' = timeouts st" "inFlight st' = inFlight st" "nextId st' = nextId st"
    and "rdirty r \<Longrightarrow> key_ok k \<and> (k \<in> K \<or> pendingAt st k (rhash r))"
  shows "sched_inv K st'"
proof -
  have "pendingAt st' k' h = pendingAt st k' h" for k' h using assms by (simp add: pendingAt_def)
  moreover have "timers_ok st' = timers_ok st" "flights_ok st' = flights_ok st"
    using assms by (simp_all add: timers_ok_def flights_ok_def)
  ultimately show ?thesis using assms by (auto simp: sched_inv_def update_conv' split: if_splits)
qed

lemma sched_inv_later:
  assumes "sched_inv K st" "records st' = records st" "publishTimers st' = publishTimers st" "timeouts st' = timeouts st"
    and "inFlight st' = inFlight st" "nextId st \<le> nextId st'"
  shows "sched_inv K st'"
proof -
  have "pendingAt st' k' h = pendingAt st k' h" for k' h using assms by (simp add: pendingAt_def)
  moreover have "timers_ok st'" "flights_ok st'"
    using assms unfolding sched_inv_def timers_ok_def flights_ok_def by (auto dest: less_le_trans)
  ultimately show ?thesis using assms by (auto simp: sched_inv_def)
qed

lemma sched_inv_unrecord:
  assumes "sched_inv (insert k K) st" "records st' = AList.delete k (records st)"
    and "publishTimers st' = publishTimers st" "timeouts st' = timeouts st" "inFlight st' = inFlight st" "nextId st' = nextId st"
  shows "sched_inv K st'"
proof -
  have "pendingAt st' k' h = pendingAt st k' h" for k' h using assms by (simp add: pendingAt_def)
  moreover have "timers_ok st' = timers_ok st" "flights_ok st' = flights_ok st"
    using assms by (simp_all add: timers_ok_def flights_ok_def)
  ultimately show ?thesis using assms by (auto simp: sched_inv_def delete_conv' split: if_splits)
qed

lemma sched_inv_weaken: "sched_inv (insert k K - {k}) st \<Longrightarrow> sched_inv K st"
  by (erule sched_inv_mono) blast

lemma sched_inv_publish:
  "sched_inv (insert (makeKey n t) K) st \<Longrightarrow> publishFn st \<Longrightarrow> sched_inv K (doPublish n t st)"
  by (rule sched_inv_weaken [OF sched_inv_doPublish])

lemma timeout_timer:
  "sched_inv K st \<Longrightarrow> map_of (timeouts st) i = Some (n, t, d) \<Longrightarrow> map_of (publishTimers st) (makeKey n t) = Some i"
  unfolding sched_inv_def timers_ok_def by blast

lemma timerFires_drop:
  "map_of (timeouts st) i = Some (n, t, d) \<Longrightarrow> timerFires i st = doPublish n t (dropTimer (makeKey n t) i st)"
  by (simp add: timerFires_def dropTimer_def)

lemma sched_inv_timerFires:
  assumes "sched_inv K st" "publishFn st"
  shows "sched_inv K (timerFires i st)"
proof (cases "map_of (timeouts st) i")
  case (Some x)
  obtain n t d where x: "x = (n, t, d)" by (cases x)
  from sched_inv_drop [OF assms(1) timeout_timer [OF assms(1)]] Some x
  have "sched_inv (insert (makeKey n t) K) (dropTimer (makeKey n t) i st)" by blast
  from sched_inv_publish [OF this] assms(2)
  show ?thesis using timerFires_drop [of st i n t d] Some x by simp
qed (use assms in \<open>simp add: timerFires_def\<close>)

text \<open>A timer that fires while there is no publish function is spent: its key may be left without a timer.\<close>

lemma sched_inv_earlyTimer:
  assumes "sched_inv K st" "\<not> publishFn st" "map_of (timeouts st) i = Some (n, t, d)"
  shows "sched_inv (insert (makeKey n t) K) (timerFires i st)"
proof -
  have "doPublish n t (dropTimer (makeKey n t) i st) = dropTimer (makeKey n t) i st"
    using assms(2) by (simp add: doPublish_def split: option.split)
  with sched_inv_drop [OF assms(1) timeout_timer [OF assms(1,3)]] timerFires_drop [OF assms(3)]
  show ?thesis by simp
qed

lemma flushOne_drop:
  "flushOne (k, i) st = (if key_ok k then doPublish (fst (splitKey k)) (snd (splitKey k)) (dropTimer k i st)
     else dropTimer k i st)"
  by (simp add: flushOne_def dropTimer_def key_ok_def Let_def split_beta)

lemma doPublish_simps [simp]:
  "records (doPublish n t st) = records st" "persistence (doPublish n t st) = persistence st"
  "publishTimers (doPublish n t st) = publishTimers st" "publishFn (doPublish n t st) = publishFn st"
  "timeouts (doPublish n t st) = timeouts st"
  by (simp_all add: doPublish_def split: option.split)

lemma flushOne_simps [simp]:
  "records (flushOne ki st) = records st" "persistence (flushOne ki st) = persistence st"
  "publishTimers (flushOne ki st) = AList.delete (fst ki) (publishTimers st)"
  "publishFn (flushOne ki st) = publishFn st"
  by (cases ki; simp add: flushOne_drop)+

lemma sched_inv_flushOne:
  assumes "sched_inv K st" "publishFn st" "map_of (publishTimers st) k = Some i"
  shows "sched_inv K (flushOne (k, i) st)"
proof -
  note drop = sched_inv_drop [OF assms(1,3)]
  show ?thesis
  proof (cases "key_ok k")
    case True
    then have "makeKey (fst (splitKey k)) (snd (splitKey k)) = k" by (simp add: key_ok_def makeKey_splitKey)
    with sched_inv_publish [of "fst (splitKey k)" "snd (splitKey k)" K "dropTimer k i st"] drop assms(2) True
    show ?thesis by (simp add: flushOne_drop)
  next
    case False
    with drop show ?thesis by (auto simp: flushOne_drop sched_inv_def)
  qed
qed

lemma sched_inv_flush: "sched_inv K st \<Longrightarrow> sched_inv K (flushPendingPublishes st)"
proof -
  have "sched_inv K (fold flushOne xs st)"
    if "sched_inv K st" "publishFn st" "distinct (map fst xs)" "\<forall>(k, i)\<in>set xs. map_of (publishTimers st) k = Some i"
    for xs :: "(string \<times> nat) list" and st :: "'a registry"
    using that
  proof (induction xs arbitrary: st)
    case (Cons ki xs)
    obtain k i where ki: "ki = (k, i)" by (cases ki)
    from Cons.prems ki have "sched_inv K (flushOne ki st)" by (simp add: sched_inv_flushOne)
    moreover have "\<forall>(k', i')\<in>set xs. map_of (publishTimers (flushOne ki st)) k' = Some i'"
      using Cons.prems(3,4) ki by (force simp: delete_conv')
    ultimately show ?case using Cons.IH [of "flushOne ki st"] Cons.prems(2,3) by simp
  qed simp
  moreover assume "sched_inv K st"
  moreover from this have "\<forall>(k, i)\<in>set (publishTimers st). map_of (publishTimers st) k = Some i"
    by (auto simp: sched_inv_def timers_ok_def)
  moreover from calculation have "distinct (map fst (publishTimers st))" by (simp add: sched_inv_def timers_ok_def)
  ultimately show ?thesis by (simp add: flushPendingPublishes_def)
qed

lemma sched_inv_cancel:
  "sched_inv K st \<Longrightarrow> sched_inv (insert (makeKey n t) K) (cancelPendingPublish n t st)"
  using sched_inv_drop [of K st "makeKey n t"] sched_inv_mono [of K st "insert (makeKey n t) K"]
  by (auto simp: cancelPendingPublish_def dropTimer_def Let_def split: option.split)

lemma cancel_simps [simp]:
  "records (cancelPendingPublish n t st) = records st" "persistence (cancelPendingPublish n t st) = persistence st"
  "publishFn (cancelPendingPublish n t st) = publishFn st" "inFlight (cancelPendingPublish n t st) = inFlight st"
  by (simp_all add: cancelPendingPublish_def Let_def split: option.split)

text \<open>The end of a publication.\<close>

lemma sched_inv_publishDone:
  assumes "sched_inv K st"
  shows "sched_inv K (publishDone ops i out st)"
proof (cases "map_of (inFlight st) i")
  case (Some x)
  obtain n t r where x: "x = (n, t, r)" by (cases x)
  let ?k = "makeKey n t" and ?st = "st\<lparr>inFlight := AList.delete i (inFlight st)\<rparr>"
  have t: "timers_ok ?st" and f: "flights_ok ?st"
    using assms by (auto simp: sched_inv_def timers_ok_def flights_ok_def set_alist_delete intro: distinct_delete)
  have only: "x' = (n, t, r)" if "(i, x') \<in> set (inFlight st)" for x'
    using assms Some x that by (auto simp: sched_inv_def flights_ok_def)
  have keep: "pendingAt ?st k h" if "pendingAt st k h" "k \<noteq> ?k \<or> h \<noteq> rhash r \<or> map_of (publishTimers st) k \<noteq> None" for k h
  proof -
    from that(1) consider (timer) "map_of (publishTimers st) k \<noteq> None"
      | (flight) j n' t' r' where "(j, n', t', r') \<in> set (inFlight st)" "k = makeKey n' t'" "h = rhash r'"
      unfolding pendingAt_def by blast
    then show ?thesis
    proof cases
      case timer
      then show ?thesis by (auto simp: pendingAt_def)
    next
      case flight
      show ?thesis
      proof (cases "map_of (publishTimers st) k")
        case None
        with flight that(2) only have "j \<noteq> i" by blast
        with flight show ?thesis using pendingAt_flight [of j n' t' r' ?st] by (simp add: set_alist_delete)
      qed (simp add: pendingAt_def)
    qed
  qed
  have dirty: "key_ok k \<and> (k \<in> K \<or> pendingAt st k (rhash r'))" if "map_of (records st) k = Some r'" "rdirty r'" for k r'
    using assms that by (auto simp: sched_inv_def)
  have inv: "sched_inv (insert ?k K) ?st" using t f keep dirty unfolding sched_inv_def by force
  have inv': "sched_inv K ?st" if "\<And>r'. map_of (records st) ?k = Some r' \<Longrightarrow> rdirty r' \<Longrightarrow>
      rhash r' \<noteq> rhash r \<or> map_of (publishTimers st) ?k \<noteq> None"
    using t f keep dirty that unfolding sched_inv_def by force
  have clean: "sched_inv K (?st\<lparr>records := AList.update ?k (r'\<lparr>rdirty := False\<rparr>) (records st), persistence := p\<rparr>)" for r' p
    by (rule sched_inv_record [OF inv]) auto
  show ?thesis
    using Some x inv' clean sched_inv_weaken [OF sched_inv_schedule [OF inv, of n t retryDelay]]
    by (auto simp: publishDone_def Let_def split: outcome.split option.split)
qed (use assms in \<open>simp add: publishDone_def\<close>)

section \<open>Merged records\<close>

lemma mergeField_keeps: "(\<And>e. P (upd e) = P e) \<Longrightarrow> P (fst (mergeField c upd ec)) = P (fst ec)"
  by (simp add: mergeField_def)

lemma merged:
  assumes "mergeSameHashMetadata (Some e) h opts = Some e'"
  shows "rhash e' = rhash e" "rdirty e' = rdirty e" "\<not> rdirty e" "rupdatedAt e' = rupdatedAt e" "rhash e = h"
    "rkey e' = orElse (rkey e) (okey opts)"
proof -
  have guards: "\<not> rdirty e" "rhash e = h"
    using assms by (simp_all add: mergeSameHashMetadata_def toHex_eq_iff split: if_splits)
  have key: "rkey (fst (mergeField (rkey e = None \<and> okey opts \<noteq> None) (rkey_update (\<lambda>_. okey opts)) (e, False)))
      = orElse (rkey e) (okey opts)"
    by (auto simp: mergeField_def orElse_def split: option.split)
  have e': "e' = fst (mergeField (\<not> truthy (rselfEncryptedLinkKey e) \<and> truthy (oselfEncryptedLinkKey opts))
        (rselfEncryptedLinkKey_update (\<lambda>_. oselfEncryptedLinkKey opts))
      (mergeField (\<not> truthy (rselfEncryptedKey e) \<and> truthy (oselfEncryptedKey opts))
        (rselfEncryptedKey_update (\<lambda>_. oselfEncryptedKey opts))
      (mergeField (\<not> truthy (rkeyId e) \<and> truthy (okeyId opts)) (rkeyId_update (\<lambda>_. okeyId opts))
      (mergeField (\<not> truthy (rencryptedKey e) \<and> truthy (oencryptedKey opts)) (rencryptedKey_update (\<lambda>_. oencryptedKey opts))
      (mergeField (rvisibility e = Public \<and> ovisibility opts \<noteq> None \<and> ovisibility opts \<noteq> Some Public)
        (rvisibility_update (\<lambda>_. the (ovisibility opts)))
      (mergeField (rkey e = None \<and> okey opts \<noteq> None) (rkey_update (\<lambda>_. okey opts)) (e, False)))))))"
    using assms by (simp add: mergeSameHashMetadata_def Let_def split: if_splits)
  show "rhash e' = rhash e" "rdirty e' = rdirty e" "\<not> rdirty e" "rupdatedAt e' = rupdatedAt e" "rhash e = h"
      "rkey e' = orElse (rkey e) (okey opts)"
    using guards unfolding e' by (simp_all add: mergeField_keeps [where P = rhash] mergeField_keeps [where P = rdirty]
        mergeField_keeps [where P = rupdatedAt] mergeField_keeps [where P = rkey] key del: not_None_eq)
qed

section \<open>The contract of the persistent store\<close>

text \<open>A key of no bytes does not survive the stored form: its text is empty, which reads as no key.\<close>

definition rec_ok :: "TreeRootRecord \<Rightarrow> bool" where
  "rec_ok r \<longleftrightarrow> rkey r \<noteq> Some []"

definition opts_ok :: "RootOptions \<Rightarrow> bool" where
  "opts_ok opts \<longleftrightarrow> okey opts \<noteq> Some []"

section \<open>Steps\<close>

text \<open>Everything that can happen to a registry, one turn of the event loop at a time, in any order: the calls
  of clients, timeouts, and the ends of publications. Local writes have a proper name; keys are not
  empty. \<open>scheduled_step\<close> has the steps that keep the schedule: all but a call of
  \<open>cancelPendingPublish\<close> and a timer that fires while no publish function is set. \<open>registry_step\<close> has
  every step.\<close>

inductive scheduled_step :: "'p persistence_ops \<Rightarrow> 'p registry \<Rightarrow> 'p registry \<Rightarrow> bool"
  for ops :: "'p persistence_ops" where
  st_local: "name_ok n t \<Longrightarrow> opts_ok opts \<Longrightarrow> scheduled_step ops st (setLocal ops now n t h opts st)"
| st_resolver: "opts_ok opts \<Longrightarrow> scheduled_step ops st (snd (setFromResolver ops n t h at opts st))"
| st_worker: "opts_ok opts \<Longrightarrow> scheduled_step ops st (snd (setFromWorker ops n t h at opts st))"
| st_external: "key \<noteq> Some [] \<Longrightarrow> scheduled_step ops st (setFromExternal ops now n t h src key vis at' st)"
| st_mergeKey: "key \<noteq> [] \<Longrightarrow> scheduled_step ops st (snd (mergeKey ops n t h key st))"
| st_delete: "scheduled_step ops st (deleteRoot ops n t st)"
| st_subscribe: "scheduled_step ops st (subscribe n t c st)"
| st_unsubscribe: "scheduled_step ops st (unsubscribe n t c st)"
| st_subscribeAll: "scheduled_step ops st (subscribeAll c st)"
| st_unsubscribeAll: "scheduled_step ops st (unsubscribeAll c st)"
| st_resolve: "scheduled_step ops st (resolveRoot n t st)"
| st_resolveTimeout: "scheduled_step ops st (resolveTimeout w st)"
| st_timer: "publishFn st \<Longrightarrow> scheduled_step ops st (timerFires i st)"
| st_done: "scheduled_step ops st (publishDone ops i out st)"
| st_flush: "scheduled_step ops st (flushPendingPublishes st)"
| st_setPublishFn: "scheduled_step ops st (setPublishFn st)"

inductive registry_step :: "'p persistence_ops \<Rightarrow> 'p registry \<Rightarrow> 'p registry \<Rightarrow> bool"
  for ops :: "'p persistence_ops" where
  rs_scheduled: "scheduled_step ops st st' \<Longrightarrow> registry_step ops st st'"
| rs_timer: "registry_step ops st (timerFires i st)"
| rs_cancel: "registry_step ops st (cancelPendingPublish n t st)"

inductive_cases registry_stepE: "registry_step ops st st'"

text \<open>A history of a registry created on the store \<open>p\<close>, with the set of the keys whose timer was spent without
  a publish function, or cancelled, since the last local write of the key.\<close>

inductive registry_history :: "'p persistence_ops \<Rightarrow> 'p \<Rightarrow> string set \<Rightarrow> 'p registry \<Rightarrow> bool"
  for ops :: "'p persistence_ops" and p :: 'p where
  hi_new: "registry_history ops p {} (newRegistry ops p)"
| hi_local: "registry_history ops p K st \<Longrightarrow> name_ok n t \<Longrightarrow> opts_ok opts \<Longrightarrow>
    registry_history ops p (K - {makeKey n t}) (setLocal ops now n t h opts st)"
| hi_step: "registry_history ops p K st \<Longrightarrow> scheduled_step ops st st' \<Longrightarrow> registry_history ops p K st'"
| hi_early: "registry_history ops p K st \<Longrightarrow> \<not> publishFn st \<Longrightarrow> map_of (timeouts st) i = Some (n, t, d) \<Longrightarrow>
    registry_history ops p (insert (makeKey n t) K) (timerFires i st)"
| hi_cancel: "registry_history ops p K st \<Longrightarrow>
    registry_history ops p (insert (makeKey n t) K) (cancelPendingPublish n t st)"

text \<open>Every history of steps is one of these.\<close>

lemma history_step:
  assumes "registry_step ops st st'" "registry_history ops p K st"
  shows "\<exists>K'. registry_history ops p K' st'"
  using assms(1)
proof cases
  case rs_scheduled
  with assms(2) show ?thesis by (blast intro: hi_step)
next
  case (rs_timer i)
  show ?thesis
  proof (cases "map_of (timeouts st) i")
    case None
    with assms(2) rs_timer show ?thesis by (auto simp: timerFires_def)
  next
    case (Some x)
    obtain n t d where "x = (n, t, d)" by (cases x)
    with Some assms(2) rs_timer show ?thesis
      by (cases "publishFn st") (blast intro: hi_step st_timer hi_early)+
  qed
next
  case rs_cancel
  with assms(2) show ?thesis by (blast intro: hi_cancel)
qed

lemma steps_history:
  "(registry_step ops)\<^sup>*\<^sup>* (newRegistry ops p) st \<Longrightarrow> \<exists>K. registry_history ops p K st"
  by (induction rule: rtranclp_induct) (blast intro: hi_new history_step)+

text \<open>The steps of a runtime in which publications succeed.\<close>

inductive publish_step :: "'p persistence_ops \<Rightarrow> 'p registry \<Rightarrow> 'p registry \<Rightarrow> bool"
  for ops :: "'p persistence_ops" where
  ps_timer: "publish_step ops st (timerFires i st)"
| ps_done: "publish_step ops st (publishDone ops i Published st)"

lemma core_subscribe: "core (subscribe n t c st) = core st"
  by (simp add: subscribe_def Let_def split: option.split)

lemma core_unsubscribe: "core (unsubscribe n t c st) = core st"
  by (simp add: unsubscribe_def)

lemma core_subscribeAll: "core (subscribeAll c st) = core st"
  by (simp add: subscribeAll_def)

lemma core_unsubscribeAll: "core (unsubscribeAll c st) = core st"
  by (simp add: unsubscribeAll_def)

lemma core_resolveTimeout: "core (resolveTimeout w st) = core st"
  by (simp add: resolveTimeout_def split: option.split)

text \<open>Hydration, entry by entry.\<close>

lemma hydrateOne_eq:
  "hydrateOne (k, r) st =
     (let st1 = st\<lparr>records := AList.update k r (records st)\<rparr>
      in if rdirty r \<and> key_ok k then schedulePublish (fst (splitKey k)) (snd (splitKey k)) publishDelay st1 else st1)"
  by (simp add: hydrateOne_def key_ok_def Let_def split_beta)

lemma hydrateOne_simps [simp]:
  "records (hydrateOne kr st) = AList.update (fst kr) (snd kr) (records st)"
  "persistence (hydrateOne kr st) = persistence st" "inFlight (hydrateOne kr st) = inFlight st"
  by (cases kr; simp add: hydrateOne_eq Let_def)+

lemma hydrate_simps:
  "persistence (fold hydrateOne xs st) = persistence st" "inFlight (fold hydrateOne xs st) = inFlight st"
  by (induction xs arbitrary: st) simp_all

lemma hydrate_records:
  "distinct (map fst xs) \<Longrightarrow> map_of (records (fold hydrateOne xs st)) = map_of (records st) ++ map_of xs"
proof (induction xs arbitrary: st)
  case (Cons kr xs)
  have "map_of xs (fst kr) = None" using Cons.prems by (simp add: map_of_eq_None_iff)
  then have "(map_of (records st))(fst kr \<mapsto> snd kr) ++ map_of xs = map_of (records st) ++ map_of (kr # xs)"
    by (auto simp: map_add_def fun_eq_iff split: option.split)
  moreover have "map_of (records (hydrateOne kr st)) = (map_of (records st))(fst kr \<mapsto> snd kr)"
    by (simp only: hydrateOne_simps update_conv')
  ultimately show ?case using Cons.IH [of "hydrateOne kr st"] Cons.prems by (simp only: fold_simps list.map distinct.simps)
qed simp

lemma hydrateOne_sched:
  assumes "sched_inv {} st" "rdirty r \<Longrightarrow> key_ok k"
  shows "sched_inv {} (hydrateOne (k, r) st)"
proof -
  let ?st = "st\<lparr>records := AList.update k r (records st)\<rparr>"
  have st: "sched_inv (insert k K) st" for K using assms(1) sched_inv_mono by blast
  show ?thesis
  proof (cases "rdirty r")
    case True
    then have k: "key_ok k" "makeKey (fst (splitKey k)) (snd (splitKey k)) = k"
      using assms(2) by (simp_all add: key_ok_def makeKey_splitKey)
    have "sched_inv {k} ?st" by (rule sched_inv_record [OF st]) (use k in auto)
    from sched_inv_schedule [OF this, of "fst (splitKey k)" "snd (splitKey k)" publishDelay] k True
    show ?thesis by (simp add: hydrateOne_eq Let_def)
  next
    case False
    have "sched_inv {} ?st" by (rule sched_inv_record [OF st]) (use False in auto)
    with False show ?thesis by (simp add: hydrateOne_eq Let_def)
  qed
qed

lemma hydrate_sched:
  "sched_inv {} st \<Longrightarrow> \<forall>(k, r)\<in>set xs. rdirty r \<longrightarrow> key_ok k \<Longrightarrow> sched_inv {} (fold hydrateOne xs st)"
  by (induction xs arbitrary: st) (auto intro: hydrateOne_sched)

section \<open>The registry over a persistent store\<close>

text \<open>\<open>stored\<close> is what a process that starts on the store reads; \<open>reboot\<close> is the store as a new process finds
  it.\<close>

locale root_persistence =
  fixes ops :: "'p persistence_ops" and pinv :: "'p \<Rightarrow> bool" and stored :: "'p \<Rightarrow> string \<rightharpoonup> TreeRootRecord"
    and reboot :: "'p \<Rightarrow> 'p"
  assumes save_inv: "pinv p \<Longrightarrow> rec_ok r \<Longrightarrow> pinv (p_save ops k r p)"
    and save_stored: "pinv p \<Longrightarrow> rec_ok r \<Longrightarrow> stored (p_save ops k r p) = (stored p)(k \<mapsto> r)"
    and delete_inv: "pinv p \<Longrightarrow> pinv (p_delete ops k p)"
    and delete_stored: "pinv p \<Longrightarrow> stored (p_delete ops k p) = (stored p)(k := None)"
    and loadAll_inv: "pinv p \<Longrightarrow> pinv (snd (p_loadAll ops p))"
    and loadAll_stored: "pinv p \<Longrightarrow> stored (snd (p_loadAll ops p)) = stored p"
    and loadAll_all: "pinv p \<Longrightarrow> map_of (fst (p_loadAll ops p)) = stored p"
    and loadAll_distinct: "pinv p \<Longrightarrow> distinct (map fst (fst (p_loadAll ops p)))"
    and stored_ok: "pinv p \<Longrightarrow> stored p k = Some r \<Longrightarrow> rec_ok r"
    and reboot_inv: "pinv p \<Longrightarrow> pinv (reboot p)"
    and reboot_stored: "pinv p \<Longrightarrow> stored (reboot p) = stored p"
begin

definition saved :: "'p registry \<Rightarrow> bool" where
  "saved st \<longleftrightarrow> pinv (persistence st) \<and> stored (persistence st) = map_of (records st)"

definition reg_inv :: "string set \<Rightarrow> 'p registry \<Rightarrow> bool" where
  "reg_inv K st \<longleftrightarrow> sched_inv K st \<and> saved st"

lemma saved_cong: "records st = records st' \<Longrightarrow> persistence st = persistence st' \<Longrightarrow> saved st = saved st'"
  by (simp add: saved_def)

lemma reg_inv_core: "core st = core st' \<Longrightarrow> reg_inv K st = reg_inv K st'"
  using sched_inv_cong [of st st' K] saved_cong [of st st'] by (simp add: reg_inv_def core_eq_iff)

lemma saved_rec_ok: "saved st \<Longrightarrow> map_of (records st) k = Some r \<Longrightarrow> rec_ok r"
  using stored_ok [of "persistence st" k r] by (simp add: saved_def)

lemma saved_put: "saved st \<Longrightarrow> rec_ok r \<Longrightarrow> saved (putRecord ops k r st)"
  by (simp add: saved_def putRecord_def save_inv save_stored update_conv')

lemma sched_inv_put:
  "sched_inv (insert k K) st \<Longrightarrow> (rdirty r \<Longrightarrow> key_ok k \<and> (k \<in> K \<or> pendingAt st k (rhash r))) \<Longrightarrow>
   sched_inv K (putRecord ops k r st)"
  by (erule sched_inv_record) (auto simp: putRecord_def)

lemma put_inv:
  assumes "reg_inv K st" "rec_ok r" "rdirty r \<Longrightarrow> key_ok k \<and> (k \<in> K \<or> pendingAt st k (rhash r))"
  shows "reg_inv K (putRecord ops k r st)"
  using assms saved_put sched_inv_put [of k K st r] sched_inv_mono [of K st "insert k K"] by (auto simp: reg_inv_def)

lemma setLocal_inv:
  assumes "reg_inv K st" "name_ok n t" "opts_ok opts"
  shows "reg_inv (K - {makeKey n t}) (setLocal ops now n t h opts st)"
proof -
  let ?k = "makeKey n t"
  obtain r where r: "setLocal ops now n t h opts st = schedulePublish n t publishDelay (putRecord ops ?k r st)"
      "rec_ok r" "rdirty r"
    using assms(3) by (auto simp: setLocal_def Let_def rec_ok_def opts_ok_def)
  have "sched_inv (insert ?k (insert ?k K)) st"
    by (rule sched_inv_mono [of K]) (use assms(1) in \<open>auto simp: reg_inv_def\<close>)
  from sched_inv_put [OF this] assms(2) have "sched_inv (insert ?k K) (putRecord ops ?k r st)" by (simp add: key_ok_makeKey)
  from sched_inv_schedule [OF this, of n t publishDelay]
  have "sched_inv (K - {?k}) (setLocal ops now n t h opts st)" unfolding r(1) by simp
  moreover have "saved (schedulePublish n t publishDelay (putRecord ops ?k r st)) = saved (putRecord ops ?k r st)"
    by (rule saved_cong) simp_all
  ultimately show ?thesis using assms(1) r saved_put by (simp add: reg_inv_def)
qed

text \<open>What a report from elsewhere does to the record of a key.\<close>

lemma setRemote_cases:
  assumes "setRemote src ops n t h at opts st = (b, st')"
  obtains (same) "\<not> b" "st' = st" "map_of (records st) (makeKey n t) \<noteq> None"
  | (merge) e e' where "b" "map_of (records st) (makeKey n t) = Some e" "mergeSameHashMetadata (Some e) h opts = Some e'"
      "st' = putRecord ops (makeKey n t) e' st"
  | (accept) r where "b" "shouldAcceptUpdate (map_of (records st) (makeKey n t)) h (okey opts) at"
      "st' = putRecord ops (makeKey n t) r st" "rhash r = h" "rupdatedAt r = at" "\<not> rdirty r" "rsource r = src"
      "rkey r = orElse (okey opts) (case map_of (records st) (makeKey n t) of None \<Rightarrow> None
         | Some e \<Rightarrow> if rhash e = h then rkey e else None)"
proof (cases "shouldAcceptUpdate (map_of (records st) (makeKey n t)) h (okey opts) at")
  case True
  show thesis
    by (rule accept [of "remoteRecord src (map_of (records st) (makeKey n t)) h at opts"])
      (use assms True in \<open>auto simp: setRemote_def remoteRecord_def Let_def toHex_eq_iff split: option.split\<close>)
next
  case False
  then obtain e where e: "map_of (records st) (makeKey n t) = Some e"
    by (auto simp: shouldAcceptUpdate_def split: option.splits)
  show thesis
  proof (cases "mergeSameHashMetadata (Some e) h opts")
    case None
    show thesis by (rule same) (use assms False e None in \<open>auto simp: setRemote_def Let_def\<close>)
  next
    case (Some e')
    show thesis by (rule merge) (use assms False e Some in \<open>auto simp: setRemote_def Let_def\<close>)
  qed
qed

lemma accepted_ok:
  assumes "saved st" "opts_ok opts"
    and "rkey r = orElse (okey opts) (case map_of (records st) k of None \<Rightarrow> None | Some e \<Rightarrow> if rhash e = h then rkey e else None)"
  shows "rec_ok r"
  using assms saved_rec_ok [OF assms(1), of k] by (auto simp: rec_ok_def opts_ok_def orElse_def split: option.splits if_splits)

lemma merged_ok: "saved st \<Longrightarrow> opts_ok opts \<Longrightarrow> map_of (records st) k = Some e \<Longrightarrow> rkey e' = orElse (rkey e) (okey opts) \<Longrightarrow> rec_ok e'"
  using saved_rec_ok [of st k e] by (auto simp: rec_ok_def opts_ok_def orElse_def split: option.splits)

lemma setRemote_inv:
  assumes "reg_inv K st" "opts_ok opts"
  shows "reg_inv K (snd (setRemote src ops n t h at opts st))"
proof -
  have sv: "saved st" using assms(1) by (simp add: reg_inv_def)
  obtain b st' where eq: "setRemote src ops n t h at opts st = (b, st')" by (cases "setRemote src ops n t h at opts st")
  then have "reg_inv K st'"
  proof (cases rule: setRemote_cases)
    case same
    with assms show ?thesis by simp
  next
    case (merge e e')
    with merged [OF merge(3)] merged_ok [OF sv assms(2) merge(2), of e'] put_inv [OF assms(1), of e'] show ?thesis by simp
  next
    case (accept r)
    with accepted_ok [OF sv assms(2) accept(8)] put_inv [OF assms(1), of r] show ?thesis by simp
  qed
  with eq show ?thesis by simp
qed

lemma setFromExternal_inv:
  assumes "reg_inv K st" "key \<noteq> Some []"
  shows "reg_inv K (setFromExternal ops now n t h src key vis at st)"
proof -
  have sv: "saved st" using assms(1) by (simp add: reg_inv_def)
  let ?k = "makeKey n t" and ?o = "noOptions\<lparr>okey := key, ovisibility := vis\<rparr>"
  have o: "opts_ok ?o" using assms(2) by (simp add: opts_ok_def)
  have merge: "reg_inv K (putRecord ops ?k e' st)"
    if m: "mergeSameHashMetadata (map_of (records st) ?k) h ?o = Some e'" for e'
  proof -
    obtain e where e: "map_of (records st) ?k = Some e"
      using m by (cases "map_of (records st) ?k") (simp_all add: mergeSameHashMetadata_def)
    note m' = merged [OF m [unfolded e]]
    from merged_ok [OF sv o e m'(6)] put_inv [OF assms(1), of e'] m' show ?thesis by simp
  qed
  have accept: "reg_inv K (putRecord ops ?k r st)" if "\<not> rdirty r" "rkey r = orElse key (case map_of (records st) ?k of
      None \<Rightarrow> None | Some e \<Rightarrow> if rhash e = h then rkey e else None)" for r
    using that accepted_ok [OF sv o, of r h ?k] put_inv [OF assms(1), of r] by simp
  show ?thesis
    using assms(1) merge
    by (auto simp: setFromExternal_def Let_def toHex_eq_iff intro!: accept split: option.split)
qed

lemma mergeKey_inv:
  assumes "reg_inv K st" "k \<noteq> []"
  shows "reg_inv K (snd (mergeKey ops n t h k st))"
proof -
  have "reg_inv K (putRecord ops (makeKey n t) (e\<lparr>rkey := Some k\<rparr>) st)" if "map_of (records st) (makeKey n t) = Some e" for e
    using that assms by (intro put_inv) (auto simp: reg_inv_def sched_inv_def rec_ok_def)
  then show ?thesis using assms(1) by (auto simp: mergeKey_def Let_def split: option.split)
qed

lemma deleteRoot_inv:
  assumes "reg_inv K st"
  shows "reg_inv K (deleteRoot ops n t st)"
proof -
  let ?c = "cancelPendingPublish n t st"
  have c: "sched_inv (insert (makeKey n t) K) ?c" using assms sched_inv_cancel by (auto simp: reg_inv_def)
  have "sched_inv K (deleteRoot ops n t st)"
    by (rule sched_inv_unrecord [OF c]) (simp_all add: deleteRoot_def Let_def)
  moreover have "saved (deleteRoot ops n t st)"
    using assms by (simp add: reg_inv_def saved_def deleteRoot_def Let_def delete_inv delete_stored delete_conv')
  ultimately show ?thesis by (simp add: reg_inv_def)
qed

lemma publishDone_inv:
  assumes "reg_inv K st"
  shows "reg_inv K (publishDone ops i out st)"
proof -
  have sv: "saved st" using assms by (simp add: reg_inv_def)
  have "saved (publishDone ops i out st)"
  proof (cases "map_of (inFlight st) i")
    case (Some x)
    obtain n t r where x: "x = (n, t, r)" by (cases x)
    have "rec_ok (e\<lparr>rdirty := False\<rparr>)" if "map_of (records st) (makeKey n t) = Some e" for e
      using saved_rec_ok [OF sv that] by (simp add: rec_ok_def)
    then show ?thesis using Some x sv
      by (auto simp: publishDone_def Let_def saved_def save_inv save_stored update_conv' split: outcome.split option.split)
  qed (use sv in \<open>simp add: publishDone_def\<close>)
  with assms show ?thesis by (simp add: reg_inv_def sched_inv_publishDone)
qed

text \<open>Starting on a store.\<close>

lemma newRegistry_inv:
  assumes "pinv p" "\<And>k r. stored p k = Some r \<Longrightarrow> rdirty r \<Longrightarrow> key_ok k"
  shows "reg_inv {} (newRegistry ops p)" "map_of (records (newRegistry ops p)) = stored p" "inFlight (newRegistry ops p) = []"
proof -
  obtain xs p' where xs: "p_loadAll ops p = (xs, p')" by (cases "p_loadAll ops p")
  note load = loadAll_inv [OF assms(1)] loadAll_stored [OF assms(1)] loadAll_all [OF assms(1)] loadAll_distinct [OF assms(1)]
  let ?st0 = "\<lparr>records = [], listeners = [], globalListeners = [], persistence = p', publishTimers = [],
    publishFn = False, timeouts = [], inFlight = [], waiting = [], resolved = [], calls = [], nextId = 0\<rparr> :: 'p registry"
  have new: "newRegistry ops p = fold hydrateOne xs ?st0" by (simp add: newRegistry_def xs)
  have dirty: "\<forall>(k, r)\<in>set xs. rdirty r \<longrightarrow> key_ok k"
    using assms(2) load(3,4) xs by (force simp: map_of_eq_Some_iff [symmetric] simp del: map_of_eq_Some_iff)
  have "sched_inv {} ?st0" by (simp add: sched_inv_def timers_ok_def flights_ok_def)
  from hydrate_sched [OF this dirty] have "sched_inv {} (newRegistry ops p)" by (simp add: new)
  moreover show recs: "map_of (records (newRegistry ops p)) = stored p"
    using hydrate_records [of xs ?st0] load(3,4) xs by (simp add: new)
  ultimately show "reg_inv {} (newRegistry ops p)"
    using hydrate_simps [of xs ?st0] load(1,2) xs by (simp add: reg_inv_def saved_def new)
  show "inFlight (newRegistry ops p) = []" using hydrate_simps [of xs ?st0] by (simp add: new)
qed

lemma timer_keeps: "records (timerFires i st) = records st" "persistence (timerFires i st) = persistence st"
  by (simp_all add: timerFires_def split: option.split prod.split)

lemma step_inv: "scheduled_step ops st st' \<Longrightarrow> reg_inv K st \<Longrightarrow> reg_inv K st'"
proof (induction rule: scheduled_step.induct)
  case (st_local n t opts st now h)
  from setLocal_inv [OF st_local(3,1,2)] show ?case
    unfolding reg_inv_def by (blast intro: sched_inv_mono)
next
  case (st_timer st i)
  then show ?case using saved_cong [OF timer_keeps, of i st] by (simp add: reg_inv_def sched_inv_timerFires)
next
  case (st_flush st)
  have keep: "records (fold flushOne xs st) = records st \<and> persistence (fold flushOne xs st) = persistence st"
    for xs and st :: "'p registry" by (induction xs arbitrary: st) simp_all
  have "saved (flushPendingPublishes st) = saved st"
    by (rule saved_cong) (simp_all add: flushPendingPublishes_def keep)
  with st_flush show ?case by (simp add: reg_inv_def sched_inv_flush)
next
  case (st_setPublishFn st)
  then have "sched_inv K st" by (simp add: reg_inv_def)
  then have "sched_inv K (setPublishFn st)" by (rule sched_inv_later) (simp_all add: setPublishFn_def)
  with st_setPublishFn show ?case by (simp add: reg_inv_def setPublishFn_def saved_def)
next
  case (st_resolve st n t)
  have "sched_inv K st" using st_resolve by (simp add: reg_inv_def)
  then have "sched_inv K (st\<lparr>nextId := nextId st + 1\<rparr>)" by (rule sched_inv_later) simp_all
  then have "reg_inv K (st\<lparr>nextId := nextId st + 1\<rparr>)" using st_resolve by (simp add: reg_inv_def saved_def)
  moreover have "core (resolveRoot n t st) = core (st\<lparr>nextId := nextId st + 1\<rparr>)"
    by (simp add: resolveRoot_def Let_def split: option.split)
  ultimately show ?case using reg_inv_core by blast
next
  case (st_subscribe st n t c)
  then show ?case using reg_inv_core [OF core_subscribe] by blast
next
  case (st_unsubscribe st n t c)
  then show ?case using reg_inv_core [OF core_unsubscribe] by blast
next
  case (st_subscribeAll st c)
  then show ?case using reg_inv_core [OF core_subscribeAll] by blast
next
  case (st_unsubscribeAll st c)
  then show ?case using reg_inv_core [OF core_unsubscribeAll] by blast
next
  case (st_resolveTimeout st w)
  then show ?case using reg_inv_core [OF core_resolveTimeout] by blast
qed (simp_all only: setFromResolver_def setFromWorker_def setRemote_inv setFromExternal_inv mergeKey_inv
    deleteRoot_inv publishDone_inv simp_thms)

text \<open>The invariant along a history.\<close>

lemma history_inv:
  assumes "registry_history ops p K st" "pinv p" "\<And>k r. stored p k = Some r \<Longrightarrow> rdirty r \<Longrightarrow> key_ok k"
  shows "reg_inv K st"
  using assms(1)
proof induction
  case hi_new
  show ?case using assms(2,3) by (rule newRegistry_inv(1))
next
  case (hi_early K st i n t d)
  then have "sched_inv (insert (makeKey n t) K) (timerFires i st)"
    by (intro sched_inv_earlyTimer) (simp_all add: reg_inv_def)
  with hi_early saved_cong [OF timer_keeps, of i st] show ?case by (simp add: reg_inv_def)
next
  case (hi_cancel K st n t)
  moreover have "saved (cancelPendingPublish n t st) = saved st" by (rule saved_cong) simp_all
  ultimately show ?case by (simp add: reg_inv_def sched_inv_cancel)
qed (blast intro: setLocal_inv step_inv)+

lemma steps_inv:
  assumes "(registry_step ops)\<^sup>*\<^sup>* (newRegistry ops p) st" "pinv p"
    and "\<And>k r. stored p k = Some r \<Longrightarrow> rdirty r \<Longrightarrow> key_ok k"
  obtains K where "reg_inv K st"
proof -
  obtain K where "registry_history ops p K st" using steps_history [OF assms(1)] by blast
  from history_inv [OF this assms(2)] assms(3) that show thesis by blast
qed

text \<open>Progress: with a publish function, the pending timer and the end of the publication make a record
  clean.\<close>

lemma published_clean:
  assumes "map_of (inFlight st) i = Some (n, t, r0)" "rhash r0 = rhash r" "map_of (records st) (makeKey n t) = Some r"
  shows "map_of (records (publishDone ops i Published st)) = (map_of (records st))(makeKey n t \<mapsto> r\<lparr>rdirty := False\<rparr>)"
  using assms by (simp add: publishDone_def Let_def update_conv')

lemma timer_starts:
  assumes "reg_inv K st" "publishFn st" "map_of (timeouts st) i = Some (n, t, d)"
    and "map_of (records st) (makeKey n t) = Some r" "rdirty r"
  shows "map_of (inFlight (timerFires i st)) (nextId st) = Some (n, t, r)" "records (timerFires i st) = records st"
proof -
  have "nextId st \<notin> fst ` set (inFlight st)" using assms(1) by (auto simp: reg_inv_def sched_inv_def flights_ok_def)
  then have "map_of (inFlight st) (nextId st) = None" by (simp add: map_of_eq_None_iff)
  with assms(2-5) show "map_of (inFlight (timerFires i st)) (nextId st) = Some (n, t, r)"
    by (simp add: timerFires_def doPublish_def map_add_def)
  show "records (timerFires i st) = records st" using assms(3) by (simp add: timerFires_def)
qed

lemma publish_progress:
  assumes "reg_inv K st" "publishFn st" "map_of (records st) k = Some r" "rdirty r" "k \<notin> K"
  shows "\<exists>st'. (publish_step ops)\<^sup>*\<^sup>* st st' \<and> map_of (records st') = (map_of (records st))(k \<mapsto> r\<lparr>rdirty := False\<rparr>)"
proof -
  have "pendingAt st k (rhash r)" using assms by (auto simp: reg_inv_def sched_inv_def)
  then consider (timer) i where "map_of (publishTimers st) k = Some i"
    | (flight) i n t r0 where "(i, n, t, r0) \<in> set (inFlight st)" "makeKey n t = k" "rhash r0 = rhash r"
    unfolding pendingAt_def by blast
  then show ?thesis
  proof cases
    case timer
    then obtain n t d where o: "map_of (timeouts st) i = Some (n, t, d)" "makeKey n t = k"
      using assms(1) unfolding reg_inv_def sched_inv_def timers_ok_def by blast
    let ?st = "timerFires i st"
    note start = timer_starts [OF assms(1,2) o(1), unfolded o(2), OF assms(3,4)]
    have "map_of (records (publishDone ops (nextId st) Published ?st)) = (map_of (records st))(k \<mapsto> r\<lparr>rdirty := False\<rparr>)"
      using published_clean [OF start(1) refl] start(2) assms(3) o(2) by simp
    moreover have "(publish_step ops)\<^sup>*\<^sup>* st (publishDone ops (nextId st) Published ?st)"
      by (rule converse_rtranclp_into_rtranclp [OF ps_timer r_into_rtranclp [of "publish_step ops"]]) (rule ps_done)
    ultimately show ?thesis by blast
  next
    case flight
    then have "map_of (inFlight st) i = Some (n, t, r0)" using assms(1) by (simp add: reg_inv_def sched_inv_def flights_ok_def)
    from published_clean [OF this flight(3)] flight(2) assms(3)
    have "map_of (records (publishDone ops i Published st)) = (map_of (records st))(k \<mapsto> r\<lparr>rdirty := False\<rparr>)" by simp
    then show ?thesis using ps_done [of ops st i] by blast
  qed
qed

text \<open>What happens to a record with unpublished changes in one step.\<close>

lemma dirty_not_accepted: "rdirty e \<Longrightarrow> \<not> shouldAcceptUpdate (Some e) h key at \<and> mergeSameHashMetadata (Some e) h opts = None"
  by (simp add: shouldAcceptUpdate_def mergeSameHashMetadata_def)

lemma setRemote_dirty:
  "map_of (records st) (makeKey n t) = Some r \<Longrightarrow> rdirty r \<Longrightarrow> setRemote src ops n t h at opts st = (False, st)"
  by (simp add: setRemote_def dirty_not_accepted Let_def)

lemma setRemote_other: "k \<noteq> makeKey n t \<Longrightarrow> map_of (records (snd (setRemote src ops n t h at opts st))) k = map_of (records st) k"
  by (simp add: setRemote_def putRecord_def Let_def update_conv' split: option.split)

lemma setFromExternal_dirty:
  "map_of (records st) (makeKey n t) = Some r \<Longrightarrow> rdirty r \<Longrightarrow> setFromExternal ops now n t h src key vis at st = st"
  by (simp add: setFromExternal_def Let_def)

lemma setFromExternal_other:
  "k \<noteq> makeKey n t \<Longrightarrow> map_of (records (setFromExternal ops now n t h src key vis at st)) k = map_of (records st) k"
  by (simp add: setFromExternal_def putRecord_def Let_def update_conv' split: option.split)

lemma publishDone_dirty:
  assumes "map_of (records st) k = Some r" "rdirty r" "map_of (records (publishDone ops i out st)) k = Some r'" "\<not> rdirty r'"
  shows "\<exists>n t r0. map_of (inFlight st) i = Some (n, t, r0) \<and> makeKey n t = k \<and> rhash r0 = rhash r \<and> out = Published \<and>
    r' = r\<lparr>rdirty := False\<rparr>"
  using assms
  by (auto simp: publishDone_def Let_def update_conv' toHex_eq_iff split: option.splits outcome.splits if_splits)

lemma dirty_scheduled_step:
  assumes "scheduled_step ops st st'" "map_of (records st) k = Some r" "rdirty r"
    and "map_of (records st') k = Some r'" "\<not> rdirty r'"
  shows "\<exists>i n t r0. (i, n, t, r0) \<in> set (inFlight st) \<and> makeKey n t = k \<and> rhash r0 = rhash r \<and>
    r' = r\<lparr>rdirty := False\<rparr> \<and> st' = publishDone ops i Published st"
  using assms(1)
proof cases
  case (st_local n t opts now h)
  then have False using assms by (auto simp: setLocal_def putRecord_def Let_def update_conv' split: if_splits)
  then show ?thesis ..
next
  case (st_resolver opts n t h at)
  then have False using assms setRemote_dirty [of st n t r Nostr h at opts] setRemote_other [of k n t Nostr h at opts st]
    by (cases "k = makeKey n t") (auto simp: setFromResolver_def)
  then show ?thesis ..
next
  case (st_worker opts n t h at)
  then have False using assms setRemote_dirty [of st n t r Worker h at opts] setRemote_other [of k n t Worker h at opts st]
    by (cases "k = makeKey n t") (auto simp: setFromWorker_def)
  then show ?thesis ..
next
  case (st_external key now n t h src vis at)
  then have False using assms setFromExternal_dirty [of st n t r now h src key vis at]
      setFromExternal_other [of k n t now h src key vis at st]
    by (cases "k = makeKey n t") auto
  then show ?thesis ..
next
  case (st_mergeKey key n t h)
  then have False using assms
    by (auto simp: mergeKey_def putRecord_def Let_def update_conv' split: option.splits if_splits)
  then show ?thesis ..
next
  case (st_delete n t)
  then have False using assms by (auto simp: deleteRoot_def Let_def delete_conv' split: if_splits)
  then show ?thesis ..
next
  case (st_done i out)
  then show ?thesis using publishDone_dirty [of st k r i out r'] assms by (auto dest!: map_of_SomeD)
next
  case (st_timer i)
  then show ?thesis using assms by (auto simp: timerFires_def split: option.splits)
next
  case st_flush
  have keep: "records (fold flushOne xs st) = records st" for xs and st :: "'p registry"
    by (induction xs arbitrary: st) simp_all
  with st_flush assms show ?thesis by (auto simp: flushPendingPublishes_def)
next
  case st_setPublishFn
  with assms show ?thesis by (simp add: setPublishFn_def)
next
  case (st_resolve n t)
  then have "records st' = records st"
    by (auto simp: resolveRoot_def subscribeKey_def Let_def split: option.split)
  with assms show ?thesis by simp
next
  case (st_subscribe n t c)
  with assms core_subscribe [of n t c st] show ?thesis by (simp add: core_eq_iff)
next
  case (st_unsubscribe n t c)
  with assms core_unsubscribe [of n t c st] show ?thesis by (simp add: core_eq_iff)
next
  case (st_subscribeAll c)
  with assms core_subscribeAll [of c st] show ?thesis by (simp add: core_eq_iff)
next
  case (st_unsubscribeAll c)
  with assms core_unsubscribeAll [of c st] show ?thesis by (simp add: core_eq_iff)
next
  case (st_resolveTimeout w)
  with assms core_resolveTimeout [of w st] show ?thesis by (simp add: core_eq_iff)
qed

lemma dirty_step:
  assumes "registry_step ops st st'" "map_of (records st) k = Some r" "rdirty r"
    and "map_of (records st') k = Some r'" "\<not> rdirty r'"
  shows "\<exists>i n t r0. (i, n, t, r0) \<in> set (inFlight st) \<and> makeKey n t = k \<and> rhash r0 = rhash r \<and>
    r' = r\<lparr>rdirty := False\<rparr> \<and> st' = publishDone ops i Published st"
  using assms(1)
proof cases
  case rs_scheduled
  then show ?thesis using assms(2-) by (rule dirty_scheduled_step)
next
  case (rs_timer i)
  with assms timer_keeps [of i st] show ?thesis by simp
next
  case (rs_cancel n t)
  with assms show ?thesis by simp
qed

end

section \<open>The store in localStorage keeps the contract\<close>

definition ls_stored :: "local_storage \<Rightarrow> string \<rightharpoonup> TreeRootRecord" where
  "ls_stored p = map_of (case lsItem p of Item data \<Rightarrow> parseEntries data [] | _ \<Rightarrow> [])"

definition ls_reboot :: "local_storage \<Rightarrow> local_storage" where
  "ls_reboot p = p\<lparr>lsCache := None\<rparr>"

definition records_ok :: "(string \<times> TreeRootRecord) list \<Rightarrow> bool" where
  "records_ok c \<longleftrightarrow> distinct (map fst c) \<and> list_all (\<lambda>kr. rec_ok (snd kr)) c"

abbreviation serializeAll :: "(string \<times> TreeRootRecord) list \<Rightarrow> (string \<times> PersistedRecord) list" where
  "serializeAll c \<equiv> map (\<lambda>kr. (fst kr, serializeRecord (snd kr))) c"

text \<open>In a browser with room in its storage: the item is the text of some records, and the cache is empty or
  has the same records.\<close>

definition ls_holds :: "(string \<times> TreeRootRecord) list \<Rightarrow> local_storage \<Rightarrow> bool" where
  "ls_holds c p \<longleftrightarrow> lsWindow p \<and> \<not> lsFull p \<and> records_ok c \<and>
     (lsItem p = Item (serializeAll c) \<or> c = [] \<and> lsItem p = NoItem) \<and> (lsCache p = None \<or> lsCache p = Some c)"

definition ls_inv :: "local_storage \<Rightarrow> bool" where
  "ls_inv p \<longleftrightarrow> (\<exists>c. ls_holds c p)"

lemma deserialize_serialize: "rec_ok r \<Longrightarrow> deserializeRecord (serializeRecord r) = Some r"
  by (cases r) (auto simp: deserializeRecord_def serializeRecord_def rec_ok_def truthy_def toHex_eq_iff [of _ "[]", simplified]
      split: option.split)

lemma update_new: "k \<notin> fst ` set al \<Longrightarrow> AList.update k v al = al @ [(k, v)]"
  by (induction al) auto

lemma parse_serializeAll:
  "records_ok c \<Longrightarrow> fst ` set acc \<inter> fst ` set c = {} \<Longrightarrow> parseEntries (serializeAll c) acc = acc @ c"
proof (induction c arbitrary: acc)
  case (Cons kr c)
  then have "parseEntries (serializeAll (kr # c)) acc = parseEntries (serializeAll c) (acc @ [kr])"
    by (auto simp: records_ok_def deserialize_serialize update_new)
  with Cons show ?case by (auto simp: records_ok_def)
qed simp

lemma ls_holds_stored: "ls_holds c p \<Longrightarrow> ls_stored p = map_of c"
  by (auto simp: ls_holds_def ls_stored_def parse_serializeAll)

lemma ls_holds_loadAll: "ls_holds c p \<Longrightarrow> fst (ls_loadAll p) = c \<and> ls_holds c (snd (ls_loadAll p))"
  by (auto simp: ls_holds_def ls_loadAll_def Let_def parse_serializeAll)

lemma ls_holds_cached: "ls_holds c p \<Longrightarrow> fst (ls_cached p) = c \<and> ls_holds c (snd (ls_cached p))"
  using ls_holds_loadAll [of c p] by (auto simp: ls_cached_def ls_holds_def split: option.split prod.split)

lemma ls_holds_persist: "ls_holds c p \<Longrightarrow> records_ok c' \<Longrightarrow> ls_holds c' (ls_persist c' p)"
  by (simp add: ls_holds_def ls_persist_def)

lemma records_ok_update: "records_ok c \<Longrightarrow> rec_ok r \<Longrightarrow> records_ok (AList.update k r c)"
  by (induction c) (auto simp: records_ok_def AList.update_keys dest: distinct_update)

lemma records_ok_delete: "records_ok c \<Longrightarrow> records_ok (AList.delete k c)"
  by (auto simp: records_ok_def list_all_iff set_alist_delete intro: distinct_delete)

lemma ls_holds_save: "ls_holds c p \<Longrightarrow> rec_ok r \<Longrightarrow> ls_holds (AList.update k r c) (ls_save k r p)"
  using ls_holds_cached [of c p] ls_holds_persist [of c "snd (ls_cached p)" "AList.update k r c"] records_ok_update [of c r k]
  by (auto simp: ls_save_def ls_holds_def [of c p] split: prod.split)

lemma ls_holds_delete: "ls_holds c p \<Longrightarrow> ls_holds (AList.delete k c) (ls_delete k p)"
  using ls_holds_cached [of c p] ls_holds_persist [of c "snd (ls_cached p)" "AList.delete k c"] records_ok_delete [of c k]
  by (auto simp: ls_delete_def ls_holds_def [of c p] split: prod.split)

lemma ls_holds_reboot: "ls_holds c p \<Longrightarrow> ls_holds c (ls_reboot p)"
  by (simp add: ls_holds_def ls_reboot_def)

lemma LocalStorage_simps [simp]:
  "p_save LocalStoragePersistence = ls_save" "p_load LocalStoragePersistence = ls_load"
  "p_delete LocalStoragePersistence = ls_delete" "p_loadAll LocalStoragePersistence = ls_loadAll"
  by (simp_all add: LocalStoragePersistence_def)

interpretation roots: root_persistence LocalStoragePersistence ls_inv ls_stored ls_reboot
proof
  fix p k r
  assume inv: "ls_inv p"
  then obtain c where c: "ls_holds c p" by (auto simp: ls_inv_def)
  note facts = ls_holds_stored [OF c] ls_holds_loadAll [OF c] ls_holds_delete [OF c] ls_holds_reboot [OF c]
  show "ls_inv (p_delete LocalStoragePersistence k p)" "ls_inv (snd (p_loadAll LocalStoragePersistence p))" "ls_inv (ls_reboot p)"
    using facts by (auto simp: ls_inv_def)
  show "ls_stored (p_delete LocalStoragePersistence k p) = (ls_stored p)(k := None)"
    using ls_holds_stored [OF facts(3)] facts(1) by (simp add: delete_conv')
  show "ls_stored (snd (p_loadAll LocalStoragePersistence p)) = ls_stored p"
    "map_of (fst (p_loadAll LocalStoragePersistence p)) = ls_stored p" "ls_stored (ls_reboot p) = ls_stored p"
    using facts ls_holds_stored by auto
  show "distinct (map fst (fst (p_loadAll LocalStoragePersistence p)))"
    using facts(2) c by (simp add: ls_holds_def records_ok_def)
  show "rec_ok r" if "ls_stored p k = Some r"
    using that facts(1) c by (auto simp: ls_holds_def records_ok_def list_all_iff dest!: map_of_SomeD)
  show "ls_inv (p_save LocalStoragePersistence k r p)" if "rec_ok r"
    using ls_holds_save [OF c that] by (auto simp: ls_inv_def)
  show "ls_stored (p_save LocalStoragePersistence k r p) = (ls_stored p)(k \<mapsto> r)" if "rec_ok r"
    using ls_holds_stored [OF ls_holds_save [OF c that]] facts(1) by (simp add: update_conv')
qed

end
