(* ===== verification/TreeRootProps.thy ===== *)
theory TreeRootProps
  imports TreeRootSpec
begin

text \<open>The properties of the registry of tree roots over \<open>localStorage\<close>.\<close>

section \<open>A sample\<close>

definition sampleStorage :: local_storage where
  "sampleStorage = \<lparr>lsWindow = True, lsFull = False, lsItem = NoItem, lsCache = None\<rparr>"

definition sampleWritten :: "local_storage registry" where
  "sampleWritten = setLocal LocalStoragePersistence 5000 ''npub1'' ''home'' [1, 2] noOptions
     (newRegistry LocalStoragePersistence sampleStorage)"

definition samplePublishing :: "local_storage registry" where
  "samplePublishing = setPublishFn sampleWritten"

definition sampleRoot :: TreeRootRecord where
  "sampleRoot = \<lparr>rhash = [1, 2], rkey = None, rvisibility = Public, rupdatedAt = 5, rsource = LocalWrite, rdirty = True,
     rencryptedKey = None, rkeyId = None, rselfEncryptedKey = None, rselfEncryptedLinkKey = None\<rparr>"

lemma sample_storage: "ls_inv sampleStorage" "ls_stored sampleStorage = Map.empty"
  by (auto simp: ls_inv_def ls_holds_def records_ok_def sampleStorage_def ls_stored_def intro!: exI [of _ "[]"])

lemma sample_history:
  "registry_history LocalStoragePersistence sampleStorage ({} - {makeKey ''npub1'' ''home''}) samplePublishing"
proof -
  have "registry_history LocalStoragePersistence sampleStorage ({} - {makeKey ''npub1'' ''home''}) sampleWritten"
    unfolding sampleWritten_def by (rule hi_local [OF hi_new]) (simp_all add: name_ok_def opts_ok_def noOptions_def)
  then show ?thesis unfolding samplePublishing_def by (rule hi_step) (rule st_setPublishFn)
qed

lemma sample_steps:
  "(registry_step LocalStoragePersistence)\<^sup>*\<^sup>* (newRegistry LocalStoragePersistence sampleStorage) samplePublishing"
proof -
  have "registry_step LocalStoragePersistence (newRegistry LocalStoragePersistence sampleStorage) sampleWritten"
    unfolding sampleWritten_def by (rule rs_scheduled, rule st_local) (simp_all add: name_ok_def opts_ok_def noOptions_def)
  moreover have "registry_step LocalStoragePersistence sampleWritten samplePublishing"
    unfolding samplePublishing_def by (rule rs_scheduled, rule st_setPublishFn)
  ultimately show ?thesis by (meson converse_rtranclp_into_rtranclp r_into_rtranclp)
qed

lemma sample_record: "map_of (records samplePublishing) ''npub1/home'' = Some sampleRoot" "publishFn samplePublishing"
  by (code_simp, code_simp)

section \<open>Properties\<close>

text \<open>C20. A local write is not forgotten while its timer is not wasted. Take any history of a registry created
  on a persistent store: calls of clients, timeouts, failed and successful publications, calls of
  \<open>cancelPendingPublish\<close>, in any order, and let \<open>K\<close> be the keys whose timer fired while no publish
  function was set, or was cancelled, since their last local write. Once a publish function is set, a
  record with unpublished changes whose key is not in \<open>K\<close> can still be published: the pending timer or the
  running publication leads to a state in which exactly this record has become clean and all the others
  are as they were. For keys in \<open>K\<close> this fails, as \<open>early_timer_forgotten\<close> below shows.\<close>

theorem root_write_published:
  assumes "ls_inv p" "\<forall>k r. ls_stored p k = Some r \<and> rdirty r \<longrightarrow> key_ok k"
    and "registry_history LocalStoragePersistence p K st"
    and "publishFn st" "map_of (records st) k = Some r" "rdirty r" "k \<notin> K"
  shows "\<exists>st'. (publish_step LocalStoragePersistence)\<^sup>*\<^sup>* st st' \<and>
    map_of (records st') = (map_of (records st))(k \<mapsto> r\<lparr>rdirty := False\<rparr>)"
proof -
  have "roots.reg_inv K st" using roots.history_inv [OF assms(3,1)] assms(2) by blast
  from roots.publish_progress [OF this assms(4-7)] show ?thesis .
qed

theorem root_write_published_witness:
  "\<exists>st'. (publish_step LocalStoragePersistence)\<^sup>*\<^sup>* samplePublishing st' \<and>
     map_of (records st') = (map_of (records samplePublishing))(''npub1/home'' \<mapsto> sampleRoot\<lparr>rdirty := False\<rparr>)"
  by (rule root_write_published [OF sample_storage(1) _ sample_history])
     (simp_all add: sample_storage sample_record, simp add: sampleRoot_def)

text \<open>C22. A local write is not lost to reports from elsewhere: a step after which a record with unpublished
  changes is clean is the end of a successful publication of the hash the record has; nothing else of the
  record changes in it.\<close>

theorem root_dirty_until_published:
  assumes "registry_step LocalStoragePersistence st st'" "map_of (records st) k = Some r" "rdirty r"
    and "map_of (records st') k = Some r'" "\<not> rdirty r'"
  shows "\<exists>i n t r0. (i, n, t, r0) \<in> set (inFlight st) \<and> makeKey n t = k \<and> rhash r0 = rhash r \<and>
    r' = r\<lparr>rdirty := False\<rparr> \<and> st' = publishDone LocalStoragePersistence i Published st"
  using assms by (rule roots.dirty_step)

theorem root_dirty_until_published_witness:
  "\<exists>i n t r0. (i, n, t, r0) \<in> set (inFlight (timerFires 0 samplePublishing)) \<and> makeKey n t = ''npub1/home'' \<and> rhash r0 = [1, 2]"
proof -
  let ?st = "timerFires 0 samplePublishing"
  have r: "map_of (records ?st) ''npub1/home'' = Some sampleRoot" by code_simp
  have r': "map_of (records (publishDone LocalStoragePersistence 1 Published ?st)) ''npub1/home'' = Some (sampleRoot\<lparr>rdirty := False\<rparr>)"
    by code_simp
  have d: "rdirty sampleRoot" "\<not> rdirty (sampleRoot\<lparr>rdirty := False\<rparr>)" "rhash sampleRoot = [1, 2]"
    by (simp_all add: sampleRoot_def)
  show ?thesis
    using root_dirty_until_published [OF rs_scheduled [OF st_done] r d(1) r' d(2)] unfolding d(3) by blast
qed

text \<open>C21. A restart loses nothing: a registry created on what any reachable state has left in \<open>localStorage\<close> has
  the same records, and a timer for every record with unpublished changes.\<close>

theorem root_restart:
  assumes "ls_inv p" "\<forall>k r. ls_stored p k = Some r \<and> rdirty r \<longrightarrow> key_ok k"
    and "(registry_step LocalStoragePersistence)\<^sup>*\<^sup>* (newRegistry LocalStoragePersistence p) st"
  defines "st2 \<equiv> newRegistry LocalStoragePersistence (ls_reboot (persistence st))"
  shows "map_of (records st2) = map_of (records st) \<and>
    (\<forall>k r. map_of (records st) k = Some r \<and> rdirty r \<longrightarrow> map_of (publishTimers st2) k \<noteq> None)"
proof -
  obtain K where "roots.reg_inv K st" using roots.steps_inv [OF assms(3,1)] assms(2) by blast
  then have st: "ls_inv (persistence st)" "ls_stored (persistence st) = map_of (records st)" "sched_inv K st"
    by (simp_all add: roots.reg_inv_def roots.saved_def)
  note reboot = roots.reboot_inv [OF st(1)] roots.reboot_stored [OF st(1)]
  have dirty: "key_ok k" if "ls_stored (ls_reboot (persistence st)) k = Some r" "rdirty r" for k r
    using that st(2,3) reboot(2) by (auto simp: sched_inv_def)
  note new = roots.newRegistry_inv [OF reboot(1) dirty, folded st2_def]
  have "map_of (publishTimers st2) k \<noteq> None" if "map_of (records st) k = Some r" "rdirty r" for k r
    using that new st(2) reboot(2) by (simp add: roots.reg_inv_def sched_inv_def pendingAt_def)
  with new(2) st(2) reboot(2) show ?thesis by simp
qed

theorem root_restart_witness:
  "map_of (publishTimers (newRegistry LocalStoragePersistence (ls_reboot (persistence samplePublishing)))) ''npub1/home'' \<noteq> None"
  using root_restart [OF sample_storage(1) _ sample_steps] sample_record(1)
  by (simp add: sample_storage sampleRoot_def)

text \<open>What a report from Nostr does to a known record: it never makes the record older; it does not touch
  unpublished local changes, and answers false only when nothing changed; a strictly newer report replaces
  the hash; and a known key survives as long as the hash is the same.\<close>

theorem root_remote_update:
  assumes "map_of (records st) (makeKey n t) = Some e"
    and "setFromResolver LocalStoragePersistence n t h at opts st = (b, st')"
  shows "\<exists>r'. map_of (records st') (makeKey n t) = Some r' \<and> rupdatedAt e \<le> rupdatedAt r' \<and>
    (rdirty e \<longrightarrow> st' = st) \<and> (\<not> b \<longrightarrow> st' = st) \<and>
    (\<not> rdirty e \<and> rupdatedAt e < at \<longrightarrow> rhash r' = h \<and> rupdatedAt r' = at) \<and>
    (rhash r' = rhash e \<and> rkey e \<noteq> None \<longrightarrow> rkey r' \<noteq> None)"
  using assms(2) [unfolded setFromResolver_def]
proof (cases rule: roots.setRemote_cases)
  case same
  have "rdirty e \<or> \<not> rupdatedAt e < at"
    using assms same(1) by (auto simp: setFromResolver_def setRemote_def shouldAcceptUpdate_def Let_def split: if_splits option.splits)
  with same assms(1) show ?thesis by auto
next
  case (merge e' e'')
  have "\<not> rupdatedAt e < at"
  proof
    assume "rupdatedAt e < at"
    with assms merge have "st' = putRecord LocalStoragePersistence (makeKey n t) (remoteRecord Nostr (Some e) h at opts) st"
      by (auto simp: setFromResolver_def setRemote_def shouldAcceptUpdate_def Let_def dest: merged)
    then have "map_of (records st') (makeKey n t) = Some (remoteRecord Nostr (Some e) h at opts)"
      by (simp add: putRecord_def update_conv')
    moreover have "map_of (records st') (makeKey n t) = Some e''" using merge(4) by (simp add: putRecord_def update_conv')
    ultimately have "rupdatedAt e'' = at" by (simp add: remoteRecord_def Let_def)
    with merged(4) [OF merge(3)] merge(2) assms(1) \<open>rupdatedAt e < at\<close> show False by simp
  qed
  with merged [OF merge(3)] merge assms(1) show ?thesis
    by (auto simp: putRecord_def update_conv' orElse_def split: option.splits)
next
  case (accept r)
  then have "\<not> rdirty e" "rupdatedAt e \<le> at"
    using assms(1) by (auto simp: shouldAcceptUpdate_def split: if_splits)
  with accept assms(1) show ?thesis
    by (auto simp: putRecord_def update_conv' orElse_def split: option.splits)
qed

theorem root_remote_update_witness:
  "setFromResolver LocalStoragePersistence ''npub1'' ''home'' [9] 100 noOptions samplePublishing = (False, samplePublishing)"
proof -
  obtain b st' where eq: "setFromResolver LocalStoragePersistence ''npub1'' ''home'' [9] 100 noOptions samplePublishing = (b, st')"
    by fastforce
  have "fst (setFromResolver LocalStoragePersistence ''npub1'' ''home'' [9] 100 noOptions samplePublishing) = False" by code_simp
  with eq have "\<not> b" by simp
  moreover have "map_of (records samplePublishing) (makeKey ''npub1'' ''home'') = Some sampleRoot"
    using sample_record by (simp add: makeKey_def)
  ultimately have "st' = samplePublishing" using root_remote_update [OF _ eq] by blast
  with eq \<open>\<not> b\<close> show ?thesis by simp
qed

text \<open>A timer that fires while no publish function is set is spent: after the function is set, the local
  write has neither a timer nor a publication.\<close>

lemma early_timer_forgotten:
  "let st = setPublishFn (timerFires 0 sampleWritten)
   in map_of (records st) ''npub1/home'' = Some sampleRoot \<and> publishFn st \<and> publishTimers st = [] \<and> timeouts st = [] \<and> inFlight st = []"
  by code_simp

end
