(* ===== verification/BoundedQueue.thy ===== *)
theory BoundedQueue
  imports Main "HOL-Library.Sublist"
begin

text \<open>
  The bounded queue of the peer-to-peer code (\<open>hashtree-worker/src/p2p/boundedQueue.ts\<close>): a FIFO queue with
  a limit on the number of items and on their bytes, which drops the oldest items to make room. The
  callback \<open>onDrop\<close> is the list of its calls in the result of \<open>push\<close>.

  \<open>bqueue\<close> is the contract of a queue that drops: after a push the queue is an end of the old queue with
  the new item behind it.
\<close>

section \<open>Model\<close>

record 'a BoundedQueue =
  bqItems :: "'a list"
  bqBytesUsed :: int
  bqMaxItems :: int
  bqMaxBytes :: int
  bqGetBytes :: "'a \<Rightarrow> int"

datatype dropReason = ReasonItems | ReasonBytes

definition bq_new :: "int \<Rightarrow> int \<Rightarrow> ('a \<Rightarrow> int) \<Rightarrow> 'a BoundedQueue" where
  "bq_new maxItems maxBytes getBytes = \<lparr>bqItems = [], bqBytesUsed = 0, bqMaxItems = maxItems, bqMaxBytes = maxBytes,
     bqGetBytes = getBytes\<rparr>"

text \<open>The loop that drops; \<open>items\<close> is consumed from the front. It returns what is left, the bytes, and the
  calls of \<open>onDrop\<close> (one per dropped item).\<close>

fun dropLoop :: "int \<Rightarrow> int \<Rightarrow> ('a \<Rightarrow> int) \<Rightarrow> int \<Rightarrow> 'a list \<Rightarrow> int \<Rightarrow> 'a list \<times> int \<times> ('a \<times> dropReason) list" where
  "dropLoop maxItems maxBytes getBytes itemBytes [] bytesUsed = ([], bytesUsed, [])"
| "dropLoop maxItems maxBytes getBytes itemBytes (droppedItem # items) bytesUsed =
     (if int (length (droppedItem # items)) \<ge> maxItems \<or> bytesUsed + itemBytes > maxBytes
      then (let reason = (if int (length items) \<ge> maxItems then ReasonItems else ReasonBytes) in
            case dropLoop maxItems maxBytes getBytes itemBytes items (bytesUsed - getBytes droppedItem) of
              (left, bytes, dropped) \<Rightarrow> (left, bytes, (droppedItem, reason) # dropped))
      else (droppedItem # items, bytesUsed, []))"

definition bq_push :: "'a \<Rightarrow> 'a BoundedQueue \<Rightarrow> (nat \<times> ('a \<times> dropReason) list) \<times> 'a BoundedQueue" where
  "bq_push item q =
     (let itemBytes = bqGetBytes q item in
      case dropLoop (bqMaxItems q) (bqMaxBytes q) (bqGetBytes q) itemBytes (bqItems q) (bqBytesUsed q) of
        (items, bytes, dropped) \<Rightarrow>
          ((length dropped, dropped), q\<lparr>bqItems := items @ [item], bqBytesUsed := bytes + itemBytes\<rparr>))"

definition bq_shift :: "'a BoundedQueue \<Rightarrow> 'a option \<times> 'a BoundedQueue" where
  "bq_shift q = (case bqItems q of
     [] \<Rightarrow> (None, q)
   | item # items \<Rightarrow> (Some item, q\<lparr>bqItems := items, bqBytesUsed := bqBytesUsed q - bqGetBytes q item\<rparr>))"

definition bq_peek :: "'a BoundedQueue \<Rightarrow> 'a option" where
  "bq_peek q = (case bqItems q of [] \<Rightarrow> None | item # _ \<Rightarrow> Some item)"

definition bq_clear :: "'a BoundedQueue \<Rightarrow> 'a BoundedQueue" where
  "bq_clear q = q\<lparr>bqItems := [], bqBytesUsed := 0\<rparr>"

definition bq_length :: "'a BoundedQueue \<Rightarrow> nat" where
  "bq_length q = length (bqItems q)"

definition bq_bytes :: "'a BoundedQueue \<Rightarrow> int" where
  "bq_bytes q = bqBytesUsed q"

definition bq_isEmpty :: "'a BoundedQueue \<Rightarrow> bool" where
  "bq_isEmpty q \<longleftrightarrow> length (bqItems q) = 0"

definition bq_isFullItems :: "'a BoundedQueue \<Rightarrow> bool" where
  "bq_isFullItems q \<longleftrightarrow> int (length (bqItems q)) \<ge> bqMaxItems q"

definition bq_isFullBytes :: "'a BoundedQueue \<Rightarrow> bool" where
  "bq_isFullBytes q \<longleftrightarrow> bqBytesUsed q \<ge> bqMaxBytes q"

definition bq_toArray :: "'a BoundedQueue \<Rightarrow> 'a list" where
  "bq_toArray q = bqItems q"

section \<open>The loop\<close>

definition over :: "int \<Rightarrow> int \<Rightarrow> ('a \<Rightarrow> int) \<Rightarrow> int \<Rightarrow> 'a list \<Rightarrow> bool" where
  "over maxItems maxBytes getBytes itemBytes items \<longleftrightarrow>
     items \<noteq> [] \<and> (int (length items) \<ge> maxItems \<or> sum_list (map getBytes items) + itemBytes > maxBytes)"

text \<open>The loop leaves the longest end that is not over the limits.\<close>

lemma dropLoop_spec:
  assumes "dropLoop mi mb gb ib items used = (left, bytes, dropped)" "used = sum_list (map gb items)"
  shows "items = map fst dropped @ left \<and> bytes = sum_list (map gb left) \<and> \<not> over mi mb gb ib left \<and>
    (\<forall>pre post. map fst dropped = pre @ post \<and> post \<noteq> [] \<longrightarrow> over mi mb gb ib (post @ left))"
  using assms
proof (induction mi mb gb ib items used arbitrary: left bytes dropped rule: dropLoop.induct)
  case (2 mi mb gb ib x xs used)
  show ?case
  proof (cases "over mi mb gb ib (x # xs)")
    case True
    then obtain dr where loop: "dropLoop mi mb gb ib xs (used - gb x) = (left, bytes, dr)"
        and dropped: "dropped = (x, if int (length xs) \<ge> mi then ReasonItems else ReasonBytes) # dr"
      using 2(2,3) by (auto simp: over_def Let_def split: prod.splits if_splits)
    have IH: "xs = map fst dr @ left \<and> bytes = sum_list (map gb left) \<and> \<not> over mi mb gb ib left \<and>
        (\<forall>pre post. map fst dr = pre @ post \<and> post \<noteq> [] \<longrightarrow> over mi mb gb ib (post @ left))"
      using 2(1) loop 2(3) True by (auto simp: over_def)
    have "over mi mb gb ib (post @ left)" if "map fst dropped = pre @ post" "post \<noteq> []" for pre post
    proof (cases pre)
      case Nil
      then show ?thesis using that dropped IH True by auto
    next
      case (Cons y ys)
      then show ?thesis using that dropped IH by auto
    qed
    with IH dropped show ?thesis by simp
  next
    case False
    then show ?thesis using 2(2,3) by (auto simp: over_def split: if_splits)
  qed
qed (auto simp: over_def)

lemma dropLoop_reason:
  "dropLoop mi mb gb ib items used = (left, bytes, dropped) \<Longrightarrow> int (length items) \<le> mi \<Longrightarrow> \<forall>d\<in>set dropped. snd d = ReasonBytes"
proof (induction mi mb gb ib items used arbitrary: left bytes dropped rule: dropLoop.induct)
  case (2 mi mb gb ib x xs used)
  then show ?case by (fastforce simp: Let_def split: if_splits prod.splits)
qed auto

section \<open>The contract\<close>

text \<open>A run of a queue: pushes (\<open>Some x\<close>) and shifts (\<open>None\<close>); the items taken out are collected in order.\<close>

fun queueRun :: "('a \<Rightarrow> 'q \<Rightarrow> 'q) \<Rightarrow> ('q \<Rightarrow> 'a option \<times> 'q) \<Rightarrow> 'a option list \<Rightarrow> 'q \<Rightarrow> 'a list \<times> 'q" where
  "queueRun push shift [] q = ([], q)"
| "queueRun push shift (Some x # ops) q = queueRun push shift ops (push x q)"
| "queueRun push shift (None # ops) q = (case shift q of (r, q') \<Rightarrow> case queueRun push shift ops q' of (out, q'') \<Rightarrow>
     ((case r of None \<Rightarrow> out | Some x \<Rightarrow> x # out), q''))"

fun pushed :: "'a option list \<Rightarrow> 'a list" where
  "pushed [] = []"
| "pushed (Some x # ops) = x # pushed ops"
| "pushed (None # ops) = pushed ops"

text \<open>A queue that may drop from the front: what it holds, its invariant, and its operations.\<close>

locale dropping_queue =
  fixes items :: "'q \<Rightarrow> 'a list" and push :: "'a \<Rightarrow> 'q \<Rightarrow> 'q" and shift :: "'q \<Rightarrow> 'a option \<times> 'q" and qinv :: "'q \<Rightarrow> bool"
  assumes push_inv: "qinv q \<Longrightarrow> qinv (push x q)"
    and push_items: "qinv q \<Longrightarrow> \<exists>n. items (push x q) = drop n (items q) @ [x]"
    and shift_inv: "qinv q \<Longrightarrow> qinv (snd (shift q))"
    and shift_items: "qinv q \<Longrightarrow> fst (shift q) = (case items q of [] \<Rightarrow> None | x # _ \<Rightarrow> Some x) \<and> items (snd (shift q)) = tl (items q)"
begin

text \<open>First in, first out: what comes out, followed by what is left, is what went in, in order, less the
  items that were dropped.\<close>

lemma fifo: "qinv q \<Longrightarrow> queueRun push shift ops q = (out, q') \<Longrightarrow> qinv q' \<and> subseq (out @ items q') (items q @ pushed ops)"
proof (induction ops arbitrary: q out)
  case (Cons op ops)
  show ?case
  proof (cases op)
    case (Some x)
    obtain n where n: "items (push x q) = drop n (items q) @ [x]" using push_items [OF Cons.prems(1)] by blast
    have IH: "qinv q'" "subseq (out @ items q') (items (push x q) @ pushed ops)"
      using Cons.IH [OF push_inv [OF Cons.prems(1)]] Cons.prems(2) Some by auto
    have "subseq (drop n (items q) @ x # pushed ops) (items q @ pushed (Some x # ops))"
      using suffix_imp_subseq [OF suffix_drop, of n "items q"] by (simp add: list_emb_append_mono)
    with IH n Some show ?thesis by (metis append_Cons append_Nil append_assoc subseq_order.trans)
  next
    case None
    obtain out1 where run: "queueRun push shift ops (snd (shift q)) = (out1, q')"
        and out: "out = (case fst (shift q) of None \<Rightarrow> out1 | Some x \<Rightarrow> x # out1)"
      using Cons.prems(2) None by (auto split: prod.splits)
    have "qinv q'" "subseq (out1 @ items q') (items (snd (shift q)) @ pushed ops)"
      using Cons.IH [OF shift_inv [OF Cons.prems(1)] run] by auto
    then show ?thesis using out None shift_items [OF Cons.prems(1)] by (cases "items q") auto
  qed
qed simp

end

section \<open>The queue keeps the contract\<close>

text \<open>The counter agrees with the items, and the limits hold; a single item is admitted whatever its size.\<close>

definition bq_inv :: "'a BoundedQueue \<Rightarrow> bool" where
  "bq_inv q \<longleftrightarrow> bqBytesUsed q = sum_list (map (bqGetBytes q) (bqItems q)) \<and>
     (length (bqItems q) \<le> 1 \<or> int (length (bqItems q)) \<le> bqMaxItems q \<and> bqBytesUsed q \<le> bqMaxBytes q)"

lemma bq_push_run:
  assumes "bq_push x q = ((n, dropped), q')" "bqBytesUsed q = sum_list (map (bqGetBytes q) (bqItems q))"
  shows "n = length dropped" "map fst dropped = take n (bqItems q)" "bqItems q' = drop n (bqItems q) @ [x]" "bq_inv q'"
    "\<forall>m<n. over (bqMaxItems q) (bqMaxBytes q) (bqGetBytes q) (bqGetBytes q x) (drop m (bqItems q))"
    "bqMaxItems q' = bqMaxItems q" "bqMaxBytes q' = bqMaxBytes q" "bqGetBytes q' = bqGetBytes q"
proof -
  obtain left bytes where loop: "dropLoop (bqMaxItems q) (bqMaxBytes q) (bqGetBytes q) (bqGetBytes q x) (bqItems q) (bqBytesUsed q)
        = (left, bytes, dropped)"
      and n: "n = length dropped" and q': "q' = q\<lparr>bqItems := left @ [x], bqBytesUsed := bytes + bqGetBytes q x\<rparr>"
    using assms(1) by (auto simp: bq_push_def Let_def split: prod.splits)
  note spec = dropLoop_spec [OF loop assms(2)]
  show "n = length dropped" by (rule n)
  have items: "bqItems q = map fst dropped @ left" and len: "length (map fst dropped) = n" using spec n by simp_all
  then show "map fst dropped = take n (bqItems q)" "bqItems q' = drop n (bqItems q) @ [x]" by (simp_all add: q')
  show "bq_inv q'" using spec by (auto simp: bq_inv_def q' over_def)
  show "\<forall>m<n. over (bqMaxItems q) (bqMaxBytes q) (bqGetBytes q) (bqGetBytes q x) (drop m (bqItems q))"
  proof (intro allI impI)
    fix m assume "m < n"
    then have "map fst dropped = take m (map fst dropped) @ drop m (map fst dropped)" "drop m (map fst dropped) \<noteq> []"
      "drop m (bqItems q) = drop m (map fst dropped) @ left"
      using items len by simp_all
    with spec show "over (bqMaxItems q) (bqMaxBytes q) (bqGetBytes q) (bqGetBytes q x) (drop m (bqItems q))" by metis
  qed
  show "bqMaxItems q' = bqMaxItems q" "bqMaxBytes q' = bqMaxBytes q" "bqGetBytes q' = bqGetBytes q" by (simp_all add: q')
qed

text \<open>The invariant of a queue with the given limits.\<close>

definition bq_inv_with :: "int \<Rightarrow> int \<Rightarrow> ('a \<Rightarrow> int) \<Rightarrow> 'a BoundedQueue \<Rightarrow> bool" where
  "bq_inv_with mi mb gb q \<longleftrightarrow> bq_inv q \<and> (\<forall>x. 0 \<le> gb x) \<and> bqMaxItems q = mi \<and> bqMaxBytes q = mb \<and> bqGetBytes q = gb"

interpretation bqueue: dropping_queue bqItems "\<lambda>x q. snd (bq_push x q)" bq_shift "bq_inv_with mi mb gb" for mi mb gb
proof
  fix q :: "'a BoundedQueue" and x
  assume inv': "bq_inv_with mi mb gb q"
  then have inv: "bq_inv q" by (simp add: bq_inv_with_def)
  obtain n dropped q' where push: "bq_push x q = ((n, dropped), q')" by (metis prod.exhaust)
  note run = bq_push_run [OF push] inv [unfolded bq_inv_def]
  show "bq_inv_with mi mb gb (snd (bq_push x q))" "\<exists>n. bqItems (snd (bq_push x q)) = drop n (bqItems q) @ [x]"
    using run inv' by (auto simp: push bq_inv_with_def)
  show "bq_inv_with mi mb gb (snd (bq_shift q))"
  proof (cases "bqItems q")
    case (Cons a xs)
    have "0 \<le> bqGetBytes q a" using inv' by (simp add: bq_inv_with_def)
    with inv Cons have "bq_inv (snd (bq_shift q))" by (auto simp: bq_inv_def bq_shift_def)
    with inv' Cons show ?thesis by (simp add: bq_inv_with_def bq_shift_def)
  qed (use inv' in \<open>simp add: bq_shift_def\<close>)
  show "fst (bq_shift q) = (case bqItems q of [] \<Rightarrow> None | x # _ \<Rightarrow> Some x) \<and> bqItems (snd (bq_shift q)) = tl (bqItems q)"
    by (simp add: bq_shift_def split: list.split)
qed

section \<open>Properties\<close>

text \<open>C26. Memory is bounded: after any pushes and shifts on a new queue the byte counter is the sum over the
  items, and there are at most \<open>maxItems\<close> items of at most \<open>maxBytes\<close> bytes together, or there is a single
  item; and what came out, followed by what is still queued, is what was pushed, in order, less dropped
  items.\<close>

theorem bounded_queue_bounds:
  assumes "queueRun (\<lambda>x q. snd (bq_push x q)) bq_shift ops (bq_new maxItems maxBytes getBytes) = (out, q)"
    and "\<And>x. 0 \<le> getBytes x"
  shows "bq_bytes q = sum_list (map getBytes (bq_toArray q)) \<and>
    (bq_length q \<le> 1 \<or> int (bq_length q) \<le> maxItems \<and> bq_bytes q \<le> maxBytes) \<and>
    subseq (out @ bq_toArray q) (pushed ops)"
proof -
  have "bq_inv_with maxItems maxBytes getBytes (bq_new maxItems maxBytes getBytes)"
    using assms(2) by (simp add: bq_inv_with_def bq_inv_def bq_new_def)
  from bqueue.fifo [OF this assms(1)] show ?thesis
    by (auto simp: bq_inv_with_def bq_inv_def bq_new_def bq_bytes_def bq_length_def bq_toArray_def)
qed

theorem bounded_queue_bounds_witness:
  "\<exists>out q. queueRun (\<lambda>x q. snd (bq_push x q)) bq_shift [Some 3, Some 4, Some 5, None] (bq_new 2 100 int) = (out, q)
     \<and> out = [4 :: nat] \<and> bq_toArray q = [5] \<and> subseq (out @ bq_toArray q) [3, 4, 5]"
proof -
  obtain out q where run: "queueRun (\<lambda>x q. snd (bq_push x q)) bq_shift [Some 3, Some 4, Some 5, None] (bq_new 2 100 int)
      = (out, q :: nat BoundedQueue)"
    by (metis prod.exhaust)
  then have "out = [4]" "bq_toArray q = [5]"
    by (auto simp: bq_new_def bq_push_def bq_shift_def bq_toArray_def Let_def)
  with bounded_queue_bounds [OF run] run show ?thesis by simp
qed

text \<open>A push drops the oldest items, no more than needed: the queue is the old one without its first \<open>n\<close>
  items, then the new item; \<open>n\<close> is the answer; and before each drop the queue was over a limit. As long as
  the queue was within its item limit, every drop is reported with the reason \<open>bytes\<close>.\<close>

theorem bounded_queue_push:
  assumes "bq_inv q" "bq_push x q = ((n, dropped), q')"
  shows "bq_inv q' \<and> bq_toArray q' = drop n (bq_toArray q) @ [x] \<and> map fst dropped = take n (bq_toArray q) \<and>
    (\<forall>m<n. over (bqMaxItems q) (bqMaxBytes q) (bqGetBytes q) (bqGetBytes q x) (drop m (bq_toArray q))) \<and>
    (int (bq_length q) \<le> bqMaxItems q \<longrightarrow> (\<forall>d\<in>set dropped. snd d = ReasonBytes))"
proof -
  have "bqBytesUsed q = sum_list (map (bqGetBytes q) (bqItems q))" using assms(1) by (simp add: bq_inv_def)
  note run = bq_push_run [OF assms(2) this]
  have "\<forall>d\<in>set dropped. snd d = ReasonBytes" if "int (bq_length q) \<le> bqMaxItems q"
    using assms(2) that dropLoop_reason by (fastforce simp: bq_push_def bq_length_def Let_def split: prod.splits)
  with run show ?thesis by (simp add: bq_toArray_def)
qed

theorem bounded_queue_push_witness:
  "\<exists>q'. bq_push 7 \<lparr>bqItems = [3, 4 :: int], bqBytesUsed = 7, bqMaxItems = 2, bqMaxBytes = 100, bqGetBytes = \<lambda>n. n\<rparr>
     = ((1, [(3, ReasonBytes)]), q') \<and> bq_toArray q' = [4, 7]"
proof -
  let ?q = "\<lparr>bqItems = [3, 4 :: int], bqBytesUsed = 7, bqMaxItems = 2, bqMaxBytes = 100, bqGetBytes = \<lambda>n. n\<rparr>"
  obtain q' where push: "bq_push 7 ?q = ((1, [(3, ReasonBytes)]), q')"
    by (simp add: bq_push_def Let_def)
  have "bq_inv ?q" by (simp add: bq_inv_def)
  from bounded_queue_push [OF this push] push show ?thesis by (simp add: bq_toArray_def)
qed

end
