(* ===== verification/Lru.thy ===== *)
theory Lru
  imports Main "HOL-Library.AList" "HOL-Library.Sublist"
begin

text \<open>
  The LRU cache of the peer-to-peer code (\<open>hashtree-worker/src/p2p/lruCache.ts\<close>; \<open>iris/utils/lruCache.ts\<close> and
  \<open>hashtree-nostr/src/webrtc/lruCache.ts\<close> have the same class). The state is a JavaScript \<open>Map\<close>, an
  association list in insertion order: the least recently used key is first. Keys and values are never
  \<open>undefined\<close>.
\<close>

section \<open>Model\<close>

record ('k, 'v) LRUCache =
  lruCache :: "('k \<times> 'v) list"
  lruMaxSize :: int

definition lru_new :: "int \<Rightarrow> ('k, 'v) LRUCache" where
  "lru_new maxSize = \<lparr>lruCache = [], lruMaxSize = maxSize\<rparr>"

text \<open>\<open>delete\<close> and then \<open>set\<close>: the entry moves to the end.\<close>

definition lru_get :: "'k \<Rightarrow> ('k, 'v) LRUCache \<Rightarrow> 'v option \<times> ('k, 'v) LRUCache" where
  "lru_get key c = (case map_of (lruCache c) key of
     Some v \<Rightarrow> (Some v, c\<lparr>lruCache := AList.update key v (AList.delete key (lruCache c))\<rparr>)
   | None \<Rightarrow> (None, c))"

definition lru_set :: "'k \<Rightarrow> 'v \<Rightarrow> ('k, 'v) LRUCache \<Rightarrow> ('k, 'v) LRUCache" where
  "lru_set key v c =
     (let c1 = AList.delete key (lruCache c);
          c2 = (if int (length c1) \<ge> lruMaxSize c
                then (case c1 of [] \<Rightarrow> c1 | oldest # _ \<Rightarrow> AList.delete (fst oldest) c1) else c1)
      in c\<lparr>lruCache := AList.update key v c2\<rparr>)"

definition lru_has :: "'k \<Rightarrow> ('k, 'v) LRUCache \<Rightarrow> bool" where
  "lru_has key c \<longleftrightarrow> map_of (lruCache c) key \<noteq> None"

definition lru_delete :: "'k \<Rightarrow> ('k, 'v) LRUCache \<Rightarrow> bool \<times> ('k, 'v) LRUCache" where
  "lru_delete key c = (map_of (lruCache c) key \<noteq> None, c\<lparr>lruCache := AList.delete key (lruCache c)\<rparr>)"

definition lru_clear :: "('k, 'v) LRUCache \<Rightarrow> ('k, 'v) LRUCache" where
  "lru_clear c = c\<lparr>lruCache := []\<rparr>"

definition lru_size :: "('k, 'v) LRUCache \<Rightarrow> nat" where
  "lru_size c = length (lruCache c)"

definition lru_keys :: "('k, 'v) LRUCache \<Rightarrow> 'k list" where
  "lru_keys c = map fst (lruCache c)"

definition lru_values :: "('k, 'v) LRUCache \<Rightarrow> 'v list" where
  "lru_values c = map snd (lruCache c)"

definition lru_entries :: "('k, 'v) LRUCache \<Rightarrow> ('k \<times> 'v) list" where
  "lru_entries c = lruCache c"

text \<open>\<open>forEach\<close> calls the callback on every value and key, in order; with a state it is a fold.\<close>

definition lru_forEach :: "('v \<Rightarrow> 'k \<Rightarrow> 's \<Rightarrow> 's) \<Rightarrow> ('k, 'v) LRUCache \<Rightarrow> 's \<Rightarrow> 's" where
  "lru_forEach callback c = fold (\<lambda>kv. callback (snd kv) (fst kv)) (lruCache c)"

section \<open>Lists of entries\<close>

lemma update_at_end: "k \<notin> fst ` set al \<Longrightarrow> AList.update k v al = al @ [(k, v)]"
  by (induction al) auto

lemma moved_to_end: "AList.update k v (AList.delete k al) = AList.delete k al @ [(k, v)]"
  by (rule update_at_end) (rule delete_notin_dom)

lemma delete_first: "distinct (map fst (x # al)) \<Longrightarrow> AList.delete (fst x) (x # al) = al"
  by simp

lemma length_delete_old: "distinct (map fst al) \<Longrightarrow> map_of al k = Some v \<Longrightarrow> Suc (length (AList.delete k al)) = length al"
  by (induction al) (auto split: if_splits)

text \<open>The cache after \<open>set\<close>, as lists.\<close>

definition evicted :: "('k \<times> 'v) list \<Rightarrow> int \<Rightarrow> ('k \<times> 'v) list" where
  "evicted al m = (if int (length al) \<ge> m then tl al else al)"

lemma lru_set_eq:
  assumes "distinct (map fst (lruCache c))"
  shows "lruCache (lru_set k v c) = evicted (AList.delete k (lruCache c)) (lruMaxSize c) @ [(k, v)]"
proof -
  let ?d = "AList.delete k (lruCache c)"
  have "distinct (map fst ?d)" "k \<notin> fst ` set ?d" using assms by (simp_all add: distinct_delete delete_notin_dom)
  then show ?thesis
  proof (cases "AList.delete k (lruCache c)")
    case Nil
    then show ?thesis by (simp add: lru_set_def evicted_def Let_def)
  next
    case (Cons x xs)
    with \<open>distinct (map fst ?d)\<close> \<open>k \<notin> fst ` set ?d\<close> show ?thesis
      by (auto simp: lru_set_def evicted_def Let_def update_at_end)
  qed
qed

section \<open>The invariant\<close>

definition lru_inv :: "('k, 'v) LRUCache \<Rightarrow> bool" where
  "lru_inv c \<longleftrightarrow> distinct (map fst (lruCache c)) \<and> int (length (lruCache c)) \<le> max 1 (lruMaxSize c)"

lemma set_evicted: "set (evicted al m) \<subseteq> set al"
  by (auto simp: evicted_def dest: list.set_sel(2) split: if_splits) (metis list.sel(2) list.set_sel(2))

lemma distinct_evicted: "distinct (map fst al) \<Longrightarrow> distinct (map fst (evicted al m))"
  by (cases al) (auto simp: evicted_def)

lemma lru_set_inv: "lru_inv c \<Longrightarrow> lru_inv (lru_set k v c)"
proof -
  assume inv: "lru_inv c"
  let ?d = "AList.delete k (lruCache c)"
  have d: "distinct (map fst ?d)" "k \<notin> fst ` set ?d" using inv by (simp_all add: lru_inv_def distinct_delete delete_notin_dom)
  have len: "int (length ?d) \<le> max 1 (lruMaxSize c)"
    using inv length_delete_le [of k "lruCache c"] by (simp add: lru_inv_def)
  have "int (length (evicted ?d (lruMaxSize c))) + 1 \<le> max 1 (lruMaxSize c)"
    using len by (auto simp: evicted_def)
  moreover have "distinct (map fst (evicted ?d (lruMaxSize c) @ [(k, v)]))"
    using d distinct_evicted [OF d(1)] set_evicted [of ?d "lruMaxSize c"] by auto
  moreover have "lruMaxSize (lru_set k v c) = lruMaxSize c" by (simp add: lru_set_def Let_def)
  ultimately show ?thesis using inv lru_set_eq [of c k v] by (simp add: lru_inv_def)
qed

lemma lru_get_inv: "lru_inv c \<Longrightarrow> lru_inv (snd (lru_get k c))"
  by (auto simp: lru_inv_def lru_get_def moved_to_end distinct_delete delete_notin_dom length_delete_old
      dest: length_delete_old split: option.split)

lemma lru_delete_inv: "lru_inv c \<Longrightarrow> lru_inv (snd (lru_delete k c))"
  using length_delete_le [of k "lruCache c"] by (auto simp: lru_inv_def lru_delete_def distinct_delete)

section \<open>Runs\<close>

datatype ('k, 'v) lruOp = LGet 'k | LSet 'k 'v | LDelete 'k

fun lruKey :: "('k, 'v) lruOp \<Rightarrow> 'k" where
  "lruKey (LGet k) = k" | "lruKey (LSet k v) = k" | "lruKey (LDelete k) = k"

fun lruExec :: "('k, 'v) lruOp \<Rightarrow> ('k, 'v) LRUCache \<Rightarrow> ('k, 'v) LRUCache" where
  "lruExec (LGet k) c = snd (lru_get k c)"
| "lruExec (LSet k v) c = lru_set k v c"
| "lruExec (LDelete k) c = snd (lru_delete k c)"

lemma lruExec_inv: "lru_inv c \<Longrightarrow> lru_inv (lruExec op c)"
  by (cases op) (simp_all add: lru_get_inv lru_set_inv lru_delete_inv)

lemma lruMaxSize_exec [simp]: "lruMaxSize (lruExec op c) = lruMaxSize c"
  by (cases op) (auto simp: lru_get_def lru_set_def lru_delete_def Let_def split: option.split)

lemma lruRun_inv: "lru_inv c \<Longrightarrow> lru_inv (fold lruExec ops c) \<and> lruMaxSize (fold lruExec ops c) = lruMaxSize c"
  by (induction ops arbitrary: c) (simp_all add: lruExec_inv)

text \<open>The key has its value, and behind it are only keys of \<open>T\<close>.\<close>

definition behind :: "'k \<Rightarrow> 'v \<Rightarrow> 'k set \<Rightarrow> ('k \<times> 'v) list \<Rightarrow> bool" where
  "behind k v T al \<longleftrightarrow> (\<exists>pre post. al = pre @ (k, v) # post \<and> fst ` set post \<subseteq> T)"

lemma behind_delete:
  assumes "behind k v T al" "k' \<noteq> k"
  shows "behind k v (T - {k'}) (AList.delete k' al)"
proof -
  obtain pre post where "al = pre @ (k, v) # post" "fst ` set post \<subseteq> T" using assms(1) by (auto simp: behind_def)
  then have "AList.delete k' al = AList.delete k' pre @ (k, v) # AList.delete k' post" "fst ` set (AList.delete k' post) \<subseteq> T - {k'}"
    using assms(2) by (auto simp: AList.delete_eq)
  then show ?thesis unfolding behind_def by blast
qed

lemma behind_append: "behind k v T al \<Longrightarrow> behind k v (insert k' T) (al @ [(k', v')])"
proof -
  assume "behind k v T al"
  then obtain pre post where al: "al = pre @ (k, v) # post" "fst ` set post \<subseteq> T" by (auto simp: behind_def)
  then show ?thesis unfolding behind_def by (intro exI [of _ pre] exI [of _ "post @ [(k', v')]"]) auto
qed

lemma behind_mono: "behind k v T al \<Longrightarrow> T \<subseteq> T' \<Longrightarrow> behind k v T' al"
  unfolding behind_def by blast

lemma behind_evicted:
  assumes "behind k v T al" "distinct (map fst al)" "finite T" "int (card T) + 1 < m"
  shows "behind k v T (evicted al m)"
proof -
  obtain pre post where al: "al = pre @ (k, v) # post" and post: "fst ` set post \<subseteq> T" using assms(1) by (auto simp: behind_def)
  show ?thesis
  proof (cases pre)
    case Nil
    have "length post = card (fst ` set post)"
      using assms(2) al by (simp add: distinct_card [of "map fst post", simplified])
    also have "\<dots> \<le> card T" using post assms(3) by (rule card_mono [rotated])
    finally have "int (length al) < m" using al Nil assms(4) by simp
    then show ?thesis using assms(1) by (simp add: evicted_def)
  next
    case (Cons x pre')
    then show ?thesis using assms(1) post al by (auto simp: evicted_def behind_def)
  qed
qed

lemma behind_exec:
  assumes "behind k v T (lruCache c)" "lru_inv c" "lruKey op \<noteq> k" "lruKey op \<in> T" "finite T" "int (card T) < lruMaxSize c"
  shows "behind k v T (lruCache (lruExec op c))"
proof -
  let ?k = "lruKey op" and ?d = "AList.delete (lruKey op) (lruCache c)"
  have d: "behind k v (T - {?k}) ?d" using assms(1,3) by (rule behind_delete)
  have T: "insert ?k (T - {?k}) = T" using assms(4) by blast
  have moved: "behind k v T (?d @ [(?k, v')])" for v' using behind_append [OF d, of ?k v'] T by simp
  show ?thesis
  proof (cases op)
    case (LGet k')
    then show ?thesis using assms(1) moved by (simp add: lru_get_def moved_to_end split: option.split)
  next
    case (LSet k' v')
    have "Suc (card (T - {?k})) = card T" using assms(4,5) by (rule card_Suc_Diff1 [rotated])
    then have "int (card (T - {?k})) + 1 < lruMaxSize c" using assms(6) by simp
    moreover have "distinct (map fst ?d)" using assms(2) by (simp add: lru_inv_def distinct_delete)
    ultimately have "behind k v (T - {?k}) (evicted ?d (lruMaxSize c))"
      using behind_evicted [OF d] assms(5) by simp
    from behind_append [OF this, of ?k v'] T show ?thesis
      using LSet assms(2) by (simp add: lru_set_eq lru_inv_def)
  next
    case (LDelete k')
    then show ?thesis using behind_mono [OF d] by (simp add: lru_delete_def)
  qed
qed

lemma behind_run:
  "behind k v T (lruCache c) \<Longrightarrow> lru_inv c \<Longrightarrow> \<forall>op\<in>set ops. lruKey op \<noteq> k \<and> lruKey op \<in> T \<Longrightarrow> finite T \<Longrightarrow>
   int (card T) < lruMaxSize c \<Longrightarrow> behind k v T (lruCache (fold lruExec ops c))"
  by (induction ops arbitrary: c) (auto simp: behind_exec lruExec_inv)

lemma behind_lookup: "behind k v T al \<Longrightarrow> distinct (map fst al) \<Longrightarrow> map_of al k = Some v"
  by (auto simp: behind_def)

section \<open>Property\<close>

text \<open>C27. Whatever was done with a cache, it holds at most \<open>maxSize\<close> entries (one entry at least); and a value
  that was set is still there, unchanged, as long as fewer than \<open>maxSize\<close> other keys have been used since,
  however often and in whatever order.\<close>

theorem lru_recent_kept:
  assumes "c = fold lruExec earlier (lru_new maxSize)"
    and "\<forall>op\<in>set later. lruKey op \<noteq> k" "int (card (set (map lruKey later))) < maxSize"
  shows "int (lru_size c) \<le> max 1 maxSize \<and> distinct (lru_keys c) \<and>
    fst (lru_get k (fold lruExec later (lru_set k v c))) = Some v"
proof -
  have "lru_inv (lru_new maxSize)" by (simp add: lru_inv_def lru_new_def)
  from lruRun_inv [OF this, of earlier] have c: "lru_inv c" "lruMaxSize c = maxSize"
    using assms(1) by (simp_all add: lru_new_def)
  let ?T = "set (map lruKey later)" and ?c = "lru_set k v c"
  have inv: "lru_inv ?c" "lruMaxSize ?c = maxSize"
    using lru_set_inv [OF c(1)] c(2) by (simp_all add: lru_set_def Let_def)
  have "lruCache ?c = evicted (AList.delete k (lruCache c)) maxSize @ (k, v) # []"
    using c by (simp add: lru_set_eq lru_inv_def)
  then have "behind k v ?T (lruCache ?c)" unfolding behind_def by fastforce
  from behind_run [OF this inv(1), of later] assms(2,3) inv(2)
  have "behind k v ?T (lruCache (fold lruExec later ?c))" by simp
  moreover have "lru_inv (fold lruExec later ?c)" using lruRun_inv [OF inv(1)] by simp
  ultimately have "map_of (lruCache (fold lruExec later ?c)) k = Some v" by (simp add: behind_lookup lru_inv_def)
  with c show ?thesis by (simp add: lru_get_def lru_inv_def lru_size_def lru_keys_def)
qed

theorem lru_recent_kept_witness:
  "fst (lru_get (1 :: nat) (fold lruExec [LSet 2 ''b'', LGet 5, LSet 2 ''c'', LSet 3 ''d''] (lru_set 1 ''a''
     (fold lruExec [LSet 7 ''x'', LSet 8 ''y'', LSet 9 ''z''] (lru_new 4))))) = Some ''a''"
  by (rule lru_recent_kept [OF refl, THEN conjunct2, THEN conjunct2]) (simp_all add: card_insert_if)

end
