(* ===== verification/Forwarding.thy ===== *)
theory Forwarding
  imports Main "HOL-Library.AList" "HOL-Library.FuncSet"
begin

text \<open>
  The forwarding of queries between peers (\<open>hashtree-worker/src/p2p/queryForwardingMachine.ts\<close>): a request
  for a hash is forwarded once, further requests for the same hash wait for the answer of the first, and
  each peer may cause only so many forwards in a sliding window of time.

  A \<open>Map\<close> is an association list, a \<open>Set\<close> a list without repetitions, both in insertion order. The clock
  is an argument. The timeouts of the runtime are part of the state, and the calls of \<open>onForwardTimeout\<close>
  are its log.
\<close>

section \<open>The rate limiter\<close>

record limiter =
  maxEvents :: int
  windowMs :: int
  eventsByPeer :: "(string \<times> int list) list"

text \<open>The loop over \<open>firstActiveIndex\<close> and the \<open>splice\<close>: events that left the window go, from the front.\<close>

definition activeEvents :: "int \<Rightarrow> int \<Rightarrow> int list \<Rightarrow> int list" where
  "activeEvents window now events = dropWhile (\<lambda>e. now - e \<ge> window) events"

definition allow :: "int \<Rightarrow> string \<Rightarrow> limiter \<Rightarrow> bool \<times> limiter" where
  "allow now peerId L =
     (let events = activeEvents (windowMs L) now (case map_of (eventsByPeer L) peerId of None \<Rightarrow> [] | Some es \<Rightarrow> es)
      in if int (length events) \<ge> maxEvents L
         then (False, L\<lparr>eventsByPeer := AList.update peerId events (eventsByPeer L)\<rparr>)
         else (True, L\<lparr>eventsByPeer := AList.update peerId (events @ [now]) (eventsByPeer L)\<rparr>))"

definition resetPeer :: "string \<Rightarrow> limiter \<Rightarrow> limiter" where
  "resetPeer peerId L = L\<lparr>eventsByPeer := AList.delete peerId (eventsByPeer L)\<rparr>"

definition clearLimiter :: "limiter \<Rightarrow> limiter" where
  "clearLimiter L = L\<lparr>eventsByPeer := []\<rparr>"

section \<open>The machine\<close>

datatype ForwardDecision = Forward "string list" | Suppressed | RateLimited | NoTargets

record machine =
  hashesByRequester :: "(string \<times> string list) list"
  inFlightByHash :: "(string \<times> string list \<times> nat) list"       \<comment> \<open>requesters and timeout id\<close>
  rateLimiter :: limiter
  scheduled :: "(nat \<times> string) list"                            \<comment> \<open>timeouts of the runtime\<close>
  nextTimeout :: nat
  timeoutEvents :: "(string \<times> string list) list"                \<comment> \<open>calls of \<open>onForwardTimeout\<close>\<close>

definition newMachine :: "int \<Rightarrow> int \<Rightarrow> machine" where
  "newMachine maxForwardsPerPeerWindow forwardRateLimitWindowMs =
     \<lparr>hashesByRequester = [], inFlightByHash = [],
      rateLimiter = \<lparr>maxEvents = maxForwardsPerPeerWindow, windowMs = forwardRateLimitWindowMs, eventsByPeer = []\<rparr>,
      scheduled = [], nextTimeout = 0, timeoutEvents = []\<rparr>"

definition setAdd :: "'a \<Rightarrow> 'a list \<Rightarrow> 'a list" where
  "setAdd x xs = (if x \<in> set xs then xs else xs @ [x])"

text \<open>\<open>trackRequester\<close> adds to the given set, which the caller keeps, and to the index by requester.\<close>

definition trackRequester :: "string \<Rightarrow> string list \<Rightarrow> string \<Rightarrow> machine \<Rightarrow> string list \<times> machine" where
  "trackRequester hashKey requesters requesterId M =
     (setAdd requesterId requesters,
      M\<lparr>hashesByRequester := AList.update requesterId
          (setAdd hashKey (case map_of (hashesByRequester M) requesterId of None \<Rightarrow> [] | Some hs \<Rightarrow> hs)) (hashesByRequester M)\<rparr>)"

definition beginForward :: "int \<Rightarrow> string \<Rightarrow> string \<Rightarrow> string list \<Rightarrow> machine \<Rightarrow> ForwardDecision \<times> machine" where
  "beginForward now hashKey requesterId candidateTargets M =
     (let targets = filter (\<lambda>target. target \<noteq> requesterId) candidateTargets in
      if length targets = 0 then (NoTargets, M)
      else (case map_of (inFlightByHash M) hashKey of
         Some (requesters, timeoutId) \<Rightarrow>
           (case trackRequester hashKey requesters requesterId M of (requesters', M1) \<Rightarrow>
              (Suppressed, M1\<lparr>inFlightByHash := AList.update hashKey (requesters', timeoutId) (inFlightByHash M1)\<rparr>))
       | None \<Rightarrow>
           (case allow now requesterId (rateLimiter M) of
              (False, L) \<Rightarrow> (RateLimited, M\<lparr>rateLimiter := L\<rparr>)
            | (True, L) \<Rightarrow>
                (case trackRequester hashKey [] requesterId (M\<lparr>rateLimiter := L\<rparr>) of (requesters, M1) \<Rightarrow>
                   (let timeoutId = nextTimeout M1 in
                    (Forward targets, M1\<lparr>scheduled := scheduled M1 @ [(timeoutId, hashKey)], nextTimeout := timeoutId + 1,
                       inFlightByHash := AList.update hashKey (requesters, timeoutId) (inFlightByHash M1)\<rparr>))))))"

text \<open>The loop of \<open>clearForward\<close> over the requesters.\<close>

definition untrack :: "string \<Rightarrow> string \<Rightarrow> (string \<times> string list) list \<Rightarrow> (string \<times> string list) list" where
  "untrack hashKey requesterId byRequester = (case map_of byRequester requesterId of
     None \<Rightarrow> byRequester
   | Some hashes \<Rightarrow>
       (let hashes' = removeAll hashKey hashes
        in if hashes' = [] then AList.delete requesterId byRequester else AList.update requesterId hashes' byRequester))"

definition clearForward :: "string \<Rightarrow> bool \<Rightarrow> machine \<Rightarrow> string list \<times> machine" where
  "clearForward hashKey notifyTimeout M = (case map_of (inFlightByHash M) hashKey of
     None \<Rightarrow> ([], M)
   | Some (requesters, timeoutId) \<Rightarrow>
       (requesters, M\<lparr>scheduled := AList.delete timeoutId (scheduled M),
          inFlightByHash := AList.delete hashKey (inFlightByHash M),
          hashesByRequester := fold (untrack hashKey) requesters (hashesByRequester M),
          timeoutEvents := (if notifyTimeout then timeoutEvents M @ [(hashKey, requesters)] else timeoutEvents M)\<rparr>))"

definition resolveForward :: "string \<Rightarrow> machine \<Rightarrow> string list \<times> machine" where
  "resolveForward hashKey M = clearForward hashKey False M"

definition cancelForward :: "string \<Rightarrow> machine \<Rightarrow> string list \<times> machine" where
  "cancelForward hashKey M = clearForward hashKey False M"

definition handleForwardTimeout :: "string \<Rightarrow> machine \<Rightarrow> machine" where
  "handleForwardTimeout hashKey M = snd (clearForward hashKey True M)"

text \<open>The runtime fires a scheduled timeout: it is no longer scheduled, and its callback runs.\<close>

definition fireTimeout :: "nat \<Rightarrow> machine \<Rightarrow> machine" where
  "fireTimeout i M = (case map_of (scheduled M) i of
     None \<Rightarrow> M
   | Some hashKey \<Rightarrow> handleForwardTimeout hashKey (M\<lparr>scheduled := AList.delete i (scheduled M)\<rparr>))"

definition removeRequester :: "string \<Rightarrow> string \<Rightarrow> machine \<Rightarrow> machine" where
  "removeRequester peerId hashKey M = (case map_of (inFlightByHash M) hashKey of
     None \<Rightarrow> M
   | Some (requesters, timeoutId) \<Rightarrow>
       (let requesters' = removeAll peerId requesters;
            M1 = M\<lparr>inFlightByHash := AList.update hashKey (requesters', timeoutId) (inFlightByHash M)\<rparr>
        in if requesters' = [] then snd (clearForward hashKey False M1) else M1))"

definition removePeer :: "string \<Rightarrow> machine \<Rightarrow> machine" where
  "removePeer peerId M =
     (let M1 = (case map_of (hashesByRequester M) peerId of
                  None \<Rightarrow> M
                | Some hashes \<Rightarrow> fold (removeRequester peerId) hashes M)
      in M1\<lparr>hashesByRequester := AList.delete peerId (hashesByRequester M1), rateLimiter := resetPeer peerId (rateLimiter M1)\<rparr>)"

definition stopMachine :: "machine \<Rightarrow> machine" where
  "stopMachine M =
     (let M1 = fold (\<lambda>hashKey M. snd (clearForward hashKey False M)) (map fst (inFlightByHash M)) M
      in M1\<lparr>hashesByRequester := [], rateLimiter := clearLimiter (rateLimiter M1)\<rparr>)"

definition isInFlight :: "string \<Rightarrow> machine \<Rightarrow> bool" where
  "isInFlight hashKey M \<longleftrightarrow> map_of (inFlightByHash M) hashKey \<noteq> None"

definition getInFlightCount :: "machine \<Rightarrow> nat" where
  "getInFlightCount M = length (inFlightByHash M)"

section \<open>The sliding window\<close>

text \<open>One peer's calls at the times \<open>ts\<close>: the times that were allowed.\<close>

fun allowRun :: "string \<Rightarrow> int list \<Rightarrow> limiter \<Rightarrow> int list \<times> limiter" where
  "allowRun p [] L = ([], L)"
| "allowRun p (t # ts) L = (case allow t p L of (b, L') \<Rightarrow>
     case allowRun p ts L' of (out, L'') \<Rightarrow> ((if b then t # out else out), L''))"

definition eventsOf :: "string \<Rightarrow> limiter \<Rightarrow> int list" where
  "eventsOf p L = (case map_of (eventsByPeer L) p of None \<Rightarrow> [] | Some es \<Rightarrow> es)"

definition inWindow :: "int \<Rightarrow> int \<Rightarrow> int list \<Rightarrow> int" where
  "inWindow w t es = int (length (filter (\<lambda>e. t < e + w \<and> e \<le> t) es))"

lemma eventsOf_allow:
  "eventsOf p (snd (allow t p L)) = activeEvents (windowMs L) t (eventsOf p L) @ (if fst (allow t p L) then [t] else [])"
  "fst (allow t p L) \<longleftrightarrow> int (length (activeEvents (windowMs L) t (eventsOf p L))) < maxEvents L"
  "maxEvents (snd (allow t p L)) = maxEvents L" "windowMs (snd (allow t p L)) = windowMs L"
  by (auto simp: allow_def eventsOf_def Let_def update_conv')

lemma allow_other_peer: "q \<noteq> p \<Longrightarrow> eventsOf q (snd (allow t p L)) = eventsOf q L"
  by (auto simp: allow_def eventsOf_def Let_def update_conv')

text \<open>The history: all allowed times, in order. The limiter keeps an end of it, and what it has forgotten
  has left the window.\<close>

definition remembers :: "int \<Rightarrow> int \<Rightarrow> int list \<Rightarrow> int list \<Rightarrow> bool" where
  "remembers w now hist es \<longleftrightarrow> sorted hist \<and> (\<forall>e\<in>set hist. e \<le> now) \<and> (\<exists>old. hist = old @ es \<and> (\<forall>e\<in>set old. now - e \<ge> w))"

definition limited :: "int \<Rightarrow> int \<Rightarrow> int list \<Rightarrow> bool" where
  "limited w m hist \<longleftrightarrow> (\<forall>t\<in>set hist. inWindow w t hist \<le> m)"

lemma remembers_active:
  assumes "remembers w now hist es" "now \<le> t"
  shows "remembers w t hist (activeEvents w t es)"
proof -
  obtain old where hist: "hist = old @ es" and old: "\<forall>e\<in>set old. now - e \<ge> w" using assms(1) by (auto simp: remembers_def)
  let ?P = "\<lambda>e. t - e \<ge> w"
  have "hist = (old @ takeWhile ?P es) @ activeEvents w t es" by (simp add: hist activeEvents_def)
  moreover have "\<forall>e\<in>set (old @ takeWhile ?P es). t - e \<ge> w"
    using old assms(2) by (auto dest: set_takeWhileD)
  ultimately have "\<exists>old. hist = old @ activeEvents w t es \<and> (\<forall>e\<in>set old. t - e \<ge> w)" by blast
  moreover have "sorted hist" "\<forall>e\<in>set hist. e \<le> t" using assms by (auto simp: remembers_def)
  ultimately show ?thesis by (simp add: remembers_def)
qed

lemma sorted_dropWhile_active: "sorted es \<Longrightarrow> activeEvents w t es = filter (\<lambda>e. t < e + w) es"
proof (induction es)
  case (Cons e es)
  show ?case
  proof (cases "t < e + w")
    case True
    then have "\<forall>x\<in>set es. t < x + w" using Cons.prems by auto
    with True show ?thesis by (simp add: activeEvents_def)
  next
    case False
    with Cons show ?thesis by (simp add: activeEvents_def)
  qed
qed (simp add: activeEvents_def)

lemma inWindow_active:
  assumes "remembers w now hist es" "now \<le> t"
  shows "inWindow w t hist = int (length (activeEvents w t es))"
proof -
  obtain old where hist: "hist = old @ es" and old: "\<forall>e\<in>set old. now - e \<ge> w" using assms(1) by (auto simp: remembers_def)
  have es: "sorted es" "\<forall>e\<in>set es. e \<le> now"
    using assms(1) hist by (auto simp: remembers_def sorted_append)
  have "filter (\<lambda>e. t < e + w \<and> e \<le> t) old = []" using old assms(2) by (auto simp: filter_empty_conv)
  moreover have "filter (\<lambda>e. t < e + w \<and> e \<le> t) es = filter (\<lambda>e. t < e + w) es" using es(2) assms(2) by (intro filter_cong) auto
  ultimately show ?thesis by (simp add: inWindow_def hist sorted_dropWhile_active [OF es(1)])
qed

lemma limited_snoc:
  assumes "limited w m hist" "\<forall>e\<in>set hist. e \<le> t" "inWindow w t hist < m"
  shows "limited w m (hist @ [t])"
  unfolding limited_def
proof
  fix x assume x: "x \<in> set (hist @ [t])"
  show "inWindow w x (hist @ [t]) \<le> m"
  proof (cases "x = t")
    case True
    then show ?thesis using assms(3) by (simp add: inWindow_def)
  next
    case False
    with x assms(2) have "x \<in> set hist" "x < t" by auto
    then show ?thesis using assms(1) by (auto simp: limited_def inWindow_def)
  qed
qed

lemma allowRun_limited:
  assumes "sorted (now # ts)" "remembers (windowMs L) now hist (eventsOf p L)" "limited (windowMs L) (maxEvents L) hist"
  shows "sorted (hist @ fst (allowRun p ts L)) \<and> limited (windowMs L) (maxEvents L) (hist @ fst (allowRun p ts L))"
  using assms
proof (induction ts arbitrary: L hist now)
  case Nil
  then show ?case by (simp add: remembers_def)
next
  case (Cons t ts)
  let ?w = "windowMs L" and ?m = "maxEvents L" and ?es = "activeEvents (windowMs L) t (eventsOf p L)"
  have t: "now \<le> t" "sorted (t # ts)" using Cons.prems(1) by auto
  have act: "remembers ?w t hist ?es" using remembers_active [OF Cons.prems(2) t(1)] .
  have count: "inWindow ?w t hist = int (length ?es)" using inWindow_active [OF Cons.prems(2) t(1)] .
  obtain b L' where allow: "allow t p L = (b, L')" by (cases "allow t p L")
  have L': "eventsOf p L' = ?es @ (if b then [t] else [])" "b \<longleftrightarrow> int (length ?es) < ?m"
      "maxEvents L' = ?m" "windowMs L' = ?w"
    using eventsOf_allow [where p = p and t = t and L = L] allow by simp_all
  let ?hist = "hist @ (if b then [t] else [])"
  have "remembers ?w t ?hist (eventsOf p L')"
    using act unfolding L'(1) remembers_def by (auto simp: sorted_append)
  moreover have "limited ?w ?m ?hist"
    using limited_snoc [OF Cons.prems(3), of t] act count L'(2) Cons.prems(3) by (simp add: remembers_def)
  ultimately have "sorted (?hist @ fst (allowRun p ts L')) \<and> limited ?w ?m (?hist @ fst (allowRun p ts L'))"
    using Cons.IH [OF t(2), of L' ?hist] L'(3,4) by simp
  then show ?case by (auto simp: allow split: prod.splits)
qed

lemma limited_window:
  assumes "limited w m hist"
  shows "int (length (filter (\<lambda>e. t0 \<le> e \<and> e < t0 + w) hist)) \<le> max 0 m"
proof (cases "filter (\<lambda>e. t0 \<le> e \<and> e < t0 + w) hist = []")
  case False
  define S where "S = filter (\<lambda>e. t0 \<le> e \<and> e < t0 + w) hist"
  define x where "x = Max (set S)"
  have x: "x \<in> set S" "\<And>e. e \<in> set S \<Longrightarrow> e \<le> x" using False by (simp_all add: x_def S_def [symmetric])
  have xw: "x < t0 + w" "x \<in> set hist" using x(1) by (simp_all add: S_def)
  have "S = filter (\<lambda>e. t0 \<le> e \<and> e < t0 + w) (filter (\<lambda>e. x < e + w \<and> e \<le> x) hist)"
    unfolding filter_filter S_def
  proof (rule filter_cong)
    fix e assume e: "e \<in> set hist"
    have "e \<le> x \<and> x < e + w" if "t0 \<le> e" "e < t0 + w" using x(2) [of e] e that xw(1) by (simp add: S_def)
    then show "(t0 \<le> e \<and> e < t0 + w) = ((x < e + w \<and> e \<le> x) \<and> t0 \<le> e \<and> e < t0 + w)" by blast
  qed simp
  then have "length S \<le> length (filter (\<lambda>e. x < e + w \<and> e \<le> x) hist)" by (metis length_filter_le)
  moreover have "inWindow w x hist \<le> m" using assms xw(2) by (simp add: limited_def)
  ultimately show ?thesis by (simp add: inWindow_def S_def)
qed simp

section \<open>The invariant of the machine\<close>

definition asks :: "machine \<Rightarrow> string \<Rightarrow> string \<Rightarrow> bool" where
  "asks M p h \<longleftrightarrow> (\<exists>rs i. map_of (inFlightByHash M) h = Some (rs, i) \<and> p \<in> set rs)"

definition knows :: "machine \<Rightarrow> string \<Rightarrow> string \<Rightarrow> bool" where
  "knows M p h \<longleftrightarrow> (\<exists>hs. map_of (hashesByRequester M) p = Some hs \<and> h \<in> set hs)"

text \<open>Forwards and timeouts of the runtime correspond one to one.\<close>

definition flights_wf :: "machine \<Rightarrow> bool" where
  "flights_wf M \<longleftrightarrow> distinct (map fst (inFlightByHash M)) \<and> distinct (map fst (scheduled M)) \<and>
     (\<forall>i\<in>fst ` set (scheduled M). i < nextTimeout M) \<and>
     (\<forall>h rs i. map_of (inFlightByHash M) h = Some (rs, i) \<longrightarrow> distinct rs \<and> map_of (scheduled M) i = Some h) \<and>
     (\<forall>h i. map_of (scheduled M) i = Some h \<longrightarrow> (\<exists>rs. map_of (inFlightByHash M) h = Some (rs, i)))"

definition nonempty_sets :: "machine \<Rightarrow> bool" where
  "nonempty_sets M \<longleftrightarrow> (\<forall>h rs i. map_of (inFlightByHash M) h = Some (rs, i) \<longrightarrow> rs \<noteq> []) \<and>
     (\<forall>p hs. map_of (hashesByRequester M) p = Some hs \<longrightarrow> hs \<noteq> [])"

definition fm_inv :: "machine \<Rightarrow> bool" where
  "fm_inv M \<longleftrightarrow> flights_wf M \<and> nonempty_sets M \<and> (\<forall>p h. knows M p h \<longleftrightarrow> asks M p h)"

lemma set_setAdd [simp]: "set (setAdd x xs) = insert x (set xs)"
  by (auto simp: setAdd_def)

lemma distinct_setAdd [simp]: "distinct (setAdd x xs) = distinct xs"
  by (simp add: setAdd_def)

lemma setAdd_nonempty [simp]: "setAdd x xs \<noteq> []"
  by (auto simp: setAdd_def)

lemma newMachine_inv: "fm_inv (newMachine m w)"
  by (simp add: fm_inv_def flights_wf_def nonempty_sets_def knows_def asks_def newMachine_def)

lemma flights_wfI:
  assumes "distinct (map fst (inFlightByHash M))" "distinct (map fst (scheduled M))"
    and "\<And>i. i \<in> fst ` set (scheduled M) \<Longrightarrow> i < nextTimeout M"
    and "\<And>h rs i. map_of (inFlightByHash M) h = Some (rs, i) \<Longrightarrow> distinct rs \<and> map_of (scheduled M) i = Some h"
    and "\<And>h i. map_of (scheduled M) i = Some h \<Longrightarrow> \<exists>rs. map_of (inFlightByHash M) h = Some (rs, i)"
  shows "flights_wf M"
  unfolding flights_wf_def by (intro conjI allI impI ballI assms)

lemma flights_wfD:
  assumes "flights_wf M"
  shows "distinct (map fst (inFlightByHash M))" "distinct (map fst (scheduled M))"
    and "i \<in> fst ` set (scheduled M) \<Longrightarrow> i < nextTimeout M"
    and "map_of (inFlightByHash M) h = Some (rs, i) \<Longrightarrow> distinct rs \<and> map_of (scheduled M) i = Some h"
    and "map_of (scheduled M) i = Some h \<Longrightarrow> \<exists>rs. map_of (inFlightByHash M) h = Some (rs, i)"
  using assms unfolding flights_wf_def by blast+

text \<open>Changing the entry of a hash that is in flight, adding one and removing one.\<close>

lemma flights_wf_update:
  assumes "flights_wf M" "map_of (inFlightByHash M) h = Some (rs, i)" "distinct rs'"
    and "inFlightByHash M' = AList.update h (rs', i) (inFlightByHash M)" "scheduled M' = scheduled M" "nextTimeout M' = nextTimeout M"
  shows "flights_wf M'"
proof (rule flights_wfI)
  note wf = flights_wfD [OF assms(1)]
  show "distinct (map fst (inFlightByHash M'))" "distinct (map fst (scheduled M'))" using wf(1,2) assms by (simp_all add: distinct_update)
  show "j < nextTimeout M'" if "j \<in> fst ` set (scheduled M')" for j using wf(3) [of j] that assms by simp
  show "distinct rs2 \<and> map_of (scheduled M') j = Some h'" if "map_of (inFlightByHash M') h' = Some (rs2, j)" for h' rs2 j
    using that wf(4) [of h' rs2 j] wf(4) [OF assms(2)] assms by (simp add: update_conv' split: if_splits)
  show "\<exists>rs. map_of (inFlightByHash M') h' = Some (rs, j)" if "map_of (scheduled M') j = Some h'" for h' j
    using that wf(5) [of j h'] assms by (auto simp add: update_conv')
qed

lemma flights_wf_add:
  assumes "flights_wf M" "map_of (inFlightByHash M) h = None" "distinct rs'"
    and "inFlightByHash M' = AList.update h (rs', nextTimeout M) (inFlightByHash M)"
    and "scheduled M' = scheduled M @ [(nextTimeout M, h)]" "nextTimeout M' = nextTimeout M + 1"
  shows "flights_wf M'"
proof (rule flights_wfI)
  note wf = flights_wfD [OF assms(1)]
  have fresh: "nextTimeout M \<notin> fst ` set (scheduled M)" using wf(3) by blast
  then have none: "map_of (scheduled M) (nextTimeout M) = None" by (simp add: map_of_eq_None_iff)
  then have out: "map_of (scheduled M') j = (if j = nextTimeout M then Some h else map_of (scheduled M) j)" for j
    using assms(5) by (simp add: map_add_def split: option.split)
  show "distinct (map fst (inFlightByHash M'))" "distinct (map fst (scheduled M'))" using wf(1,2) assms fresh by (simp_all add: distinct_update)
  show "j < nextTimeout M'" if "j \<in> fst ` set (scheduled M')" for j
    using that assms(5,6) wf(3) less_SucI by fastforce
  show "distinct rs2 \<and> map_of (scheduled M') j = Some h'" if "map_of (inFlightByHash M') h' = Some (rs2, j)" for h' rs2 j
    using that wf(4) [of h' rs2 j] none assms(3,4) by (auto simp: out update_conv' split: if_splits)
  show "\<exists>rs. map_of (inFlightByHash M') h' = Some (rs, j)" if "map_of (scheduled M') j = Some h'" for h' j
    using that wf(5) [of j h'] assms(2,4) by (auto simp: out update_conv' split: if_splits)
qed

lemma flights_wf_remove:
  assumes "flights_wf M" "map_of (inFlightByHash M) h = Some (rs, i)"
    and "inFlightByHash M' = AList.delete h (inFlightByHash M)" "scheduled M' = AList.delete i (scheduled M)" "nextTimeout M' = nextTimeout M"
  shows "flights_wf M'"
proof (rule flights_wfI)
  note wf = flights_wfD [OF assms(1)]
  show "distinct (map fst (inFlightByHash M'))" "distinct (map fst (scheduled M'))" using wf(1,2) assms by (simp_all add: distinct_delete)
  show "j < nextTimeout M'" if "j \<in> fst ` set (scheduled M')" for j
    using wf(3) [of j] that assms dom_delete_subset [of i "scheduled M"] by auto
  show "distinct rs' \<and> map_of (scheduled M') j = Some h'" if "map_of (inFlightByHash M') h' = Some (rs', j)" for h' rs' j
    using that wf(4) [of h' rs' j] wf(4) [OF assms(2)] assms(3,4) by (auto simp: delete_conv' split: if_splits)
  show "\<exists>rs. map_of (inFlightByHash M') h' = Some (rs, j)" if "map_of (scheduled M') j = Some h'" for h' j
    using that wf(5) [of j h'] assms(2-4) by (auto simp: delete_conv' split: if_splits)
qed

text \<open>The index by requester.\<close>

lemma knows_track:
  "knows (snd (trackRequester h rs r M)) p h' \<longleftrightarrow> knows M p h' \<or> p = r \<and> h' = h"
  by (cases "map_of (hashesByRequester M) r") (auto simp: knows_def trackRequester_def update_conv')

lemma removeAll_Nil_iff: "removeAll x xs = [] \<longleftrightarrow> set xs \<subseteq> {x}"
  by (induction xs) auto

definition withoutHash :: "string \<Rightarrow> string list option \<Rightarrow> string list option" where
  "withoutHash h e = (case e of None \<Rightarrow> None | Some hs \<Rightarrow> if removeAll h hs = [] then None else Some (removeAll h hs))"

lemma map_of_untrack: "map_of (untrack h r B) p = (if p = r then withoutHash h (map_of B p) else map_of B p)"
  by (auto simp: untrack_def withoutHash_def Let_def update_conv' delete_conv' split: option.split)

lemma withoutHash_idem: "withoutHash h (withoutHash h e) = withoutHash h e"
  by (auto simp: withoutHash_def split: option.split)

lemma map_of_untrack_all: "map_of (fold (untrack h) rs B) p = (if p \<in> set rs then withoutHash h (map_of B p) else map_of B p)"
  by (induction rs arbitrary: B) (auto simp: map_of_untrack withoutHash_idem)

lemma asks_cong: "inFlightByHash M' = inFlightByHash M \<Longrightarrow> asks M' = asks M"
  by (simp add: asks_def fun_eq_iff)

lemma knows_cong: "hashesByRequester M' = hashesByRequester M \<Longrightarrow> knows M' = knows M"
  by (simp add: knows_def fun_eq_iff)

lemma asks_update:
  "inFlightByHash M' = AList.update h (rs, i) (inFlightByHash M) \<Longrightarrow> asks M' p h' \<longleftrightarrow> (if h' = h then p \<in> set rs else asks M p h')"
  by (auto simp: asks_def update_conv')

lemma asks_delete:
  "inFlightByHash M' = AList.delete h (inFlightByHash M) \<Longrightarrow> asks M' p h' \<longleftrightarrow> h' \<noteq> h \<and> asks M p h'"
  by (auto simp: asks_def delete_conv')

lemma fm_inv_cong:
  "inFlightByHash M' = inFlightByHash M \<Longrightarrow> scheduled M' = scheduled M \<Longrightarrow> nextTimeout M' = nextTimeout M \<Longrightarrow>
   hashesByRequester M' = hashesByRequester M \<Longrightarrow> fm_inv M' = fm_inv M"
  by (simp add: fm_inv_def flights_wf_def nonempty_sets_def knows_def asks_def)

section \<open>Operations keep the invariant\<close>

lemma trackRequester_simps [simp]:
  "inFlightByHash (snd (trackRequester h rs r M)) = inFlightByHash M" "scheduled (snd (trackRequester h rs r M)) = scheduled M"
  "nextTimeout (snd (trackRequester h rs r M)) = nextTimeout M" "fst (trackRequester h rs r M) = setAdd r rs"
  "rateLimiter (snd (trackRequester h rs r M)) = rateLimiter M"
  by (simp_all add: trackRequester_def)

lemma nonempty_track:
  "\<forall>p hs. map_of (hashesByRequester M) p = Some hs \<longrightarrow> hs \<noteq> [] \<Longrightarrow>
   map_of (hashesByRequester (snd (trackRequester h rs r M))) p = Some hs \<Longrightarrow> hs \<noteq> []"
  by (auto simp: trackRequester_def update_conv' split: if_splits)

text \<open>The three ways \<open>beginForward\<close> changes the machine.\<close>

lemma beginForward_cases:
  assumes "beginForward now h r cands M = (d, M')"
  obtains (none) "d = NoTargets" "M' = M" "filter (\<lambda>t. t \<noteq> r) cands = []"
  | (suppressed) rs i where "d = Suppressed" "map_of (inFlightByHash M) h = Some (rs, i)" "filter (\<lambda>t. t \<noteq> r) cands \<noteq> []"
      "M' = (snd (trackRequester h rs r M))\<lparr>inFlightByHash := AList.update h (setAdd r rs, i) (inFlightByHash M)\<rparr>"
  | (limited) L where "d = RateLimited" "map_of (inFlightByHash M) h = None" "allow now r (rateLimiter M) = (False, L)"
      "M' = M\<lparr>rateLimiter := L\<rparr>" "filter (\<lambda>t. t \<noteq> r) cands \<noteq> []"
  | (forward) L where "d = Forward (filter (\<lambda>t. t \<noteq> r) cands)" "filter (\<lambda>t. t \<noteq> r) cands \<noteq> []"
      "map_of (inFlightByHash M) h = None" "allow now r (rateLimiter M) = (True, L)"
      "M' = (snd (trackRequester h [] r (M\<lparr>rateLimiter := L\<rparr>)))\<lparr>scheduled := scheduled M @ [(nextTimeout M, h)],
         nextTimeout := nextTimeout M + 1, inFlightByHash := AList.update h ([r], nextTimeout M) (inFlightByHash M)\<rparr>"
  using assms
  by (auto simp: beginForward_def trackRequester_def setAdd_def Let_def filter_empty_conv split: if_splits option.splits prod.splits bool.splits)

lemma beginForward_inv:
  assumes "fm_inv M" "beginForward now h r cands M = (d, M')"
  shows "fm_inv M'"
  using assms(2)
proof (cases rule: beginForward_cases)
  case (suppressed rs i)
  have wf: "flights_wf M" "distinct rs" using assms(1) suppressed(2) flights_wfD(4) by (auto simp: fm_inv_def)
  have "flights_wf M'" by (rule flights_wf_update [OF wf(1) suppressed(2)]) (simp_all add: suppressed wf)
  moreover have "nonempty_sets M'"
    using assms(1) nonempty_track [of M h rs r] by (auto simp: fm_inv_def nonempty_sets_def suppressed update_conv' split: if_splits)
  moreover have "knows M' p h' \<longleftrightarrow> asks M' p h'" for p h'
  proof -
    have "knows M' p h' \<longleftrightarrow> knows M p h' \<or> p = r \<and> h' = h"
      using knows_track [of h rs r M p h'] knows_cong [of M' "snd (trackRequester h rs r M)"] suppressed by simp
    moreover have "asks M' p h' \<longleftrightarrow> (if h' = h then p = r \<or> p \<in> set rs else asks M p h')"
      using asks_update [of M' h "setAdd r rs" i M p h'] suppressed by simp
    moreover have "asks M p h \<longleftrightarrow> p \<in> set rs" using suppressed(2) by (simp add: asks_def)
    ultimately show ?thesis using assms(1) by (auto simp: fm_inv_def)
  qed
  ultimately show ?thesis by (simp add: fm_inv_def)
next
  case (limited L)
  then show ?thesis using assms(1) fm_inv_cong [of M' M] by simp
next
  case (forward L)
  have "flights_wf M'"
    by (rule flights_wf_add [of M h "[r]"]) (use assms(1) forward in \<open>simp_all add: fm_inv_def\<close>)
  moreover have "nonempty_sets M'"
    using assms(1) nonempty_track [of "M\<lparr>rateLimiter := L\<rparr>" h "[]" r]
    by (auto simp: fm_inv_def nonempty_sets_def forward update_conv' split: if_splits)
  moreover have "knows M' p h' \<longleftrightarrow> asks M' p h'" for p h'
  proof -
    have "knows M' p h' \<longleftrightarrow> knows M p h' \<or> p = r \<and> h' = h"
      using knows_track [of h "[]" r "M\<lparr>rateLimiter := L\<rparr>" p h'] knows_cong [of M' "snd (trackRequester h [] r (M\<lparr>rateLimiter := L\<rparr>))"]
        knows_cong [of "M\<lparr>rateLimiter := L\<rparr>" M] forward by simp
    moreover have "asks M' p h' \<longleftrightarrow> (if h' = h then p = r else asks M p h')"
      using asks_update [of M' h "[r]" "nextTimeout M" M p h'] forward by simp
    moreover have "\<not> asks M p h" using forward(3) by (simp add: asks_def)
    ultimately show ?thesis using assms(1) by (auto simp: fm_inv_def)
  qed
  ultimately show ?thesis by (simp add: fm_inv_def)
qed (use assms in simp)

lemma clearForward_inv:
  assumes "fm_inv M"
  shows "fm_inv (snd (clearForward h b M))"
proof (cases "map_of (inFlightByHash M) h")
  case (Some x)
  obtain rs i where x: "x = (rs, i)" by (cases x)
  let ?M = "snd (clearForward h b M)"
  have flds: "inFlightByHash ?M = AList.delete h (inFlightByHash M)" "scheduled ?M = AList.delete i (scheduled M)"
      "nextTimeout ?M = nextTimeout M" "hashesByRequester ?M = fold (untrack h) rs (hashesByRequester M)"
    using Some x by (simp_all add: clearForward_def)
  have "flights_wf ?M" using flights_wf_remove [of M h rs i ?M] assms Some x flds by (simp add: fm_inv_def)
  moreover have "nonempty_sets ?M"
    using assms flds
    by (auto simp: fm_inv_def nonempty_sets_def delete_conv' map_of_untrack_all withoutHash_def split: if_splits option.splits)
  moreover have "knows ?M p h' \<longleftrightarrow> asks ?M p h'" for p h'
  proof -
    have rs: "asks M p h \<longleftrightarrow> p \<in> set rs" using Some x by (simp add: asks_def)
    have "knows ?M p h' \<longleftrightarrow> knows M p h' \<and> (p \<in> set rs \<longrightarrow> h' \<noteq> h)"
      by (auto simp: knows_def flds map_of_untrack_all withoutHash_def removeAll_Nil_iff split: option.splits if_splits)
    moreover have "asks ?M p h' \<longleftrightarrow> h' \<noteq> h \<and> asks M p h'" using asks_delete [OF flds(1)] .
    ultimately show ?thesis using assms rs by (auto simp: fm_inv_def)
  qed
  ultimately show ?thesis by (simp add: fm_inv_def)
qed (use assms in \<open>simp add: clearForward_def\<close>)

lemma fireTimeout_clear:
  assumes "flights_wf M" "map_of (scheduled M) i = Some h"
  shows "fireTimeout i M = snd (clearForward h True M)"
proof -
  obtain rs where "map_of (inFlightByHash M) h = Some (rs, i)" using flights_wfD(5) [OF assms] by blast
  then show ?thesis using assms(2) by (simp add: fireTimeout_def handleForwardTimeout_def clearForward_def delete_idem)
qed

lemma fireTimeout_inv: "fm_inv M \<Longrightarrow> fm_inv (fireTimeout i M)"
  using fireTimeout_clear [of M i] clearForward_inv
  by (cases "map_of (scheduled M) i") (auto simp: fm_inv_def [of M] fireTimeout_def)

text \<open>\<open>removePeer\<close> visits the hashes of the peer one after the other; in between, the index still names the
  peer. \<open>leaving p hs\<close>: the peer is a requester of at most the hashes \<open>hs\<close>, everything else is in order.\<close>

definition leaving :: "string \<Rightarrow> string list \<Rightarrow> machine \<Rightarrow> bool" where
  "leaving p hs M \<longleftrightarrow> flights_wf M \<and> nonempty_sets M \<and> (\<forall>q h. q \<noteq> p \<longrightarrow> (knows M q h \<longleftrightarrow> asks M q h)) \<and>
     (\<forall>h. asks M p h \<longrightarrow> h \<in> set hs)"

lemma removeRequester_leaving:
  assumes "leaving p (h # hs) M"
  shows "leaving p hs (removeRequester p h M)"
proof (cases "map_of (inFlightByHash M) h")
  case None
  then have "\<not> asks M p h" by (simp add: asks_def)
  with None assms show ?thesis by (auto simp: leaving_def removeRequester_def)
next
  case (Some x)
  obtain rs i where x: "x = (rs, i)" by (cases x)
  let ?rs = "removeAll p rs" and ?M = "removeRequester p h M"
  let ?M1 = "M\<lparr>inFlightByHash := AList.update h (?rs, i) (inFlightByHash M)\<rparr>"
  have rs: "asks M q h \<longleftrightarrow> q \<in> set rs" for q using Some x by (simp add: asks_def)
  have wf: "flights_wf M" "nonempty_sets M" "distinct rs"
    using assms Some x flights_wfD(4) [of M h rs i] by (auto simp: leaving_def)
  have wf1: "flights_wf ?M1" using wf(1) Some [unfolded x] by (rule flights_wf_update) (simp_all add: wf distinct_removeAll)
  show ?thesis
  proof (cases "?rs = []")
    case True
    have M: "inFlightByHash ?M = AList.delete h (inFlightByHash M)" "scheduled ?M = AList.delete i (scheduled M)"
        "nextTimeout ?M = nextTimeout M" "hashesByRequester ?M = hashesByRequester M"
      using Some x True by (simp_all add: removeRequester_def clearForward_def update_conv' delete_update_same)
    have "flights_wf ?M" using wf(1) Some [unfolded x] M(1-3) by (rule flights_wf_remove)
    moreover have "nonempty_sets ?M" using wf(2) M by (auto simp: nonempty_sets_def delete_conv' split: if_splits)
    moreover have "asks ?M q h' \<longleftrightarrow> h' \<noteq> h \<and> asks M q h'" for q h' using asks_delete [OF M(1)] .
    moreover have "q = p" if "asks M q h" for q using that rs True by (auto simp: removeAll_Nil_iff)
    ultimately show ?thesis using assms knows_cong [OF M(4)] unfolding leaving_def by auto
  next
    case False
    then have M: "?M = ?M1" using Some x by (simp add: removeRequester_def)
    have "nonempty_sets ?M1" using wf(2) False by (auto simp: nonempty_sets_def update_conv' split: if_splits)
    moreover have "asks ?M1 q h' \<longleftrightarrow> (if h' = h then q \<noteq> p \<and> q \<in> set rs else asks M q h')" for q h'
      using asks_update [of ?M1 h ?rs i M q h'] by auto
    ultimately show ?thesis
      using assms wf1 knows_cong [of ?M1 M] rs unfolding leaving_def M by (auto split: if_splits)
  qed
qed

lemma removeRequesters_leaving: "leaving p hs M \<Longrightarrow> leaving p [] (fold (removeRequester p) hs M)"
  by (induction hs arbitrary: M) (auto simp: removeRequester_leaving)

lemma removePeer_inv:
  assumes "fm_inv M"
  shows "fm_inv (removePeer p M)" "\<not> asks (removePeer p M) p h"
proof -
  define M1 where "M1 = (case map_of (hashesByRequester M) p of None \<Rightarrow> M | Some hashes \<Rightarrow> fold (removeRequester p) hashes M)"
  have left: "leaving p [] M1"
  proof (cases "map_of (hashesByRequester M) p")
    case None
    then have "\<not> knows M p h" for h by (simp add: knows_def)
    then have "\<not> asks M p h" for h using assms by (simp add: fm_inv_def)
    with None assms show ?thesis by (simp add: fm_inv_def leaving_def M1_def)
  next
    case (Some hs)
    then have "knows M p h \<longrightarrow> h \<in> set hs" for h by (simp add: knows_def)
    then have "asks M p h \<longrightarrow> h \<in> set hs" for h using assms by (simp add: fm_inv_def)
    with assms have "leaving p hs M" by (simp add: fm_inv_def leaving_def)
    with Some show ?thesis by (simp add: removeRequesters_leaving M1_def)
  qed
  let ?M = "removePeer p M"
  have M: "inFlightByHash ?M = inFlightByHash M1" "scheduled ?M = scheduled M1" "nextTimeout ?M = nextTimeout M1"
      "hashesByRequester ?M = AList.delete p (hashesByRequester M1)"
    by (simp_all add: removePeer_def M1_def Let_def)
  have "knows ?M q h' \<longleftrightarrow> q \<noteq> p \<and> knows M1 q h'" for q h' unfolding knows_def M by (auto simp: delete_conv')
  moreover have asks: "asks ?M = asks M1" using M(1) by (rule asks_cong)
  moreover have "flights_wf ?M" using left unfolding leaving_def flights_wf_def M(1-3) by blast
  moreover have "nonempty_sets ?M" using left M(1,4) by (auto simp: leaving_def nonempty_sets_def delete_conv' split: if_splits)
  moreover have "(q \<noteq> p \<and> knows M1 q h') = asks M1 q h'" "\<not> asks M1 p h" for q h'
    using left by (auto simp: leaving_def)
  ultimately show "fm_inv ?M" "\<not> asks ?M p h" by (simp_all add: fm_inv_def)
qed

lemma clearAll_empty:
  "set (map fst (inFlightByHash M)) \<subseteq> set hs \<Longrightarrow>
   inFlightByHash (fold (\<lambda>h M. snd (clearForward h False M)) hs M) = []"
proof (induction hs arbitrary: M)
  case (Cons h hs)
  have "inFlightByHash (snd (clearForward h False M)) = AList.delete h (inFlightByHash M)"
    by (auto simp: clearForward_def map_of_eq_None_iff split: option.split)
  then have "set (map fst (inFlightByHash (snd (clearForward h False M)))) \<subseteq> set hs"
    using Cons.prems by (auto simp: AList.delete_eq)
  from Cons.IH [OF this] show ?case by simp
qed simp

lemma clearAll_inv: "fm_inv M \<Longrightarrow> fm_inv (fold (\<lambda>h M. snd (clearForward h False M)) hs M)"
  by (induction hs arbitrary: M) (simp_all add: clearForward_inv)

lemma stopMachine_inv:
  assumes "fm_inv M"
  shows "fm_inv (stopMachine M)" "inFlightByHash (stopMachine M) = []" "scheduled (stopMachine M) = []"
proof -
  let ?M1 = "fold (\<lambda>h M. snd (clearForward h False M)) (map fst (inFlightByHash M)) M" and ?M = "stopMachine M"
  have M: "inFlightByHash ?M = inFlightByHash ?M1" "scheduled ?M = scheduled ?M1" "hashesByRequester ?M = []"
    "nextTimeout ?M = nextTimeout ?M1"
    by (simp_all add: stopMachine_def Let_def)
  have empty: "inFlightByHash ?M1 = []" by (rule clearAll_empty) simp
  have inv: "fm_inv ?M1" using assms by (rule clearAll_inv)
  then have "map_of (scheduled ?M1) i = None" for i
    using flights_wfD(5) [of ?M1 i] empty by (cases "map_of (scheduled ?M1) i") (auto simp: fm_inv_def)
  then have "fst ` set (scheduled ?M1) = {}" by (metis all_not_in_conv map_of_eq_None_iff)
  then have sched: "scheduled ?M1 = []" by simp
  show "inFlightByHash ?M = []" "scheduled ?M = []" using M empty sched by simp_all
  then show "fm_inv ?M" using M(3) by (simp add: fm_inv_def flights_wf_def nonempty_sets_def knows_def asks_def)
qed

section \<open>Steps\<close>

text \<open>What happens to a machine: the calls of its clients and the timeouts of the runtime, in any order.\<close>

inductive machine_step :: "machine \<Rightarrow> machine \<Rightarrow> bool" where
  ms_begin: "machine_step M (snd (beginForward now h r cands M))"
| ms_resolve: "machine_step M (snd (resolveForward h M))"
| ms_cancel: "machine_step M (snd (cancelForward h M))"
| ms_timeout: "machine_step M (fireTimeout i M)"
| ms_removePeer: "machine_step M (removePeer p M)"
| ms_stop: "machine_step M (stopMachine M)"

text \<open>The steps that leave a request of the peer \<open>r\<close> for the hash \<open>h\<close> open: all but an answer, a cancellation or a
  timeout of \<open>h\<close>, the removal of \<open>r\<close>, and \<open>stop\<close>.\<close>

inductive waiting_step :: "string \<Rightarrow> string \<Rightarrow> machine \<Rightarrow> machine \<Rightarrow> bool" for h r where
  ws_begin: "waiting_step h r M (snd (beginForward now h' r' cands M))"
| ws_resolve: "h' \<noteq> h \<Longrightarrow> waiting_step h r M (snd (resolveForward h' M))"
| ws_cancel: "h' \<noteq> h \<Longrightarrow> waiting_step h r M (snd (cancelForward h' M))"
| ws_timeout: "map_of (scheduled M) i \<noteq> Some h \<Longrightarrow> waiting_step h r M (fireTimeout i M)"
| ws_removePeer: "p \<noteq> r \<Longrightarrow> waiting_step h r M (removePeer p M)"

lemma machine_step_inv: "machine_step M M' \<Longrightarrow> fm_inv M \<Longrightarrow> fm_inv M'"
  by (induction rule: machine_step.induct)
     (simp_all add: beginForward_inv [OF _ surjective_pairing] resolveForward_def cancelForward_def clearForward_inv
       fireTimeout_inv removePeer_inv stopMachine_inv)

lemma machine_steps_inv: "machine_step\<^sup>*\<^sup>* (newMachine m w) M \<Longrightarrow> fm_inv M"
  by (induction rule: rtranclp_induct) (auto simp: newMachine_inv machine_step_inv)

lemma waiting_machine_step: "waiting_step h r M M' \<Longrightarrow> machine_step M M'"
  by (induction rule: waiting_step.induct) (auto intro: machine_step.intros)

lemma asks_clear: "h' \<noteq> h \<Longrightarrow> asks (snd (clearForward h' b M)) p h = asks M p h"
  by (auto simp: clearForward_def asks_def delete_conv' split: option.split)

lemma asks_removeRequester:
  assumes "q \<noteq> p" "asks M q h"
  shows "asks (removeRequester p h' M) q h"
proof (cases "map_of (inFlightByHash M) h'")
  case (Some x)
  obtain rs i where x: "x = (rs, i)" by (cases x)
  show ?thesis
  proof (cases "h' = h")
    case True
    then have "q \<in> set (removeAll p rs)" using assms Some x by (auto simp: asks_def)
    moreover from this have "removeAll p rs \<noteq> []" by (metis empty_iff list.set(1))
    ultimately show ?thesis using True Some x by (simp add: removeRequester_def asks_def update_conv')
  next
    case False
    then show ?thesis using assms Some x
      by (auto simp: removeRequester_def clearForward_def asks_def update_conv' delete_conv' Let_def)
  qed
qed (use assms in \<open>simp add: removeRequester_def\<close>)

lemma asks_removeRequesters: "q \<noteq> p \<Longrightarrow> asks M q h \<Longrightarrow> asks (fold (removeRequester p) hs M) q h"
  by (induction hs arbitrary: M) (simp_all add: asks_removeRequester)

lemma asks_begin:
  assumes "beginForward now h' r' cands M = (d, M')" "asks M p h"
  shows "asks M' p h"
  using assms(1)
proof (cases rule: beginForward_cases)
  case (suppressed rs i)
  then show ?thesis using assms(2) by (auto simp: asks_def update_conv')
next
  case (forward L)
  then show ?thesis using assms(2) by (auto simp: asks_def update_conv')
qed (use assms in \<open>auto simp: asks_def\<close>)

lemma waiting_step_asks: "waiting_step h r M M' \<Longrightarrow> fm_inv M \<Longrightarrow> asks M r h \<Longrightarrow> asks M' r h"
proof (induction rule: waiting_step.induct)
  case (ws_begin M now h' r' cands)
  then show ?case using asks_begin [OF surjective_pairing] by blast
next
  case (ws_timeout M i)
  show ?case
  proof (cases "map_of (scheduled M) i")
    case None
    with ws_timeout show ?thesis by (simp add: fireTimeout_def)
  next
    case (Some h')
    then show ?thesis using ws_timeout fireTimeout_clear [of M i h'] asks_clear [of h' h True M r] by (simp add: fm_inv_def)
  qed
next
  case (ws_removePeer p M)
  then have "asks (case map_of (hashesByRequester M) p of None \<Rightarrow> M | Some hs \<Rightarrow> fold (removeRequester p) hs M) r h"
    by (auto simp: asks_removeRequesters split: option.split)
  then show ?case by (simp add: removePeer_def Let_def asks_def)
qed (simp_all add: resolveForward_def cancelForward_def asks_clear)

lemma waiting_steps_asks: "(waiting_step h r)\<^sup>*\<^sup>* M M' \<Longrightarrow> fm_inv M \<Longrightarrow> asks M r h \<Longrightarrow> fm_inv M' \<and> asks M' r h"
  by (induction rule: rtranclp_induct) (auto intro: waiting_step_asks machine_step_inv waiting_machine_step)

section \<open>Properties\<close>

text \<open>C23. In every state the machine reaches: a hash in flight has a requester and exactly one timeout of the
  runtime, which is for this hash, and there are no other timeouts; and the index by requester names
  exactly the pairs of peers and hashes that wait.\<close>

theorem forwarding_invariant:
  assumes "machine_step\<^sup>*\<^sup>* (newMachine maxForwards window) M"
  shows "(\<forall>h rs i. map_of (inFlightByHash M) h = Some (rs, i) \<longrightarrow> rs \<noteq> [] \<and> distinct rs \<and> map_of (scheduled M) i = Some h) \<and>
    length (scheduled M) = getInFlightCount M \<and>
    (\<forall>i h. map_of (scheduled M) i = Some h \<longrightarrow> isInFlight h M) \<and> (\<forall>p h. knows M p h \<longleftrightarrow> asks M p h)"
proof -
  have inv: "fm_inv M" using assms by (rule machine_steps_inv)
  then have wf: "flights_wf M" by (simp add: fm_inv_def)
  note D = flights_wfD [OF wf]
  have target: "map_of (inFlightByHash M) (the (map_of (scheduled M) i)) \<noteq> None" if "i \<in> fst ` set (scheduled M)" for i
    using that D(5) [of i] by (metis map_of_eq_None_iff option.discI option.exhaust_sel)
  have "bij_betw (\<lambda>i. the (map_of (scheduled M) i)) (fst ` set (scheduled M)) (fst ` set (inFlightByHash M))"
  proof (rule bij_betwI [where g = "\<lambda>h. snd (the (map_of (inFlightByHash M) h))"])
    show "(\<lambda>i. the (map_of (scheduled M) i)) \<in> fst ` set (scheduled M) \<rightarrow> fst ` set (inFlightByHash M)"
      using target by (auto simp: map_of_eq_None_iff)
    show "(\<lambda>h. snd (the (map_of (inFlightByHash M) h))) \<in> fst ` set (inFlightByHash M) \<rightarrow> fst ` set (scheduled M)"
    proof
      fix h assume "h \<in> fst ` set (inFlightByHash M)"
      then obtain rs i where "map_of (inFlightByHash M) h = Some (rs, i)" by (metis map_of_eq_None_iff not_None_eq prod.exhaust)
      with D(4) [OF this] show "snd (the (map_of (inFlightByHash M) h)) \<in> fst ` set (scheduled M)"
        by (metis map_of_eq_None_iff option.discI option.sel snd_conv)
    qed
    show "snd (the (map_of (inFlightByHash M) (the (map_of (scheduled M) i)))) = i" if i: "i \<in> fst ` set (scheduled M)" for i
    proof -
      obtain h where "map_of (scheduled M) i = Some h" using i by (metis map_of_eq_None_iff not_None_eq)
      with D(5) [OF this] show ?thesis by auto
    qed
    show "the (map_of (scheduled M) (snd (the (map_of (inFlightByHash M) h)))) = h" if h: "h \<in> fst ` set (inFlightByHash M)" for h
    proof -
      obtain rs i where "map_of (inFlightByHash M) h = Some (rs, i)" using h by (metis map_of_eq_None_iff not_None_eq prod.exhaust)
      with D(4) [OF this] show ?thesis by simp
    qed
  qed
  from bij_betw_same_card [OF this] have "card (set (map fst (scheduled M))) = card (set (map fst (inFlightByHash M)))"
    by (simp only: set_map)
  then have "length (scheduled M) = getInFlightCount M"
    by (simp only: distinct_card [OF D(1)] distinct_card [OF D(2)] length_map getInFlightCount_def)
  moreover have "rs \<noteq> [] \<and> distinct rs \<and> map_of (scheduled M) i = Some h" if "map_of (inFlightByHash M) h = Some (rs, i)" for h rs i
    using D(4) [OF that] inv that unfolding fm_inv_def nonempty_sets_def by blast
  moreover have "isInFlight h M" if "map_of (scheduled M) i = Some h" for i h
    using D(5) [OF that] by (auto simp: isInFlight_def)
  moreover have "knows M p h \<longleftrightarrow> asks M p h" for p h using inv unfolding fm_inv_def by blast
  ultimately show ?thesis by blast
qed

definition sampleForwarding :: machine where
  "sampleForwarding = snd (beginForward 11 ''h'' ''q'' [''p'', ''s''] (snd (beginForward 10 ''h'' ''p'' [''q''] (newMachine 64 1000))))"

lemma sampleForwarding_steps: "machine_step\<^sup>*\<^sup>* (newMachine 64 1000) sampleForwarding"
  unfolding sampleForwarding_def
  by (rule converse_rtranclp_into_rtranclp [OF ms_begin r_into_rtranclp [of machine_step, OF ms_begin]])

theorem forwarding_invariant_witness:
  "length (scheduled sampleForwarding) = getInFlightCount sampleForwarding \<and> isInFlight ''h'' sampleForwarding"
proof -
  have "map_of (scheduled sampleForwarding) 0 = Some ''h''" by code_simp
  with forwarding_invariant [OF sampleForwarding_steps] show ?thesis by blast
qed

text \<open>C24. One forward per hash, and everyone who asked is answered: a request that is not refused marks the hash
  as in flight; it is forwarded, to every candidate but the requester, only when the hash was not in
  flight before; and as long as the hash is not answered, cancelled or timed out, the peer not removed
  and the machine not stopped, the requester is in the list that the answer goes to.\<close>

theorem forwarding_answers:
  assumes "machine_step\<^sup>*\<^sup>* (newMachine maxForwards window) M" "beginForward now h r candidates M = (d, M1)"
    and "d \<noteq> NoTargets" "d \<noteq> RateLimited" "(waiting_step h r)\<^sup>*\<^sup>* M1 M2"
  shows "isInFlight h M1 \<and> (\<forall>ts. d = Forward ts \<longrightarrow> \<not> isInFlight h M \<and> ts = filter (\<lambda>t. t \<noteq> r) candidates \<and> ts \<noteq> []) \<and>
    r \<in> set (fst (resolveForward h M2)) \<and> \<not> isInFlight h (snd (resolveForward h M2))"
proof -
  have inv: "fm_inv M" using assms(1) by (rule machine_steps_inv)
  have begun: "asks M1 r h \<and> (\<forall>ts. d = Forward ts \<longrightarrow> \<not> isInFlight h M \<and> ts = filter (\<lambda>t. t \<noteq> r) candidates \<and> ts \<noteq> [])"
    using assms(2)
  proof (cases rule: beginForward_cases)
    case (suppressed rs i)
    then show ?thesis by (simp add: asks_def update_conv')
  next
    case (forward L)
    then show ?thesis by (simp add: asks_def isInFlight_def update_conv')
  qed (use assms in simp_all)
  then have "asks M2 r h"
    using waiting_steps_asks [OF assms(5) beginForward_inv [OF inv assms(2)]] by blast
  then obtain rs i where "map_of (inFlightByHash M2) h = Some (rs, i)" "r \<in> set rs" by (auto simp: asks_def)
  with begun show ?thesis by (auto simp: resolveForward_def clearForward_def isInFlight_def asks_def delete_conv')
qed

theorem forwarding_answers_witness:
  "''q'' \<in> set (fst (resolveForward ''h'' sampleForwarding)) \<and> ''p'' \<in> set (fst (resolveForward ''h'' sampleForwarding))"
proof -
  let ?M0 = "newMachine 64 1000" and ?M1 = "snd (beginForward 10 ''h'' ''p'' [''q''] (newMachine 64 1000))"
  have b1: "beginForward 10 ''h'' ''p'' [''q''] ?M0 = (Forward [''q''], ?M1)" by code_simp
  have b2: "beginForward 11 ''h'' ''q'' [''p'', ''s''] ?M1 = (Suppressed, sampleForwarding)" by code_simp
  have "waiting_step ''h'' ''p'' ?M1 sampleForwarding" unfolding sampleForwarding_def by (rule ws_begin)
  then have "''p'' \<in> set (fst (resolveForward ''h'' sampleForwarding))"
    using forwarding_answers [OF rtranclp.rtrancl_refl b1] by blast
  moreover have "''q'' \<in> set (fst (resolveForward ''h'' sampleForwarding))"
    using forwarding_answers [OF r_into_rtranclp [of machine_step, OF ms_begin] b2] by blast
  ultimately show ?thesis by simp
qed

text \<open>C25. The rate limit: whenever a peer asks, at times that do not go back, the forwards it was allowed within
  any span of the window's length are at most \<open>maxEvents\<close>; and the limit of one peer does not depend on
  the requests of others.\<close>

theorem rate_limit_holds:
  assumes "sorted ts" "eventsOf p L = []"
  shows "int (length (filter (\<lambda>e. t0 \<le> e \<and> e < t0 + windowMs L) (fst (allowRun p ts L)))) \<le> max 0 (maxEvents L) \<and>
    (\<forall>q t. q \<noteq> p \<longrightarrow> eventsOf q (snd (allow t p L)) = eventsOf q L)"
proof -
  have "\<exists>now. sorted (now # ts)" using assms(1) by (cases ts) auto
  then obtain now where now: "sorted (now # ts)" by blast
  have "remembers (windowMs L) now [] (eventsOf p L)" using assms(2) by (simp add: remembers_def)
  moreover have "limited (windowMs L) (maxEvents L) []" by (simp add: limited_def)
  ultimately have "limited (windowMs L) (maxEvents L) (fst (allowRun p ts L))"
    using allowRun_limited [OF now, of L "[]" p] by simp
  then show ?thesis using limited_window allow_other_peer by blast
qed

theorem rate_limit_holds_witness:
  "fst (allowRun ''p'' [0, 1, 2, 10, 11] \<lparr>maxEvents = 2, windowMs = 10, eventsByPeer = []\<rparr>) = [0, 1, 10, 11] \<and>
   int (length (filter (\<lambda>e. 0 \<le> e \<and> e < 0 + 10) (fst (allowRun ''p'' [0, 1, 2, 10, 11] \<lparr>maxEvents = 2, windowMs = 10, eventsByPeer = []\<rparr>)))) \<le> 2"
proof -
  have "fst (allowRun ''p'' [0, 1, 2, 10, 11] \<lparr>maxEvents = 2, windowMs = 10, eventsByPeer = []\<rparr>) = [0, 1, 10, 11]" by code_simp
  with rate_limit_holds [of "[0, 1, 2, 10, 11]" "''p''" "\<lparr>maxEvents = 2, windowMs = 10, eventsByPeer = []\<rparr>" 0] show ?thesis
    by (simp add: eventsOf_def)
qed

end
