(* ===== verification/Protocol.thy ===== *)
theory Protocol
  imports Complex_Main Codec Instance "HOL-Library.AList"
begin

text \<open>
  The messages of the data channel (\<open>hashtree-nostr/src/webrtc/protocol.ts\<close> and the constants and message types
  of \<open>webrtc/types.ts\<close>): a type byte and a MessagePack body; the hops-to-live rule; and the reaction to a
  complete response.

  A body is cast to its interface without a check. The model keeps what matters of that: the data of a
  response may be absent, and hashing or measuring it then throws. A response that is not a fragment and
  whose data is not a byte array is read as one without data: the digest refuses both, at the same place.
  Other bodies that have a field of another type than the interface says (the hash, the numbers or the data
  of a fragment, the hops) have no counterpart here; \<open>parseMessage\<close> answers \<open>None\<close> for them.
\<close>

section \<open>Constants and messages\<close>

definition MAX_HTL :: int where "MAX_HTL = 10"

definition FRAGMENT_SIZE :: nat where "FRAGMENT_SIZE = 32 * 1024"

definition FRAGMENT_STALL_TIMEOUT :: int where "FRAGMENT_STALL_TIMEOUT = 5000"

definition FRAGMENT_TOTAL_TIMEOUT :: int where "FRAGMENT_TOTAL_TIMEOUT = 120000"

definition MAX_PENDING_REASSEMBLIES :: nat where "MAX_PENDING_REASSEMBLIES = 20"

definition MSG_TYPE_REQUEST :: "8 word" where "MSG_TYPE_REQUEST = 0"

definition MSG_TYPE_RESPONSE :: "8 word" where "MSG_TYPE_RESPONSE = 1"

record DataRequest =
  reqH :: hash
  reqHtl :: "int option"

record DataResponse =
  resH :: hash
  resD :: "bytes option"
  resI :: "int option"
  resN :: "int option"

datatype DataMessage = RequestMsg DataRequest | ResponseMsg DataResponse

section \<open>The wire format\<close>

definition requestFields :: "DataRequest \<Rightarrow> mpval" where
  "requestFields req = MMap ([(''h'', MBin (reqH req))] @ optField ''htl'' MInt (reqHtl req))"

definition responseFields :: "DataResponse \<Rightarrow> mpval" where
  "responseFields res = MMap ([(''h'', MBin (resH res))] @ optField ''d'' MBin (resD res)
     @ optField ''i'' MInt (resI res) @ optField ''n'' MInt (resN res))"

definition encodeRequest :: "ext \<Rightarrow> DataRequest \<Rightarrow> bytes" where
  "encodeRequest E req = MSG_TYPE_REQUEST # mpEncode E (requestFields req)"

definition encodeResponse :: "ext \<Rightarrow> DataResponse \<Rightarrow> bytes" where
  "encodeResponse E res = MSG_TYPE_RESPONSE # mpEncode E (responseFields res)"

definition optInt :: "mpval option \<Rightarrow> int option option" where
  "optInt v = (case v of None \<Rightarrow> Some None | Some (MInt i) \<Rightarrow> Some (Some i) | _ \<Rightarrow> None)"

definition asRequest :: "mpval \<Rightarrow> DataRequest option" where
  "asRequest v = (case v of
     MMap kvs \<Rightarrow> (case (binField (map_of kvs ''h''), optInt (map_of kvs ''htl'')) of
       (Some h, Some htl) \<Rightarrow> Some \<lparr>reqH = h, reqHtl = htl\<rparr>
     | _ \<Rightarrow> None)
   | _ \<Rightarrow> None)"

definition intField :: "mpval option \<Rightarrow> int option" where
  "intField v = (case v of Some (MInt i) \<Rightarrow> Some i | _ \<Rightarrow> None)"

definition asResponse :: "mpval \<Rightarrow> DataResponse option" where
  "asResponse v = (case v of
     MMap kvs \<Rightarrow>
       (case binField (map_of kvs ''h'') of
          None \<Rightarrow> None
        | Some h \<Rightarrow>
            (if map_of kvs ''i'' = None \<or> map_of kvs ''n'' = None
             then Some \<lparr>resH = h, resD = binField (map_of kvs ''d''),
                        resI = intField (map_of kvs ''i''), resN = intField (map_of kvs ''n'')\<rparr>
             else (case (optBin (map_of kvs ''d''), intField (map_of kvs ''i''), intField (map_of kvs ''n'')) of
                     (Some d, Some i, Some n) \<Rightarrow> Some \<lparr>resH = h, resD = d, resI = Some i, resN = Some n\<rparr>
                   | _ \<Rightarrow> None)))
   | _ \<Rightarrow> None)"

definition parseMessage :: "ext \<Rightarrow> bytes \<Rightarrow> DataMessage option" where
  "parseMessage E msg =
     (if length msg < 2 then None
      else let type = hd msg; body = tl msg
        in if type = MSG_TYPE_REQUEST then
             map_option RequestMsg (Option.bind (mpDecode E body) asRequest)
           else if type = MSG_TYPE_RESPONSE then
             map_option ResponseMsg (Option.bind (mpDecode E body) asResponse)
           else None)"

definition createRequest :: "hash \<Rightarrow> int \<Rightarrow> DataRequest" where
  "createRequest h htl = \<lparr>reqH = h, reqHtl = Some htl\<rparr>"

definition createResponse :: "hash \<Rightarrow> bytes \<Rightarrow> DataResponse" where
  "createResponse h d = \<lparr>resH = h, resD = Some d, resI = None, resN = None\<rparr>"

definition createFragmentResponse :: "hash \<Rightarrow> bytes \<Rightarrow> int \<Rightarrow> int \<Rightarrow> DataResponse" where
  "createFragmentResponse h d index n = \<lparr>resH = h, resD = Some d, resI = Some index, resN = Some n\<rparr>"

definition isFragmented :: "DataResponse \<Rightarrow> bool" where
  "isFragmented res \<longleftrightarrow> resI res \<noteq> None \<and> resN res \<noteq> None"

section \<open>Hashes\<close>

text \<open>\<open>hashToKey\<close> is \<open>toHex\<close>, written as a loop.\<close>

fun keyLoop :: "hash \<Rightarrow> string \<Rightarrow> string" where
  "keyLoop [] key = key"
| "keyLoop (b # h) key = keyLoop h (key @ padStart2 (toString16 (unat b)))"

definition hashToKey :: "hash \<Rightarrow> string" where
  "hashToKey h = keyLoop h []"

definition verifyHash :: "ext \<Rightarrow> bytes \<Rightarrow> hash \<Rightarrow> bool" where
  "verifyHash E d expectedHash =
     (let computedHash = sha256 E d
      in if length computedHash \<noteq> length expectedHash then False else hashEquals_from computedHash expectedHash)"

section \<open>Hops to live\<close>

text \<open>The two results of \<open>Math.random\<close> are arguments of \<open>generatePeerHTLConfig\<close>.\<close>

definition DECREMENT_AT_MAX_PROB :: real where "DECREMENT_AT_MAX_PROB = 1 / 2"

definition DECREMENT_AT_MIN_PROB :: real where "DECREMENT_AT_MIN_PROB = 1 / 4"

record PeerHTLConfig =
  decrementAtMax :: bool
  decrementAtMin :: bool

definition generatePeerHTLConfig :: "real \<Rightarrow> real \<Rightarrow> PeerHTLConfig" where
  "generatePeerHTLConfig random1 random2 =
     \<lparr>decrementAtMax = random1 < DECREMENT_AT_MAX_PROB, decrementAtMin = random2 < DECREMENT_AT_MIN_PROB\<rparr>"

definition decrementHTL :: "int \<Rightarrow> PeerHTLConfig \<Rightarrow> int" where
  "decrementHTL htl config =
     (if htl \<le> 0 then 0
      else if htl = MAX_HTL then (if decrementAtMax config then htl - 1 else htl)
      else if htl = 1 then (if decrementAtMin config then 0 else htl)
      else htl - 1)"

definition shouldForward :: "int \<Rightarrow> bool" where
  "shouldForward htl \<longleftrightarrow> htl > 0"

section \<open>Lemmas\<close>

lemma keyLoop_eq: "keyLoop h key = key @ toHex h"
  by (induction h arbitrary: key) (simp_all add: toHex_Cons byteHex_def)

lemma hashToKey_eq [simp]: "hashToKey h = toHex h"
  by (simp add: hashToKey_def keyLoop_eq)

lemma verifyHash_iff [simp]: "verifyHash E d h \<longleftrightarrow> sha256 E d = h"
  unfolding verifyHash_def verify_def [symmetric] by (rule verify_iff)

lemma decrementHTL_bounds:
  "0 \<le> decrementHTL htl c" "decrementHTL htl c \<le> max 0 htl"
  "1 < htl \<Longrightarrow> htl \<noteq> MAX_HTL \<Longrightarrow> decrementHTL htl c < htl"
  by (auto simp: decrementHTL_def MAX_HTL_def)

text \<open>What the code relies on in MessagePack beyond the round trip: a value takes at least one byte.\<close>

definition msgpack_nonempty :: "ext \<Rightarrow> bool" where
  "msgpack_nonempty E \<longleftrightarrow> (\<forall>v. mpEncode E v \<noteq> [])"

definition js_int :: "int option \<Rightarrow> bool" where
  "js_int i \<longleftrightarrow> (\<forall>j. i = Some j \<longrightarrow> \<bar>j\<bar> < 2 ^ 53)"

lemma wire_keys_plain [simp]: "\<not> isArrayIndex ''htl''" "\<not> isArrayIndex ''d''" "\<not> isArrayIndex ''i''"
  by code_simp+

lemma mp_wf_fields:
  "js_int (reqHtl req) \<Longrightarrow> mp_wf (requestFields req)"
  "js_int (resI res) \<Longrightarrow> js_int (resN res) \<Longrightarrow> mp_wf (responseFields res)"
  unfolding requestFields_def responseFields_def mp_wf.simps
  by (intro conjI enumerate_plain; auto simp: optField_def js_int_def split: option.splits)+

lemma mp_within_fields: "mp_within mp_maxDepth (requestFields req)" "mp_within mp_maxDepth (responseFields res)"
  by (auto simp: mp_maxDepth_eq requestFields_def responseFields_def optField_def split: option.splits)

lemma as_fields [simp]:
  "asRequest (requestFields req) = Some req" "asResponse (responseFields res) = Some res"
proof -
  show "asRequest (requestFields req) = Some req"
    by (cases req) (auto simp: requestFields_def asRequest_def optField_def binField_def optInt_def split: option.split)
  obtain h d i n where res: "res = \<lparr>resH = h, resD = d, resI = i, resN = n\<rparr>" by (cases res)
  show "asResponse (responseFields res) = Some res"
    by (cases d; cases i; cases n; simp add: res responseFields_def asResponse_def optField_def binField_def optBin_def intField_def)
qed

lemma parse_encode:
  assumes "msgpack_ok E" "msgpack_nonempty E"
  shows "js_int (reqHtl req) \<Longrightarrow> parseMessage E (encodeRequest E req) = Some (RequestMsg req)"
    and "js_int (resI res) \<Longrightarrow> js_int (resN res) \<Longrightarrow> parseMessage E (encodeResponse E res) = Some (ResponseMsg res)"
proof -
  have len: "\<not> length (t # mpEncode E v) < 2" for t v
    using assms(2) by (cases "mpEncode E v") (auto simp: msgpack_nonempty_def)
  show "parseMessage E (encodeRequest E req) = Some (RequestMsg req)" if "js_int (reqHtl req)"
    using that len [of _ "requestFields req"] msgpack_okD [OF assms(1) mp_wf_fields(1) mp_within_fields(1)]
    by (simp add: parseMessage_def encodeRequest_def)
  show "parseMessage E (encodeResponse E res) = Some (ResponseMsg res)" if "js_int (resI res)" "js_int (resN res)"
    using that len [of _ "responseFields res"] msgpack_okD [OF assms(1) mp_wf_fields(2) mp_within_fields(2)]
    by (simp add: parseMessage_def encodeResponse_def MSG_TYPE_REQUEST_def MSG_TYPE_RESPONSE_def)
qed

lemma demo_nonempty [simp]: "msgpack_nonempty demo"
proof -
  have "mpEnc v \<noteq> []" for v by (cases v) simp_all
  then show ?thesis by (simp add: msgpack_nonempty_def demo_def)
qed

end
