(* ===== verification/Peer.thy ===== *)
theory Peer
  imports Protocol Lru "HOL-Library.Multiset"
begin

text \<open>
  The data exchange of one WebRTC connection (\<open>class Peer\<close>, \<open>hashtree-nostr/src/webrtc/peer.ts\<close>): requests to the
  peer, responses in one message or in fragments, requests of the peer served from the local store or
  forwarded to others, and the push of data that arrives later.

  What runs between two turns of the event loop is one function on the state. A call that waits for a
  promise or a timer is part of the state, and its continuation is a function of its own: \<open>serving\<close> holds
  the requests of the peer that wait for the local store or for a forward, \<open>verifying\<close> the responses
  whose hash is being computed, \<open>peerTimers\<close> the timeouts that were set and have not been cleared. The
  promise of the \<open>n\<close>th call of \<open>request\<close> is the number \<open>n\<close>, \<open>calls\<close> the list of the hashes asked for;
  \<open>answered\<close> is the list of the calls of \<open>resolve\<close>. The channel's state is a boolean, its sends succeed; the current time is an argument.
  The signalling part of the class (offers, answers, candidates) only drives \<open>RTCPeerConnection\<close> and is
  left out.
\<close>

section \<open>State\<close>

record TheirRequest =
  theirHash :: hash
  requestedAt :: int

text \<open>\<open>pendingResolve\<close> is the chain of \<open>resolve\<close> functions, in the order they are called.\<close>

record PendingRequest =
  pendingHash :: hash
  pendingResolve :: "nat list"
  pendingTimeout :: nat

record PendingReassembly =
  reassemblyHash :: hash
  fragments :: "(int \<times> bytes option) list"
  totalExpected :: int
  receivedBytes :: nat
  firstFragmentAt :: int
  lastFragmentAt :: int

record PeerStats =
  requestsSent :: nat
  requestsReceived :: nat
  responsesSent :: nat
  responsesReceived :: nat
  receiveErrors :: nat
  fragmentsSent :: nat
  fragmentsReceived :: nat
  fragmentTimeouts :: nat
  reassembliesCompleted :: nat
  bytesSent :: nat
  bytesReceived :: nat
  bytesForwarded :: nat

definition noStats :: PeerStats where
  "noStats = \<lparr>requestsSent = 0, requestsReceived = 0, responsesSent = 0, responsesReceived = 0,
     receiveErrors = 0, fragmentsSent = 0, fragmentsReceived = 0, fragmentTimeouts = 0,
     reassembliesCompleted = 0, bytesSent = 0, bytesReceived = 0, bytesForwarded = 0\<rparr>"

text \<open>A request timeout holds the \<open>resolve\<close> of the call that set it; a stall timeout holds the pending
  request of its key.\<close>

datatype PeerTimer = RequestTimer string nat | StallTimer string

datatype ServeStage = AtStore | AtForward

record peer =
  channelOpen :: bool
  hasStore :: bool
  hasForward :: bool
  htlConfig :: PeerHTLConfig
  ourRequests :: "(string \<times> PendingRequest) list"
  theirRequests :: "(string, TheirRequest) LRUCache"
  pendingReassemblies :: "(string \<times> PendingReassembly) list"
  cleanupRunning :: bool
  stats :: PeerStats
  nextId :: nat
  peerTimers :: "(nat \<times> PeerTimer) list"
  verifying :: "(nat \<times> hash \<times> bytes option \<times> nat list) list"
  serving :: "(nat \<times> ServeStage \<times> hash \<times> int) list"
  calls :: "hash list"
  answered :: "(nat \<times> bytes option) list"
  sentMessages :: "bytes list"
  forwardCalls :: "(hash \<times> int) list"

definition THEIR_REQUESTS_SIZE :: int where "THEIR_REQUESTS_SIZE = 200"

definition newPeer :: "bool \<Rightarrow> bool \<Rightarrow> PeerHTLConfig \<Rightarrow> peer" where
  "newPeer store forward config = \<lparr>channelOpen = False, hasStore = store, hasForward = forward, htlConfig = config,
     ourRequests = [], theirRequests = lru_new THEIR_REQUESTS_SIZE, pendingReassemblies = [], cleanupRunning = True,
     stats = noStats, nextId = 0, peerTimers = [], verifying = [], serving = [], calls = [], answered = [],
     sentMessages = [], forwardCalls = []\<rparr>"

text \<open>\<open>stats.x++\<close>\<close>

definition countStat :: "((nat \<Rightarrow> nat) \<Rightarrow> PeerStats \<Rightarrow> PeerStats) \<Rightarrow> nat \<Rightarrow> peer \<Rightarrow> peer" where
  "countStat field n P = P\<lparr>stats := field (\<lambda>m. m + n) (stats P)\<rparr>"

definition sendMessage :: "bytes \<Rightarrow> peer \<Rightarrow> peer" where
  "sendMessage m P = P\<lparr>sentMessages := sentMessages P @ [m]\<rparr>"

definition resolveAll :: "nat list \<Rightarrow> bytes option \<Rightarrow> peer \<Rightarrow> peer" where
  "resolveAll ids d P = P\<lparr>answered := answered P @ map (\<lambda>i. (i, d)) ids\<rparr>"

definition clearTimeout :: "nat \<Rightarrow> peer \<Rightarrow> peer" where
  "clearTimeout i P = P\<lparr>peerTimers := AList.delete i (peerTimers P)\<rparr>"

section \<open>Requests to the peer\<close>

definition request :: "ext \<Rightarrow> hash \<Rightarrow> int \<Rightarrow> peer \<Rightarrow> peer" where
  "request E h htl P0 =
     (let call = length (calls P0); P = P0\<lparr>calls := calls P0 @ [h]\<rparr> in
      if \<not> channelOpen P then resolveAll [call] None P
      else let hashKey = hashToKey h in
        case map_of (ourRequests P) hashKey of
          Some existing \<Rightarrow>
            P\<lparr>ourRequests := AList.update hashKey (existing\<lparr>pendingResolve := pendingResolve existing @ [call]\<rparr>) (ourRequests P)\<rparr>
        | None \<Rightarrow>
            let sendHTL = decrementHTL htl (htlConfig P);
                P1 = countStat requestsSent_update 1 P;
                timeout = nextId P1;
                P2 = P1\<lparr>nextId := Suc timeout, peerTimers := peerTimers P1 @ [(timeout, RequestTimer hashKey call)],
                  ourRequests := AList.update hashKey
                    \<lparr>pendingHash = h, pendingResolve = [call], pendingTimeout = timeout\<rparr> (ourRequests P1)\<rparr>
            in sendMessage (encodeRequest E (createRequest h sendHTL)) P2)"

text \<open>A timeout runs: of \<open>request\<close>, or the one that \<open>handleFragmentResponse\<close> sets. The stall timeout resolves the
  pending request it was set for: the one under its key, since the timeout is cleared when the request
  leaves the table.\<close>

definition peerTimerFires :: "nat \<Rightarrow> peer \<Rightarrow> peer" where
  "peerTimerFires i P = (case map_of (peerTimers P) i of
     None \<Rightarrow> P
   | Some (RequestTimer hashKey call) \<Rightarrow>
       let P1 = clearTimeout i P;
           P2 = P1\<lparr>ourRequests := AList.delete hashKey (ourRequests P1)\<rparr>
       in resolveAll [call] None P2
   | Some (StallTimer hashKey) \<Rightarrow>
       let pendingReq = map_of (ourRequests P) hashKey;
           P1 = clearTimeout i P;
           P2 = P1\<lparr>ourRequests := AList.delete hashKey (ourRequests P1),
             pendingReassemblies := AList.delete hashKey (pendingReassemblies P1)\<rparr>;
           P3 = countStat fragmentTimeouts_update 1 P2
       in (case pendingReq of None \<Rightarrow> P3 | Some req \<Rightarrow> resolveAll (pendingResolve req) None P3))"

section \<open>Sending data\<close>

definition fragmentAt :: "bytes \<Rightarrow> nat \<Rightarrow> bytes" where
  "fragmentAt d i =
     (let start = i * FRAGMENT_SIZE; stop = min (start + FRAGMENT_SIZE) (length d) in slice start stop d)"

definition totalFragments :: "bytes \<Rightarrow> nat" where
  "totalFragments d = (length d + FRAGMENT_SIZE - 1) div FRAGMENT_SIZE"

definition sendFragment :: "ext \<Rightarrow> hash \<Rightarrow> bytes \<Rightarrow> nat \<Rightarrow> peer \<Rightarrow> peer" where
  "sendFragment E h d i P =
     countStat fragmentsSent_update 1
       (sendMessage (encodeResponse E (createFragmentResponse h (fragmentAt d i) (int i) (int (totalFragments d)))) P)"

definition sendResponse :: "ext \<Rightarrow> hash \<Rightarrow> bytes \<Rightarrow> bool \<Rightarrow> peer \<Rightarrow> peer" where
  "sendResponse E h d isForwarded P =
     (if \<not> channelOpen P then P
      else let P1 = countStat bytesSent_update (length d) P;
               P2 = (if isForwarded then countStat bytesForwarded_update (length d) P1 else P1)
        in if length d \<le> FRAGMENT_SIZE then sendMessage (encodeResponse E (createResponse h d)) P2
           else fold (sendFragment E h d) [0..<totalFragments d] P2)"

definition sendData :: "ext \<Rightarrow> hash \<Rightarrow> bytes \<Rightarrow> peer \<Rightarrow> bool \<times> peer" where
  "sendData E h d P0 =
     (let hashKey = hashToKey h;
          theirReq = fst (lru_get hashKey (theirRequests P0));
          P = P0\<lparr>theirRequests := snd (lru_get hashKey (theirRequests P0))\<rparr>
      in if theirReq = None then (False, P)
         else let P1 = P\<lparr>theirRequests := snd (lru_delete hashKey (theirRequests P))\<rparr>
           in (True, countStat responsesSent_update 1 (sendResponse E h d False P1)))"

definition hasRequested :: "hash \<Rightarrow> peer \<Rightarrow> bool" where
  "hasRequested h P \<longleftrightarrow> lru_has (hashToKey h) (theirRequests P)"

definition getTheirRequestCount :: "peer \<Rightarrow> nat" where
  "getTheirRequestCount P = lru_size (theirRequests P)"

section \<open>Requests of the peer\<close>

text \<open>The request after the local store had no data, up to the call of \<open>onForwardRequest\<close>. An absent number of
  hops is \<open>MAX_HTL\<close>.\<close>

definition startForward :: "int \<Rightarrow> nat \<Rightarrow> hash \<Rightarrow> int \<Rightarrow> peer \<Rightarrow> peer" where
  "startForward now i h htl P =
     (if hasForward P \<and> shouldForward htl then
        let P1 = P\<lparr>theirRequests := lru_set (hashToKey h) \<lparr>theirHash = h, requestedAt = now\<rparr> (theirRequests P)\<rparr>;
            forwardHTL = decrementHTL htl (htlConfig P1)
        in P1\<lparr>forwardCalls := forwardCalls P1 @ [(h, forwardHTL)], serving := serving P1 @ [(i, AtForward, h, htl)]\<rparr>
      else P)"

definition handleRequest :: "int \<Rightarrow> DataRequest \<Rightarrow> peer \<Rightarrow> peer" where
  "handleRequest now req P =
     (let htl = (case reqHtl req of None \<Rightarrow> MAX_HTL | Some n \<Rightarrow> n);
          h = reqH req;
          i = nextId P;
          P1 = countStat requestsReceived_update 1 (P\<lparr>nextId := Suc i\<rparr>)
      in if hasStore P1 then P1\<lparr>serving := serving P1 @ [(i, AtStore, h, htl)]\<rparr>
         else startForward now i h htl P1)"

text \<open>What a promise that a request waits for gives: data, nothing, or a rejection.\<close>

datatype lookup = Found bytes | Missing | Rejected

text \<open>The continuation of a request of the peer, once \<open>localStore.get\<close> or \<open>onForwardRequest\<close> has settled. A
  rejection is caught by \<open>handleMessage\<close>.\<close>

definition serveContinues :: "ext \<Rightarrow> int \<Rightarrow> nat \<Rightarrow> lookup \<Rightarrow> peer \<Rightarrow> peer" where
  "serveContinues E now i answer P0 = (case map_of (serving P0) i of
     None \<Rightarrow> P0
   | Some (stage, h, htl) \<Rightarrow>
       let P = P0\<lparr>serving := AList.delete i (serving P0)\<rparr> in
       (case (stage, answer) of
          (_, Rejected) \<Rightarrow> countStat receiveErrors_update 1 P
        | (AtStore, Found d) \<Rightarrow> countStat responsesSent_update 1 (sendResponse E h d False P)
        | (AtStore, Missing) \<Rightarrow> startForward now i h htl P
        | (AtForward, Found d) \<Rightarrow>
            let P1 = P\<lparr>theirRequests := snd (lru_delete (hashToKey h) (theirRequests P))\<rparr>
            in countStat responsesSent_update 1 (sendResponse E h d True P1)
        | (AtForward, Missing) \<Rightarrow> P))"

section \<open>Responses\<close>

text \<open>\<open>assembleFragments\<close> copies the fragments into a buffer of \<open>receivedBytes\<close> bytes; a missing fragment, or one
  that does not fit, throws.\<close>

fun assembleLoop :: "(int \<times> bytes option) list \<Rightarrow> nat \<Rightarrow> int \<Rightarrow> nat \<Rightarrow> bytes \<Rightarrow> bytes option" where
  "assembleLoop frs 0 i offset result = Some result"
| "assembleLoop frs (Suc n) i offset result = (case map_of frs i of
     Some (Some fragment) \<Rightarrow>
       if offset + length fragment \<le> length result
       then assembleLoop frs n (i + 1) (offset + length fragment) (overwrite offset fragment result)
       else None
   | _ \<Rightarrow> None)"

definition assembleFragments :: "PendingReassembly \<Rightarrow> bytes option" where
  "assembleFragments pending =
     assembleLoop (fragments pending) (nat (totalExpected pending)) 0 0 (replicate (receivedBytes pending) 0)"

text \<open>The three outcomes of \<open>handleFragmentResponse\<close>.\<close>

datatype fragmentResult = Incomplete | Assembled bytes | FragmentThrows

definition resetStall :: "string \<Rightarrow> peer \<Rightarrow> peer" where
  "resetStall hashKey P = (case map_of (ourRequests P) hashKey of
     None \<Rightarrow> P
   | Some pendingReq \<Rightarrow>
       let P1 = clearTimeout (pendingTimeout pendingReq) P; timeout = nextId P1
       in P1\<lparr>nextId := Suc timeout, peerTimers := peerTimers P1 @ [(timeout, StallTimer hashKey)],
            ourRequests := AList.update hashKey (pendingReq\<lparr>pendingTimeout := timeout\<rparr>) (ourRequests P1)\<rparr>)"

definition startReassembly :: "int \<Rightarrow> hash \<Rightarrow> int \<Rightarrow> PendingReassembly" where
  "startReassembly now h n =
     \<lparr>reassemblyHash = h, fragments = [], totalExpected = n, receivedBytes = 0, firstFragmentAt = now, lastFragmentAt = now\<rparr>"

definition addFragment :: "int \<Rightarrow> int \<Rightarrow> bytes option \<Rightarrow> PendingReassembly \<Rightarrow> bool \<times> PendingReassembly" where
  "addFragment now i d pending =
     (if map_of (fragments pending) i \<noteq> None then (True, pending)
      else let pending1 = pending\<lparr>fragments := fragments pending @ [(i, d)]\<rparr>
        in case d of
             None \<Rightarrow> (False, pending1)
           | Some b \<Rightarrow> (True, pending1\<lparr>receivedBytes := receivedBytes pending1 + length b, lastFragmentAt := now\<rparr>))"

definition handleFragmentResponse :: "int \<Rightarrow> hash \<Rightarrow> bytes option \<Rightarrow> int \<Rightarrow> int \<Rightarrow> peer \<Rightarrow> fragmentResult \<times> peer" where
  "handleFragmentResponse now h d i n P =
     (let hashKey = hashToKey h;
          P1 = countStat fragmentsReceived_update 1 P;
          pending = (case map_of (pendingReassemblies P1) hashKey of None \<Rightarrow> startReassembly now h n | Some p \<Rightarrow> p);
          P2 = resetStall hashKey P1;
          (ok, pending1) = addFragment now i d pending;
          P3 = P2\<lparr>pendingReassemblies := AList.update hashKey pending1 (pendingReassemblies P2)\<rparr>
      in if \<not> ok then (FragmentThrows, P3)
         else if int (length (fragments pending1)) = totalExpected pending1 then
           let P4 = countStat reassembliesCompleted_update 1
                      (P3\<lparr>pendingReassemblies := AList.delete hashKey (pendingReassemblies P3)\<rparr>)
           in (case assembleFragments pending1 of None \<Rightarrow> FragmentThrows | Some r \<Rightarrow> Assembled r, P4)
         else (Incomplete, P3))"

text \<open>A complete response: the pending request leaves the table and its data is hashed.\<close>

definition completeResponse :: "hash \<Rightarrow> bytes option \<Rightarrow> peer \<Rightarrow> peer" where
  "completeResponse h d P =
     (let hashKey = hashToKey h in
      case map_of (ourRequests P) hashKey of
        None \<Rightarrow> P
      | Some pending \<Rightarrow>
          let P1 = clearTimeout (pendingTimeout pending) P; i = nextId P1
          in P1\<lparr>ourRequests := AList.delete hashKey (ourRequests P1), nextId := Suc i,
               verifying := verifying P1 @ [(i, h, d, pendingResolve pending)]\<rparr>)"

text \<open>The continuation after \<open>verifyHash\<close>; absent data makes it reject.\<close>

definition verifyContinues :: "ext \<Rightarrow> nat \<Rightarrow> peer \<Rightarrow> peer" where
  "verifyContinues E i P0 = (case map_of (verifying P0) i of
     None \<Rightarrow> P0
   | Some (h, d, resolvers) \<Rightarrow>
       let P = P0\<lparr>verifying := AList.delete i (verifying P0)\<rparr> in
       (case d of
          None \<Rightarrow> countStat receiveErrors_update 1 P
        | Some finalData \<Rightarrow>
            if verifyHash E finalData h
            then countStat bytesReceived_update (length finalData)
                   (countStat responsesReceived_update 1 (resolveAll resolvers (Some finalData) P))
            else countStat receiveErrors_update 1 (resolveAll resolvers None P)))"

definition handleResponseMessage :: "int \<Rightarrow> DataResponse \<Rightarrow> peer \<Rightarrow> peer" where
  "handleResponseMessage now res P =
     (if isFragmented res then
        (case handleFragmentResponse now (resH res) (resD res) (the (resI res)) (the (resN res)) P of
           (Incomplete, P1) \<Rightarrow> P1
         | (FragmentThrows, P1) \<Rightarrow> countStat receiveErrors_update 1 P1
         | (Assembled d, P1) \<Rightarrow> completeResponse (resH res) (Some d) P1)
      else completeResponse (resH res) (resD res) P)"

definition handleMessage :: "ext \<Rightarrow> int \<Rightarrow> bytes \<Rightarrow> peer \<Rightarrow> peer" where
  "handleMessage E now data P = (case parseMessage E data of
     None \<Rightarrow> countStat receiveErrors_update 1 P
   | Some (RequestMsg req) \<Rightarrow> handleRequest now req P
   | Some (ResponseMsg res) \<Rightarrow> handleResponseMessage now res P)"

section \<open>Cleanup and close\<close>

definition stale :: "int \<Rightarrow> PendingReassembly \<Rightarrow> bool" where
  "stale now pending \<longleftrightarrow>
     now - lastFragmentAt pending > FRAGMENT_STALL_TIMEOUT \<or> now - firstFragmentAt pending > FRAGMENT_TOTAL_TIMEOUT"

text \<open>The first entry of the table sorted by \<open>firstFragmentAt\<close>; \<open>Array.prototype.sort\<close> is stable.\<close>

definition oldestReassembly :: "(string \<times> PendingReassembly) list \<Rightarrow> string option" where
  "oldestReassembly ps = (case sort_key (firstFragmentAt \<circ> snd) ps of [] \<Rightarrow> None | p # _ \<Rightarrow> Some (fst p))"

definition cleanupStaleReassemblies :: "int \<Rightarrow> peer \<Rightarrow> peer" where
  "cleanupStaleReassemblies now P =
     (let old = List.filter (\<lambda>p. stale now (snd p)) (pendingReassemblies P);
          P1 = countStat fragmentTimeouts_update (length old)
                 (P\<lparr>pendingReassemblies := fold (\<lambda>p. AList.delete (fst p)) old (pendingReassemblies P)\<rparr>)
      in if length (pendingReassemblies P1) > MAX_PENDING_REASSEMBLIES then
           (case oldestReassembly (pendingReassemblies P1) of
              None \<Rightarrow> P1
            | Some key \<Rightarrow> countStat fragmentTimeouts_update 1
                (P1\<lparr>pendingReassemblies := AList.delete key (pendingReassemblies P1)\<rparr>))
         else P1)"

definition cleanupTick :: "int \<Rightarrow> peer \<Rightarrow> peer" where
  "cleanupTick now P = (if cleanupRunning P then cleanupStaleReassemblies now P else P)"

definition clearPendingRequests :: "peer \<Rightarrow> peer" where
  "clearPendingRequests P =
     (fold (\<lambda>p. resolveAll (pendingResolve (snd p)) None \<circ> clearTimeout (pendingTimeout (snd p))) (ourRequests P) P)
       \<lparr>ourRequests := []\<rparr>"

definition closePeer :: "peer \<Rightarrow> peer" where
  "closePeer P =
     (let P1 = P\<lparr>cleanupRunning := False, pendingReassemblies := []\<rparr>;
          P2 = clearPendingRequests P1
      in P2\<lparr>channelOpen := False\<rparr>)"

text \<open>The data channel opens.\<close>

definition channelOpens :: "peer \<Rightarrow> peer" where
  "channelOpens P = P\<lparr>channelOpen := True\<rparr>"

end
