(* ===== verification/PeerSpec.thy ===== *)
theory PeerSpec
  imports Peer
begin

text \<open>
  What one connection keeps true: the events that happen to a peer, the invariant of its requests and
  timeouts, and the transfer of a block in fragments.
\<close>

section \<open>Events\<close>

datatype peerEvent =
    Request hash int
  | Message int bytes
  | ServeSettles int nat lookup
  | VerifySettles nat
  | TimerFires nat
  | CleanupTick int
  | SendData hash bytes
  | Opens
  | Close

fun peerExec :: "ext \<Rightarrow> peerEvent \<Rightarrow> peer \<Rightarrow> peer" where
  "peerExec E (Request h htl) P = request E h htl P"
| "peerExec E (Message now m) P = handleMessage E now m P"
| "peerExec E (ServeSettles now i a) P = serveContinues E now i a P"
| "peerExec E (VerifySettles i) P = verifyContinues E i P"
| "peerExec E (TimerFires i) P = peerTimerFires i P"
| "peerExec E (CleanupTick now) P = cleanupTick now P"
| "peerExec E (SendData h d) P = snd (sendData E h d P)"
| "peerExec E Opens P = channelOpens P"
| "peerExec E Close P = closePeer P"

section \<open>The invariant\<close>

fun timerKey :: "PeerTimer \<Rightarrow> string" where
  "timerKey (RequestTimer k c) = k"
| "timerKey (StallTimer k) = k"

text \<open>The timeouts of the runtime are those of the requests in the table; the request timeout holds the first
  call.\<close>

definition timer_of :: "peer \<Rightarrow> string \<Rightarrow> PendingRequest \<Rightarrow> bool" where
  "timer_of P k req \<longleftrightarrow> (case map_of (peerTimers P) (pendingTimeout req) of
     None \<Rightarrow> False
   | Some (RequestTimer k' c) \<Rightarrow> k' = k \<and> pendingResolve req \<noteq> [] \<and> hd (pendingResolve req) = c
   | Some (StallTimer k') \<Rightarrow> k' = k)"

definition timers_inv :: "peer \<Rightarrow> bool" where
  "timers_inv P \<longleftrightarrow> distinct (map fst (ourRequests P)) \<and>
     (\<forall>i\<in>fst ` set (peerTimers P) \<union> fst ` set (verifying P). i < nextId P) \<and>
     (\<forall>k req. map_of (ourRequests P) k = Some req \<longrightarrow> timer_of P k req) \<and>
     (\<forall>i t. map_of (peerTimers P) i = Some t \<longrightarrow>
        (\<exists>req. map_of (ourRequests P) (timerKey t) = Some req \<and> pendingTimeout req = i))"

text \<open>The calls that wait in the table, those whose response is being hashed, and those that were answered:
  no call is in two of these places, or in one of them twice.\<close>

definition pendingCalls :: "peer \<Rightarrow> nat list" where
  "pendingCalls P = concat (map (pendingResolve \<circ> snd) (ourRequests P))"

definition verifyingCalls :: "peer \<Rightarrow> nat list" where
  "verifyingCalls P = concat (map (snd \<circ> snd \<circ> snd) (verifying P))"

definition knownCalls :: "peer \<Rightarrow> nat list" where
  "knownCalls P = pendingCalls P @ verifyingCalls P @ map fst (answered P)"

definition calls_inv :: "peer \<Rightarrow> bool" where
  "calls_inv P \<longleftrightarrow> distinct (knownCalls P) \<and> (\<forall>c\<in>set (knownCalls P). c < length (calls P)) \<and>
     distinct (map fst (verifying P)) \<and>
     (\<forall>k req. (k, req) \<in> set (ourRequests P) \<longrightarrow>
        k = toHex (pendingHash req) \<and> (\<forall>c\<in>set (pendingResolve req). calls P ! c = pendingHash req)) \<and>
     (\<forall>i h d cs. (i, h, d, cs) \<in> set (verifying P) \<longrightarrow> (\<forall>c\<in>set cs. calls P ! c = h))"

text \<open>A call is answered with data only when the data has the hash that was asked for.\<close>

definition answers_ok :: "ext \<Rightarrow> peer \<Rightarrow> bool" where
  "answers_ok E P \<longleftrightarrow> (\<forall>c d. (c, Some d) \<in> set (answered P) \<longrightarrow> sha256 E d = calls P ! c)"

definition peer_inv :: "ext \<Rightarrow> peer \<Rightarrow> bool" where
  "peer_inv E P \<longleftrightarrow> timers_inv P \<and> calls_inv P \<and> answers_ok E P"

text \<open>What the invariant reads; most of the code does not touch it.\<close>

definition requestState :: "peer \<Rightarrow> (string \<times> PendingRequest) list \<times> (nat \<times> PeerTimer) list \<times>
    (nat \<times> hash \<times> bytes option \<times> nat list) list \<times> (nat \<times> bytes option) list \<times> hash list" where
  "requestState P = (ourRequests P, peerTimers P, verifying P, answered P, calls P)"

lemma timers_cong:
  assumes "ourRequests P' = ourRequests P" "peerTimers P' = peerTimers P" "verifying P' = verifying P" "nextId P \<le> nextId P'"
    and "timers_inv P"
  shows "timers_inv P'"
proof -
  have "timer_of P' = timer_of P" by (intro ext) (simp add: timer_of_def assms(2))
  then show ?thesis using assms(4,5) by (auto simp: timers_inv_def assms(1-3) intro: order_less_le_trans)
qed

lemma peer_inv_cong:
  assumes "requestState P' = requestState P" "nextId P \<le> nextId P'" "peer_inv E P"
  shows "peer_inv E P'"
proof -
  from assms(1) have eq: "ourRequests P' = ourRequests P" "peerTimers P' = peerTimers P" "verifying P' = verifying P"
    "answered P' = answered P" "calls P' = calls P" by (simp_all add: requestState_def)
  have "timers_inv P'" using timers_cong [OF eq(1-3) assms(2)] assms(3) by (simp add: peer_inv_def)
  moreover have "calls_inv P' \<and> answers_ok E P'" using assms(3) eq
    unfolding peer_inv_def calls_inv_def answers_ok_def knownCalls_def pendingCalls_def verifyingCalls_def by simp
  ultimately show ?thesis by (simp add: peer_inv_def)
qed

section \<open>The parts of the code that leave the requests alone\<close>

definition keeps :: "(peer \<Rightarrow> peer) \<Rightarrow> bool" where
  "keeps f \<longleftrightarrow> (\<forall>P. requestState (f P) = requestState P \<and> nextId (f P) = nextId P \<and>
     channelOpen (f P) = channelOpen P \<and> pendingReassemblies (f P) = pendingReassemblies P)"

lemma keepsD:
  assumes "keeps f"
  shows "requestState (f P) = requestState P" "nextId (f P) = nextId P" "channelOpen (f P) = channelOpen P"
    "pendingReassemblies (f P) = pendingReassemblies P"
  using assms by (simp_all add: keeps_def)

lemma keeps_fold:
  assumes "\<And>x. keeps (f x)"
  shows "keeps (fold f xs)"
proof -
  have "requestState (fold f xs P) = requestState P \<and> nextId (fold f xs P) = nextId P \<and>
      channelOpen (fold f xs P) = channelOpen P \<and> pendingReassemblies (fold f xs P) = pendingReassemblies P" for P
    by (induction xs arbitrary: P) (simp_all add: keepsD [OF assms])
  then show ?thesis by (simp add: keeps_def)
qed

lemma keeps_basic: "keeps (countStat field n)" "keeps (sendMessage m)" "keeps (sendFragment E h d i)"
    "keeps (startForward now i h htl)"
  by (simp_all add: keeps_def requestState_def countStat_def sendMessage_def sendFragment_def startForward_def Let_def)

lemmas keeps_simps [simp] = keeps_basic [THEN keepsD(1)] keeps_basic [THEN keepsD(2)] keeps_basic [THEN keepsD(3)]
  keeps_basic [THEN keepsD(4)]
  keeps_fold [OF keeps_basic(3), THEN keepsD(1)] keeps_fold [OF keeps_basic(3), THEN keepsD(2)]
  keeps_fold [OF keeps_basic(3), THEN keepsD(3)] keeps_fold [OF keeps_basic(3), THEN keepsD(4)]

lemma keeps_sendResponse: "keeps (sendResponse E h d fw)"
  by (simp add: keeps_def sendResponse_def Let_def)

lemmas keeps_sendResponse_simps [simp] = keeps_sendResponse [THEN keepsD(1)] keeps_sendResponse [THEN keepsD(2)]
  keeps_sendResponse [THEN keepsD(3)] keeps_sendResponse [THEN keepsD(4)]

lemma requestState_simps [simp]:
  "requestState (P\<lparr>theirRequests := x\<rparr>) = requestState P" "requestState (P\<lparr>serving := y\<rparr>) = requestState P"
  "requestState (P\<lparr>nextId := n\<rparr>) = requestState P" "requestState (P\<lparr>channelOpen := b\<rparr>) = requestState P"
  "requestState (P\<lparr>cleanupRunning := b\<rparr>) = requestState P" "requestState (P\<lparr>pendingReassemblies := r\<rparr>) = requestState P"
  by (simp_all add: requestState_def)

lemma serveContinues_keeps:
  "requestState (serveContinues E now i a P) = requestState P" "nextId (serveContinues E now i a P) = nextId P"
  "channelOpen (serveContinues E now i a P) = channelOpen P"
  "pendingReassemblies (serveContinues E now i a P) = pendingReassemblies P"
  by (auto simp: serveContinues_def Let_def split: option.split lookup.split ServeStage.split)

lemma sendData_keeps:
  "requestState (snd (sendData E h d P)) = requestState P" "nextId (snd (sendData E h d P)) = nextId P"
  "channelOpen (snd (sendData E h d P)) = channelOpen P"
  "pendingReassemblies (snd (sendData E h d P)) = pendingReassemblies P"
  by (simp_all add: sendData_def Let_def)

lemma handleRequest_keeps:
  "requestState (handleRequest now req P) = requestState P" "nextId P \<le> nextId (handleRequest now req P)"
  "channelOpen (handleRequest now req P) = channelOpen P"
  "pendingReassemblies (handleRequest now req P) = pendingReassemblies P"
  by (simp_all add: handleRequest_def Let_def)

lemma cleanupTick_keeps:
  "requestState (cleanupTick now P) = requestState P" "nextId (cleanupTick now P) = nextId P"
  "channelOpen (cleanupTick now P) = channelOpen P"
  by (simp_all add: cleanupTick_def cleanupStaleReassemblies_def Let_def split: option.split)

section \<open>Requests enter and leave the table\<close>

lemma keys_delete: "fst ` set (AList.delete k al) \<subseteq> fst ` set al"
  by (auto simp: AList.delete_eq)

lemma timer_ofE:
  assumes "timer_of P k req"
  obtains t where "map_of (peerTimers P) (pendingTimeout req) = Some t" "timerKey t = k"
    "\<And>k' c. t = RequestTimer k' c \<Longrightarrow> \<exists>cs. pendingResolve req = c # cs"
  using assms by (auto simp: timer_of_def neq_Nil_conv split: option.splits PeerTimer.splits)

lemma timer_ofI:
  "map_of (peerTimers P) (pendingTimeout req) = Some t \<Longrightarrow> timerKey t = k \<Longrightarrow>
    (\<And>k' c. t = RequestTimer k' c \<Longrightarrow> \<exists>cs. pendingResolve req = c # cs) \<Longrightarrow> timer_of P k req"
  by (cases t) (auto simp: timer_of_def)

lemma timers_invD:
  assumes "timers_inv P"
  shows "distinct (map fst (ourRequests P))" "\<And>i. i \<in> fst ` set (peerTimers P) \<Longrightarrow> i < nextId P"
    "\<And>i. i \<in> fst ` set (verifying P) \<Longrightarrow> i < nextId P"
    "\<And>k req. map_of (ourRequests P) k = Some req \<Longrightarrow> timer_of P k req"
    "\<And>i t. map_of (peerTimers P) i = Some t \<Longrightarrow> \<exists>req. map_of (ourRequests P) (timerKey t) = Some req \<and> pendingTimeout req = i"
  using assms by (auto simp: timers_inv_def)

lemma timers_invI:
  assumes "distinct (map fst (ourRequests P))" "\<And>i. i \<in> fst ` set (peerTimers P) \<Longrightarrow> i < nextId P"
    "\<And>i. i \<in> fst ` set (verifying P) \<Longrightarrow> i < nextId P"
    "\<And>k req. map_of (ourRequests P) k = Some req \<Longrightarrow> timer_of P k req"
    "\<And>i t. map_of (peerTimers P) i = Some t \<Longrightarrow> \<exists>req. map_of (ourRequests P) (timerKey t) = Some req \<and> pendingTimeout req = i"
  shows "timers_inv P"
  unfolding timers_inv_def using assms by blast

lemma timers_drop:
  assumes "timers_inv P" "map_of (ourRequests P) k = Some req"
    and "ourRequests P' = AList.delete k (ourRequests P)" "peerTimers P' = AList.delete (pendingTimeout req) (peerTimers P)"
    and "nextId P \<le> nextId P'" "\<And>i. i \<in> fst ` set (verifying P') \<Longrightarrow> i < nextId P'"
  shows "timers_inv P'"
proof -
  note D = timers_invD [OF assms(1)]
  obtain t where t: "map_of (peerTimers P) (pendingTimeout req) = Some t" "timerKey t = k"
    using timer_ofE [OF D(4) [OF assms(2)]] by metis
  have other: "timer_of P' k' req'" if "map_of (ourRequests P') k' = Some req'" for k' req'
  proof -
    from that assms(3) have k': "k' \<noteq> k" "map_of (ourRequests P) k' = Some req'" by (auto simp: delete_conv' split: if_splits)
    obtain t' where t': "map_of (peerTimers P) (pendingTimeout req') = Some t'" "timerKey t' = k'"
      "\<And>k c. t' = RequestTimer k c \<Longrightarrow> \<exists>cs. pendingResolve req' = c # cs"
      using timer_ofE [OF D(4) [OF k'(2)]] by metis
    with t k' have "pendingTimeout req' \<noteq> pendingTimeout req" by auto
    with t' assms(4) show ?thesis by (intro timer_ofI [of _ _ t']) (auto simp: delete_conv')
  qed
  have timer: "\<exists>req'. map_of (ourRequests P') (timerKey t') = Some req' \<and> pendingTimeout req' = i"
    if i: "map_of (peerTimers P') i = Some t'" for i t'
  proof -
    from i assms(4) have ne: "i \<noteq> pendingTimeout req" and "map_of (peerTimers P) i = Some t'"
      by (auto simp: delete_conv' split: if_splits)
    then obtain req' where r: "map_of (ourRequests P) (timerKey t') = Some req'" "pendingTimeout req' = i" using D(5) by blast
    with ne assms(2) have "timerKey t' \<noteq> k" by auto
    with r assms(3) show ?thesis by (auto simp: delete_conv')
  qed
  have "i < nextId P'" if "i \<in> fst ` set (peerTimers P')" for i
    using subsetD [OF keys_delete that [unfolded assms(4)]] D(2) [of i] assms(5) by simp
  with other timer assms(3,6) D(1) show ?thesis by (intro timers_invI) (simp_all add: distinct_delete)
qed

text \<open>A request enters the table, or one that has left it comes back, with a new timeout.\<close>

lemma timers_add:
  assumes "timers_inv P" "map_of (ourRequests P) k = None"
    and "map_of (ourRequests P') = (map_of (ourRequests P))(k \<mapsto> req)" "distinct (map fst (ourRequests P'))"
    and "peerTimers P' = peerTimers P @ [(nextId P, t)]" "pendingTimeout req = nextId P" "timerKey t = k"
    and "\<And>k' c. t = RequestTimer k' c \<Longrightarrow> \<exists>cs. pendingResolve req = c # cs"
    and "nextId P' = Suc (nextId P)" "verifying P' = verifying P"
  shows "timers_inv P'"
proof -
  note D = timers_invD [OF assms(1)]
  have fresh: "map_of (peerTimers P) (nextId P) = None" using D(2) by (force simp: map_of_eq_None_iff)
  have old: "map_of (peerTimers P') i = Some t'" if "map_of (peerTimers P) i = Some t'" for i t'
    using that assms(5) by (simp add: map_add_Some_iff)
  have "timer_of P' k' req'" if r: "map_of (ourRequests P') k' = Some req'" for k' req'
  proof (cases "k' = k")
    case True
    with r assms(3) have "req' = req" by simp
    with True fresh assms(5-8) show ?thesis by (intro timer_ofI [of _ _ t]) (auto simp: map_add_Some_iff)
  next
    case False
    with r assms(3) have "timer_of P k' req'" using D(4) by simp
    then show ?thesis using old by (auto elim!: timer_ofE intro!: timer_ofI)
  qed
  moreover have "\<exists>req'. map_of (ourRequests P') (timerKey t') = Some req' \<and> pendingTimeout req' = i"
    if i: "map_of (peerTimers P') i = Some t'" for i t'
  proof (cases "i = nextId P")
    case True
    with i fresh assms(5) have "t' = t" by (simp add: map_add_Some_iff)
    with True assms(3,6,7) show ?thesis by simp
  next
    case False
    with i assms(5) have "map_of (peerTimers P) i = Some t'" by (auto simp: map_add_Some_iff split: if_splits)
    then obtain req' where "map_of (ourRequests P) (timerKey t') = Some req'" "pendingTimeout req' = i" using D(5) by blast
    with assms(2,3) show ?thesis by (cases "timerKey t' = k") auto
  qed
  moreover have "i < nextId P'" if "i \<in> fst ` set (peerTimers P')" for i
    using that D(2) [of i] assms(5,9) by (auto simp: less_Suc_eq simp del: set_map)
  moreover have "i < nextId P'" if "i \<in> fst ` set (verifying P')" for i
    using D(3) [of i] that assms(9,10) by simp
  ultimately show ?thesis using assms(4) by (intro timers_invI) blast+
qed

lemma mset_delete_values:
  "distinct (map fst al) \<Longrightarrow> map_of al k = Some v \<Longrightarrow>
    mset (concat (map (g \<circ> snd) al)) = mset (g v) + mset (concat (map (g \<circ> snd) (AList.delete k al)))"
proof (induction al)
  case (Cons x al)
  then show ?case by (cases "fst x = k") (auto simp: delete_idem map_of_eq_None_iff [symmetric])
qed simp

lemma mset_update_values:
  "distinct (map fst al) \<Longrightarrow> map_of al k = Some v \<Longrightarrow>
    mset (concat (map (g \<circ> snd) (AList.update k w al))) = mset (g w) + mset (concat (map (g \<circ> snd) (AList.delete k al)))"
proof (induction al)
  case (Cons x al)
  then show ?case by (cases "fst x = k") (auto simp: delete_idem map_of_eq_None_iff [symmetric])
qed simp

lemma distinct_submset: "mset xs \<subseteq># mset ys \<Longrightarrow> distinct ys \<Longrightarrow> distinct xs"
proof -
  assume sub: "mset xs \<subseteq># mset ys" and d: "distinct ys"
  have "count (mset ys) a = (if a \<in> set ys then 1 else 0)" for a using d unfolding distinct_count_atmost_1 by blast
  then have "count (mset xs) a \<le> 1" for a using mset_subset_eq_count [OF sub, of a] by (metis le_trans le_numeral_extra(4) zero_le_one)
  then have "count (mset xs) a = (if a \<in> set xs then 1 else 0)" for a
    by (metis count_eq_zero_iff le_antisym less_one linorder_not_le set_mset_mset)
  then show ?thesis by (simp add: distinct_count_atmost_1)
qed

lemma calls_invD:
  assumes "calls_inv P"
  shows "distinct (knownCalls P)" "\<And>c. c \<in> set (knownCalls P) \<Longrightarrow> c < length (calls P)"
    "distinct (map fst (verifying P))"
    "\<And>k req. map_of (ourRequests P) k = Some req \<Longrightarrow> k = toHex (pendingHash req) \<and> (\<forall>c\<in>set (pendingResolve req). calls P ! c = pendingHash req)"
    "\<And>i h d cs. (i, h, d, cs) \<in> set (verifying P) \<Longrightarrow> (\<forall>c\<in>set cs. calls P ! c = h)"
  using assms by (auto simp: calls_inv_def dest: map_of_SomeD)

text \<open>Calls move on, or are forgotten; none appears twice.\<close>

lemma calls_move:
  assumes "calls_inv P" "mset (knownCalls P') \<subseteq># mset (knownCalls P)" "calls P' = calls P"
    and "distinct (map fst (verifying P'))"
    and "\<And>k req. (k, req) \<in> set (ourRequests P') \<Longrightarrow>
      k = toHex (pendingHash req) \<and> (\<forall>c\<in>set (pendingResolve req). calls P ! c = pendingHash req)"
    and "\<And>i h d cs. (i, h, d, cs) \<in> set (verifying P') \<Longrightarrow> (\<forall>c\<in>set cs. calls P ! c = h)"
  shows "calls_inv P'"
proof -
  have "set (knownCalls P') \<subseteq> set (knownCalls P)" using set_mset_mono [OF assms(2)] by simp
  then show ?thesis using assms distinct_submset [OF assms(2)] by (auto simp: calls_inv_def)
qed

lemma calls_entries:
  assumes "calls_inv P" "(k, req) \<in> set (ourRequests P)"
  shows "k = toHex (pendingHash req) \<and> (\<forall>c\<in>set (pendingResolve req). calls P ! c = pendingHash req)"
  using assms by (auto simp: calls_inv_def)

section \<open>The invariant is kept\<close>

text \<open>A request leaves the table with its timeout; its calls are answered with nothing, hashed, or forgotten.\<close>

lemma drop_inv:
  assumes "peer_inv E P" "map_of (ourRequests P) k = Some req"
    and "ourRequests P' = AList.delete k (ourRequests P)" "peerTimers P' = AList.delete (pendingTimeout req) (peerTimers P)"
    and "verifying P' = verifying P @ vs" "answered P' = answered P @ as" "calls P' = calls P"
    and "vs = [] \<and> nextId P' = nextId P \<or> (\<exists>d. vs = [(nextId P, pendingHash req, d, pendingResolve req)]) \<and> nextId P' = Suc (nextId P)"
    and "mset (concat (map (snd \<circ> snd \<circ> snd) vs) @ map fst as) \<subseteq># mset (pendingResolve req)" "\<forall>a\<in>set as. snd a = None"
  shows "peer_inv E P'"
proof -
  from assms(1) have inv: "timers_inv P" "calls_inv P" "answers_ok E P" by (simp_all add: peer_inv_def)
  note T = timers_invD [OF inv(1)] and C = calls_invD [OF inv(2)]
  have fresh: "nextId P \<notin> fst ` set (verifying P)" using T(3) by blast
  have ids: "i < nextId P'" if "i \<in> fst ` set (verifying P')" for i
  proof -
    have "i \<in> fst ` set (verifying P) \<union> fst ` set vs" using that unfolding assms(5) by (simp add: image_Un)
    then show ?thesis
    proof
      assume "i \<in> fst ` set (verifying P)"
      from T(3) [OF this] show ?thesis using assms(8) by auto
    qed (use assms(8) in auto)
  qed
  have "timers_inv P'"
    using timers_drop [OF inv(1) assms(2-4) _ ids] assms(8) by auto
  moreover have "calls_inv P'"
  proof (rule calls_move [OF inv(2)])
    have "mset (knownCalls P) = mset (pendingResolve req) + mset (pendingCalls P') + mset (verifyingCalls P) + mset (map fst (answered P))"
      using mset_delete_values [OF T(1) assms(2), of pendingResolve] by (simp add: knownCalls_def pendingCalls_def assms(3))
    moreover have "mset (knownCalls P') = mset (pendingCalls P') + mset (verifyingCalls P) + mset (map fst (answered P))
        + mset (concat (map (snd \<circ> snd \<circ> snd) vs) @ map fst as)"
      by (simp add: knownCalls_def verifyingCalls_def assms(5,6))
    ultimately show "mset (knownCalls P') \<subseteq># mset (knownCalls P)" using assms(9) by (simp add: ac_simps)
    show "calls P' = calls P" by (rule assms(7))
    show "distinct (map fst (verifying P'))" using C(3) fresh assms(5,8) by (auto simp: image_iff)
    show "k' = toHex (pendingHash req') \<and> (\<forall>c\<in>set (pendingResolve req'). calls P ! c = pendingHash req')"
      if "(k', req') \<in> set (ourRequests P')" for k' req'
      using calls_entries [OF inv(2)] that by (auto simp: assms(3) AList.delete_eq)
    show "\<forall>c\<in>set cs. calls P ! c = h" if "(i, h, d, cs) \<in> set (verifying P')" for i h d cs
      using that C(4) [OF assms(2)] C(5) assms(5,8) by auto
  qed
  moreover have "answers_ok E P'" using inv(3) assms(6,7,10) by (auto simp: answers_ok_def)
  ultimately show ?thesis by (simp add: peer_inv_def)
qed

lemma timer_entry:
  assumes "peer_inv E P" "map_of (peerTimers P) i = Some t"
  obtains req where "map_of (ourRequests P) (timerKey t) = Some req" "pendingTimeout req = i"
    "\<And>k c. t = RequestTimer k c \<Longrightarrow> \<exists>cs. pendingResolve req = c # cs"
proof -
  from assms(1) have inv: "timers_inv P" by (simp add: peer_inv_def)
  obtain req where r: "map_of (ourRequests P) (timerKey t) = Some req" "pendingTimeout req = i"
    using timers_invD(5) [OF inv assms(2)] by blast
  from timers_invD(4) [OF inv r(1)] have "\<exists>cs. pendingResolve req = c # cs" if "t = RequestTimer k c" for k c
    using that r(2) assms(2) by (auto elim!: timer_ofE)
  with r that show ?thesis by blast
qed

lemma peerTimerFires_inv:
  assumes "peer_inv E P"
  shows "peer_inv E (peerTimerFires i P)"
proof (cases "map_of (peerTimers P) i")
  case None
  then show ?thesis using assms by (simp add: peerTimerFires_def)
next
  case (Some t)
  obtain req where r: "map_of (ourRequests P) (timerKey t) = Some req" "pendingTimeout req = i"
    "\<And>k c. t = RequestTimer k c \<Longrightarrow> \<exists>cs. pendingResolve req = c # cs"
    using timer_entry [OF assms Some] by metis
  show ?thesis
  proof (cases t)
    case (RequestTimer k c)
    with r obtain cs where cs: "pendingResolve req = c # cs" by blast
    show ?thesis
      by (rule drop_inv [OF assms r(1), where vs = "[]" and as = "[(c, None)]"])
        (use Some RequestTimer r(2) cs in \<open>simp_all add: peerTimerFires_def clearTimeout_def resolveAll_def Let_def\<close>)
  next
    case (StallTimer k)
    show ?thesis
      by (rule drop_inv [OF assms r(1), where vs = "[]" and as = "map (\<lambda>c. (c, None)) (pendingResolve req)"])
        (use Some StallTimer r in \<open>simp_all add: peerTimerFires_def clearTimeout_def resolveAll_def countStat_def Let_def comp_def\<close>)
  qed
qed

lemma completeResponse_inv:
  assumes "peer_inv E P"
  shows "peer_inv E (completeResponse h d P)"
proof (cases "map_of (ourRequests P) (toHex h)")
  case None
  then show ?thesis using assms by (simp add: completeResponse_def)
next
  case (Some req)
  have "toHex h = toHex (pendingHash req)" using assms calls_invD(4) [of P, OF _ Some] by (simp add: peer_inv_def)
  then have h: "h = pendingHash req" by simp
  show ?thesis
    by (rule drop_inv [OF assms Some, where vs = "[(nextId P, h, d, pendingResolve req)]" and as = "[]"])
      (use Some h in \<open>simp_all add: completeResponse_def clearTimeout_def Let_def\<close>)
qed

text \<open>A request stays in the table with a changed chain or timeout.\<close>

lemma entry_delete: "(k, v) \<in> set (AList.update k' w al) \<Longrightarrow> distinct (map fst al) \<Longrightarrow> k = k' \<and> v = w \<or> (k, v) \<in> set al"
  by (induction al) (auto split: if_splits)

lemma calls_update:
  assumes "calls_inv P" "distinct (map fst (ourRequests P))" "map_of (ourRequests P) k = Some req"
    and "ourRequests P' = AList.update k req' (ourRequests P)" "pendingHash req' = pendingHash req"
    and "pendingResolve req' = pendingResolve req @ cs" "calls P' = calls P @ hs" "length cs = length hs"
    and "cs = map (\<lambda>i. length (calls P) + i) [0..<length hs]" "\<forall>h\<in>set hs. h = pendingHash req"
    and "verifying P' = verifying P" "answered P' = answered P"
  shows "calls_inv P'"
proof -
  note C = calls_invD [OF assms(1)]
  have "mset (pendingCalls P') = mset (pendingResolve req') + mset (concat (map (pendingResolve \<circ> snd) (AList.delete k (ourRequests P))))"
    using mset_update_values [OF assms(2,3)] by (simp add: pendingCalls_def assms(4))
  moreover have "mset (pendingCalls P) = mset (pendingResolve req) + mset (concat (map (pendingResolve \<circ> snd) (AList.delete k (ourRequests P))))"
    using mset_delete_values [OF assms(2,3)] by (simp add: pendingCalls_def)
  ultimately have m: "mset (knownCalls P') = mset (cs @ knownCalls P)"
    by (simp add: knownCalls_def verifyingCalls_def assms(6,11,12))
  have old: "calls P' ! c = calls P ! c" "c < length (calls P')" if "c \<in> set (knownCalls P)" for c
    using C(2) [OF that] by (simp_all add: assms(7) nth_append)
  have new: "calls P' ! c = pendingHash req" "c < length (calls P')" "c \<notin> set (knownCalls P)" if "c \<in> set cs" for c
    using that C(2) [of c] assms(7,10) by (auto simp: assms(9) nth_append)
  have "distinct cs" by (simp add: assms(9) distinct_map inj_on_def)
  then have "distinct (cs @ knownCalls P)" using C(1) new(3) by auto
  then have "distinct (knownCalls P')" using m by (metis mset_eq_imp_distinct_iff)
  moreover have "set (knownCalls P') = set cs \<union> set (knownCalls P)" using m by (metis set_append set_mset_mset)
  moreover have "k' = toHex (pendingHash r) \<and> (\<forall>c\<in>set (pendingResolve r). calls P' ! c = pendingHash r)"
    if "(k', r) \<in> set (ourRequests P')" for k' r
  proof -
    have known: "set (pendingResolve r0) \<subseteq> set (knownCalls P)" if "(k0, r0) \<in> set (ourRequests P)" for k0 r0
      using that by (force simp: knownCalls_def pendingCalls_def)
    from entry_delete [OF that [unfolded assms(4)] assms(2)] consider "k' = k" "r = req'" | "(k', r) \<in> set (ourRequests P)" by blast
    then show ?thesis
    proof cases
      case 1
      with C(4) [OF assms(3)] known [OF map_of_SomeD [OF assms(3)]] old(1) new(1) show ?thesis by (auto simp: assms(5,6))
    next
      case 2
      with calls_entries [OF assms(1) 2] known [OF 2] old(1) show ?thesis by auto
    qed
  qed
  moreover have "\<forall>c\<in>set cs'. calls P' ! c = h" if "(i, h, d, cs') \<in> set (verifying P')" for i h d cs'
  proof -
    have "set cs' \<subseteq> set (knownCalls P)" using that by (force simp: knownCalls_def verifyingCalls_def assms(11))
    with C(5) [of i h d cs'] that old(1) show ?thesis by (auto simp: assms(11))
  qed
  ultimately show ?thesis using old(2) new(2) C(3) assms(11) by (auto simp: calls_inv_def)
qed

lemma knownCalls_pending: "(k, req) \<in> set (ourRequests P) \<Longrightarrow> set (pendingResolve req) \<subseteq> set (knownCalls P)"
  by (force simp: knownCalls_def pendingCalls_def)

lemma knownCalls_verifying: "(i, h, d, cs) \<in> set (verifying P) \<Longrightarrow> set cs \<subseteq> set (knownCalls P)"
  by (force simp: knownCalls_def verifyingCalls_def)

lemma calls_new:
  assumes "calls_inv P" "calls P' = calls P @ [h]" "mset (knownCalls P') = add_mset (length (calls P)) (mset (knownCalls P))"
    and "verifying P' = verifying P"
    and "\<And>k req. (k, req) \<in> set (ourRequests P') \<Longrightarrow>
      (k, req) \<in> set (ourRequests P) \<or> k = toHex h \<and> pendingHash req = h \<and> pendingResolve req = [length (calls P)]"
  shows "calls_inv P'"
proof -
  note C = calls_invD [OF assms(1)]
  have old: "calls P' ! c = calls P ! c" "c < length (calls P')" if "c \<in> set (knownCalls P)" for c
    using C(2) [OF that] by (simp_all add: assms(2) nth_append)
  have m: "mset (knownCalls P') = mset (length (calls P) # knownCalls P)" using assms(3) by simp
  have "distinct (length (calls P) # knownCalls P)" using C(1,2) by auto
  then have "distinct (knownCalls P')" using m by (metis mset_eq_imp_distinct_iff)
  moreover have "set (knownCalls P') = insert (length (calls P)) (set (knownCalls P))"
    using m by (metis list.set(2) set_mset_mset)
  moreover have "k = toHex (pendingHash r) \<and> (\<forall>c\<in>set (pendingResolve r). calls P' ! c = pendingHash r)"
    if "(k, r) \<in> set (ourRequests P')" for k r
    using assms(5) [OF that]
  proof
    assume r: "(k, r) \<in> set (ourRequests P)"
    from calls_entries [OF assms(1) r] knownCalls_pending [OF r] old(1) show ?thesis by auto
  qed (simp add: assms(2))
  moreover have "\<forall>c\<in>set cs. calls P' ! c = g" if "(i, g, d, cs) \<in> set (verifying P')" for i g d cs
  proof -
    from that have v: "(i, g, d, cs) \<in> set (verifying P)" by (simp add: assms(4))
    from C(5) [OF v] knownCalls_verifying [OF v] old(1) show ?thesis by auto
  qed
  ultimately show ?thesis using old(2) C(3) assms(2,4) by (auto simp: calls_inv_def)
qed

lemma answers_grow:
  assumes "calls_inv P" "answers_ok E P" "calls P' = calls P @ hs" "answered P' = answered P @ as" "\<forall>a\<in>set as. snd a = None"
  shows "answers_ok E P'"
proof -
  have "sha256 E d = calls P' ! c" if "(c, Some d) \<in> set (answered P)" for c d
  proof -
    have "c \<in> set (knownCalls P)" using that by (force simp: knownCalls_def)
    from calls_invD(2) [OF assms(1) this] that assms(2) show ?thesis by (simp add: answers_ok_def assms(3) nth_append)
  qed
  then show ?thesis using assms(4,5) by (auto simp: answers_ok_def)
qed

lemma request_inv:
  assumes "peer_inv E P"
  shows "peer_inv E (request E h htl P)"
proof -
  from assms have inv: "timers_inv P" "calls_inv P" "answers_ok E P" by (simp_all add: peer_inv_def)
  note T = timers_invD [OF inv(1)]
  let ?P' = "request E h htl P" and ?k = "toHex h"
  consider (closed) "\<not> channelOpen P"
    | (chain) req where "channelOpen P" "map_of (ourRequests P) ?k = Some req"
    | (new) "channelOpen P" "map_of (ourRequests P) ?k = None" by fastforce
  then show ?thesis
  proof cases
    case closed
    then have eq: "?P' = resolveAll [length (calls P)] None (P\<lparr>calls := calls P @ [h]\<rparr>)" by (simp add: request_def Let_def)
    have "timers_inv ?P'" by (rule timers_cong [OF _ _ _ _ inv(1)]) (simp_all add: eq resolveAll_def)
    moreover have "calls_inv ?P'"
      by (rule calls_new [OF inv(2)]) (simp_all add: eq resolveAll_def knownCalls_def pendingCalls_def verifyingCalls_def)
    moreover have "answers_ok E ?P'"
      by (rule answers_grow [OF inv(2,3), where hs = "[h]" and as = "[(length (calls P), None)]"]) (simp_all add: eq resolveAll_def)
    ultimately show ?thesis by (simp add: peer_inv_def)
  next
    case (chain req)
    let ?r = "req\<lparr>pendingResolve := pendingResolve req @ [length (calls P)]\<rparr>"
    have eq: "?P' = P\<lparr>calls := calls P @ [h], ourRequests := AList.update ?k ?r (ourRequests P)\<rparr>"
      using chain by (simp add: request_def Let_def)
    have h: "pendingHash req = h" using calls_invD(4) [OF inv(2) chain(2)] by simp
    have keep: "timer_of P k r \<Longrightarrow> timer_of ?P' k r" for k r by (simp add: timer_of_def eq)
    have "timer_of ?P' ?k ?r" using T(4) [OF chain(2)] by (auto simp: timer_of_def eq split: option.splits PeerTimer.splits)
    moreover have "\<exists>r. map_of (ourRequests ?P') (timerKey t) = Some r \<and> pendingTimeout r = i"
      if "map_of (peerTimers ?P') i = Some t" for i t
    proof -
      from that obtain r where r: "map_of (ourRequests P) (timerKey t) = Some r" "pendingTimeout r = i" using T(5) by (auto simp: eq)
      then show ?thesis using chain(2) by (cases "timerKey t = ?k") (auto simp: eq update_conv')
    qed
    ultimately have "timers_inv ?P'" using keep T(1-4)
      by (intro timers_invI) (auto simp: eq update_conv' distinct_update split: if_splits simp del: map_of_eq_Some_iff)
    moreover have "calls_inv ?P'"
      by (rule calls_update [OF inv(2) T(1) chain(2), where req' = ?r and cs = "[length (calls P)]" and hs = "[h]"]) (simp_all add: eq h)
    moreover have "answers_ok E ?P'"
      by (rule answers_grow [OF inv(2,3), where hs = "[h]" and as = "[]"]) (simp_all add: eq)
    ultimately show ?thesis by (simp add: peer_inv_def)
  next
    case new
    let ?r = "\<lparr>pendingHash = h, pendingResolve = [length (calls P)], pendingTimeout = nextId P\<rparr>"
    have at_end: "AList.update ?k ?r (ourRequests P) = ourRequests P @ [(?k, ?r)]"
      using new(2) by (intro update_at_end) (simp add: map_of_eq_None_iff)
    have eq: "ourRequests ?P' = ourRequests P @ [(?k, ?r)]" "calls ?P' = calls P @ [h]" "verifying ?P' = verifying P"
      "answered ?P' = answered P" "nextId ?P' = Suc (nextId P)"
      "peerTimers ?P' = peerTimers P @ [(nextId P, RequestTimer ?k (length (calls P)))]"
      using new at_end by (simp_all add: request_def Let_def countStat_def sendMessage_def)
    have m: "map_of (ourRequests ?P') = (map_of (ourRequests P))(?k \<mapsto> ?r)" "distinct (map fst (ourRequests ?P'))"
      unfolding eq(1) at_end [symmetric] by (rule update_conv', rule distinct_update [OF T(1)])
    have "timers_inv ?P'"
      by (rule timers_add [OF inv(1) new(2) m, where t = "RequestTimer ?k (length (calls P))"]) (simp_all add: eq)
    moreover have "calls_inv ?P'"
      by (rule calls_new [OF inv(2)]) (auto simp: eq knownCalls_def pendingCalls_def verifyingCalls_def)
    moreover have "answers_ok E ?P'"
      by (rule answers_grow [OF inv(2,3), where hs = "[h]" and as = "[]"]) (simp_all add: eq)
    ultimately show ?thesis by (simp add: peer_inv_def)
  qed
qed

lemma resetStall_inv:
  assumes "peer_inv E P"
  shows "peer_inv E (resetStall k P)"
proof (cases "map_of (ourRequests P) k")
  case None
  then show ?thesis using assms by (simp add: resetStall_def)
next
  case (Some req)
  from assms have inv: "timers_inv P" "calls_inv P" "answers_ok E P" by (simp_all add: peer_inv_def)
  note T = timers_invD [OF inv(1)]
  let ?P' = "resetStall k P" and ?r = "req\<lparr>pendingTimeout := nextId P\<rparr>"
  have eq: "ourRequests ?P' = AList.update k ?r (ourRequests P)" "calls ?P' = calls P" "verifying ?P' = verifying P"
    "answered ?P' = answered P" "nextId ?P' = Suc (nextId P)"
    "peerTimers ?P' = AList.delete (pendingTimeout req) (peerTimers P) @ [(nextId P, StallTimer k)]"
    using Some by (simp_all add: resetStall_def clearTimeout_def Let_def)
  let ?Q = "P\<lparr>ourRequests := AList.delete k (ourRequests P), peerTimers := AList.delete (pendingTimeout req) (peerTimers P)\<rparr>"
  have "timers_inv ?Q" by (rule timers_drop [OF inv(1) Some]) (simp_all add: T(3))
  then have "timers_inv ?P'"
    by (rule timers_add [where k = k and req = ?r and t = "StallTimer k"])
      (simp_all add: eq delete_conv' update_conv' fun_eq_iff distinct_update T(1))
  moreover have "calls_inv ?P'"
    by (rule calls_update [OF inv(2) T(1) Some, where req' = ?r and cs = "[]" and hs = "[]"]) (simp_all add: eq)
  moreover have "answers_ok E ?P'"
    by (rule answers_grow [OF inv(2,3), where hs = "[]" and as = "[]"]) (simp_all add: eq)
  ultimately show ?thesis by (simp add: peer_inv_def)
qed

lemma fragment_inv:
  assumes "peer_inv E P"
  shows "peer_inv E (snd (handleFragmentResponse now h d i n P))"
proof -
  let ?P1 = "resetStall (toHex h) (countStat fragmentsReceived_update 1 P)"
  have "peer_inv E (countStat fragmentsReceived_update 1 P)" by (rule peer_inv_cong [OF _ _ assms]) simp_all
  then have inv: "peer_inv E ?P1" by (rule resetStall_inv)
  have "requestState (snd (handleFragmentResponse now h d i n P)) = requestState ?P1"
    "nextId (snd (handleFragmentResponse now h d i n P)) = nextId ?P1"
    by (simp_all add: handleFragmentResponse_def Let_def split: prod.split)
  then show ?thesis using inv peer_inv_cong by auto
qed

lemma handleResponseMessage_inv:
  assumes "peer_inv E P"
  shows "peer_inv E (handleResponseMessage now res P)"
proof (cases "isFragmented res")
  case False
  then show ?thesis using completeResponse_inv [OF assms] by (simp add: handleResponseMessage_def)
next
  case True
  obtain r P1 where r: "handleFragmentResponse now (resH res) (resD res) (the (resI res)) (the (resN res)) P = (r, P1)" by fastforce
  have P1: "peer_inv E P1" using fragment_inv [OF assms, of now "resH res" "resD res" "the (resI res)" "the (resN res)"] r by simp
  then have "peer_inv E (countStat receiveErrors_update 1 P1)" by (rule peer_inv_cong [rotated 2]) simp_all
  with P1 completeResponse_inv [OF P1] show ?thesis by (cases r) (simp_all add: handleResponseMessage_def True r)
qed

lemma verifyContinues_inv:
  assumes "peer_inv E P"
  shows "peer_inv E (verifyContinues E i P)"
proof (cases "map_of (verifying P) i")
  case None
  then show ?thesis using assms by (simp add: verifyContinues_def)
next
  case (Some v)
  obtain h d cs where v: "v = (h, d, cs)" by (cases v) auto
  from assms have inv: "timers_inv P" "calls_inv P" "answers_ok E P" by (simp_all add: peer_inv_def)
  note T = timers_invD [OF inv(1)] and C = calls_invD [OF inv(2)]
  let ?P' = "verifyContinues E i P"
  define as where "as = (case d of None \<Rightarrow> [] | Some b \<Rightarrow> map (\<lambda>c. (c, if sha256 E b = h then Some b else None)) cs)"
  have eq: "ourRequests ?P' = ourRequests P" "calls ?P' = calls P" "verifying ?P' = AList.delete i (verifying P)"
    "answered ?P' = answered P @ as" "nextId ?P' = nextId P" "peerTimers ?P' = peerTimers P"
    using Some by (simp_all add: v as_def verifyContinues_def countStat_def resolveAll_def Let_def split: option.split)
  let ?Q = "P\<lparr>verifying := AList.delete i (verifying P)\<rparr>"
  have sub: "fst ` set (AList.delete i (verifying P)) \<subseteq> fst ` set (verifying P)" by (rule keys_delete)
  have "timer_of ?P' = timer_of P" by (intro ext) (simp add: timer_of_def eq)
  then have "timers_inv ?P'"
    using T(1,2,4,5) T(3) [OF subsetD [OF sub]] by (intro timers_invI) (simp_all only: eq)
  moreover have "calls_inv ?P'"
  proof (rule calls_move [OF inv(2)])
    have "mset (verifyingCalls P) = mset cs + mset (concat (map (snd \<circ> snd \<circ> snd) (AList.delete i (verifying P))))"
      using mset_delete_values [OF C(3) Some, of "snd \<circ> snd"] by (simp add: verifyingCalls_def v comp_assoc)
    moreover have "map fst as = (case d of None \<Rightarrow> [] | Some b \<Rightarrow> cs)" by (simp add: as_def comp_def split: option.split)
    then have "mset (map fst as) \<subseteq># mset cs" by (cases d) simp_all
    ultimately show "mset (knownCalls ?P') \<subseteq># mset (knownCalls P)"
      by (simp add: knownCalls_def pendingCalls_def verifyingCalls_def eq ac_simps)
    show "calls ?P' = calls P" by (rule eq)
    show "distinct (map fst (verifying ?P'))" using C(3) by (simp add: eq distinct_delete)
  qed (use calls_entries [OF inv(2)] C(5) in \<open>auto simp: eq AList.delete_eq\<close>)
  moreover have "answers_ok E ?P'"
    using inv(3) C(5) map_of_SomeD [OF Some] by (auto simp: answers_ok_def eq as_def v split: option.splits if_splits)
  ultimately show ?thesis by (simp add: peer_inv_def)
qed

text \<open>\<open>close\<close> answers every waiting call with nothing and clears every timeout.\<close>

lemma fold_clear:
  fixes P :: peer
  defines "f \<equiv> \<lambda>p. resolveAll (pendingResolve (snd p)) None \<circ> clearTimeout (pendingTimeout (snd p))"
  shows "fold f ps P = P\<lparr>
    peerTimers := fold (\<lambda>p. AList.delete (pendingTimeout (snd p))) ps (peerTimers P),
    answered := answered P @ map (\<lambda>c. (c, None)) (concat (map (pendingResolve \<circ> snd) ps))\<rparr>"
  by (induction ps arbitrary: P) (simp_all add: f_def resolveAll_def clearTimeout_def)

lemma closePeer_eq:
  "closePeer P = P\<lparr>cleanupRunning := False, pendingReassemblies := [], channelOpen := False, ourRequests := [],
    peerTimers := fold (\<lambda>p. AList.delete (pendingTimeout (snd p))) (ourRequests P) (peerTimers P),
    answered := answered P @ map (\<lambda>c. (c, None)) (pendingCalls P)\<rparr>"
  by (simp add: closePeer_def clearPendingRequests_def fold_clear pendingCalls_def Let_def)

lemma fold_delete_timers:
  "map_of (fold (\<lambda>p. AList.delete (g (snd p))) ps al) i = (if i \<in> g ` snd ` set ps then None else map_of al i)"
  by (induction ps arbitrary: al) (auto simp: delete_conv')

lemma closePeer_inv:
  assumes "peer_inv E P"
  shows "peer_inv E (closePeer P)" "peerTimers (closePeer P) = []"
proof -
  from assms have inv: "timers_inv P" "calls_inv P" "answers_ok E P" by (simp_all add: peer_inv_def)
  note T = timers_invD [OF inv(1)]
  let ?P' = "closePeer P"
  have "map_of (peerTimers ?P') i = None" for i
  proof (cases "map_of (peerTimers P) i")
    case None
    then show ?thesis by (simp add: closePeer_eq fold_delete_timers [of pendingTimeout])
  next
    case (Some t)
    then obtain req where "map_of (ourRequests P) (timerKey t) = Some req" "pendingTimeout req = i" using T(5) by blast
    then have "i \<in> pendingTimeout ` snd ` set (ourRequests P)" using map_of_SomeD by force
    then show ?thesis by (simp add: closePeer_eq fold_delete_timers [of pendingTimeout])
  qed
  then show timers: "peerTimers ?P' = []" by (metis map_of_eq_None_iff image_is_empty set_empty empty_iff all_not_in_conv)
  have "timers_inv ?P'" using timers T(3) by (intro timers_invI) (simp_all add: closePeer_eq)
  moreover have "calls_inv ?P'"
    using calls_invD [OF inv(2)] by (intro calls_move [OF inv(2)])
      (simp_all add: closePeer_eq knownCalls_def pendingCalls_def verifyingCalls_def comp_def)
  moreover have "answers_ok E ?P'"
    by (rule answers_grow [OF inv(2,3), where hs = "[]" and as = "map (\<lambda>c. (c, None)) (pendingCalls P)"]) (simp_all add: closePeer_eq)
  ultimately show "peer_inv E ?P'" by (simp add: peer_inv_def)
qed

lemma newPeer_inv: "peer_inv E (newPeer s f c)"
  by (simp add: newPeer_def peer_inv_def timers_inv_def calls_inv_def answers_ok_def knownCalls_def pendingCalls_def verifyingCalls_def)

lemma handleMessage_inv:
  assumes "peer_inv E P"
  shows "peer_inv E (handleMessage E now m P)"
  using handleResponseMessage_inv [OF assms] peer_inv_cong [OF handleRequest_keeps(1,2) assms]
    peer_inv_cong [of "countStat receiveErrors_update 1 P" P E] assms
  by (simp add: handleMessage_def split: option.split DataMessage.split)

lemma peerExec_inv:
  assumes "peer_inv E P"
  shows "peer_inv E (peerExec E ev P)"
proof (cases ev)
  case (CleanupTick now)
  then show ?thesis using assms by (simp add: peer_inv_cong [OF cleanupTick_keeps(1)] cleanupTick_keeps(2))
next
  case Opens
  then show ?thesis using assms by (simp add: channelOpens_def peer_inv_cong [of "P\<lparr>channelOpen := True\<rparr>" P])
qed (use assms in \<open>simp_all add: request_inv handleMessage_inv verifyContinues_inv peerTimerFires_inv closePeer_inv
  peer_inv_cong [OF serveContinues_keeps(1)] serveContinues_keeps(2) peer_inv_cong [OF sendData_keeps(1)] sendData_keeps(2)\<close>)

lemma peerRun_inv: "peer_inv E P \<Longrightarrow> peer_inv E (fold (peerExec E) evs P)"
  by (induction evs arbitrary: P) (simp_all add: peerExec_inv)

end
