(* ===== verification/PeerTransfer.thy ===== *)
theory PeerTransfer
  imports PeerSpec
begin

text \<open>
  The transfer of a block: what \<open>sendResponse\<close> puts on the channel, and what the receiver makes of it when
  the messages arrive in any order, with repetitions, and with everything else that goes on between them.
\<close>

section \<open>The messages of a response\<close>

definition responseMessages :: "ext \<Rightarrow> hash \<Rightarrow> bytes \<Rightarrow> bytes list" where
  "responseMessages E h d =
     (if length d \<le> FRAGMENT_SIZE then [encodeResponse E (createResponse h d)]
      else map (\<lambda>i. encodeResponse E (createFragmentResponse h (fragmentAt d i) (int i) (int (totalFragments d)))) [0..<totalFragments d])"

lemma sent_simps [simp]:
  "sentMessages (countStat f n P) = sentMessages P" "sentMessages (sendMessage m P) = sentMessages P @ [m]"
  by (simp_all add: countStat_def sendMessage_def)

lemma sent_fragments:
  "sentMessages (fold (sendFragment E h d) is P) = sentMessages P @
     map (\<lambda>i. encodeResponse E (createFragmentResponse h (fragmentAt d i) (int i) (int (totalFragments d)))) is"
  by (induction "is" arbitrary: P) (simp_all add: sendFragment_def)

lemma sendResponse_sends:
  "channelOpen P \<Longrightarrow> sentMessages (sendResponse E h d fw P) = sentMessages P @ responseMessages E h d"
  by (simp add: sendResponse_def responseMessages_def sent_fragments Let_def)

section \<open>Fragments make up the block\<close>

lemma fragmentAt_eq: "fragmentAt d i = take FRAGMENT_SIZE (drop (i * FRAGMENT_SIZE) d)"
  by (simp add: fragmentAt_def slice_def Let_def min_def)

lemma concat_fragments: "concat (map (fragmentAt d) [0..<n]) = take (n * FRAGMENT_SIZE) d"
proof (induction n)
  case (Suc n)
  have "take (n * FRAGMENT_SIZE) d @ take FRAGMENT_SIZE (drop (n * FRAGMENT_SIZE) d) = take (n * FRAGMENT_SIZE + FRAGMENT_SIZE) d"
    by (simp add: take_add)
  with Suc show ?case by (simp add: fragmentAt_eq add.commute)
qed simp

lemma FRAGMENT_SIZE_pos [simp]: "0 < FRAGMENT_SIZE"
  by (simp add: FRAGMENT_SIZE_def)

lemma all_fragments: "concat (map (fragmentAt d) [0..<totalFragments d]) = d"
proof -
  have "length d \<le> totalFragments d * FRAGMENT_SIZE"
    using div_mult_mod_eq [of "length d + FRAGMENT_SIZE - 1" FRAGMENT_SIZE]
      mod_less_divisor [OF FRAGMENT_SIZE_pos, of "length d + FRAGMENT_SIZE - 1"] FRAGMENT_SIZE_pos
    unfolding totalFragments_def by linarith
  then show ?thesis by (simp add: concat_fragments)
qed

lemma assembleLoop_run:
  assumes "\<And>j. j < n \<Longrightarrow> map_of frs (int (i + j)) = Some (Some (f (i + j)))"
    and "length rest = length (concat (map f [i..<i + n]))"
  shows "assembleLoop frs n (int i) (length done_part) (done_part @ rest) = Some (done_part @ concat (map f [i..<i + n]))"
  using assms
proof (induction n arbitrary: i done_part rest)
  case (Suc n)
  have first: "map_of frs (int i) = Some (Some (f i))" using Suc.prems(1) [of 0] by simp
  have upt: "[i..<i + Suc n] = i # [Suc i..<Suc i + n]" by (simp add: upt_rec)
  from Suc.prems(2) upt have len: "length rest = length (f i) + length (concat (map f [Suc i..<Suc i + n]))" by (simp del: upt_Suc)
  have "assembleLoop frs n (int (Suc i)) (length (done_part @ f i)) ((done_part @ f i) @ drop (length (f i)) rest)
      = Some ((done_part @ f i) @ concat (map f [Suc i..<Suc i + n]))"
  proof (rule Suc.IH)
    show "map_of frs (int (Suc i + j)) = Some (Some (f (Suc i + j)))" if "j < n" for j using Suc.prems(1) [of "Suc j"] that by simp
    show "length (drop (length (f i)) rest) = length (concat (map f [Suc i..<Suc i + n]))" using len by simp
  qed
  with first len show ?case unfolding upt by (simp add: overwrite_def add.commute del: upt_Suc)
qed simp

lemma map_of_fragments: "map_of (map (\<lambda>i. (int i, f i)) got) (int j) = (if j \<in> set got then Some (f j) else None)"
  by (induction got) auto

lemma length_concat_perm: "mset xs = mset ys \<Longrightarrow> length (concat (map f xs)) = length (concat (map f ys))"
  by (simp add: length_concat) (metis mset_map sum_mset_sum_list)

section \<open>The reassembly\<close>

definition holdsFragments :: "bytes \<Rightarrow> nat set \<Rightarrow> PendingReassembly option \<Rightarrow> bool" where
  "holdsFragments d have r \<longleftrightarrow> (case r of
     None \<Rightarrow> have = {}
   | Some p \<Rightarrow> \<exists>got. have = set got \<and> distinct got \<and> fragments p = map (\<lambda>i. (int i, Some (fragmentAt d i))) got \<and>
       totalExpected p = int (totalFragments d) \<and> receivedBytes p = length (concat (map (fragmentAt d) got)))"

lemma assembleFragments_all:
  assumes "fragments p = map (\<lambda>i. (int i, Some (fragmentAt d i))) got" "distinct got" "set got = {..<totalFragments d}"
    and "totalExpected p = int (totalFragments d)" "receivedBytes p = length (concat (map (fragmentAt d) got))"
  shows "assembleFragments p = Some d"
proof -
  have "mset got = mset [0..<totalFragments d]"
    using assms(2,3) by (metis atLeast0LessThan atLeast_upt distinct_upt set_eq_iff_mset_eq_distinct)
  then have len: "receivedBytes p = length (concat (map (fragmentAt d) [0..<totalFragments d]))"
    using length_concat_perm assms(5) by metis
  have "assembleLoop (fragments p) (totalFragments d) (int 0) (length ([] :: bytes)) ([] @ replicate (receivedBytes p) 0) =
      Some ([] @ concat (map (fragmentAt d) [0..<0 + totalFragments d]))"
    by (rule assembleLoop_run) (use assms(1,3) len map_of_fragments [of "\<lambda>i. Some (fragmentAt d i)" got] in auto)
  then show ?thesis using all_fragments [of d] by (simp add: assembleFragments_def assms(4))
qed

definition waitingFor :: "hash \<Rightarrow> peer \<Rightarrow> nat list option" where
  "waitingFor h P = map_option pendingResolve (map_of (ourRequests P) (toHex h))"

definition reassemblyOf :: "hash \<Rightarrow> peer \<Rightarrow> PendingReassembly option" where
  "reassemblyOf h P = map_of (pendingReassemblies P) (toHex h)"

lemma waitingFor_cong: "requestState P' = requestState P \<Longrightarrow> waitingFor h P' = waitingFor h P"
  by (simp add: waitingFor_def requestState_def)

lemma waitingFor_resetStall: "waitingFor h (resetStall k P) = waitingFor h P"
  by (auto simp: waitingFor_def resetStall_def clearTimeout_def update_conv' Let_def split: option.split)

lemma reassembly_resetStall: "pendingReassemblies (resetStall k P) = pendingReassemblies P"
  by (simp add: resetStall_def clearTimeout_def Let_def split: option.split)

lemma waitingFor_fragment: "waitingFor h (snd (handleFragmentResponse now h' d i n P)) = waitingFor h P"
proof -
  let ?P1 = "resetStall (toHex h') (countStat fragmentsReceived_update 1 P)"
  have "requestState (snd (handleFragmentResponse now h' d i n P)) = requestState ?P1"
    by (simp add: handleFragmentResponse_def Let_def split: prod.split)
  then have "waitingFor h (snd (handleFragmentResponse now h' d i n P)) = waitingFor h ?P1" by (rule waitingFor_cong)
  then show ?thesis using waitingFor_cong [of "countStat fragmentsReceived_update 1 P" P] by (simp add: waitingFor_resetStall)
qed

text \<open>A fragment arrives: either some are still missing, or the block is assembled.\<close>

lemma fragment_arrives:
  assumes "holdsFragments d have (reassemblyOf h P)" "have \<subset> {..<totalFragments d}" "i < totalFragments d"
    and "handleFragmentResponse now h (Some (fragmentAt d i)) (int i) (int (totalFragments d)) P = (r, P1)"
  shows "if insert i have = {..<totalFragments d} then r = Assembled d
    else r = Incomplete \<and> holdsFragments d (insert i have) (reassemblyOf h P1)"
proof -
  let ?N = "totalFragments d" and ?fs = "\<lambda>got. map (\<lambda>i. (int i, Some (fragmentAt d i))) got"
  define p where "p = (case reassemblyOf h P of None \<Rightarrow> startReassembly now h (int ?N) | Some p \<Rightarrow> p)"
  obtain got where got: "have = set got" "distinct got" "fragments p = ?fs got" "totalExpected p = int ?N"
    "receivedBytes p = length (concat (map (fragmentAt d) got))"
    using assms(1) by (cases "reassemblyOf h P") (auto simp: holdsFragments_def p_def startReassembly_def)
  define p1 where "p1 = snd (addFragment now (int i) (Some (fragmentAt d i)) p)"
  define got1 where "got1 = (if i \<in> set got then got else got @ [i])"
  have p1: "addFragment now (int i) (Some (fragmentAt d i)) p = (True, p1)" "fragments p1 = ?fs got1" "totalExpected p1 = int ?N"
    "receivedBytes p1 = length (concat (map (fragmentAt d) got1))" "distinct got1" "set got1 = insert i have"
    using got map_of_fragments [of "\<lambda>i. Some (fragmentAt d i)" got i] by (auto simp: addFragment_def p1_def got1_def Let_def)
  have whole: "int (length (fragments p1)) = int ?N \<longleftrightarrow> insert i have = {..<?N}"
  proof -
    have sub: "insert i have \<subseteq> {..<?N}" using assms(2,3) by auto
    have "length (fragments p1) = card (insert i have)" using p1(2,6) distinct_card [OF p1(5)] by simp
    moreover have "card (insert i have) = ?N \<longleftrightarrow> insert i have = {..<?N}"
      using card_subset_eq [OF finite_lessThan sub] card_lessThan by metis
    ultimately show ?thesis by simp
  qed
  have p0: "map_of (pendingReassemblies (countStat fragmentsReceived_update 1 P)) (toHex h) = reassemblyOf h P"
    by (simp add: reassemblyOf_def)
  define P3 where "P3 = (resetStall (toHex h) (countStat fragmentsReceived_update 1 P))
    \<lparr>pendingReassemblies := AList.update (toHex h) p1 (pendingReassemblies P)\<rparr>"
  have run: "(r, P1) = (if int (length (fragments p1)) = int ?N
      then (case assembleFragments p1 of None \<Rightarrow> FragmentThrows | Some r \<Rightarrow> Assembled r,
        countStat reassembliesCompleted_update 1 (P3\<lparr>pendingReassemblies := AList.delete (toHex h) (pendingReassemblies P3)\<rparr>))
      else (Incomplete, P3))"
    unfolding assms(4) [symmetric] handleFragmentResponse_def hashToKey_eq p0 p_def [symmetric] p1(1) Let_def prod.case
    by (simp add: p1(3) P3_def reassembly_resetStall)
  have "reassemblyOf h P3 = Some p1" by (simp add: P3_def reassemblyOf_def update_conv')
  then have hold: "holdsFragments d (insert i have) (reassemblyOf h P3)" using p1 by (auto simp: holdsFragments_def)
  have allHere: "assembleFragments p1 = Some d" if "insert i have = {..<?N}"
    using assembleFragments_all [OF p1(2,5) _ p1(3,4)] p1(6) that by simp
  show ?thesis using run [unfolded whole] hold allHere by (cases "insert i have = {..<?N}") simp_all
qed

section \<open>What may happen in between\<close>

text \<open>Events that do not touch the transfer of a block: no response with its hash, no timeout of its request,
  no removal of its reassembly by the cleanup, no close.\<close>

fun undisturbed :: "ext \<Rightarrow> hash \<Rightarrow> peerEvent \<Rightarrow> peer \<Rightarrow> bool" where
  "undisturbed E h (Message now m) P = (case parseMessage E m of Some (ResponseMsg res) \<Rightarrow> resH res \<noteq> h | _ \<Rightarrow> True)"
| "undisturbed E h (TimerFires i) P = (case map_of (peerTimers P) i of None \<Rightarrow> True | Some t \<Rightarrow> timerKey t \<noteq> toHex h)"
| "undisturbed E h (CleanupTick now) P = (reassemblyOf h (cleanupTick now P) = reassemblyOf h P)"
| "undisturbed E h Close P = False"
| "undisturbed E h _ P = True"

lemma undisturbed_response:
  assumes "resH res \<noteq> h"
  shows "waitingFor h (handleResponseMessage now res P) = waitingFor h P"
    "reassemblyOf h (handleResponseMessage now res P) = reassemblyOf h P"
proof -
  have comp: "waitingFor h (completeResponse (resH res) x Q) = waitingFor h Q" "reassemblyOf h (completeResponse (resH res) x Q) = reassemblyOf h Q" for x Q
    using assms by (auto simp: completeResponse_def waitingFor_def reassemblyOf_def clearTimeout_def delete_conv' Let_def split: option.split)
  have frag: "reassemblyOf h (snd (handleFragmentResponse now (resH res) x i n Q)) = reassemblyOf h Q" for x i n Q
    using assms by (auto simp: handleFragmentResponse_def reassemblyOf_def reassembly_resetStall update_conv' delete_conv' Let_def
        split: prod.split option.split)
  obtain r P1 where r: "handleFragmentResponse now (resH res) (resD res) (the (resI res)) (the (resN res)) P = (r, P1)" by fastforce
  have P1: "waitingFor h P1 = waitingFor h P" "reassemblyOf h P1 = reassemblyOf h P"
    using frag waitingFor_fragment r by (metis snd_conv)+
  have err: "waitingFor h (countStat f n P1) = waitingFor h P1" "reassemblyOf h (countStat f n P1) = reassemblyOf h P1" for f n
    by (simp_all add: waitingFor_def reassemblyOf_def countStat_def)
  show "waitingFor h (handleResponseMessage now res P) = waitingFor h P"
    "reassemblyOf h (handleResponseMessage now res P) = reassemblyOf h P"
    using comp P1 err r by (cases r; simp add: handleResponseMessage_def)+
qed

lemma undisturbed_same:
  "requestState P' = requestState P \<Longrightarrow> pendingReassemblies P' = pendingReassemblies P \<Longrightarrow>
    waitingFor h P' = waitingFor h P \<and> reassemblyOf h P' = reassemblyOf h P"
  using waitingFor_cong [of P' P h] by (simp add: reassemblyOf_def)

lemma undisturbed_message:
  assumes "undisturbed E h (Message now m) P"
  shows "waitingFor h (handleMessage E now m P) = waitingFor h P \<and> reassemblyOf h (handleMessage E now m P) = reassemblyOf h P"
  using assms undisturbed_response [of _ h now P] undisturbed_same [OF handleRequest_keeps(1,4)]
    undisturbed_same [of "countStat receiveErrors_update 1 P" P]
  by (simp add: handleMessage_def split: option.splits DataMessage.splits)

lemma undisturbed_timer:
  assumes "undisturbed E h (TimerFires i) P"
  shows "waitingFor h (peerTimerFires i P) = waitingFor h P \<and> reassemblyOf h (peerTimerFires i P) = reassemblyOf h P"
  using assms by (cases "map_of (peerTimers P) i" rule: option.exhaust)
    (auto simp: peerTimerFires_def waitingFor_def reassemblyOf_def clearTimeout_def resolveAll_def countStat_def delete_conv' Let_def
      split: PeerTimer.splits option.splits)

lemma undisturbed_request:
  assumes "waitingFor h P = Some cs"
  shows "\<exists>cs'. waitingFor h (request E h' htl P) = Some (cs @ cs')" "reassemblyOf h (request E h' htl P) = reassemblyOf h P"
proof -
  show "\<exists>cs'. waitingFor h (request E h' htl P) = Some (cs @ cs')"
    using assms by (cases "h' = h") (auto simp: waitingFor_def request_def resolveAll_def countStat_def sendMessage_def update_conv' Let_def split: option.split)
  show "reassemblyOf h (request E h' htl P) = reassemblyOf h P"
    by (simp add: reassemblyOf_def request_def resolveAll_def countStat_def sendMessage_def Let_def split: option.split)
qed

lemma undisturbed_event:
  assumes "undisturbed E h ev P" "waitingFor h P = Some cs"
  shows "reassemblyOf h (peerExec E ev P) = reassemblyOf h P \<and> (\<exists>cs'. waitingFor h (peerExec E ev P) = Some (cs @ cs'))"
proof (cases ev)
  case (Request h' htl)
  then show ?thesis using undisturbed_request [OF assms(2)] by simp
next
  case (Message now m)
  then show ?thesis using undisturbed_message [of E h now m P] assms by simp
next
  case (TimerFires i)
  then show ?thesis using undisturbed_timer [of E h i P] assms by simp
next
  case (CleanupTick now)
  then show ?thesis using assms waitingFor_cong [OF cleanupTick_keeps(1)] by simp
next
  case (VerifySettles i)
  have "waitingFor h (verifyContinues E i P) = waitingFor h P \<and> reassemblyOf h (verifyContinues E i P) = reassemblyOf h P"
    by (simp add: verifyContinues_def waitingFor_def reassemblyOf_def countStat_def resolveAll_def Let_def split: option.split)
  with VerifySettles assms show ?thesis by simp
next
  case Opens
  have "waitingFor h (channelOpens P) = waitingFor h P \<and> reassemblyOf h (channelOpens P) = reassemblyOf h P"
    by (simp add: channelOpens_def waitingFor_def reassemblyOf_def)
  with Opens assms show ?thesis by simp
qed (use assms undisturbed_same [OF serveContinues_keeps(1,4)] undisturbed_same [OF sendData_keeps(1,4)] in simp_all)

text \<open>Messages of a list arrive, by their positions, with undisturbing events in between.\<close>

inductive delivery :: "ext \<Rightarrow> hash \<Rightarrow> bytes list \<Rightarrow> peer \<Rightarrow> nat list \<Rightarrow> peer \<Rightarrow> bool" for E h ms P0 where
  delivery_start: "delivery E h ms P0 [] P0"
| delivery_other: "delivery E h ms P0 js P \<Longrightarrow> undisturbed E h ev P \<Longrightarrow> delivery E h ms P0 js (peerExec E ev P)"
| delivery_message: "delivery E h ms P0 js P \<Longrightarrow> j < length ms \<Longrightarrow>
    delivery E h ms P0 (js @ [j]) (handleMessage E now (ms ! j) P)"

lemma delivery_inv: "delivery E h ms P0 js P \<Longrightarrow> peer_inv E P0 \<Longrightarrow> peer_inv E P"
  by (induction rule: delivery.induct) (simp_all add: peerExec_inv handleMessage_inv)

lemma parse_responses:
  assumes "msgpack_ok E" "msgpack_nonempty E" "int (totalFragments d) < 2 ^ 53" "j < length (responseMessages E h d)"
  shows "parseMessage E (responseMessages E h d ! j) = Some (ResponseMsg
    (if length d \<le> FRAGMENT_SIZE then createResponse h d
     else createFragmentResponse h (fragmentAt d j) (int j) (int (totalFragments d))))"
  using assms(3,4) parse_encode(2) [OF assms(1,2)]
  by (auto simp: responseMessages_def js_int_def createResponse_def createFragmentResponse_def split: if_splits)

lemma delivery_holds:
  assumes "delivery E h (responseMessages E h d) P0 js P" "msgpack_ok E" "msgpack_nonempty E" "int (totalFragments d) < 2 ^ 53"
    and "waitingFor h P0 = Some cs" "reassemblyOf h P0 = None" "set js \<subset> {..<length (responseMessages E h d)}"
  shows "holdsFragments d (set js) (reassemblyOf h P) \<and> (\<exists>cs'. waitingFor h P = Some (cs @ cs'))"
  using assms
proof (induction rule: delivery.induct)
  case delivery_start
  then show ?case by (simp add: holdsFragments_def)
next
  case (delivery_other js P ev)
  then obtain cs' where "holdsFragments d (set js) (reassemblyOf h P)" "waitingFor h P = Some (cs @ cs')" by blast
  with undisturbed_event [OF delivery_other.hyps(2)] show ?case by auto
next
  case (delivery_message js P j now)
  let ?N = "length (responseMessages E h d)"
  have sub: "set js \<subset> {..<?N}" and ne: "insert j (set js) \<noteq> {..<?N}" using delivery_message.prems(6) by auto
  with delivery_message obtain cs' where IH: "holdsFragments d (set js) (reassemblyOf h P)" "waitingFor h P = Some (cs @ cs')" by blast
  have big: "\<not> length d \<le> FRAGMENT_SIZE"
  proof
    assume "length d \<le> FRAGMENT_SIZE"
    then have "?N = 1" by (simp add: responseMessages_def)
    with ne sub delivery_message.hyps(2) show False by auto
  qed
  then have N: "?N = totalFragments d" by (simp add: responseMessages_def)
  note parse = parse_responses [OF delivery_message.prems(1-3) delivery_message.hyps(2)]
  obtain r P1 where r: "handleFragmentResponse now h (Some (fragmentAt d j)) (int j) (int (totalFragments d)) P = (r, P1)" by fastforce
  from fragment_arrives [OF IH(1) _ _ r] sub ne N delivery_message.hyps(2)
  have "r = Incomplete" "holdsFragments d (insert j (set js)) (reassemblyOf h P1)" by auto
  moreover have "waitingFor h P1 = waitingFor h P" using waitingFor_fragment [of h now h _ _ _ P] r by (metis snd_conv)
  ultimately show ?case using IH(2) big parse r
    by (simp add: handleMessage_def handleResponseMessage_def createFragmentResponse_def isFragmented_def)
qed

end
