(* ===== verification/PeerProps.thy ===== *)
theory PeerProps
  imports PeerTransfer
begin

text \<open>
  The properties of one connection: what a caller of \<open>request\<close> gets, when it gets an answer, and that a
  block sent in fragments arrives.
\<close>

section \<open>Where the calls are\<close>

lemma values_delete:
  "distinct (map fst al) \<Longrightarrow> map_of al k = Some v \<Longrightarrow>
    set (concat (map (g \<circ> snd) al)) = set (g v) \<union> set (concat (map (g \<circ> snd) (AList.delete k al)))"
  using mset_delete_values [of al k v g] by (metis set_mset_mset set_mset_union)

lemma values_update:
  "distinct (map fst al) \<Longrightarrow> map_of al k = Some v \<Longrightarrow>
    set (concat (map (g \<circ> snd) (AList.update k w al))) = set (g w) \<union> set (concat (map (g \<circ> snd) (AList.delete k al)))"
  using mset_update_values [of al k v g w] by (metis set_mset_mset set_mset_union)

lemma peer_inv_distinct:
  assumes "peer_inv E P"
  shows "distinct (map fst (ourRequests P))" "distinct (map fst (verifying P))"
  using assms by (simp_all add: peer_inv_def timers_inv_def calls_inv_def)

lemma known_cong: "requestState P' = requestState P \<Longrightarrow> knownCalls P' = knownCalls P \<and> calls P' = calls P"
  by (simp add: requestState_def knownCalls_def pendingCalls_def verifyingCalls_def)

lemma known_request:
  assumes "peer_inv E P"
  shows "set (knownCalls (request E h htl P)) = insert (length (calls P)) (set (knownCalls P))"
    "calls (request E h htl P) = calls P @ [h]"
proof -
  note D = peer_inv_distinct [OF assms]
  let ?k = "toHex h"
  have new: "AList.update ?k r (ourRequests P) = ourRequests P @ [(?k, r)]" if "map_of (ourRequests P) ?k = None" for r
    using that by (intro update_at_end) (simp add: map_of_eq_None_iff)
  have chain: "set (concat (map (pendingResolve \<circ> snd) (AList.update ?k (req\<lparr>pendingResolve := pendingResolve req @ [c]\<rparr>) (ourRequests P))))
      = insert c (set (concat (map (pendingResolve \<circ> snd) (ourRequests P))))" if "map_of (ourRequests P) ?k = Some req" for req c
    unfolding values_update [OF D(1) that] values_delete [OF D(1) that, of pendingResolve] by auto
  show "set (knownCalls (request E h htl P)) = insert (length (calls P)) (set (knownCalls P))"
    using chain new by (cases "map_of (ourRequests P) ?k")
      (auto simp: request_def Let_def resolveAll_def countStat_def sendMessage_def knownCalls_def pendingCalls_def verifyingCalls_def)
  show "calls (request E h htl P) = calls P @ [h]"
    by (simp add: request_def Let_def resolveAll_def countStat_def sendMessage_def split: option.split)
qed

lemma known_fragment:
  assumes "peer_inv E P"
  shows "set (knownCalls (snd (handleFragmentResponse now h d i n P))) = set (knownCalls P)"
    "calls (snd (handleFragmentResponse now h d i n P)) = calls P"
proof -
  note D = peer_inv_distinct [OF assms]
  let ?P0 = "countStat fragmentsReceived_update 1 P" and ?P' = "snd (handleFragmentResponse now h d i n P)"
  let ?P1 = "resetStall (toHex h) ?P0"
  have s0: "requestState ?P0 = requestState P" by simp
  have s: "requestState ?P' = requestState ?P1"
    by (simp add: handleFragmentResponse_def Let_def split: prod.split)
  have "set (knownCalls ?P1) = set (knownCalls P) \<and> calls ?P1 = calls P"
  proof (cases "map_of (ourRequests P) (toHex h)")
    case None
    then have "?P1 = ?P0" by (simp add: resetStall_def countStat_def)
    with known_cong [OF s0] show ?thesis by simp
  next
    case (Some req)
    have "set (concat (map (pendingResolve \<circ> snd) (AList.update (toHex h) (req\<lparr>pendingTimeout := t\<rparr>) (ourRequests P))))
        = set (concat (map (pendingResolve \<circ> snd) (ourRequests P)))" for t
      unfolding values_update [OF D(1) Some] values_delete [OF D(1) Some, of pendingResolve] by simp
    then show ?thesis using Some
      by (simp add: resetStall_def clearTimeout_def countStat_def knownCalls_def pendingCalls_def verifyingCalls_def Let_def)
  qed
  with known_cong [OF s] show "set (knownCalls ?P') = set (knownCalls P)" "calls ?P' = calls P" by simp_all
qed

lemma known_complete:
  assumes "peer_inv E P"
  shows "set (knownCalls (completeResponse h d P)) = set (knownCalls P)" "calls (completeResponse h d P) = calls P"
proof -
  note D = peer_inv_distinct [OF assms]
  show "set (knownCalls (completeResponse h d P)) = set (knownCalls P)"
  proof (cases "map_of (ourRequests P) (toHex h)")
    case (Some req)
    then show ?thesis using values_delete [OF D(1) Some, of pendingResolve]
      by (auto simp: completeResponse_def clearTimeout_def knownCalls_def pendingCalls_def verifyingCalls_def Let_def)
  qed (simp add: completeResponse_def)
  show "calls (completeResponse h d P) = calls P" by (simp add: completeResponse_def clearTimeout_def Let_def split: option.split)
qed

lemma known_response:
  assumes "peer_inv E P"
  shows "set (knownCalls (handleResponseMessage now res P)) = set (knownCalls P)" "calls (handleResponseMessage now res P) = calls P"
proof -
  obtain r P1 where r: "handleFragmentResponse now (resH res) (resD res) (the (resI res)) (the (resN res)) P = (r, P1)" by fastforce
  have P1: "peer_inv E P1" "set (knownCalls P1) = set (knownCalls P)" "calls P1 = calls P"
    using fragment_inv [OF assms] known_fragment [OF assms] r by (metis snd_conv)+
  have "requestState (countStat receiveErrors_update 1 P1) = requestState P1" by simp
  note err = known_cong [OF this]
  show "set (knownCalls (handleResponseMessage now res P)) = set (knownCalls P)"
    using P1 err known_complete [OF P1(1)] known_complete [OF assms] r by (cases r) (simp_all add: handleResponseMessage_def)
  show "calls (handleResponseMessage now res P) = calls P"
    using P1 err known_complete [OF P1(1)] known_complete [OF assms] r by (cases r) (simp_all add: handleResponseMessage_def)
qed

lemma known_message:
  assumes "peer_inv E P"
  shows "set (knownCalls (handleMessage E now m P)) = set (knownCalls P)" "calls (handleMessage E now m P) = calls P"
  using known_response [OF assms] known_cong [OF handleRequest_keeps(1)] known_cong [of "countStat receiveErrors_update 1 P" P]
  by (simp_all add: handleMessage_def split: option.split DataMessage.split)

text \<open>A timeout answers the calls of its request, the request timeout only the first of them.\<close>

lemma known_timer:
  assumes "peer_inv E P" "map_of (peerTimers P) i = Some t"
  obtains req where "map_of (ourRequests P) (timerKey t) = Some req" "pendingTimeout req = i"
    "answered (peerTimerFires i P) = answered P @ map (\<lambda>c. (c, None)) (case t of RequestTimer k c \<Rightarrow> [c] | StallTimer k \<Rightarrow> pendingResolve req)"
    "set (knownCalls P) = set (knownCalls (peerTimerFires i P)) \<union> set (pendingResolve req)"
    "calls (peerTimerFires i P) = calls P"
    "\<And>k c. t = RequestTimer k c \<Longrightarrow> \<exists>cs. pendingResolve req = c # cs"
    "pendingCalls (peerTimerFires i P) = concat (map (pendingResolve \<circ> snd) (AList.delete (timerKey t) (ourRequests P)))"
    "verifying (peerTimerFires i P) = verifying P"
proof -
  obtain req where r: "map_of (ourRequests P) (timerKey t) = Some req" "pendingTimeout req = i"
    "\<And>k c. t = RequestTimer k c \<Longrightarrow> \<exists>cs. pendingResolve req = c # cs"
    using timer_entry [OF assms] by metis
  let ?P' = "peerTimerFires i P"
  have eq: "answered ?P' = answered P @ map (\<lambda>c. (c, None)) (case t of RequestTimer k c \<Rightarrow> [c] | StallTimer k \<Rightarrow> pendingResolve req)"
    "calls ?P' = calls P" "verifying ?P' = verifying P" "ourRequests ?P' = AList.delete (timerKey t) (ourRequests P)"
    using assms(2) r(1) by (cases t; simp add: peerTimerFires_def clearTimeout_def resolveAll_def countStat_def Let_def)+
  have pend: "pendingCalls ?P' = concat (map (pendingResolve \<circ> snd) (AList.delete (timerKey t) (ourRequests P)))"
    by (simp add: pendingCalls_def eq)
  have "set (pendingCalls P) = set (pendingResolve req) \<union> set (pendingCalls ?P')"
    unfolding pend using values_delete [OF peer_inv_distinct(1) [OF assms(1)] r(1), of pendingResolve] by (simp add: pendingCalls_def)
  then have "set (knownCalls P) = set (knownCalls ?P') \<union> set (pendingResolve req)"
    using r(3) by (cases t) (auto simp: knownCalls_def verifyingCalls_def eq)
  with that r eq pend show ?thesis by blast
qed

lemma known_verify:
  assumes "peer_inv E P"
  shows "set (knownCalls (verifyContinues E i P)) \<subseteq> set (knownCalls P)" "calls (verifyContinues E i P) = calls P"
    "map_of (verifying P) i = Some (h, Some d, cs) \<Longrightarrow> set (knownCalls (verifyContinues E i P)) = set (knownCalls P)"
proof -
  note D = peer_inv_distinct [OF assms]
  let ?P' = "verifyContinues E i P"
  have part: "set (verifyingCalls P) = set cs \<union> set (concat (map (snd \<circ> snd \<circ> snd) (AList.delete i (verifying P))))"
    if "map_of (verifying P) i = Some (h, d, cs)" for h d cs
    using values_delete [OF D(2) that, of "snd \<circ> snd"] by (simp add: verifyingCalls_def comp_assoc)
  show "set (knownCalls ?P') \<subseteq> set (knownCalls P)"
  proof (cases "map_of (verifying P) i")
    case (Some v)
    obtain h d cs where "v = (h, d, cs)" by (cases v) auto
    with Some part [of h d cs] show ?thesis
      by (cases d) (auto simp: verifyContinues_def countStat_def resolveAll_def knownCalls_def pendingCalls_def verifyingCalls_def Let_def)
  qed (simp add: verifyContinues_def)
  show "calls ?P' = calls P"
    by (simp add: verifyContinues_def countStat_def resolveAll_def Let_def split: option.split)
  show "set (knownCalls ?P') = set (knownCalls P)" if "map_of (verifying P) i = Some (h, Some d, cs)"
    using that part [OF that]
    by (auto simp: verifyContinues_def countStat_def resolveAll_def knownCalls_def pendingCalls_def verifyingCalls_def Let_def
        image_Un image_image)
qed

lemma known_close: "set (knownCalls (closePeer P)) = set (knownCalls P)" "calls (closePeer P) = calls P"
  by (auto simp: closePeer_eq knownCalls_def pendingCalls_def verifyingCalls_def)

text \<open>No event brings a call back that is neither waiting nor answered.\<close>

lemma known_event:
  assumes "peer_inv E P"
  shows "set (knownCalls (peerExec E ev P)) \<subseteq> set (knownCalls P) \<union> {length (calls P)..}"
    "length (calls P) \<le> length (calls (peerExec E ev P))"
proof -
  have "set (knownCalls (peerTimerFires i P)) \<subseteq> set (knownCalls P)" "calls (peerTimerFires i P) = calls P" for i
  proof -
    have "set (knownCalls (peerTimerFires i P)) \<subseteq> set (knownCalls P) \<and> calls (peerTimerFires i P) = calls P"
    proof (cases "map_of (peerTimers P) i")
      case (Some t)
      then show ?thesis using known_timer [OF assms Some] by (metis Un_upper1)
    qed (simp add: peerTimerFires_def)
    then show "set (knownCalls (peerTimerFires i P)) \<subseteq> set (knownCalls P)" "calls (peerTimerFires i P) = calls P" by simp_all
  qed
  note timer = this
  note same = known_cong [OF serveContinues_keeps(1)] known_cong [OF sendData_keeps(1)] known_cong [OF cleanupTick_keeps(1)]
    known_cong [of "channelOpens P" P]
  note all = same known_request [OF assms] known_message [OF assms] timer known_verify(1,2) [OF assms] known_close
  show "set (knownCalls (peerExec E ev P)) \<subseteq> set (knownCalls P) \<union> {length (calls P)..}"
    using all by (cases ev) (auto simp: channelOpens_def dest: subsetD [OF all(9)] subsetD [OF all(11)])
  show "length (calls P) \<le> length (calls (peerExec E ev P))"
    using all by (cases ev) (simp_all add: channelOpens_def)
qed

lemma forgotten_event:
  assumes "peer_inv E P" "c < length (calls P)" "c \<notin> set (knownCalls P)"
  shows "c \<notin> set (knownCalls (fold (peerExec E) evs P))"
  using assms
proof (induction evs arbitrary: P)
  case (Cons ev evs)
  have "c < length (calls (peerExec E ev P))" "c \<notin> set (knownCalls (peerExec E ev P))"
    using known_event [OF Cons.prems(1), of ev] Cons.prems(2,3) by auto
  from Cons.IH [OF peerExec_inv [OF Cons.prems(1)] this] show ?case by simp
qed simp

section \<open>Runs without loss\<close>

text \<open>A run is tame when no hash is requested that already waits, and no response comes without data.\<close>

fun tame :: "ext \<Rightarrow> peerEvent \<Rightarrow> peer \<Rightarrow> bool" where
  "tame E (Request h htl) P = (\<not> channelOpen P \<or> map_of (ourRequests P) (toHex h) = None)"
| "tame E (Message now m) P = (case parseMessage E m of Some (ResponseMsg res) \<Rightarrow> resD res \<noteq> None | _ \<Rightarrow> True)"
| "tame E _ P = True"

inductive tame_step :: "ext \<Rightarrow> peer \<Rightarrow> peer \<Rightarrow> bool" for E where
  "tame E ev P \<Longrightarrow> tame_step E P (peerExec E ev P)"

definition singles :: "(string \<times> PendingRequest) list \<Rightarrow> bool" where
  "singles al \<longleftrightarrow> (\<forall>x\<in>set al. \<exists>c. pendingResolve (snd x) = [c])"

definition withData :: "(nat \<times> hash \<times> bytes option \<times> nat list) list \<Rightarrow> bool" where
  "withData vs \<longleftrightarrow> (\<forall>v\<in>set vs. fst (snd (snd v)) \<noteq> None)"

definition orderly :: "peer \<Rightarrow> bool" where
  "orderly P \<longleftrightarrow> singles (ourRequests P) \<and> withData (verifying P)"

definition allKnown :: "peer \<Rightarrow> bool" where
  "allKnown P \<longleftrightarrow> {..<length (calls P)} \<subseteq> set (knownCalls P)"

lemma orderly_cong: "requestState P' = requestState P \<Longrightarrow> orderly P' = orderly P"
  by (simp add: orderly_def requestState_def)

lemma singles_Nil [simp]: "singles []" and withData_Nil [simp]: "withData []"
  by (simp_all add: singles_def withData_def)

lemma singles_update: "singles al \<Longrightarrow> pendingResolve w = [c] \<Longrightarrow> singles (AList.update k w al)"
  by (induction al) (auto simp: singles_def)

lemma singles_delete: "singles al \<Longrightarrow> singles (AList.delete k al)"
  by (auto simp: singles_def AList.delete_eq)

lemma singles_get: "singles al \<Longrightarrow> map_of al k = Some r \<Longrightarrow> \<exists>c. pendingResolve r = [c]"
  by (force simp: singles_def dest: map_of_SomeD)

lemma withData_delete: "withData vs \<Longrightarrow> withData (AList.delete i vs)"
  by (auto simp: withData_def AList.delete_eq)

lemma withData_snoc [simp]: "withData (vs @ [(i, h, d, cs)]) \<longleftrightarrow> withData vs \<and> d \<noteq> None"
  by (auto simp: withData_def)

lemma tame_request: "orderly P \<Longrightarrow> tame E (Request h htl) P \<Longrightarrow> orderly (request E h htl P)"
  by (auto simp: orderly_def request_def resolveAll_def countStat_def sendMessage_def Let_def intro: singles_update)

lemma tame_resetStall:
  assumes "orderly P"
  shows "orderly (resetStall k P)"
proof (cases "map_of (ourRequests P) k")
  case (Some req)
  then obtain c where "pendingResolve req = [c]" using assms singles_get [OF _ Some] unfolding orderly_def by blast
  then have "singles (AList.update k (req\<lparr>pendingTimeout := t\<rparr>) (ourRequests P))" for t
    using assms by (intro singles_update [of _ _ c]) (simp_all add: orderly_def)
  then show ?thesis using assms Some by (simp add: resetStall_def clearTimeout_def orderly_def Let_def)
qed (use assms in \<open>simp add: resetStall_def\<close>)

lemma tame_complete: "orderly P \<Longrightarrow> d \<noteq> None \<Longrightarrow> orderly (completeResponse h d P)"
  by (simp add: completeResponse_def clearTimeout_def orderly_def singles_delete Let_def split: option.split)

lemma tame_response:
  assumes "orderly P" "resD res \<noteq> None"
  shows "orderly (handleResponseMessage now res P)"
proof -
  obtain r P1 where r: "handleFragmentResponse now (resH res) (resD res) (the (resI res)) (the (resN res)) P = (r, P1)" by fastforce
  let ?Q = "resetStall (toHex (resH res)) (countStat fragmentsReceived_update 1 P)"
  have "requestState (snd (handleFragmentResponse now (resH res) (resD res) (the (resI res)) (the (resN res)) P)) = requestState ?Q"
    by (simp add: handleFragmentResponse_def Let_def split: prod.split)
  with r have "requestState P1 = requestState ?Q" by simp
  moreover have "orderly ?Q"
    using assms(1) orderly_cong [of "countStat fragmentsReceived_update 1 P" P] by (intro tame_resetStall) simp
  ultimately have P1: "orderly P1" using orderly_cong by blast
  have "orderly (countStat f n P1)" for f n using P1 orderly_cong [of "countStat f n P1" P1] by simp
  then show ?thesis using P1 tame_complete [OF P1] tame_complete [OF assms] r by (cases r) (simp_all add: handleResponseMessage_def)
qed

lemma tame_event:
  assumes "orderly P" "tame E ev P"
  shows "orderly (peerExec E ev P)"
proof (cases ev)
  case (Message now m)
  with assms tame_response [OF assms(1)] show ?thesis
    using orderly_cong [OF handleRequest_keeps(1)] orderly_cong [of "countStat receiveErrors_update 1 P" P]
    by (simp add: handleMessage_def split: option.splits DataMessage.splits)
next
  case (TimerFires i)
  then show ?thesis using assms(1) by (simp add: peerTimerFires_def orderly_def clearTimeout_def resolveAll_def countStat_def singles_delete Let_def
      split: option.split PeerTimer.split)
next
  case (VerifySettles i)
  then show ?thesis using assms(1) by (simp add: verifyContinues_def orderly_def resolveAll_def countStat_def withData_delete Let_def split: option.split)
next
  case Close
  then show ?thesis using assms(1) by (simp add: closePeer_eq orderly_def)
next
  case Opens
  then show ?thesis using assms(1) by (simp add: channelOpens_def orderly_def)
qed (use assms tame_request in \<open>simp_all add: orderly_cong [OF serveContinues_keeps(1)] orderly_cong [OF sendData_keeps(1)]
  orderly_cong [OF cleanupTick_keeps(1)]\<close>)

text \<open>In an orderly state no event forgets a call.\<close>

lemma tame_known:
  assumes "peer_inv E P" "orderly P" "allKnown P"
  shows "allKnown (peerExec E ev P)"
proof (cases ev)
  case (Request h htl)
  then show ?thesis using known_request [OF assms(1)] assms(3) by (auto simp: allKnown_def less_Suc_eq)
next
  case (TimerFires i)
  have "set (knownCalls P) = set (knownCalls (peerTimerFires i P)) \<and> calls (peerTimerFires i P) = calls P"
  proof (cases "map_of (peerTimers P) i")
    case None
    then show ?thesis by (simp add: peerTimerFires_def)
  next
    case (Some t)
    obtain req where r: "map_of (ourRequests P) (timerKey t) = Some req"
      "answered (peerTimerFires i P) = answered P @ map (\<lambda>c. (c, None)) (case t of RequestTimer k c \<Rightarrow> [c] | StallTimer k \<Rightarrow> pendingResolve req)"
      "set (knownCalls P) = set (knownCalls (peerTimerFires i P)) \<union> set (pendingResolve req)" "calls (peerTimerFires i P) = calls P"
      "\<And>k c. t = RequestTimer k c \<Longrightarrow> \<exists>cs. pendingResolve req = c # cs"
      using known_timer [OF assms(1) Some] by metis
    obtain c where c: "pendingResolve req = [c]" using assms(2) singles_get [OF _ r(1)] unfolding orderly_def by blast
    have "c \<in> fst ` set (answered (peerTimerFires i P))" using r(2,5) c by (cases t) auto
    then have "c \<in> set (knownCalls (peerTimerFires i P))" by (simp add: knownCalls_def)
    with r(3,4) c show ?thesis by auto
  qed
  with TimerFires assms(3) show ?thesis by (simp add: allKnown_def)
next
  case (VerifySettles i)
  have "set (knownCalls (verifyContinues E i P)) = set (knownCalls P)"
  proof (cases "map_of (verifying P) i")
    case None
    then show ?thesis by (simp add: verifyContinues_def)
  next
    case (Some v)
    obtain h d cs where v: "v = (h, d, cs)" by (cases v) auto
    have "d \<noteq> None" using assms(2) map_of_SomeD [OF Some] by (force simp: orderly_def withData_def v)
    then obtain b where "d = Some b" by blast
    with known_verify(3) [OF assms(1)] Some v show ?thesis by blast
  qed
  with VerifySettles known_verify(2) [OF assms(1)] assms(3) show ?thesis by (simp add: allKnown_def)
next
  case Opens
  then show ?thesis using assms(3) known_cong [of "channelOpens P" P] by (simp add: allKnown_def channelOpens_def)
qed (use assms(3) known_message [OF assms(1)] known_close [of P] known_cong [OF serveContinues_keeps(1)]
  known_cong [OF sendData_keeps(1)] known_cong [OF cleanupTick_keeps(1)] in \<open>simp_all add: allKnown_def\<close>)

lemma tame_run:
  assumes "(tame_step E)\<^sup>*\<^sup>* (newPeer s f c) P"
  shows "peer_inv E P \<and> orderly P \<and> allKnown P"
  using assms
proof (induction rule: rtranclp_induct)
  case base
  then show ?case using newPeer_inv by (simp add: newPeer_def orderly_def allKnown_def)
next
  case (step P P')
  then obtain ev where "P' = peerExec E ev P" "tame E ev P" by (auto elim: tame_step.cases)
  with step.IH show ?case using peerExec_inv tame_event tame_known by blast
qed

section \<open>Properties\<close>

text \<open>C8. What a call of \<open>request\<close> is answered with is nothing, or bytes whose hash is the hash the call asked for; and no
  call is answered twice. This holds after any events in any order: messages of any content, timeouts,
  concurrent requests, the end of the connection.\<close>

theorem request_integrity:
  assumes "P = fold (peerExec E) evs (newPeer store forward config)"
  shows "distinct (map fst (answered P)) \<and>
    (\<forall>c r. (c, r) \<in> set (answered P) \<longrightarrow> c < length (calls P) \<and> (\<forall>d. r = Some d \<longrightarrow> sha256 E d = calls P ! c))"
proof -
  have "peer_inv E P" unfolding assms by (rule peerRun_inv) (rule newPeer_inv)
  then have inv: "distinct (knownCalls P)" "\<And>c. c \<in> set (knownCalls P) \<Longrightarrow> c < length (calls P)" "answers_ok E P"
    by (auto simp: peer_inv_def calls_inv_def)
  have "c \<in> set (knownCalls P)" if "(c, r) \<in> set (answered P)" for c r using that by (force simp: knownCalls_def)
  with inv show ?thesis by (auto simp: knownCalls_def answers_ok_def)
qed

definition sampleHash :: hash where
  "sampleHash = sha256 demo [1, 2, 3]"

definition sampleConfig :: PeerHTLConfig where
  "sampleConfig = generatePeerHTLConfig 0 0"

definition sampleEvents :: "peerEvent list" where
  "sampleEvents = [Opens, Request sampleHash 10, Message 7 (encodeResponse demo (createResponse sampleHash [1, 2, 3])), VerifySettles 1]"

lemma sampleConfig_eq: "sampleConfig = \<lparr>decrementAtMax = True, decrementAtMin = True\<rparr>"
  by (simp add: sampleConfig_def generatePeerHTLConfig_def DECREMENT_AT_MAX_PROB_def DECREMENT_AT_MIN_PROB_def)

lemma sample_answered:
  "answered (fold (peerExec demo) sampleEvents (newPeer True False \<lparr>decrementAtMax = True, decrementAtMin = True\<rparr>)) = [(0, Some [1, 2, 3])]"
  "calls (fold (peerExec demo) sampleEvents (newPeer True False \<lparr>decrementAtMax = True, decrementAtMin = True\<rparr>)) = [sampleHash]"
  by code_simp+

theorem request_integrity_witness:
  "answered (fold (peerExec demo) sampleEvents (newPeer True False sampleConfig)) = [(0, Some [1, 2, 3])] \<and>
    sha256 demo [1, 2, 3] = calls (fold (peerExec demo) sampleEvents (newPeer True False sampleConfig)) ! 0"
  using request_integrity [OF refl, of demo sampleEvents True False sampleConfig]
  by (simp add: sampleConfig_eq sample_answered)

text \<open>C9. As long as no hash is requested twice at the same time and no response comes without usable data (it is
  missing, or is not a byte array), every call returns: in any state that is reached, a call
  is answered, or a timeout is set that answers it, or its response is being hashed and is answered after that.\<close>

theorem request_returns:
  assumes "(tame_step E)\<^sup>*\<^sup>* (newPeer store forward config) P" "c < length (calls P)"
  shows "c \<in> fst ` set (answered P) \<or>
    (\<exists>i. map_of (peerTimers P) i \<noteq> None \<and> c \<in> fst ` set (answered (peerTimerFires i P))) \<or>
    (\<exists>i. map_of (verifying P) i \<noteq> None \<and> c \<in> fst ` set (answered (verifyContinues E i P)))"
proof -
  from tame_run [OF assms(1)] have inv: "peer_inv E P" "orderly P" "allKnown P" by blast+
  from inv(1) have T: "timers_inv P" and C: "distinct (map fst (verifying P))" by (simp_all add: peer_inv_def calls_inv_def)
  from inv(3) assms(2) have "c \<in> set (knownCalls P)" by (auto simp: allKnown_def)
  then consider "c \<in> fst ` set (answered P)"
    | k req where "(k, req) \<in> set (ourRequests P)" "c \<in> set (pendingResolve req)"
    | i h d cs where "(i, h, d, cs) \<in> set (verifying P)" "c \<in> set cs"
    by (auto simp: knownCalls_def pendingCalls_def verifyingCalls_def)
  then show ?thesis
  proof cases
    case 2
    from 2(1) timers_invD(1) [OF T] have req: "map_of (ourRequests P) k = Some req" by simp
    then have one: "pendingResolve req = [c]" using inv(2) singles_get [OF _ req] 2(2) unfolding orderly_def by fastforce
    from timers_invD(4) [OF T req] obtain t where t: "map_of (peerTimers P) (pendingTimeout req) = Some t" "timerKey t = k"
      "\<And>k' c'. t = RequestTimer k' c' \<Longrightarrow> \<exists>cs. pendingResolve req = c' # cs" by (auto elim!: timer_ofE)
    obtain req' where r: "map_of (ourRequests P) (timerKey t) = Some req'" "answered (peerTimerFires (pendingTimeout req) P) =
        answered P @ map (\<lambda>c. (c, None)) (case t of RequestTimer k c \<Rightarrow> [c] | StallTimer k \<Rightarrow> pendingResolve req')"
      using known_timer [OF inv(1) t(1)] by metis
    with req t one have "c \<in> fst ` set (answered (peerTimerFires (pendingTimeout req) P))" by (cases t) auto
    with t(1) show ?thesis by blast
  next
    case 3
    from 3(1) C have v: "map_of (verifying P) i = Some (h, d, cs)" by simp
    from inv(2) 3(1) obtain b where d: "d = Some b" by (force simp: orderly_def withData_def)
    have "c \<in> fst ` set (answered (verifyContinues E i P))"
      using 3(2) by (simp add: verifyContinues_def v d resolveAll_def countStat_def image_Un image_image Let_def)
    with v show ?thesis by blast
  qed simp
qed

definition samplePeer :: peer where
  "samplePeer = newPeer True False \<lparr>decrementAtMax = True, decrementAtMin = True\<rparr>"

definition sampleWaiting :: peer where
  "sampleWaiting = peerExec demo (Request sampleHash 10) (peerExec demo Opens samplePeer)"

lemma sampleWaiting_steps: "(tame_step demo)\<^sup>*\<^sup>* samplePeer sampleWaiting"
proof -
  have "tame_step demo samplePeer (peerExec demo Opens samplePeer)" by (intro tame_step.intros) simp
  moreover have "tame_step demo (peerExec demo Opens samplePeer) sampleWaiting"
    unfolding sampleWaiting_def by (intro tame_step.intros) (simp add: samplePeer_def newPeer_def channelOpens_def)
  ultimately show ?thesis by (rule converse_rtranclp_into_rtranclp [OF _ r_into_rtranclp])
qed

theorem request_returns_witness:
  "\<exists>i. map_of (peerTimers sampleWaiting) i \<noteq> None \<and> 0 \<in> fst ` set (answered (peerTimerFires i sampleWaiting))"
proof -
  have "answered sampleWaiting = []" "verifying sampleWaiting = []" "length (calls sampleWaiting) = 1" by code_simp+
  then show ?thesis using request_returns [OF sampleWaiting_steps [unfolded samplePeer_def], of 0] by simp
qed

text \<open>C38. The hidden assumption of the chain of \<open>resolve\<close> functions: when the timeout of a request runs out, the calls
  that joined the request later are never answered, whatever happens afterwards.\<close>

theorem duplicate_request_hangs:
  assumes "P = fold (peerExec E) evs (newPeer store forward config)"
    and "map_of (peerTimers P) i = Some (RequestTimer k c)" "map_of (ourRequests P) k = Some req" "c' \<in> set (tl (pendingResolve req))"
  shows "c' \<notin> fst ` set (answered (fold (peerExec E) later (peerTimerFires i P)))"
proof -
  have inv: "peer_inv E P" unfolding assms(1) by (rule peerRun_inv) (rule newPeer_inv)
  let ?P' = "peerTimerFires i P"
  have r: "answered ?P' = answered P @ [(c, None)]" "calls ?P' = calls P" "\<exists>cs. pendingResolve req = c # cs"
    "verifying ?P' = verifying P" "pendingCalls ?P' = concat (map (pendingResolve \<circ> snd) (AList.delete k (ourRequests P)))"
    by (rule known_timer [OF inv assms(2)]; use assms(3) in simp)+
  from r(3) obtain cs where cs: "pendingResolve req = c # cs" by blast
  have d: "distinct (knownCalls P)" and bound: "\<And>c. c \<in> set (knownCalls P) \<Longrightarrow> c < length (calls P)"
    using inv by (auto simp: peer_inv_def calls_inv_def)
  have "mset (pendingCalls P) = mset (pendingResolve req) + mset (pendingCalls ?P')"
    using mset_delete_values [OF peer_inv_distinct(1) [OF inv] assms(3), of pendingResolve] r(5) by (simp add: pendingCalls_def)
  then have "mset (knownCalls P) = mset (cs @ knownCalls ?P')" by (simp add: knownCalls_def verifyingCalls_def cs r(1,4))
  then have "distinct (cs @ knownCalls ?P')" "c' \<in> set (knownCalls P)"
    using d assms(4) cs by (metis mset_eq_imp_distinct_iff, metis Un_iff list.sel(3) set_append set_mset_mset)
  then have "c' < length (calls ?P')" "c' \<notin> set (knownCalls ?P')" using bound r(2) assms(4) cs by auto
  with forgotten_event [OF peerTimerFires_inv [OF inv]] have "c' \<notin> set (knownCalls (fold (peerExec E) later ?P'))" by blast
  then show ?thesis by (simp add: knownCalls_def)
qed

definition sampleTwice :: peer where
  "sampleTwice = fold (peerExec demo) [Opens, Request sampleHash 10, Request sampleHash 10] samplePeer"

theorem duplicate_request_hangs_witness:
  "length (calls sampleTwice) = 2 \<and>
    (\<forall>later. 1 \<notin> fst ` set (answered (fold (peerExec demo) later (peerTimerFires 0 sampleTwice))))"
proof -
  let ?k = "toHex sampleHash"
  have "map_of (peerTimers sampleTwice) 0 = Some (RequestTimer ?k 0)" "length (calls sampleTwice) = 2"
    "map_of (ourRequests sampleTwice) ?k = Some \<lparr>pendingHash = sampleHash, pendingResolve = [0, 1], pendingTimeout = 0\<rparr>"
    by code_simp+
  then show ?thesis
    using duplicate_request_hangs [OF sampleTwice_def [unfolded samplePeer_def], where i = 0 and k = ?k and c = 0 and c' = 1] by simp
qed

text \<open>A response without data loses the request as well: it takes the request and its timeout away, and then
  hashing throws.\<close>

definition sampleDataless :: "peerEvent list" where
  "sampleDataless = [Opens, Request sampleHash 10,
     Message 7 (encodeResponse demo \<lparr>resH = sampleHash, resD = None, resI = None, resN = None\<rparr>), VerifySettles 1]"

lemma dataless_response_hangs:
  "0 \<notin> fst ` set (answered (fold (peerExec demo) later (fold (peerExec demo) sampleDataless samplePeer)))"
proof -
  let ?P = "fold (peerExec demo) sampleDataless samplePeer"
  have inv: "peer_inv demo ?P" by (rule peerRun_inv) (simp add: samplePeer_def newPeer_inv)
  have "knownCalls ?P = []" "length (calls ?P) = 1" by code_simp+
  with forgotten_event [OF inv, of 0 later] show ?thesis by (simp add: knownCalls_def)
qed

text \<open>A forwarded request pays twice for one hop: once when the peer that received it hands it on, and once more
  when it is sent. The specification asks for a decrement by one.\<close>

lemma forward_costs_two:
  assumes "2 < htl" "htl < MAX_HTL" "hasForward P" "channelOpen Q" "map_of (ourRequests Q) (toHex h) = None"
  shows "forwardCalls (startForward now i h htl P) = forwardCalls P @ [(h, htl - 1)]"
    and "sentMessages (request E h (htl - 1) Q) = sentMessages Q @ [encodeRequest E (createRequest h (htl - 2))]"
  using assms by (simp_all add: startForward_def shouldForward_def decrementHTL_def request_def MAX_HTL_def Let_def countStat_def sendMessage_def)

text \<open>C7. A block arrives: take the messages that one peer sends for a block, in one piece or in fragments, and a peer
  that waits for the block's hash and has no fragment of it yet. Let the messages arrive in any order and
  any number of times, with other messages, requests, timeouts of other hashes and cleanups in
  between. With the last message that was missing the block is complete: every call that waits for the
  hash is answered with exactly the block once it is hashed.\<close>

theorem block_arrives:
  assumes "msgpack_ok E" "msgpack_nonempty E" "int (totalFragments d) < 2 ^ 53" "sha256 E d = h"
    and "channelOpen A" "sentMessages (sendResponse E h d forwarded A) = sentMessages A @ ms"
    and "B = fold (peerExec E) evs (newPeer store forward config)"
    and "map_of (ourRequests B) (toHex h) = Some req" "map_of (pendingReassemblies B) (toHex h) = None"
    and "delivery E h ms B js B1" "j < length ms" "j \<notin> set js" "insert j (set js) = {..<length ms}"
  shows "\<exists>i cs. map_of (verifying (handleMessage E now (ms ! j) B1)) i = Some (h, Some d, pendingResolve req @ cs) \<and>
    (\<forall>c\<in>set (pendingResolve req @ cs). (c, Some d) \<in> set (answered (verifyContinues E i (handleMessage E now (ms ! j) B1))))"
proof -
  have ms: "ms = responseMessages E h d" using sendResponse_sends [OF assms(5), of E h d forwarded] assms(6) by simp
  have "peer_inv E B" unfolding assms(7) by (rule peerRun_inv) (rule newPeer_inv)
  with delivery_inv [OF assms(10)] have inv: "peer_inv E B1" by blast
  have sub: "set js \<subset> {..<length (responseMessages E h d)}" using assms(12,13) ms by auto
  from delivery_holds [OF assms(10) [unfolded ms] assms(1-3) _ _ sub, of "pendingResolve req"] assms(8,9)
  obtain cs where B1: "holdsFragments d (set js) (reassemblyOf h B1)" "waitingFor h B1 = Some (pendingResolve req @ cs)"
    by (auto simp: waitingFor_def reassemblyOf_def)
  let ?B2 = "handleMessage E now (ms ! j) B1"
  obtain Q where Q: "?B2 = completeResponse h (Some d) Q" "peer_inv E Q" "waitingFor h Q = waitingFor h B1"
  proof (cases "length d \<le> FRAGMENT_SIZE")
    case True
    with parse_responses [OF assms(1-3), of j h] assms(11) ms
    have "?B2 = completeResponse h (Some d) B1"
      by (simp add: handleMessage_def handleResponseMessage_def createResponse_def isFragmented_def)
    with inv that show ?thesis by blast
  next
    case False
    then have N: "length ms = totalFragments d" by (simp add: ms responseMessages_def)
    obtain r Q where r: "handleFragmentResponse now h (Some (fragmentAt d j)) (int j) (int (totalFragments d)) B1 = (r, Q)" by fastforce
    have "r = Assembled d" using fragment_arrives [OF B1(1) _ _ r] sub assms(11,13) N ms by simp
    with parse_responses [OF assms(1-3), of j h] assms(11) ms False r
    have "?B2 = completeResponse h (Some d) Q"
      by (simp add: handleMessage_def handleResponseMessage_def createFragmentResponse_def isFragmented_def)
    moreover have "peer_inv E Q" "waitingFor h Q = waitingFor h B1" using fragment_inv [OF inv] waitingFor_fragment r by (metis snd_conv)+
    ultimately show ?thesis using that by blast
  qed
  from Q(3) B1(2) obtain req' where req': "map_of (ourRequests Q) (toHex h) = Some req'" "pendingResolve req' = pendingResolve req @ cs"
    by (auto simp: waitingFor_def)
  have "nextId Q \<notin> fst ` set (verifying Q)" using Q(2) by (auto simp: peer_inv_def timers_inv_def)
  then have "map_of (verifying ?B2) (nextId Q) = Some (h, Some d, pendingResolve req @ cs)"
    unfolding Q(1) using req' by (simp add: completeResponse_def clearTimeout_def Let_def map_add_Some_iff map_of_eq_None_iff)
  moreover from this have "(c, Some d) \<in> set (answered (verifyContinues E (nextId Q) ?B2))" if "c \<in> set (pendingResolve req @ cs)" for c
    using that assms(4) by (auto simp: verifyContinues_def resolveAll_def countStat_def Let_def)
  ultimately show ?thesis by blast
qed

text \<open>Two fragments, the second before the first.\<close>

definition sampleBlock :: bytes where
  "sampleBlock = replicate 40000 7"

definition sampleReceiver :: peer where
  "sampleReceiver = fold (peerExec demo) [Opens, Request (sha256 demo sampleBlock) 10] samplePeer"

lemma sampleReceiver_waits:
  "map_of (ourRequests sampleReceiver) (toHex (sha256 demo sampleBlock)) =
     Some \<lparr>pendingHash = sha256 demo sampleBlock, pendingResolve = [0], pendingTimeout = 0\<rparr>"
  "map_of (pendingReassemblies sampleReceiver) k = None"
  by (simp_all add: sampleReceiver_def samplePeer_def newPeer_def channelOpens_def request_def countStat_def sendMessage_def Let_def)

lemma sampleBlock_fragments: "totalFragments sampleBlock = 2" "\<not> length sampleBlock \<le> FRAGMENT_SIZE"
  by (simp_all add: totalFragments_def sampleBlock_def FRAGMENT_SIZE_def)

theorem block_arrives_witness:
  "\<exists>ms i. length ms = 2 \<and> ms \<noteq> rev ms \<and>
    (0, Some sampleBlock) \<in> set (answered (verifyContinues demo i (handleMessage demo 9 (ms ! 0) (handleMessage demo 8 (ms ! 1) sampleReceiver))))"
proof -
  let ?h = "sha256 demo sampleBlock" and ?A = "channelOpens samplePeer"
  define ms where "ms = responseMessages demo ?h sampleBlock"
  have len: "length ms = 2" using sampleBlock_fragments by (simp add: ms_def responseMessages_def)
  have sent: "channelOpen ?A" "sentMessages (sendResponse demo ?h sampleBlock False ?A) = sentMessages ?A @ ms"
    using sendResponse_sends by (simp_all add: channelOpens_def ms_def)
  have del: "delivery demo ?h ms sampleReceiver [1] (handleMessage demo 8 (ms ! 1) sampleReceiver)"
    using delivery_message [OF delivery_start, of 1 ms demo ?h sampleReceiver 8] len by simp
  have parts: "msgpack_ok demo" "msgpack_nonempty demo" "int (totalFragments sampleBlock) < 2 ^ 53"
    by (simp_all add: sampleBlock_fragments)
  have order: "0 < length ms" "(0::nat) \<notin> set [1]" "insert 0 (set [1]) = {..<length ms}" using len by auto
  have "0 < length ms" "1 < length ms" using len by simp_all
  note parse = this [unfolded ms_def, THEN parse_responses [OF parts]]
  have "ms ! 0 \<noteq> ms ! 1" unfolding ms_def
  proof
    assume eq: "responseMessages demo ?h sampleBlock ! 0 = responseMessages demo ?h sampleBlock ! 1"
    show False using parse(1) parse(2) [folded eq] sampleBlock_fragments(2) by (simp add: createFragmentResponse_def)
  qed
  then have "ms \<noteq> rev ms" using len by (metis One_nat_def diff_Suc_1 numeral_2_eq_2 rev_nth zero_less_Suc)
  moreover obtain i cs where
    "\<forall>c\<in>set ([0] @ cs). (c, Some sampleBlock) \<in> set (answered (verifyContinues demo i (handleMessage demo 9 (ms ! 0) (handleMessage demo 8 (ms ! 1) sampleReceiver))))"
    using block_arrives [OF parts refl sent sampleReceiver_def [unfolded samplePeer_def] sampleReceiver_waits(1,2) del order, of 9] by auto
  ultimately show ?thesis using len by auto
qed

end
