(* ===== verification/HashTree.thy ===== *)
theory HashTree
  imports EditEncrypted WriteAt Builder Verify
begin

text \<open>
  The class \<open>HashTree\<close> (\<open>hashtree.ts\<close>): one interface to the plain and the encrypted trees. A CID with a key
  goes to the encrypted operations, one without a key to the plain ones; what is created is encrypted
  unless the caller asks otherwise. The walks over whole trees are the class's own: \<open>walkTree\<close>,
  \<open>walkBlocks\<close> and \<open>pull\<close>. \<open>push\<close> is modelled in the theory \<open>Push\<close>.

  The instance's fields \<open>store\<close> and \<open>chunkSize\<close> are the record \<open>config\<close> of the tree operations. Reading
  methods take the lookup function of the store, as the operations they call do. \<open>id.key\<close> is true for
  every array, also an empty one.
\<close>

section \<open>Creating\<close>

definition ht_config :: "'s store_ops \<Rightarrow> nat option \<Rightarrow> 's config" where
  "ht_config st chunk = \<lparr>cstore = st, chunkSize = (case chunk of None \<Rightarrow> DEFAULT_CHUNK_SIZE | Some n \<Rightarrow> n)\<rparr>"

definition ht_putBlob :: "ext \<Rightarrow> 's config \<Rightarrow> bytes \<Rightarrow> ('s, hash) op" where
  "ht_putBlob E C d = putBlob E (cstore C) d"

definition ht_putFile :: "ext \<Rightarrow> 's config \<Rightarrow> bool \<Rightarrow> bytes \<Rightarrow> ('s, CID \<times> nat) op" where
  "ht_putFile E C unencrypted d =
     (if unencrypted then bindS (putFile E C d) (\<lambda>r. retS (cid (rhash r) None, rsize r))
      else bindS (putFileEncrypted E C d) (\<lambda>r. retS (cid (rhash r) (Some (rkey r)), rsize r)))"

definition ht_putDirectory :: "ext \<Rightarrow> 's config \<Rightarrow> bool \<Rightarrow> TreeEntry list \<Rightarrow> ('s, CID \<times> nat) op" where
  "ht_putDirectory E C unencrypted entries =
     (let sz = foldl (\<lambda>sum e. sum + esize e) 0 entries in
      if unencrypted then bindS (putDirectory E C entries) (\<lambda>h. retS (cid h None, sz))
      else bindS (putDirectoryEncrypted E C entries) (\<lambda>r. retS (cid (rhash r) (Some (rkey r)), sz)))"

section \<open>Reading\<close>

definition ht_getTreeNode :: "ext \<Rightarrow> (hash \<Rightarrow> bytes option) \<Rightarrow> CID \<Rightarrow> TreeNode option comp" where
  "ht_getTreeNode E get c = (case ckey c of
     Some k \<Rightarrow> getTreeNodeEncrypted E get (chash c) k
   | None \<Rightarrow> ret (getTreeNode E get (chash c)))"

definition ht_getType :: "ext \<Rightarrow> (hash \<Rightarrow> bytes option) \<Rightarrow> CID \<Rightarrow> LinkType" where
  "ht_getType E get c = getType E get (chash c)"

text \<open>The \<open>catch\<close> turns every exception of the encrypted lookup into \<open>false\<close>.\<close>

definition ht_isDirectory :: "ext \<Rightarrow> (hash \<Rightarrow> bytes option) \<Rightarrow> CID \<Rightarrow> bool" where
  "ht_isDirectory E get c = (case ckey c of
     Some k \<Rightarrow> (case getTreeNodeEncrypted E get (chash c) k of
        Some (Inr (Some node)) \<Rightarrow>
          nlinks node = [] \<or> (\<exists>l\<in>set (nlinks node). case lname l of None \<Rightarrow> False | Some n \<Rightarrow> take 1 n \<noteq> ''_'')
      | _ \<Rightarrow> False)
   | None \<Rightarrow> isDirectory E get (chash c))"

definition ht_get :: "ext \<Rightarrow> (hash \<Rightarrow> bytes option) \<Rightarrow> CID \<Rightarrow> int option \<Rightarrow> bytes option comp" where
  "ht_get E get c maxBytes = (case ckey c of
     Some k \<Rightarrow> readFileEncrypted E get (chash c) k maxBytes
   | None \<Rightarrow> readFile E get (chash c) maxBytes)"

definition ht_readFile :: "ext \<Rightarrow> (hash \<Rightarrow> bytes option) \<Rightarrow> CID \<Rightarrow> int option \<Rightarrow> bytes option comp" where
  "ht_readFile E get c maxBytes = ht_get E get c maxBytes"

definition ht_readFileStream :: "ext \<Rightarrow> (hash \<Rightarrow> bytes option) \<Rightarrow> CID \<Rightarrow> nat \<Rightarrow> nat \<Rightarrow> bytes gen" where
  "ht_readFileStream E get c offset prefetch = (case ckey c of
     Some k \<Rightarrow> readFileEncryptedStream E get (chash c) k offset prefetch
   | None \<Rightarrow> readFileStream E get (chash c) offset prefetch)"

definition ht_readFileRange :: "ext \<Rightarrow> (hash \<Rightarrow> bytes option) \<Rightarrow> CID \<Rightarrow> nat \<Rightarrow> nat option \<Rightarrow> bytes option comp" where
  "ht_readFileRange E get c start stop = (case ckey c of
     Some k \<Rightarrow> readFileEncryptedRange E get (chash c) k start stop
   | None \<Rightarrow> readFileRange E get (chash c) start stop)"

definition ht_listDirectory :: "ext \<Rightarrow> (hash \<Rightarrow> bytes option) \<Rightarrow> CID \<Rightarrow> TreeEntry list comp" where
  "ht_listDirectory E get c = (case ckey c of
     Some k \<Rightarrow> listDirectoryEncrypted E get (chash c) k
   | None \<Rightarrow> listDirectory E get (chash c))"

fun ht_resolveParts :: "ext \<Rightarrow> (hash \<Rightarrow> bytes option) \<Rightarrow> CID \<Rightarrow> LinkType \<Rightarrow> string list \<Rightarrow> (CID \<times> LinkType) option comp" where
  "ht_resolveParts E get current entryType [] = ret (Some (current, entryType))"
| "ht_resolveParts E get current entryType (segment # parts) =
     bindC (ht_listDirectory E get current) (\<lambda>entries.
     case List.find (\<lambda>e. ename e = segment) entries of
       None \<Rightarrow> ret None
     | Some entry \<Rightarrow> ht_resolveParts E get (ecid entry) (etype entry) parts)"

text \<open>The path is an array, or a string that is cut at its slashes.\<close>

definition ht_resolvePath :: "ext \<Rightarrow> (hash \<Rightarrow> bytes option) \<Rightarrow> CID \<Rightarrow> string list \<Rightarrow> (CID \<times> LinkType) option comp" where
  "ht_resolvePath E get root parts = ht_resolveParts E get root Dir parts"

definition ht_resolvePathString :: "ext \<Rightarrow> (hash \<Rightarrow> bytes option) \<Rightarrow> CID \<Rightarrow> string \<Rightarrow> (CID \<times> LinkType) option comp" where
  "ht_resolvePathString E get root path = ht_resolvePath E get root (List.filter (\<lambda>p. 0 < length p) (splitOn (CHR ''/'') path))"

section \<open>Walking trees\<close>

record WalkResult =
  wrPath :: string
  wrCid :: CID
  wrType :: LinkType
  wrSize :: nat
  wrData :: "bytes option"

text \<open>\<open>walkRecursive\<close> on a list of pending entries: the children of a directory come before the rest.\<close>

partial_function (option) walkRecursive ::
  "ext \<Rightarrow> (hash \<Rightarrow> bytes option) \<Rightarrow> bool \<Rightarrow> bool \<Rightarrow> (CID \<times> string) list \<Rightarrow> WalkResult list comp" where
  "walkRecursive E get includeData filesOnly pending = (case pending of
     [] \<Rightarrow> ret []
   | cp # rest \<Rightarrow>
       (let currentCid = fst cp; currentPath = snd cp in
        bindC
          (if ht_isDirectory E get currentCid then
             bindC (ht_listDirectory E get currentCid) (\<lambda>entries.
             let dirSize = foldl (\<lambda>sum e. sum + esize e) 0 entries;
                 here = (if filesOnly then []
                         else [\<lparr>wrPath = currentPath, wrCid = currentCid, wrType = Dir, wrSize = dirSize, wrData = None\<rparr>])
             in bindC (walkRecursive E get includeData filesOnly
                  (map (\<lambda>e. (ecid e, if currentPath \<noteq> [] then currentPath @ ''/'' @ ename e else ename e)) entries))
                  (\<lambda>below. ret (here @ below)))
           else
             bindC (if includeData then ht_readFile E get currentCid None else ret None) (\<lambda>d.
             ret [\<lparr>wrPath = currentPath, wrCid = currentCid, wrType = ht_getType E get currentCid,
                   wrSize = getSize E get (chash currentCid), wrData = d\<rparr>]))
          (\<lambda>first. bindC (walkRecursive E get includeData filesOnly rest) (\<lambda>others. ret (first @ others)))))"

declare walkRecursive.simps [code]

definition walkTree :: "ext \<Rightarrow> (hash \<Rightarrow> bytes option) \<Rightarrow> bool \<Rightarrow> bool \<Rightarrow> CID \<Rightarrow> WalkResult list comp" where
  "walkTree E get includeData filesOnly c = walkRecursive E get includeData filesOnly [(c, [])]"

text \<open>The links of a block, read with the key it was reached with.\<close>

definition linksOf :: "ext \<Rightarrow> (hash \<Rightarrow> bytes option) \<Rightarrow> hash \<Rightarrow> bytes option \<Rightarrow> bytes \<Rightarrow> (hash \<times> bytes option) list comp" where
  "linksOf E get h key d =
     bindC (case key of Some k \<Rightarrow> getTreeNodeEncrypted E get h k | None \<Rightarrow> ret (tryDecodeTreeNode E d)) (\<lambda>node.
     ret (case node of None \<Rightarrow> [] | Some n \<Rightarrow> map (\<lambda>l. (lhash l, lkey l)) (nlinks n)))"

text \<open>\<open>traverse\<close> on a list of pending blocks; what it yields, the exception it ends with, and the hashes it
  has visited.\<close>

partial_function (option) traverse ::
  "ext \<Rightarrow> (hash \<Rightarrow> bytes option) \<Rightarrow> (hash \<times> bytes option) list \<Rightarrow> string list
   \<Rightarrow> (((hash \<times> bytes) list \<times> error option) \<times> string list) option" where
  "traverse E get pending visited = (case pending of
     [] \<Rightarrow> Some (([], None), visited)
   | hk # rest \<Rightarrow>
       (if toHex (fst hk) \<in> set visited then traverse E get rest visited
        else
          (let visited1 = visited @ [toHex (fst hk)] in
           case get (fst hk) of
             None \<Rightarrow> traverse E get rest visited1
           | Some d \<Rightarrow>
               (case linksOf E get (fst hk) (snd hk) d of
                  None \<Rightarrow> None
                | Some (Inl e) \<Rightarrow> Some (([(fst hk, d)], Some e), visited1)
                | Some (Inr links) \<Rightarrow>
                    Option.bind (traverse E get links visited1) (\<lambda>r.
                    if snd (fst r) \<noteq> None then Some (((fst hk, d) # fst (fst r), snd (fst r)), snd r)
                    else Option.bind (traverse E get rest (snd r)) (\<lambda>r'.
                         Some (((fst hk, d) # fst (fst r) @ fst (fst r'), snd (fst r')), snd r')))))))"

declare traverse.simps [code]

definition walkBlocks :: "ext \<Rightarrow> (hash \<Rightarrow> bytes option) \<Rightarrow> CID \<Rightarrow> (hash \<times> bytes) gen" where
  "walkBlocks E get c = map_option fst (traverse E get [(chash c, ckey c)] [])"

section \<open>Editing\<close>

definition ht_setEntry ::
  "ext \<Rightarrow> 's config \<Rightarrow> CID \<Rightarrow> string list \<Rightarrow> string \<Rightarrow> CID \<Rightarrow> nat \<Rightarrow> LinkType \<Rightarrow> meta option \<Rightarrow> ('s, CID) op" where
  "ht_setEntry E C root path name entry sz type meta = (case ckey root of
     Some k \<Rightarrow> bindS (setEntryEncrypted E C (chash root) k path name entry sz type meta) (\<lambda>r. retS (cid (fst r) (Some (snd r))))
   | None \<Rightarrow> bindS (setEntry E C (chash root) path name entry sz type meta) (\<lambda>h. retS (cid h None)))"

definition ht_removeEntry :: "ext \<Rightarrow> 's config \<Rightarrow> CID \<Rightarrow> string list \<Rightarrow> string \<Rightarrow> ('s, CID) op" where
  "ht_removeEntry E C root path name = (case ckey root of
     Some k \<Rightarrow> bindS (removeEntryEncrypted E C (chash root) k path name) (\<lambda>r. retS (cid (fst r) (Some (snd r))))
   | None \<Rightarrow> bindS (removeEntry E C (chash root) path name) (\<lambda>h. retS (cid h None)))"

definition ht_renameEntry :: "ext \<Rightarrow> 's config \<Rightarrow> CID \<Rightarrow> string list \<Rightarrow> string \<Rightarrow> string \<Rightarrow> ('s, CID) op" where
  "ht_renameEntry E C root path oldName newName = (case ckey root of
     Some k \<Rightarrow> bindS (renameEntryEncrypted E C (chash root) k path oldName newName) (\<lambda>r. retS (cid (fst r) (Some (snd r))))
   | None \<Rightarrow> bindS (renameEntry E C (chash root) path oldName newName) (\<lambda>h. retS (cid h None)))"

definition ht_moveEntry :: "ext \<Rightarrow> 's config \<Rightarrow> CID \<Rightarrow> string list \<Rightarrow> string \<Rightarrow> string list \<Rightarrow> ('s, CID) op" where
  "ht_moveEntry E C root sourcePath name targetPath = (case ckey root of
     Some k \<Rightarrow> bindS (moveEntryEncrypted E C (chash root) k sourcePath name targetPath) (\<lambda>r. retS (cid (fst r) (Some (snd r))))
   | None \<Rightarrow> bindS (moveEntry E C (chash root) sourcePath name targetPath) (\<lambda>h. retS (cid h None)))"

definition ht_writeAt :: "ext \<Rightarrow> 's config \<Rightarrow> CID \<Rightarrow> nat \<Rightarrow> bytes \<Rightarrow> ('s, CID) op" where
  "ht_writeAt E C fileCid offset data = (case ckey fileCid of
     Some k \<Rightarrow> bindS (writeAtEncrypted E C (chash fileCid) k offset data) (\<lambda>r. retS (cid (rhash r) (Some (rkey r))))
   | None \<Rightarrow> bindS (writeAt E C (chash fileCid) offset data) (\<lambda>r. retS (cid (rhash r) None)))"

end
