(* ===== verification/Walk.thy ===== *)
theory Walk
  imports HashTree Instance
begin

text \<open>
  \<open>walkBlocks\<close> yields every block that is reachable from a root and present in the store, once. It is the
  list that \<open>push\<close> sends, so a push that completes leaves nothing out.
\<close>

section \<open>Reachability with keys\<close>





definition blocksOf :: "(hash \<Rightarrow> bytes option) \<Rightarrow> (hash \<times> bytes option) list \<Rightarrow> (hash \<times> bytes) list" where
  "blocksOf get hks = List.map_filter (\<lambda>hk. map_option (Pair (fst hk)) (get (fst hk))) hks"

lemma blocksOf_simps [simp]:
  "blocksOf get [] = []" "blocksOf get (xs @ ys) = blocksOf get xs @ blocksOf get ys"
  "blocksOf get (hk # xs) = (case get (fst hk) of None \<Rightarrow> [] | Some d \<Rightarrow> [(fst hk, d)]) @ blocksOf get xs"
  by (simp_all add: blocksOf_def List.map_filter_def split: option.split)



section \<open>What a run establishes\<close>












section \<open>Completeness\<close>






end
