(* ===== verification/Push.thy ===== *)
theory Push
  imports Walk
begin

text \<open>
  \<open>HashTree.push\<close> (\<open>hashtree.ts\<close>): a producer walks the blocks of a tree into a queue of bounded length, a
  consumer takes them out and keeps up to \<open>concurrency\<close> calls of \<open>targetStore.put\<close> running. The two wait for
  each other with one stored \<open>resolve\<close> function each.

  Everything between two \<open>await\<close>s is one function on the state: \<open>produce\<close> for the producer, \<open>consume\<close> for the
  consumer, \<open>taskDone\<close> for the end of a put. In what order they run is open: the step relation allows
  every order. What \<open>put\<close> answers is an argument. The blocks are those \<open>walkBlocks\<close> yields; that the walk
  ends with an exception is left out, as is \<open>onProgress\<close>, which only reports.
\<close>

section \<open>State\<close>

type_synonym block = "hash \<times> bytes"

text \<open>The places where the producer and the consumer can be. \<open>WaitsForSpace b\<close>: \<open>queueResolve\<close> is set, the
  block \<open>b\<close> is to be queued; \<open>HasSpace b\<close>: it has been called. \<open>WaitsForBlock\<close>: \<open>consumerResolve\<close> is set;
  \<open>WaitsForTask\<close>: in \<open>Promise.race(active)\<close>; \<open>Draining\<close>: in \<open>Promise.all(active)\<close>.\<close>

datatype producerPhase = Walking | WaitsForSpace block | HasSpace block | ProducerDone

datatype consumerPhase = Running | WaitsForBlock | WaitsForTask | Draining | ConsumerDone

record pushState =
  todo :: "block list"
  queue :: "block list"
  active :: "(nat \<times> block) list"
  walkDone :: bool
  producer :: producerPhase
  consumer :: consumerPhase
  aborted :: bool
  putCalls :: "block list"
  pushed :: nat
  skipped :: nat
  failed :: nat
  pushedBytes :: nat

definition pushStart :: "block list \<Rightarrow> pushState" where
  "pushStart blocks = \<lparr>todo = blocks, queue = [], active = [], walkDone = False, producer = Walking, consumer = Running,
     aborted = False, putCalls = [], pushed = 0, skipped = 0, failed = 0, pushedBytes = 0\<rparr>"

definition maxQueueSize :: "nat \<Rightarrow> nat" where
  "maxQueueSize concurrency = concurrency * 2"

section \<open>The producer\<close>

text \<open>\<open>if (consumerResolve) consumerResolve()\<close>\<close>

definition wakeConsumer :: "pushState \<Rightarrow> pushState" where
  "wakeConsumer P = (if consumer P = WaitsForBlock then P\<lparr>consumer := Running\<rparr> else P)"

definition enqueue :: "block \<Rightarrow> pushState \<Rightarrow> pushState" where
  "enqueue b P = wakeConsumer (P\<lparr>queue := queue P @ [b], producer := Walking\<rparr>)"

definition enqueueOrWait :: "nat \<Rightarrow> block \<Rightarrow> pushState \<Rightarrow> pushState" where
  "enqueueOrWait concurrency b P =
     (if maxQueueSize concurrency \<le> length (queue P) then P\<lparr>producer := WaitsForSpace b\<rparr> else enqueue b P)"

definition endWalk :: "pushState \<Rightarrow> pushState" where
  "endWalk P = wakeConsumer (P\<lparr>walkDone := True, producer := ProducerDone\<rparr>)"

text \<open>After the wait for space the \<open>break\<close> on an abort leaves only the inner loop: the block is queued.\<close>

definition produce :: "nat \<Rightarrow> pushState \<Rightarrow> pushState" where
  "produce concurrency P = (case producer P of
     Walking \<Rightarrow>
       (case todo P of
          [] \<Rightarrow> endWalk P
        | b # rest \<Rightarrow> if aborted P then endWalk (P\<lparr>todo := rest\<rparr>) else enqueueOrWait concurrency b (P\<lparr>todo := rest\<rparr>))
   | HasSpace b \<Rightarrow> if aborted P then enqueue b P else enqueueOrWait concurrency b P
   | _ \<Rightarrow> P)"

section \<open>The consumer\<close>

text \<open>The loop that starts tasks: a block leaves the queue, the producer is woken when there is space, and
  \<open>processBlock\<close> runs up to its call of \<open>put\<close>.\<close>

definition wakeProducer :: "nat \<Rightarrow> pushState \<Rightarrow> pushState" where
  "wakeProducer concurrency P = (case producer P of
     WaitsForSpace b \<Rightarrow> if length (queue P) < maxQueueSize concurrency then P\<lparr>producer := HasSpace b\<rparr> else P
   | _ \<Rightarrow> P)"

definition startTask :: "nat \<Rightarrow> pushState \<Rightarrow> pushState" where
  "startTask concurrency P =
     (let b = hd (queue P); P1 = wakeProducer concurrency (P\<lparr>queue := tl (queue P)\<rparr>)
      in P1\<lparr>active := active P1 @ [(length (putCalls P1), b)], putCalls := putCalls P1 @ [b]\<rparr>)"

function startTasks :: "nat \<Rightarrow> pushState \<Rightarrow> pushState" where
  "startTasks concurrency P =
     (if length (active P) < concurrency \<and> queue P \<noteq> [] then startTasks concurrency (startTask concurrency P) else P)"
  by auto
termination
  by (relation "measure (\<lambda>(c, P). length (queue P))") (auto simp: startTask_def wakeProducer_def Let_def split: producerPhase.split)

declare startTasks.simps [simp del]

text \<open>One turn of the consumer: the loop's condition, the abort, the tasks, and where it waits next. With
  nothing to wait for it goes round again.\<close>

definition consume :: "nat \<Rightarrow> pushState \<Rightarrow> pushState" where
  "consume concurrency P =
     (if walkDone P \<and> queue P = [] \<and> active P = [] then P\<lparr>consumer := Draining\<rparr>
      else if aborted P then P\<lparr>consumer := Draining\<rparr>
      else let P1 = startTasks concurrency P in
        if queue P1 = [] \<and> \<not> walkDone P1 \<and> length (active P1) < concurrency then P1\<lparr>consumer := WaitsForBlock\<rparr>
        else if active P1 \<noteq> [] then P1\<lparr>consumer := WaitsForTask\<rparr>
        else P1)"

text \<open>A put settles: it stored the block, the target had it, or it threw. \<open>Promise.race\<close> lets the consumer go
  on.\<close>

datatype putResult = PutNew | PutOld | PutFailed

definition taskDone :: "nat \<Rightarrow> block \<Rightarrow> putResult \<Rightarrow> pushState \<Rightarrow> pushState" where
  "taskDone i b r P =
     (let P1 = P\<lparr>active := remove1 (i, b) (active P)\<rparr>;
          P2 = (case r of
             PutNew \<Rightarrow> P1\<lparr>pushed := Suc (pushed P1), pushedBytes := pushedBytes P1 + length (snd b)\<rparr>
           | PutOld \<Rightarrow> P1\<lparr>skipped := Suc (skipped P1)\<rparr>
           | PutFailed \<Rightarrow> P1\<lparr>failed := Suc (failed P1)\<rparr>)
      in if consumer P2 = WaitsForTask then P2\<lparr>consumer := Running\<rparr> else P2)"

definition drained :: "pushState \<Rightarrow> pushState" where
  "drained P = P\<lparr>consumer := ConsumerDone\<rparr>"

definition settled :: "pushState \<Rightarrow> bool" where
  "settled P \<longleftrightarrow> producer P = ProducerDone \<and> consumer P = ConsumerDone"

section \<open>Steps\<close>

inductive push_step :: "nat \<Rightarrow> pushState \<Rightarrow> pushState \<Rightarrow> bool" for concurrency where
  step_walk: "producer P = Walking \<Longrightarrow> push_step concurrency P (produce concurrency P)"
| step_space: "producer P = HasSpace b \<Longrightarrow> push_step concurrency P (produce concurrency P)"
| step_consume: "consumer P = Running \<Longrightarrow> push_step concurrency P (consume concurrency P)"
| step_task: "(i, b) \<in> set (active P) \<Longrightarrow> push_step concurrency P (taskDone i b r P)"
| step_drain: "consumer P = Draining \<Longrightarrow> active P = [] \<Longrightarrow> push_step concurrency P (drained P)"

inductive abort_step :: "nat \<Rightarrow> pushState \<Rightarrow> pushState \<Rightarrow> bool" for concurrency where
  step_push: "push_step concurrency P Q \<Longrightarrow> abort_step concurrency P Q"
| step_abort: "abort_step concurrency P (P\<lparr>aborted := True\<rparr>)"

section \<open>The invariant\<close>

definition held :: "pushState \<Rightarrow> block list" where
  "held P = (case producer P of WaitsForSpace b \<Rightarrow> [b] | HasSpace b \<Rightarrow> [b] | _ \<Rightarrow> [])"

text \<open>Blocks go to the target in the order of the walk; none is lost or doubled.\<close>

definition in_order :: "block list \<Rightarrow> pushState \<Rightarrow> bool" where
  "in_order blocks P \<longleftrightarrow> (\<not> aborted P \<longrightarrow> blocks = putCalls P @ queue P @ held P @ todo P \<and> (producer P = ProducerDone \<longrightarrow> todo P = [])) \<and>
     length (active P) + pushed P + skipped P + failed P = length (putCalls P) \<and> (walkDone P \<longleftrightarrow> producer P = ProducerDone)"

definition bounded :: "nat \<Rightarrow> pushState \<Rightarrow> bool" where
  "bounded c P \<longleftrightarrow> length (queue P) \<le> maxQueueSize c \<and> length (active P) \<le> c \<and>
     (\<forall>b. producer P = WaitsForSpace b \<longrightarrow> maxQueueSize c \<le> length (queue P)) \<and>
     (\<forall>b. producer P = HasSpace b \<longrightarrow> length (queue P) < maxQueueSize c)"

text \<open>Nobody waits for something that has already happened.\<close>

definition awake :: "pushState \<Rightarrow> bool" where
  "awake P \<longleftrightarrow> (case consumer P of
     WaitsForBlock \<Rightarrow> queue P = [] \<and> \<not> walkDone P
   | WaitsForTask \<Rightarrow> active P \<noteq> []
   | Running \<Rightarrow> True
   | _ \<Rightarrow> aborted P \<or> walkDone P \<and> queue P = [] \<and> active P = [])"

definition push_inv :: "nat \<Rightarrow> block list \<Rightarrow> pushState \<Rightarrow> bool" where
  "push_inv c blocks P \<longleftrightarrow> in_order blocks P \<and> bounded c P \<and> awake P"

fun producerWeight :: "producerPhase \<Rightarrow> nat" where
  "producerWeight Walking = 3"
| "producerWeight (WaitsForSpace b) = 9"
| "producerWeight (HasSpace b) = 10"
| "producerWeight ProducerDone = 0"

fun consumerWeight :: "consumerPhase \<Rightarrow> nat" where
  "consumerWeight Running = 2"
| "consumerWeight Draining = 1"
| "consumerWeight _ = 0"

definition weight :: "pushState \<Rightarrow> nat" where
  "weight P = 7 * length (todo P) + 4 * length (queue P) + 3 * length (active P) + producerWeight (producer P) + consumerWeight (consumer P)"

lemma consumer_parts [simp]:
  "in_order blocks (P\<lparr>consumer := ph\<rparr>) = in_order blocks P" "bounded c (P\<lparr>consumer := ph\<rparr>) = bounded c P"
  by (simp_all add: in_order_def bounded_def held_def)

lemma pushStart_inv: "push_inv c blocks (pushStart blocks)"
  by (simp add: push_inv_def in_order_def bounded_def awake_def pushStart_def held_def)

section \<open>The invariant is kept, and every step is progress\<close>

lemma enqueue_inv:
  assumes "in_order blocks (P\<lparr>producer := HasSpace b\<rparr>)" "length (queue P) < maxQueueSize c" "length (active P) \<le> c" "awake P" "\<not> walkDone P"
  shows "push_inv c blocks (enqueue b P)"
  using assms by (auto simp: push_inv_def in_order_def bounded_def awake_def enqueue_def wakeConsumer_def held_def split: consumerPhase.splits)

lemma weight_enqueue: "weight (enqueue b P) < weight P + 10 - producerWeight (producer P)"
  by (cases "producer P"; cases "consumer P") (simp_all add: weight_def enqueue_def wakeConsumer_def)

lemma enqueueOrWait_inv:
  assumes "in_order blocks (P\<lparr>producer := HasSpace b\<rparr>)" "bounded c P" "awake P" "\<not> walkDone P"
  shows "push_inv c blocks (enqueueOrWait c b P)"
proof (cases "maxQueueSize c \<le> length (queue P)")
  case True
  with assms show ?thesis by (auto simp: enqueueOrWait_def push_inv_def in_order_def bounded_def awake_def held_def split: consumerPhase.splits)
next
  case False
  with assms show ?thesis using enqueue_inv [where P = P and b = b and c = c and blocks = blocks] by (simp add: enqueueOrWait_def bounded_def)
qed

lemma produce_inv:
  assumes "push_inv c blocks P" "producer P = Walking \<or> producer P = HasSpace b"
  shows "push_inv c blocks (produce c P)" "weight (produce c P) < weight P"
proof -
  from assms have inv: "in_order blocks P" "bounded c P" "awake P" "\<not> walkDone P" by (auto simp: push_inv_def in_order_def)
  have "push_inv c blocks (produce c P) \<and> weight (produce c P) < weight P"
    using assms(2)
  proof
    assume w: "producer P = Walking"
    show ?thesis
    proof (cases "todo P = [] \<or> aborted P")
      case True
      then show ?thesis using inv w
        by (cases "todo P"; cases "consumer P")
          (auto simp: produce_def endWalk_def wakeConsumer_def push_inv_def in_order_def bounded_def awake_def held_def weight_def)
    next
      case False
      then obtain x rest where t: "todo P = x # rest" "\<not> aborted P" by (cases "todo P") auto
      have "in_order blocks (P\<lparr>todo := rest, producer := HasSpace x\<rparr>)" using inv(1) w t by (simp add: in_order_def held_def)
      then have "push_inv c blocks (enqueueOrWait c x (P\<lparr>todo := rest\<rparr>))"
        using inv by (intro enqueueOrWait_inv) (simp_all add: bounded_def awake_def w cong: consumerPhase.case_cong)
      moreover have "weight (enqueueOrWait c x (P\<lparr>todo := rest\<rparr>)) < weight P"
        using weight_enqueue [of x "P\<lparr>todo := rest\<rparr>"] w t by (simp add: enqueueOrWait_def weight_def)
      ultimately show ?thesis using w t by (simp add: produce_def)
    qed
  next
    assume h: "producer P = HasSpace b"
    have "in_order blocks (P\<lparr>producer := HasSpace b\<rparr>)" using inv(1) h by (simp add: in_order_def held_def)
    with inv have "push_inv c blocks (enqueue b P)" "push_inv c blocks (enqueueOrWait c b P)"
      using h by (auto intro!: enqueue_inv enqueueOrWait_inv simp: bounded_def)
    moreover have "weight (enqueue b P) < weight P" "weight (enqueueOrWait c b P) < weight P"
      using weight_enqueue [of b P] h by (simp_all add: enqueueOrWait_def weight_def)
    ultimately show ?thesis using h by (simp add: produce_def)
  qed
  then show "push_inv c blocks (produce c P)" "weight (produce c P) < weight P" by auto
qed

text \<open>Starting tasks.\<close>

definition sameTurn :: "pushState \<Rightarrow> pushState \<Rightarrow> bool" where
  "sameTurn P Q \<longleftrightarrow> consumer Q = consumer P \<and> walkDone Q = walkDone P \<and> aborted Q = aborted P \<and>
     length (active P) + length (queue P) = length (active Q) + length (queue Q) \<and> length (active P) \<le> length (active Q)"

lemma startTask_inv:
  assumes "push_inv c blocks P" "consumer P = Running" "length (active P) < c" "queue P \<noteq> []"
  shows "push_inv c blocks (startTask c P)" "weight (startTask c P) \<le> weight P" "sameTurn P (startTask c P)"
proof -
  obtain b q where q: "queue P = b # q" using assms(4) by (cases "queue P") auto
  note defs = startTask_def wakeProducer_def q Let_def
  show "push_inv c blocks (startTask c P)"
    using assms(1-3) by (cases "producer P") (auto simp: defs push_inv_def in_order_def bounded_def awake_def held_def)
  show "weight (startTask c P) \<le> weight P" by (cases "producer P") (simp_all add: defs weight_def)
  show "sameTurn P (startTask c P)" by (cases "producer P") (simp_all add: defs sameTurn_def)
qed

lemma startTasks_inv:
  assumes "push_inv c blocks P" "consumer P = Running"
  shows "push_inv c blocks (startTasks c P) \<and> weight (startTasks c P) \<le> weight P \<and> sameTurn P (startTasks c P) \<and>
    \<not> (length (active (startTasks c P)) < c \<and> queue (startTasks c P) \<noteq> [])"
  using assms
proof (induction c P rule: startTasks.induct)
  case (1 c P)
  show ?case
  proof (cases "length (active P) < c \<and> queue P \<noteq> []")
    case False
    with 1 show ?thesis by (auto simp: startTasks.simps [of c P] sameTurn_def)
  next
    case True
    note step = startTask_inv [OF 1(2,3)] and eq = startTasks.simps [of c P]
    have turn: "consumer (startTask c P) = Running" using step(3) True 1(3) by (simp add: sameTurn_def)
    from 1(1) [OF True step(1) turn] True step(2,3) show ?thesis by (auto simp: eq sameTurn_def)
  qed
qed

lemma consume_inv:
  assumes "push_inv c blocks P" "consumer P = Running" "0 < c"
  shows "push_inv c blocks (consume c P)" "weight (consume c P) < weight P"
proof -
  let ?P1 = "startTasks c P"
  note run = startTasks_inv [OF assms(1,2)]
  then have run: "push_inv c blocks ?P1" "weight ?P1 \<le> weight P" "sameTurn P ?P1" "length (active ?P1) < c \<Longrightarrow> queue ?P1 = []" by auto
  have "push_inv c blocks (consume c P) \<and> weight (consume c P) < weight P"
  proof (cases "walkDone P \<and> queue P = [] \<and> active P = [] \<or> aborted P")
    case True
    then have "consume c P = P\<lparr>consumer := Draining\<rparr>" by (auto simp: consume_def)
    with True assms(1,2) show ?thesis by (auto simp: push_inv_def awake_def weight_def)
  next
    case False
    have "active ?P1 \<noteq> [] \<or> \<not> walkDone ?P1 \<and> queue ?P1 = []"
      using False run(3,4) assms(3) by (cases "active ?P1") (auto simp: sameTurn_def)
    then show ?thesis using False run assms(2,3)
      by (auto simp: consume_def Let_def push_inv_def awake_def weight_def sameTurn_def)
  qed
  then show "push_inv c blocks (consume c P)" "weight (consume c P) < weight P" by auto
qed

lemma taskDone_inv:
  assumes "push_inv c blocks P" "(i, b) \<in> set (active P)"
  shows "push_inv c blocks (taskDone i b r P)" "weight (taskDone i b r P) < weight P"
proof -
  have len: "Suc (length (remove1 (i, b) (active P))) = length (active P)"
    using assms(2) by (simp add: length_remove1) (metis Suc_pred length_pos_if_in_set)
  have ne: "active P \<noteq> []" using assms(2) by auto
  note defs = taskDone_def Let_def
  show "push_inv c blocks (taskDone i b r P)"
    using assms(1) len ne by (cases r; cases "consumer P") (auto simp: defs push_inv_def in_order_def bounded_def awake_def held_def)
  show "weight (taskDone i b r P) < weight P"
    using len ne by (cases r; cases "consumer P") (auto simp: defs weight_def)
qed

lemma push_step_inv:
  assumes "push_step c P Q" "push_inv c blocks P" "0 < c"
  shows "push_inv c blocks Q \<and> weight Q < weight P"
  using assms(1)
proof cases
  case step_walk
  then show ?thesis using produce_inv [OF assms(2)] by simp
next
  case (step_space b)
  then show ?thesis using produce_inv [OF assms(2), of b] by simp
next
  case step_consume
  then show ?thesis using consume_inv [OF assms(2) _ assms(3)] by simp
next
  case (step_task i b r)
  then show ?thesis using taskDone_inv [OF assms(2)] by simp
next
  case step_drain
  then show ?thesis using assms(2) by (auto simp: drained_def push_inv_def awake_def weight_def)
qed

section \<open>Progress\<close>

lemma push_progress:
  assumes "push_inv c blocks P" "\<not> aborted P" "\<not> settled P" "0 < c"
  shows "\<exists>Q. push_step c P Q"
proof -
  have task: "\<exists>Q. push_step c P Q" if "active P \<noteq> []"
    using that step_task [of _ _ P c] by (cases "active P") (auto, metis)
  have consume: "\<exists>Q. push_step c P Q" if "consumer P = Running" using that step_consume by blast
  show ?thesis
  proof (cases "producer P")
    case Walking
    then show ?thesis using step_walk by blast
  next
    case (HasSpace b)
    then show ?thesis using step_space by blast
  next
    case (WaitsForSpace b)
    with assms(1,4) have "queue P \<noteq> []" by (auto simp: push_inv_def bounded_def maxQueueSize_def)
    with assms(1,2) task consume show ?thesis by (cases "consumer P") (auto simp: push_inv_def awake_def)
  next
    case ProducerDone
    with assms(1-3) have "walkDone P" "consumer P \<noteq> ConsumerDone" by (auto simp: push_inv_def in_order_def settled_def)
    with assms(1,2) task consume step_drain [of P c] show ?thesis
      by (cases "consumer P") (auto simp: push_inv_def awake_def)
  qed
qed

lemma quiet_step: "push_step c P Q \<Longrightarrow> aborted Q = aborted P" if "0 < c"
proof (induction rule: push_step.induct)
  case (step_consume P)
  have "aborted (startTasks c P) = aborted P"
    by (induction c P rule: startTasks.induct) (subst startTasks.simps, simp add: startTask_def wakeProducer_def Let_def split: producerPhase.split)
  then show ?case by (simp add: consume_def Let_def)
qed (auto simp: produce_def endWalk_def wakeConsumer_def enqueueOrWait_def enqueue_def taskDone_def drained_def Let_def
  split: list.split putResult.split)

lemma quiet_run:
  assumes "(push_step c ^^ n) (pushStart blocks) P" "0 < c"
  shows "push_inv c blocks P \<and> \<not> aborted P \<and> weight P + n \<le> weight (pushStart blocks)"
  using assms(1)
proof (induction n arbitrary: P)
  case 0
  then have "P = pushStart blocks" by auto
  then show ?case using pushStart_inv by (simp add: pushStart_def)
next
  case (Suc n)
  then obtain Q where Q: "(push_step c ^^ n) (pushStart blocks) Q" "push_step c Q P" by auto
  with Suc.IH [OF Q(1)] push_step_inv [OF Q(2) _ assms(2)] quiet_step [OF assms(2) Q(2)] show ?case by fastforce
qed

section \<open>Properties\<close>

text \<open>C10. A push that is not aborted completes, in whatever order the producer, the consumer and the answers of the
  target come: the number of steps is bounded by the number of blocks; the queue never holds more than
  twice \<open>concurrency\<close> blocks and never more than \<open>concurrency\<close> puts are running; and where no step is left,
  \<open>push\<close> has returned, every block has been put once, in the order of the walk, and is counted once. The
  walk is the list of its blocks: exceptions of the walk and of the callbacks are left out.\<close>

theorem push_completes:
  assumes "0 < concurrency" "(push_step concurrency ^^ n) (pushStart blocks) P"
  shows "n \<le> 7 * length blocks + 5 \<and> length (queue P) \<le> 2 * concurrency \<and> length (active P) \<le> concurrency \<and>
    ((\<nexists>Q. push_step concurrency P Q) \<longrightarrow>
      settled P \<and> putCalls P = blocks \<and> pushed P + skipped P + failed P = length blocks)"
proof -
  from quiet_run [OF assms(2,1)] have inv: "push_inv concurrency blocks P" "\<not> aborted P" and
    n: "weight P + n \<le> weight (pushStart blocks)" by auto
  from inv have "length (queue P) \<le> 2 * concurrency" "length (active P) \<le> concurrency"
    by (simp_all add: push_inv_def bounded_def maxQueueSize_def)
  moreover have "settled P \<and> putCalls P = blocks \<and> pushed P + skipped P + failed P = length blocks"
    if "\<nexists>Q. push_step concurrency P Q"
  proof -
    have s: "settled P" using push_progress [OF inv _ assms(1)] that by blast
    with inv have "putCalls P = blocks" "active P = []"
      by (auto simp: push_inv_def in_order_def awake_def settled_def held_def)
    with s inv show ?thesis by (simp add: push_inv_def in_order_def)
  qed
  moreover have "n \<le> 7 * length blocks + 5" using n by (simp add: weight_def pushStart_def)
  ultimately show ?thesis by blast
qed

text \<open>One block: the producer queues it, the consumer sends it, both end.\<close>

definition samplePush :: "nat \<Rightarrow> pushState" where
  "samplePush n = foldl (\<lambda>P f. f P) (pushStart [([1], [7])])
     (take n [produce 1, consume 1, produce 1, taskDone 0 ([1], [7]) PutNew, consume 1, drained])"

lemma samplePush_steps: "(push_step 1 ^^ 6) (pushStart [([1], [7])]) (samplePush 6)"
proof -
  have "push_step 1 (samplePush 0) (produce 1 (samplePush 0))" by (rule step_walk) code_simp
  moreover have "push_step 1 (samplePush 1) (consume 1 (samplePush 1))" by (rule step_consume) code_simp
  moreover have "push_step 1 (samplePush 2) (produce 1 (samplePush 2))" by (rule step_walk) code_simp
  moreover have "push_step 1 (samplePush 3) (taskDone 0 ([1], [7]) PutNew (samplePush 3))" by (rule step_task) code_simp
  moreover have "push_step 1 (samplePush 4) (consume 1 (samplePush 4))" by (rule step_consume) code_simp
  moreover have "push_step 1 (samplePush 5) (drained (samplePush 5))" by (rule step_drain) code_simp+
  ultimately have "push_step 1 (samplePush n) (samplePush (Suc n))" if "n < 6" for n
    using that by (auto simp: less_Suc_eq numeral_eq_Suc samplePush_def)
  then have "n \<le> 6 \<Longrightarrow> (push_step 1 ^^ n) (samplePush 0) (samplePush n)" for n
    by (induction n) (auto intro: relpowp_Suc_I)
  from this [of 6] show ?thesis by (simp add: samplePush_def)
qed

theorem push_completes_witness:
  "settled (samplePush 6) \<and> putCalls (samplePush 6) = [([1], [7])] \<and> pushed (samplePush 6) + skipped (samplePush 6) + failed (samplePush 6) = 1"
proof -
  have end_state: "producer (samplePush 6) = ProducerDone" "consumer (samplePush 6) = ConsumerDone" "active (samplePush 6) = []" by code_simp+
  then have "\<nexists>Q. push_step 1 (samplePush 6) Q" by (auto elim: push_step.cases)
  then show ?thesis using push_completes [OF _ samplePush_steps] by simp
qed

text \<open>C39. An abort that comes while the producer waits for space in the queue makes \<open>push\<close> hang: the consumer
  leaves its loop without waking the producer, so the producer waits forever and the call never returns.\<close>

theorem push_abort_hangs:
  assumes "producer P = WaitsForSpace b" "(abort_step concurrency)\<^sup>*\<^sup>* (P\<lparr>aborted := True\<rparr>) Q"
  shows "producer Q = WaitsForSpace b \<and> \<not> settled Q"
proof -
  have "producer Q = WaitsForSpace b \<and> aborted Q"
    using assms(2)
  proof (induction rule: rtranclp_induct)
    case base
    then show ?case using assms(1) by simp
  next
    case (step Q R)
    from step.hyps(2) show ?case
    proof cases
      case step_push
      then show ?thesis using step.IH
        by cases (auto simp: consume_def taskDone_def drained_def Let_def split: putResult.split)
    next
      case step_abort
      then show ?thesis using step.IH by simp
    qed
  qed
  then show ?thesis by (simp add: settled_def)
qed

text \<open>With four blocks and one put at a time: one is being sent, two are queued, the producer waits with the
  fourth.\<close>

definition sampleFill :: "nat \<Rightarrow> pushState" where
  "sampleFill n = foldl (\<lambda>P f. f P) (pushStart [([1], [7]), ([2], [7]), ([3], [7]), ([4], [7])])
     (take n [produce 1, consume 1, produce 1, produce 1, produce 1])"

lemma sampleFill_reachable: "(push_step 1)\<^sup>*\<^sup>* (pushStart [([1], [7]), ([2], [7]), ([3], [7]), ([4], [7])]) (sampleFill 5)"
proof -
  have "push_step 1 (sampleFill 0) (produce 1 (sampleFill 0))" by (rule step_walk) code_simp
  moreover have "push_step 1 (sampleFill 1) (consume 1 (sampleFill 1))" by (rule step_consume) code_simp
  moreover have "push_step 1 (sampleFill 2) (produce 1 (sampleFill 2))" by (rule step_walk) code_simp
  moreover have "push_step 1 (sampleFill 3) (produce 1 (sampleFill 3))" by (rule step_walk) code_simp
  moreover have "push_step 1 (sampleFill 4) (produce 1 (sampleFill 4))" by (rule step_walk) code_simp
  ultimately have "push_step 1 (sampleFill n) (sampleFill (Suc n))" if "n < 5" for n
    using that by (auto simp: less_Suc_eq numeral_eq_Suc sampleFill_def)
  then have "n \<le> 5 \<Longrightarrow> (push_step 1)\<^sup>*\<^sup>* (sampleFill 0) (sampleFill n)" for n
    by (induction n) (auto intro: rtranclp.rtrancl_into_rtrancl)
  from this [of 5] show ?thesis by (simp add: sampleFill_def)
qed

theorem push_abort_hangs_witness:
  "(push_step 1)\<^sup>*\<^sup>* (pushStart [([1], [7]), ([2], [7]), ([3], [7]), ([4], [7])]) (sampleFill 5) \<and>
    \<not> settled (drained ((consume 1 (taskDone 0 ([1], [7]) PutNew ((sampleFill 5)\<lparr>aborted := True\<rparr>)))))"
proof -
  let ?A = "(sampleFill 5)\<lparr>aborted := True\<rparr>"
  let ?T = "taskDone 0 ([1], [7]) PutNew ?A"
  let ?C = "consume 1 ?T"
  have "push_step 1 ?A ?T" by (rule step_task) code_simp
  moreover have "push_step 1 ?T ?C" by (rule step_consume) code_simp
  moreover have "push_step 1 ?C (drained ?C)" by (rule step_drain) code_simp+
  ultimately have "(abort_step 1)\<^sup>*\<^sup>* ?A (drained ?C)"
    by (meson step_push converse_rtranclp_into_rtranclp rtranclp.rtrancl_refl)
  moreover have "producer (sampleFill 5) = WaitsForSpace ([4], [7])" by code_simp
  ultimately show ?thesis using push_abort_hangs sampleFill_reachable by blast
qed

end
