(* ===== verification/BTree.thy ===== *)
theory BTree
  imports HashTree NHash
begin

text \<open>
  The B-tree index (\<open>hashtree-index/src/btree.ts\<close>): sorted maps from string keys to strings or to CIDs, kept as
  directories of a \<open>HashTree\<close>. A leaf is a directory whose entries are the keys (escaped) with their values, an
  inner node a directory of directories, named by the first key below them when they were made.

  The class calls its field \<open>tree\<close>, a \<open>HashTree\<close>, only through six methods. They are the record \<open>tree_ops\<close>, and
  \<open>hashTree\<close> is the instance of it the constructor makes. The string methods and the link methods of the class
  have the same code up to what they do at a leaf, and are instances of one definition here.

  A generator is run by the loop that consumes it: \<open>visitTree\<close> calls the loop's body at each value it yields.
\<close>

record 's tree_ops =
  t_putDirectory :: "TreeEntry list \<Rightarrow> ('s, CID) op"               \<comment> \<open>the field \<open>cid\<close> of the result\<close>
  t_setEntry :: "CID \<Rightarrow> string list \<Rightarrow> string \<Rightarrow> CID \<Rightarrow> nat \<Rightarrow> LinkType \<Rightarrow> ('s, CID) op"
  t_removeEntry :: "CID \<Rightarrow> string list \<Rightarrow> string \<Rightarrow> ('s, CID) op"
  t_listDirectory :: "CID \<Rightarrow> ('s, TreeEntry list) op"
  t_putFile :: "bytes \<Rightarrow> ('s, CID \<times> nat) op"
  t_readFile :: "CID \<Rightarrow> ('s, bytes option) op"

text \<open>\<open>new HashTree({ store })\<close>: everything that is created is encrypted.\<close>

definition hashTree :: "ext \<Rightarrow> 's config \<Rightarrow> 's tree_ops" where
  "hashTree E C = \<lparr>
     t_putDirectory = (\<lambda>entries. bindS (ht_putDirectory E C False entries) (\<lambda>r. retS (fst r))),
     t_setEntry = (\<lambda>root path name entry sz type. ht_setEntry E C root path name entry sz type None),
     t_removeEntry = ht_removeEntry E C,
     t_listDirectory = (\<lambda>c. readS (cstore C) (\<lambda>get. ht_listDirectory E get c)),
     t_putFile = ht_putFile E C False,
     t_readFile = (\<lambda>c. readS (cstore C) (\<lambda>get. ht_readFile E get c None))\<rparr>"

section \<open>Keys as names\<close>

definition replaceChar :: "char \<Rightarrow> string \<Rightarrow> string \<Rightarrow> string" where
  "replaceChar c r s = concat (map (\<lambda>x. if x = c then r else [x]) s)"

definition NUL :: char where "NUL = CHR 0x00"

definition escapeKey :: "string \<Rightarrow> string" where
  "escapeKey key = replaceChar NUL ''%00'' (replaceChar (CHR ''/'') ''%2F'' (replaceChar (CHR ''%'') ''%25'' key))"

text \<open>The global replacement of a percent sign and two matching characters by one character.\<close>

fun replaceEsc :: "(char \<Rightarrow> char \<Rightarrow> bool) \<Rightarrow> char \<Rightarrow> string \<Rightarrow> string" where
  "replaceEsc p r (a # b # c # xs) =
     (if a = CHR ''%'' \<and> p b c then r # replaceEsc p r xs else a # replaceEsc p r (b # c # xs))"
| "replaceEsc p r xs = xs"

definition unescapeKey :: "string \<Rightarrow> string" where
  "unescapeKey name =
     replaceEsc (\<lambda>b c. b = CHR ''2'' \<and> c = CHR ''5'') (CHR ''%'')
       (replaceEsc (\<lambda>b c. b = CHR ''0'' \<and> c = CHR ''0'') NUL
         (replaceEsc (\<lambda>b c. b = CHR ''2'' \<and> (c = CHR ''F'' \<or> c = CHR ''f'')) (CHR ''/'') name))"

text \<open>JavaScript compares strings by their code units, 16-bit integers. The names of the model have code
  units below 256; the end of a prefix range may have a larger one.\<close>

type_synonym units = "nat list"

definition codeUnits :: "string \<Rightarrow> units" where
  "codeUnits s = map of_char s"

definition incrementPrefix :: "units \<Rightarrow> units" where
  "incrementPrefix str = (if str = [] then str else butlast str @ [(last str + 1) mod 65536])"

section \<open>Nodes\<close>

definition isLeafNode :: "TreeEntry list \<Rightarrow> bool" where
  "isLeafNode entries \<longleftrightarrow> entries = [] \<or> list_ex (\<lambda>e. etype e \<noteq> Dir) entries"

definition bt_sortEntries :: "ext \<Rightarrow> TreeEntry list \<Rightarrow> TreeEntry list" where
  "bt_sortEntries E entries =
     sortBy (\<lambda>a b. localeCompare E (unescapeKey (ename a)) (unescapeKey (ename b)) \<le> 0) entries"

text \<open>The loop of \<open>findChild\<close> over the sorted entries; \<open>None\<close> stands for \<open>undefined\<close>.\<close>

fun childFor :: "string \<Rightarrow> TreeEntry list \<Rightarrow> TreeEntry option" where
  "childFor key [] = None"
| "childFor key [e] = Some e"
| "childFor key (e # e' # es) = (if key < unescapeKey (ename e') then Some e else childFor key (e' # es))"

definition findChild :: "ext \<Rightarrow> TreeEntry list \<Rightarrow> string \<Rightarrow> TreeEntry option" where
  "findChild E entries key = childFor key (bt_sortEntries E entries)"

definition cidEquals :: "CID \<Rightarrow> CID \<Rightarrow> bool" where
  "cidEquals a b \<longleftrightarrow>
     (if length (chash a) \<noteq> length (chash b) then False
      else if \<not> list_all2 (=) (chash a) (chash b) then False
      else case (ckey a, ckey b) of
        (None, None) \<Rightarrow> True
      | (Some k, Some k') \<Rightarrow> length k = length k' \<and> list_all2 (=) k k'
      | _ \<Rightarrow> False)"

text \<open>A \<open>for\<close> loop over a list with a state.\<close>

primrec foldS :: "('a \<Rightarrow> 'b \<Rightarrow> ('s, 'b) op) \<Rightarrow> 'a list \<Rightarrow> 'b \<Rightarrow> ('s, 'b) op" where
  "foldS f [] b = retS b"
| "foldS f (x # xs) b = bindS (f x b) (foldS f xs)"

lemma foldS_mono [partial_function_mono]:
  assumes "\<And>x b s. mono_option (\<lambda>f. g f x b s)"
  shows "mono_option (\<lambda>f. foldS (g f) xs b s)"
proof (induction xs arbitrary: b s)
  case Nil
  show ?case by (simp add: monotone_def flat_ord_def)
next
  case (Cons x xs)
  show ?case unfolding foldS.simps by (rule bindS_mono [OF assms Cons.IH])
qed

text \<open>A new directory with the given entries, set one after the other.\<close>

definition buildDir :: "'s tree_ops \<Rightarrow> TreeEntry list \<Rightarrow> ('s, CID) op" where
  "buildDir T entries =
     bindS (t_putDirectory T []) (foldS (\<lambda>e node. t_setEntry T node [] (ename e) (ecid e) (esize e) (etype e)) entries)"

record SplitResult =
  sleft :: CID
  sright :: CID
  leftFirstKey :: string
  rightFirstKey :: string

text \<open>\<open>splitLeaf\<close>, \<open>splitLeafWithLinks\<close> and \<open>splitInternal\<close> differ in the size and type they give the copied
  entries. The first name of an empty half is \<open>undefined.name\<close>, a \<open>TypeError\<close>, after the halves were stored.\<close>

definition splitNode :: "ext \<Rightarrow> 's tree_ops \<Rightarrow> (TreeEntry \<Rightarrow> TreeEntry) \<Rightarrow> TreeEntry list \<Rightarrow> ('s, SplitResult) op" where
  "splitNode E T copy entries =
     (let sorted = bt_sortEntries E entries; mid = length sorted div 2;
          leftEntries = take mid sorted; rightEntries = drop mid sorted
      in bindS (buildDir T (map copy leftEntries)) (\<lambda>left.
         bindS (buildDir T (map copy rightEntries)) (\<lambda>right.
         case (leftEntries, rightEntries) of
           (l # _, r # _) \<Rightarrow> retS \<lparr>sleft = left, sright = right, leftFirstKey = unescapeKey (ename l),
                                  rightFirstKey = unescapeKey (ename r)\<rparr>
         | _ \<Rightarrow> throwS TypeError)))"

definition plainEntry :: "string \<Rightarrow> CID \<Rightarrow> nat \<Rightarrow> LinkType \<Rightarrow> TreeEntry" where
  "plainEntry n c sz t = \<lparr>ename = n, ecid = c, esize = sz, etype = t, emeta = None\<rparr>"

definition splitLeaf :: "ext \<Rightarrow> 's tree_ops \<Rightarrow> TreeEntry list \<Rightarrow> ('s, SplitResult) op" where
  "splitLeaf E T = splitNode E T (\<lambda>e. plainEntry (ename e) (ecid e) (esize e) Blob)"

definition splitLeafWithLinks :: "ext \<Rightarrow> 's tree_ops \<Rightarrow> TreeEntry list \<Rightarrow> ('s, SplitResult) op" where
  "splitLeafWithLinks E T = splitNode E T (\<lambda>e. plainEntry (ename e) (ecid e) (esize e) (etype e))"

definition splitInternal :: "ext \<Rightarrow> 's tree_ops \<Rightarrow> TreeEntry list \<Rightarrow> ('s, SplitResult) op" where
  "splitInternal E T = splitNode E T (\<lambda>e. plainEntry (ename e) (ecid e) 0 Dir)"

section \<open>Insertion\<close>

text \<open>What the two kinds of trees do at a leaf: store the value and give the entry's CID, size and type, and
  split.\<close>

record 's leaf_ops =
  storeValue :: "('s, CID \<times> nat \<times> LinkType) op"
  leafSplit :: "TreeEntry list \<Rightarrow> ('s, SplitResult) op"

definition stringLeaf :: "ext \<Rightarrow> 's tree_ops \<Rightarrow> textops \<Rightarrow> string \<Rightarrow> 's leaf_ops" where
  "stringLeaf E T B value = \<lparr>
     storeValue = bindS (t_putFile T (utf8Encode B value)) (\<lambda>r. retS (fst r, snd r, Blob)),
     leafSplit = splitLeaf E T\<rparr>"

definition linkLeaf :: "ext \<Rightarrow> 's tree_ops \<Rightarrow> CID \<Rightarrow> 's leaf_ops" where
  "linkLeaf E T targetCid = \<lparr>storeValue = retS (targetCid, 0, File), leafSplit = splitLeafWithLinks E T\<rparr>"

text \<open>The end of an insertion into a node: it is listed again, and split when it has more than
  \<open>maxKeys = order - 1\<close> entries.\<close>

definition splitWhenFull ::
  "'s tree_ops \<Rightarrow> int \<Rightarrow> (TreeEntry list \<Rightarrow> ('s, SplitResult) op) \<Rightarrow> CID \<Rightarrow> ('s, CID \<times> SplitResult option) op" where
  "splitWhenFull T order spl newNode =
     bindS (t_listDirectory T newNode) (\<lambda>newEntries.
     if int (length newEntries) > order - 1
     then bindS (spl newEntries) (\<lambda>sp. retS (newNode, Some sp))
     else retS (newNode, None))"

definition insertIntoLeaf ::
  "'s tree_ops \<Rightarrow> int \<Rightarrow> 's leaf_ops \<Rightarrow> CID \<Rightarrow> string \<Rightarrow> ('s, CID \<times> SplitResult option) op" where
  "insertIntoLeaf T order L node key =
     bindS (storeValue L) (\<lambda>v.
     bindS (t_setEntry T node [] (escapeKey key) (fst v) (fst (snd v)) (snd (snd v)))
       (splitWhenFull T order (leafSplit L)))"

text \<open>The second half of \<open>insertIntoInternal\<close>, after the recursive call returned \<open>result\<close>.\<close>

definition replaceChildren ::
  "'s tree_ops \<Rightarrow> CID \<Rightarrow> string \<Rightarrow> CID \<times> SplitResult option \<Rightarrow> ('s, CID) op" where
  "replaceChildren T node childName result =
     bindS (t_setEntry T node [] childName (fst result) 0 Dir) (\<lambda>newNode.
     case snd result of
       None \<Rightarrow> retS newNode
     | Some sp \<Rightarrow>
         bindS (t_removeEntry T newNode [] childName) (\<lambda>newNode.
         bindS (t_setEntry T newNode [] (escapeKey (leftFirstKey sp)) (sleft sp) 0 Dir) (\<lambda>newNode.
         t_setEntry T newNode [] (escapeKey (rightFirstKey sp)) (sright sp) 0 Dir)))"

partial_function (option) insertRecursive ::
  "ext \<Rightarrow> 's tree_ops \<Rightarrow> int \<Rightarrow> 's leaf_ops \<Rightarrow> string \<Rightarrow> CID \<Rightarrow> 's \<Rightarrow> ((CID \<times> SplitResult option) res \<times> 's) option" where
  "insertRecursive E T order L key node s =
     bindS (t_listDirectory T node) (\<lambda>entries s.
       if isLeafNode entries then insertIntoLeaf T order L node key s
       else case findChild E entries key of
         None \<Rightarrow> throwS TypeError s
       | Some child \<Rightarrow>
           bindS (insertRecursive E T order L key (ecid child)) (\<lambda>result.
           bindS (replaceChildren T node (ename child) result)
             (splitWhenFull T order (splitInternal E T))) s) s"

declare insertRecursive.simps [code]

text \<open>The link tree's versions.\<close>

abbreviation insertLinkIntoLeaf ::
  "ext \<Rightarrow> 's tree_ops \<Rightarrow> int \<Rightarrow> CID \<Rightarrow> CID \<Rightarrow> string \<Rightarrow> ('s, CID \<times> SplitResult option) op" where
  "insertLinkIntoLeaf E T order targetCid \<equiv> insertIntoLeaf T order (linkLeaf E T targetCid)"

abbreviation insertLinkRecursive ::
  "ext \<Rightarrow> 's tree_ops \<Rightarrow> int \<Rightarrow> CID \<Rightarrow> string \<Rightarrow> CID \<Rightarrow> ('s, CID \<times> SplitResult option) op" where
  "insertLinkRecursive E T order targetCid \<equiv> insertRecursive E T order (linkLeaf E T targetCid)"

text \<open>A new root over the two halves of a root that was split.\<close>

definition growRoot :: "'s tree_ops \<Rightarrow> CID \<times> SplitResult option \<Rightarrow> ('s, CID) op" where
  "growRoot T result = (case snd result of
     None \<Rightarrow> retS (fst result)
   | Some sp \<Rightarrow>
       bindS (t_putDirectory T []) (\<lambda>newRoot.
       bindS (t_setEntry T newRoot [] (escapeKey (leftFirstKey sp)) (sleft sp) 0 Dir) (\<lambda>newRoot.
       t_setEntry T newRoot [] (escapeKey (rightFirstKey sp)) (sright sp) 0 Dir)))"

section \<open>Lookup\<close>

text \<open>The descent that \<open>get\<close> and \<open>getLink\<close> share; \<open>found\<close> is what they do with the entry of the key.\<close>

partial_function (option) descend ::
  "ext \<Rightarrow> 's tree_ops \<Rightarrow> (TreeEntry \<Rightarrow> ('s, 'a option) op) \<Rightarrow> string \<Rightarrow> CID \<Rightarrow> 's \<Rightarrow> ('a option res \<times> 's) option" where
  "descend E T found key node s =
     bindS (t_listDirectory T node) (\<lambda>entries s.
       if isLeafNode entries then
         (case List.find (\<lambda>e. ename e = escapeKey key) entries of
            None \<Rightarrow> retS None s
          | Some entry \<Rightarrow> found entry s)
       else case findChild E entries key of
         None \<Rightarrow> throwS TypeError s
       | Some child \<Rightarrow> descend E T found key (ecid child) s) s"

declare descend.simps [code]

definition readValue :: "'s tree_ops \<Rightarrow> textops \<Rightarrow> TreeEntry \<Rightarrow> ('s, string option) op" where
  "readValue T B entry =
     (if etype entry \<noteq> Blob then retS None
      else bindS (t_readFile T (ecid entry)) (\<lambda>d. retS (map_option (utf8Decode B) d)))"

definition readLink :: "TreeEntry \<Rightarrow> ('s, CID option) op" where
  "readLink entry = (if etype entry \<noteq> File then retS None else retS (Some (ecid entry)))"

definition bt_get :: "ext \<Rightarrow> 's tree_ops \<Rightarrow> textops \<Rightarrow> CID option \<Rightarrow> string \<Rightarrow> ('s, string option) op" where
  "bt_get E T B root key = (case root of None \<Rightarrow> retS None | Some r \<Rightarrow> descend E T (readValue T B) key r)"

definition bt_getLink :: "ext \<Rightarrow> 's tree_ops \<Rightarrow> CID option \<Rightarrow> string \<Rightarrow> ('s, CID option) op" where
  "bt_getLink E T root key = (case root of None \<Rightarrow> retS None | Some r \<Rightarrow> descend E T readLink key r)"

section \<open>The public insertions\<close>

definition createLeaf :: "'s tree_ops \<Rightarrow> (string \<times> 's leaf_ops) list \<Rightarrow> ('s, CID) op" where
  "createLeaf T items =
     bindS (t_putDirectory T []) (foldS (\<lambda>(key, L) node.
       bindS (storeValue L) (\<lambda>v. t_setEntry T node [] (escapeKey key) (fst v) (fst (snd v)) (snd (snd v)))) items)"

abbreviation createLeafWithLink :: "ext \<Rightarrow> 's tree_ops \<Rightarrow> (string \<times> CID) list \<Rightarrow> ('s, CID) op" where
  "createLeafWithLink E T items \<equiv> createLeaf T (map (\<lambda>(key, targetCid). (key, linkLeaf E T targetCid)) items)"

definition bt_insert :: "ext \<Rightarrow> 's tree_ops \<Rightarrow> textops \<Rightarrow> int \<Rightarrow> CID option \<Rightarrow> string \<Rightarrow> string \<Rightarrow> ('s, CID) op" where
  "bt_insert E T B order root key value = (case root of
     None \<Rightarrow> createLeaf T [(key, stringLeaf E T B value)]
   | Some r \<Rightarrow>
       bindS (bt_get E T B root key) (\<lambda>existingValue.
       if existingValue = Some value then retS r
       else bindS (insertRecursive E T order (stringLeaf E T B value) key r) (growRoot T)))"

definition bt_insertLink :: "ext \<Rightarrow> 's tree_ops \<Rightarrow> int \<Rightarrow> CID option \<Rightarrow> string \<Rightarrow> CID \<Rightarrow> ('s, CID) op" where
  "bt_insertLink E T order root key targetCid = (case root of
     None \<Rightarrow> createLeafWithLink E T [(key, targetCid)]
   | Some r \<Rightarrow>
       bindS (bt_getLink E T root key) (\<lambda>existingCid.
       if (case existingCid of None \<Rightarrow> False | Some c \<Rightarrow> cidEquals c targetCid) then retS r
       else bindS (insertLinkRecursive E T order targetCid key r) (growRoot T)))"

section \<open>Deletion\<close>

text \<open>What is left after an entry was removed: \<open>null\<close> instead of an empty node, and the only child instead of an
  inner node with one child. The second component of the result says that it is the very object that was
  passed in: the code compares \<open>newChild === child.cid\<close> by identity, and every other result is a new object.\<close>

definition removeKey :: "'s tree_ops \<Rightarrow> CID \<Rightarrow> string \<Rightarrow> ('s, CID option \<times> bool) op" where
  "removeKey T root name =
     bindS (t_removeEntry T root [] name) (\<lambda>newRoot.
     bindS (t_listDirectory T newRoot) (\<lambda>newEntries.
     if newEntries = [] then retS (None, False) else retS (Some newRoot, False)))"

definition removeChild :: "'s tree_ops \<Rightarrow> CID \<Rightarrow> string \<Rightarrow> ('s, CID option \<times> bool) op" where
  "removeChild T root name =
     bindS (t_removeEntry T root [] name) (\<lambda>newRoot.
     bindS (t_listDirectory T newRoot) (\<lambda>newEntries.
     if newEntries = [] then retS (None, False)
     else if length newEntries = 1 \<and> etype (newEntries ! 0) = Dir
       then retS (Some (ecid (newEntries ! 0)), False)
     else retS (Some newRoot, False)))"

definition keepOrReplace :: "'s tree_ops \<Rightarrow> CID \<Rightarrow> string \<Rightarrow> CID option \<times> bool \<Rightarrow> ('s, CID option \<times> bool) op" where
  "keepOrReplace T root name newChild = (case newChild of
     (None, _) \<Rightarrow> removeChild T root name
   | (Some c, same) \<Rightarrow>
       if same then retS (Some root, True)
       else bindS (t_setEntry T root [] name c 0 Dir) (\<lambda>newRoot. retS (Some newRoot, False)))"

partial_function (option) deleteNode ::
  "ext \<Rightarrow> 's tree_ops \<Rightarrow> string \<Rightarrow> CID \<Rightarrow> 's \<Rightarrow> ((CID option \<times> bool) res \<times> 's) option" where
  "deleteNode E T key root s =
     bindS (t_listDirectory T root) (\<lambda>entries s.
       if isLeafNode entries then
         (case List.find (\<lambda>e. ename e = escapeKey key) entries of
            None \<Rightarrow> retS (Some root, True) s
          | Some _ \<Rightarrow> removeKey T root (escapeKey key) s)
       else case findChild E entries key of
         None \<Rightarrow> throwS TypeError s
       | Some child \<Rightarrow> bindS (deleteNode E T key (ecid child)) (keepOrReplace T root (ename child)) s) s"

declare deleteNode.simps [code]

definition bt_delete :: "ext \<Rightarrow> 's tree_ops \<Rightarrow> CID \<Rightarrow> string \<Rightarrow> ('s, CID option) op" where
  "bt_delete E T root key = bindS (deleteNode E T key root) (\<lambda>r. retS (fst r))"

section \<open>Traversals\<close>

text \<open>The entries of a sorted leaf that a range covers, and the children it descends to.\<close>

fun leafInRange :: "LinkType \<Rightarrow> units option \<Rightarrow> units option \<Rightarrow> TreeEntry list \<Rightarrow> TreeEntry list" where
  "leafInRange t start stop [] = []"
| "leafInRange t start stop (entry # rest) =
     (let key = codeUnits (unescapeKey (ename entry)) in
      if etype entry \<noteq> t then leafInRange t start stop rest
      else if (case start of None \<Rightarrow> False | Some a \<Rightarrow> key < a) then leafInRange t start stop rest
      else if (case stop of None \<Rightarrow> False | Some b \<Rightarrow> b \<le> key) then []
      else entry # leafInRange t start stop rest)"

fun childrenInRange :: "units option \<Rightarrow> units option \<Rightarrow> TreeEntry list \<Rightarrow> TreeEntry list" where
  "childrenInRange start stop [] = []"
| "childrenInRange start stop (child # rest) =
     (let childMinKey = codeUnits (unescapeKey (ename child));
          childMaxKey = (case rest of [] \<Rightarrow> None | next # _ \<Rightarrow> Some (codeUnits (unescapeKey (ename next))))
      in if (case (start, childMaxKey) of (Some a, Some m) \<Rightarrow> m \<le> a | _ \<Rightarrow> False) then childrenInRange start stop rest
         else if (case stop of None \<Rightarrow> False | Some b \<Rightarrow> b \<le> childMinKey) then []
         else child # childrenInRange start stop rest)"

partial_function (option) visitTree ::
  "ext \<Rightarrow> 's tree_ops \<Rightarrow> (TreeEntry list \<Rightarrow> TreeEntry list) \<Rightarrow> (TreeEntry list \<Rightarrow> TreeEntry list)
   \<Rightarrow> (TreeEntry \<Rightarrow> 'b \<Rightarrow> ('s, 'b) op) \<Rightarrow> CID \<Rightarrow> 'b \<Rightarrow> 's \<Rightarrow> ('b res \<times> 's) option" where
  "visitTree E T pickLeaf pickChildren visit node acc s =
     bindS (t_listDirectory T node) (\<lambda>entries s.
       if isLeafNode entries then foldS visit (pickLeaf (bt_sortEntries E entries)) acc s
       else foldS (\<lambda>child. visitTree E T pickLeaf pickChildren visit (ecid child))
              (pickChildren (bt_sortEntries E entries)) acc s) s"

declare visitTree.simps [code]

text \<open>What is yielded at an entry of a leaf: the key with the value's text when the value can be read, or the
  key with the CID. \<open>body\<close> is the body of the consuming loop.\<close>

definition yieldValue ::
  "'s tree_ops \<Rightarrow> textops \<Rightarrow> (string \<times> string \<Rightarrow> 'b \<Rightarrow> ('s, 'b) op) \<Rightarrow> TreeEntry \<Rightarrow> 'b \<Rightarrow> ('s, 'b) op" where
  "yieldValue T B body entry acc =
     bindS (t_readFile T (ecid entry)) (\<lambda>d. case d of
       None \<Rightarrow> retS acc
     | Some d \<Rightarrow> body (unescapeKey (ename entry), utf8Decode B d) acc)"

definition yieldLink :: "(string \<times> CID \<Rightarrow> 'b \<Rightarrow> ('s, 'b) op) \<Rightarrow> TreeEntry \<Rightarrow> 'b \<Rightarrow> ('s, 'b) op" where
  "yieldLink body entry = body (unescapeKey (ename entry), ecid entry)"

definition traverseInOrder ::
  "ext \<Rightarrow> 's tree_ops \<Rightarrow> textops \<Rightarrow> (string \<times> string \<Rightarrow> 'b \<Rightarrow> ('s, 'b) op) \<Rightarrow> CID \<Rightarrow> 'b \<Rightarrow> ('s, 'b) op" where
  "traverseInOrder E T B body =
     visitTree E T (List.filter (\<lambda>e. etype e = Blob)) (\<lambda>cs. cs) (yieldValue T B body)"

definition traverseLinksInOrder ::
  "ext \<Rightarrow> 's tree_ops \<Rightarrow> (string \<times> CID \<Rightarrow> 'b \<Rightarrow> ('s, 'b) op) \<Rightarrow> CID \<Rightarrow> 'b \<Rightarrow> ('s, 'b) op" where
  "traverseLinksInOrder E T body =
     visitTree E T (List.filter (\<lambda>e. etype e = File)) (\<lambda>cs. cs) (yieldLink body)"

definition rangeTraverse ::
  "ext \<Rightarrow> 's tree_ops \<Rightarrow> textops \<Rightarrow> units option \<Rightarrow> units option \<Rightarrow> (string \<times> string \<Rightarrow> 'b \<Rightarrow> ('s, 'b) op)
   \<Rightarrow> CID \<Rightarrow> 'b \<Rightarrow> ('s, 'b) op" where
  "rangeTraverse E T B start stop body =
     visitTree E T (leafInRange Blob start stop) (childrenInRange start stop) (yieldValue T B body)"

definition rangeLinkTraverse ::
  "ext \<Rightarrow> 's tree_ops \<Rightarrow> units option \<Rightarrow> units option \<Rightarrow> (string \<times> CID \<Rightarrow> 'b \<Rightarrow> ('s, 'b) op)
   \<Rightarrow> CID \<Rightarrow> 'b \<Rightarrow> ('s, 'b) op" where
  "rangeLinkTraverse E T start stop body =
     visitTree E T (leafInRange File start stop) (childrenInRange start stop) (yieldLink body)"

text \<open>The generators run to their end: the list of what they yield.\<close>

definition collect :: "'a \<Rightarrow> 'a list \<Rightarrow> ('s, 'a list) op" where
  "collect x xs = retS (xs @ [x])"

definition bt_entries :: "ext \<Rightarrow> 's tree_ops \<Rightarrow> textops \<Rightarrow> CID option \<Rightarrow> ('s, (string \<times> string) list) op" where
  "bt_entries E T B root = (case root of None \<Rightarrow> retS [] | Some r \<Rightarrow> traverseInOrder E T B collect r [])"

definition bt_linksEntries :: "ext \<Rightarrow> 's tree_ops \<Rightarrow> CID option \<Rightarrow> ('s, (string \<times> CID) list) op" where
  "bt_linksEntries E T root = (case root of None \<Rightarrow> retS [] | Some r \<Rightarrow> traverseLinksInOrder E T collect r [])"

definition bt_range ::
  "ext \<Rightarrow> 's tree_ops \<Rightarrow> textops \<Rightarrow> CID \<Rightarrow> units option \<Rightarrow> units option \<Rightarrow> ('s, (string \<times> string) list) op" where
  "bt_range E T B root start stop = rangeTraverse E T B start stop collect root []"

definition bt_prefix :: "ext \<Rightarrow> 's tree_ops \<Rightarrow> textops \<Rightarrow> CID \<Rightarrow> units \<Rightarrow> ('s, (string \<times> string) list) op" where
  "bt_prefix E T B root pre = bt_range E T B root (Some pre) (Some (incrementPrefix pre))"

definition bt_prefixLinks :: "ext \<Rightarrow> 's tree_ops \<Rightarrow> CID \<Rightarrow> units \<Rightarrow> ('s, (string \<times> CID) list) op" where
  "bt_prefixLinks E T root pre = rangeLinkTraverse E T (Some pre) (Some (incrementPrefix pre)) collect root []"

section \<open>Merging\<close>

definition bt_merge ::
  "ext \<Rightarrow> 's tree_ops \<Rightarrow> textops \<Rightarrow> int \<Rightarrow> CID option \<Rightarrow> CID option \<Rightarrow> bool \<Rightarrow> ('s, CID option) op" where
  "bt_merge E T B order base other preferOther = (case (other, base) of
     (None, _) \<Rightarrow> retS base
   | (Some src, None) \<Rightarrow> retS other
   | (Some src, Some b) \<Rightarrow>
       bindS (traverseInOrder E T B (\<lambda>(key, value) result.
           bindS (bt_get E T B (Some result) key) (\<lambda>existingValue.
           if existingValue = None \<or> preferOther then bt_insert E T B order (Some result) key value
           else retS result)) src b)
         (\<lambda>result. retS (Some result)))"

definition bt_mergeLinks ::
  "ext \<Rightarrow> 's tree_ops \<Rightarrow> int \<Rightarrow> CID option \<Rightarrow> CID option \<Rightarrow> bool \<Rightarrow> ('s, CID option) op" where
  "bt_mergeLinks E T order base other preferOther = (case (other, base) of
     (None, _) \<Rightarrow> retS base
   | (Some src, None) \<Rightarrow> retS other
   | (Some src, Some b) \<Rightarrow>
       bindS (traverseLinksInOrder E T (\<lambda>(key, c) result.
           bindS (bt_getLink E T (Some result) key) (\<lambda>existingCid.
           if existingCid = None \<or> preferOther then bt_insertLink E T order (Some result) key c
           else retS result)) src b)
         (\<lambda>result. retS (Some result)))"

end
