(* ===== verification/BTreeSpec.thy ===== *)
theory BTreeSpec
  imports Main
begin

text \<open>
  The abstract B-tree: what the nodes of \<open>BTree\<close> are without a store. A node is a list of pairs sorted by key;
  the operations are those of the code on such lists, and their effect on the sorted list of items of the
  whole tree is proved here.

  \<open>search_tree st lo hi t\<close> is the invariant: the items are sorted and lie between the separators. The first
  separator of a node is no lower bound on the leftmost path, where smaller keys may be inserted later. With
  \<open>st\<close> it says more: away from the leftmost path every separator is the least key below it. Lookup and
  deletion need the weak form, insertion needs and keeps the strong one, which deletion may break.
\<close>

section \<open>Sorted association lists\<close>

abbreviation ssorted :: "('k :: linorder \<times> 'v) list \<Rightarrow> bool" where
  "ssorted xs \<equiv> sorted_wrt (<) (map fst xs)"

fun setKey :: "'k :: linorder \<Rightarrow> 'v \<Rightarrow> ('k \<times> 'v) list \<Rightarrow> ('k \<times> 'v) list" where
  "setKey k v [] = [(k, v)]"
| "setKey k v ((a, w) # xs) =
     (if k < a then (k, v) # (a, w) # xs else if k = a then (k, v) # xs else (a, w) # setKey k v xs)"

definition delKey :: "'k \<Rightarrow> ('k \<times> 'v) list \<Rightarrow> ('k \<times> 'v) list" where
  "delKey k xs = List.filter (\<lambda>x. fst x \<noteq> k) xs"

lemma delKey_simps [simp]:
  "delKey k [] = []" "delKey k (x # xs) = (if fst x = k then delKey k xs else x # delKey k xs)"
  "delKey k (xs @ ys) = delKey k xs @ delKey k ys"
  by (simp_all add: delKey_def)

lemma delKey_id: "k \<notin> fst ` set xs \<Longrightarrow> delKey k xs = xs"
  by (induction xs) auto

lemma keys_setKey [simp]: "fst ` set (setKey k v xs) = insert k (fst ` set xs)"
  by (induction k v xs rule: setKey.induct) auto

lemma setKey_not_Nil [simp]: "setKey k v xs \<noteq> []"
  by (cases xs) (auto split: if_splits)

lemma ssorted_setKey: "ssorted xs \<Longrightarrow> ssorted (setKey k v xs)"
proof (induction k v xs rule: setKey.induct)
  case (2 k v a w xs)
  then show ?case using keys_setKey [of k v xs] by (auto simp del: keys_setKey)
qed simp

lemma ssorted_delKey: "ssorted xs \<Longrightarrow> ssorted (delKey k xs)"
  by (induction xs) (auto simp: delKey_def)

lemma map_of_setKey: "map_of (setKey k v xs) = (map_of xs)(k \<mapsto> v)"
  by (induction k v xs rule: setKey.induct) (auto simp: fun_upd_twist)

lemma map_of_delKey: "map_of (delKey k xs) = (map_of xs)(k := None)"
  by (induction xs) (auto simp: fun_upd_twist)

lemma ssorted_distinct: "ssorted xs \<Longrightarrow> distinct (map fst xs)"
  by (simp add: strict_sorted_iff)

lemma setKey_left: "\<forall>x\<in>set xs. fst x < k \<Longrightarrow> setKey k v (xs @ ys) = xs @ setKey k v ys"
  by (induction xs) auto

lemma setKey_right: "\<forall>y\<in>set ys. k < fst y \<Longrightarrow> setKey k v (xs @ ys) = setKey k v xs @ ys"
  by (induction k v xs rule: setKey.induct) (auto, cases ys, auto)

lemma setKey_last: "\<forall>x\<in>set xs. fst x < k \<Longrightarrow> setKey k v xs = xs @ [(k, v)]"
  using setKey_left [of xs k v "[]"] by simp

lemma setKey_same: "ssorted (xs @ (k, w) # ys) \<Longrightarrow> setKey k v (xs @ (k, w) # ys) = xs @ (k, v) # ys"
  by (induction xs) auto

lemma delKey_middle:
  assumes "ssorted (ls @ (a, t) # rs)" shows "delKey a (ls @ (a, u) # rs) = ls @ rs"
proof -
  have "\<forall>x\<in>set (ls @ rs). fst x \<noteq> a" using assms by (auto simp: sorted_wrt_append)
  then show ?thesis by (auto simp: delKey_def)
qed

lemma map_of_outside: "\<forall>x\<in>set xs. fst x \<noteq> k \<Longrightarrow> map_of xs k = None"
  by (induction xs) auto

section \<open>Trees\<close>

datatype ('k, 'v) btree = BLeaf "('k \<times> 'v) list" | BNode "('k \<times> ('k, 'v) btree) list"

fun items :: "('k, 'v) btree \<Rightarrow> ('k \<times> 'v) list" where
  "items (BLeaf xs) = xs"
| "items (BNode ts) = concat (map (\<lambda>x. items (snd x)) ts)"

fun pick :: "'k :: linorder \<Rightarrow> ('k \<times> 'a) list \<Rightarrow> 'k \<times> 'a" where
  "pick k [x] = x"
| "pick k (x # y # xs) = (if k < fst y then x else pick k (y # xs))"
| "pick k [] = undefined"

lemma pick_mem: "xs \<noteq> [] \<Longrightarrow> pick k xs \<in> set xs"
  by (induction k xs rule: pick.induct) auto

lemma pick_size: "size (snd (pick k (x # xs))) < size (BNode (x # xs))"
proof -
  have "size_prod (\<lambda>_. 0) size (pick k (x # xs)) \<le> size_list (size_prod (\<lambda>_. 0) size) (x # xs)"
    using size_list_estimation' [OF pick_mem [of "x # xs" k], of _ "size_prod (\<lambda>_. 0) size"] by blast
  then show ?thesis by (cases "pick k (x # xs)") simp
qed

function (sequential) lookupTree :: "'k :: linorder \<Rightarrow> ('k, 'v) btree \<Rightarrow> 'v option" where
  "lookupTree k (BLeaf xs) = map_of xs k"
| "lookupTree k (BNode []) = None"
| "lookupTree k (BNode (x # xs)) = lookupTree k (snd (pick k (x # xs)))"
  by pat_completeness auto
termination by (relation "measure (size \<circ> snd)") (use pick_size in auto)

text \<open>A split gives two halves and the first keys of their lists.\<close>

definition halves :: "(('k \<times> 'a) list \<Rightarrow> ('k, 'v) btree) \<Rightarrow> ('k \<times> 'a) list \<Rightarrow> 'k \<times> ('k, 'v) btree \<times> 'k \<times> ('k, 'v) btree" where
  "halves mk xs = (let mid = length xs div 2 in
     (fst (hd xs), mk (take mid xs), fst (xs ! mid), mk (drop mid xs)))"

definition splitIf :: "int \<Rightarrow> (('k \<times> 'a) list \<Rightarrow> ('k, 'v) btree) \<Rightarrow> ('k \<times> 'a) list
   \<Rightarrow> ('k, 'v) btree \<times> ('k \<times> ('k, 'v) btree \<times> 'k \<times> ('k, 'v) btree) option" where
  "splitIf order mk xs = (mk xs, if int (length xs) > order - 1 then Some (halves mk xs) else None)"

definition putChildren :: "'k :: linorder \<Rightarrow> ('k, 'v) btree \<times> ('k \<times> ('k, 'v) btree \<times> 'k \<times> ('k, 'v) btree) option
   \<Rightarrow> ('k \<times> ('k, 'v) btree) list \<Rightarrow> ('k \<times> ('k, 'v) btree) list" where
  "putChildren a r ts = (case snd r of
     None \<Rightarrow> setKey a (fst r) ts
   | Some (lk, l, rk, r') \<Rightarrow> setKey rk r' (setKey lk l (delKey a (setKey a (fst r) ts))))"

lemma putChildren_not_Nil [simp]: "putChildren a q ts \<noteq> []"
  by (simp add: putChildren_def split: option.splits prod.splits)

function (sequential) ins :: "int \<Rightarrow> 'k :: linorder \<Rightarrow> 'v \<Rightarrow> ('k, 'v) btree
   \<Rightarrow> ('k, 'v) btree \<times> ('k \<times> ('k, 'v) btree \<times> 'k \<times> ('k, 'v) btree) option" where
  "ins order k v (BLeaf xs) = splitIf order BLeaf (setKey k v xs)"
| "ins order k v (BNode []) = (BNode [], None)"
| "ins order k v (BNode (x # xs)) =
     (let c = pick k (x # xs) in
      splitIf order BNode (putChildren (fst c) (ins order k v (snd c)) (x # xs)))"
  by pat_completeness auto
termination by (relation "measure (size \<circ> snd \<circ> snd \<circ> snd)") (use pick_size in auto)

definition insertTree :: "int \<Rightarrow> 'k :: linorder \<Rightarrow> 'v \<Rightarrow> ('k, 'v) btree \<Rightarrow> ('k, 'v) btree" where
  "insertTree order k v t = (let r = ins order k v t in case snd r of
     None \<Rightarrow> fst r
   | Some (lk, l, rk, r') \<Rightarrow> BNode (setKey rk r' [(lk, l)]))"

definition nonEmpty :: "('k \<times> ('k, 'v) btree) list \<Rightarrow> ('k, 'v) btree option" where
  "nonEmpty ts = (case ts of [] \<Rightarrow> None | [x] \<Rightarrow> Some (snd x) | _ \<Rightarrow> Some (BNode ts))"

function (sequential) del :: "'k :: linorder \<Rightarrow> ('k, 'v) btree \<Rightarrow> ('k, 'v) btree option" where
  "del k (BLeaf xs) = (if delKey k xs = [] then None else Some (BLeaf (delKey k xs)))"
| "del k (BNode []) = None"
| "del k (BNode (x # xs)) =
     (let c = pick k (x # xs) in case del k (snd c) of
        None \<Rightarrow> nonEmpty (delKey (fst c) (x # xs))
      | Some t' \<Rightarrow> Some (BNode (setKey (fst c) t' (x # xs))))"
  by pat_completeness auto
termination by (relation "measure (size \<circ> snd)") (use pick_size in auto)

section \<open>The invariant\<close>

definition inBounds :: "'k :: linorder option \<Rightarrow> 'k option \<Rightarrow> 'k \<Rightarrow> bool" where
  "inBounds lo hi k \<longleftrightarrow> (\<forall>a. lo = Some a \<longrightarrow> a \<le> k) \<and> (\<forall>b. hi = Some b \<longrightarrow> k < b)"

definition nextSep :: "'k option \<Rightarrow> ('k \<times> 'a) list \<Rightarrow> 'k option" where
  "nextSep hi xs = (case xs of [] \<Rightarrow> hi | x # _ \<Rightarrow> Some (fst x))"

lemma nextSep_simps [simp]: "nextSep hi [] = hi" "nextSep hi (x # xs) = Some (fst x)"
  by (simp_all add: nextSep_def)

lemma inBounds_simps:
  "inBounds (Some a) hi k \<longleftrightarrow> a \<le> k \<and> inBounds None hi k"
  "inBounds lo (Some b) k \<longleftrightarrow> k < b \<and> inBounds lo None k" "inBounds None None k"
  by (auto simp: inBounds_def)

lemma inBounds_narrow:
  "inBounds lo hi k \<Longrightarrow> k < b \<Longrightarrow> inBounds lo (Some b) k" "inBounds lo hi k \<Longrightarrow> a \<le> k \<Longrightarrow> inBounds (Some a) hi k"
  by (auto simp: inBounds_def)

text \<open>The lower bound, if there is one, is the key \<open>a\<close> itself.\<close>

definition pinned :: "bool \<Rightarrow> 'k option \<Rightarrow> 'k \<Rightarrow> bool" where
  "pinned st lo a \<longleftrightarrow> (st \<longrightarrow> lo \<in> {None, Some a})"

lemma pinned_simps [simp]:
  "pinned False lo a" "pinned st None a" "pinned st (Some b) a \<longleftrightarrow> st \<longrightarrow> b = a" "\<not> st \<Longrightarrow> pinned st lo a"
  by (auto simp: pinned_def)

fun search_tree :: "bool \<Rightarrow> 'k :: linorder option \<Rightarrow> 'k option \<Rightarrow> ('k, 'v) btree \<Rightarrow> bool"
  and search_list :: "bool \<Rightarrow> 'k :: linorder option \<Rightarrow> 'k option \<Rightarrow> ('k \<times> ('k, 'v) btree) list \<Rightarrow> bool" where
  "search_tree st lo hi (BLeaf xs) \<longleftrightarrow> xs \<noteq> [] \<and> ssorted xs \<and> (\<forall>x\<in>set xs. inBounds lo hi (fst x)) \<and>
     pinned st lo (fst (hd xs))"
| "search_tree st lo hi (BNode ts) \<longleftrightarrow> ts \<noteq> [] \<and> search_list st lo hi ts"
| "search_list st lo hi [] \<longleftrightarrow> True"
| "search_list st lo hi ((a, t) # ts) \<longleftrightarrow> inBounds lo (nextSep hi ts) a \<and> pinned st lo a \<and>
     search_tree st lo (nextSep hi ts) t \<and> search_list st (nextSep hi ts) hi ts"


lemma search_list_append:
  "search_list st lo hi (ls @ x # rs) \<longleftrightarrow>
     search_list st lo (Some (fst x)) ls \<and> search_list st (if ls = [] then lo else Some (fst x)) hi (x # rs)"
proof (induction ls arbitrary: lo)
  case (Cons y ls)
  then show ?case by (cases y; cases ls) auto
qed (cases x, simp)

lemma search_weak:
  fixes t :: "('k :: linorder, 'v) btree" and ts :: "('k \<times> ('k, 'v) btree) list"
  shows "search_tree st lo hi t \<Longrightarrow> search_tree False lo hi t"
  "search_list st lo hi ts \<Longrightarrow> search_list False lo hi ts"
  by (induction st lo hi t and st lo hi ts rule: search_tree_search_list.induct) auto

lemma search_unbounded:
  fixes t :: "('k :: linorder, 'v) btree" and ts :: "('k \<times> ('k, 'v) btree) list"
  shows "search_tree st lo hi t \<Longrightarrow> search_tree st None hi t"
  "search_list st lo hi ts \<Longrightarrow> search_list st None hi ts"
  by (induction st lo hi t and st lo hi ts rule: search_tree_search_list.induct) (auto simp: inBounds_def)

fun loLe :: "'k :: linorder option \<Rightarrow> 'k option \<Rightarrow> bool" where
  "loLe None y \<longleftrightarrow> True" | "loLe (Some a) None \<longleftrightarrow> False" | "loLe (Some a) (Some b) \<longleftrightarrow> a \<le> b"

fun hiLe :: "'k :: linorder option \<Rightarrow> 'k option \<Rightarrow> bool" where
  "hiLe x None \<longleftrightarrow> True" | "hiLe None (Some b) \<longleftrightarrow> False" | "hiLe (Some a) (Some b) \<longleftrightarrow> a \<le> b"

definition wider :: "'k :: linorder option \<Rightarrow> 'k option \<Rightarrow> 'k option \<Rightarrow> 'k option \<Rightarrow> bool" where
  "wider lo hi lo' hi' \<longleftrightarrow> loLe lo lo' \<and> hiLe hi' hi"

lemma wider_inBounds: "wider lo hi lo' hi' \<Longrightarrow> inBounds lo' hi' k \<Longrightarrow> inBounds lo hi k"
  by (cases lo; cases hi; cases lo'; cases hi') (auto simp: inBounds_def wider_def)

lemma search_wider:
  fixes t :: "('k :: linorder, 'v) btree" and ts :: "('k \<times> ('k, 'v) btree) list"
  shows "search_tree st lo' hi' t \<Longrightarrow> \<not> st \<Longrightarrow> wider lo hi lo' hi' \<Longrightarrow> search_tree st lo hi t"
  "search_list st lo' hi' ts \<Longrightarrow> \<not> st \<Longrightarrow> wider lo hi lo' hi' \<Longrightarrow> search_list st lo hi ts"
proof (induction st lo' hi' t and st lo' hi' ts arbitrary: lo hi and lo hi rule: search_tree_search_list.induct)
  case (4 st lo' hi' a t ts)
  have w: "wider lo (nextSep hi ts) lo' (nextSep hi' ts)"
    using "4.prems"(3) by (cases ts) (simp_all add: wider_def)
  from 4(3) have *: "inBounds lo' (nextSep hi' ts) a" "search_tree st lo' (nextSep hi' ts) t"
    "search_list st (nextSep hi' ts) hi' ts" by simp_all
  have "search_list st (nextSep hi ts) hi ts"
  proof (cases "ts = []")
    case False
    then have "wider (nextSep hi ts) hi (nextSep hi' ts) hi'"
      using "4.prems"(3) by (cases ts) (simp_all add: wider_def)
    then show ?thesis using 4(2) [OF *(3) 4(4)] by blast
  qed simp
  then show ?case using 4(1) [OF *(2) 4(4) w] wider_inBounds [OF w *(1)] 4(4) by simp
qed (auto intro: wider_inBounds)

text \<open>The separators and the keys of a tree lie within its bounds; its items are sorted.\<close>

lemma search_bounds:
  fixes t :: "('k :: linorder, 'v) btree" and ts :: "('k \<times> ('k, 'v) btree) list"
  shows "search_tree st lo hi t \<Longrightarrow> \<forall>x\<in>set (items t). inBounds lo hi (fst x)"
  "search_list st lo hi ts \<Longrightarrow>
     (\<forall>x\<in>set ts. inBounds lo hi (fst x) \<and> (\<forall>y\<in>set (items (snd x)). inBounds lo hi (fst y)))"
proof (induction st lo hi t and st lo hi ts rule: search_tree_search_list.induct)
  case (4 st lo hi a t ts)
  from 4(3) have *: "inBounds lo (nextSep hi ts) a" "search_tree st lo (nextSep hi ts) t"
    "search_list st (nextSep hi ts) hi ts" by simp_all
  have tl: "inBounds lo hi k" if "inBounds (nextSep hi ts) hi k" "ts \<noteq> []" for k
    using that *(1) by (cases ts) (auto simp: inBounds_def)
  have up: "inBounds lo hi k" if "inBounds lo (nextSep hi ts) k" for k
  proof (cases ts)
    case (Cons x xs)
    then have "inBounds (nextSep hi ts) hi (fst x)" using 4(2) [OF *(3)] by simp
    with that Cons show ?thesis by (auto simp: inBounds_def)
  qed (use that in simp)
  have "\<forall>y\<in>set (items t). inBounds lo hi (fst y)" using 4(1) [OF *(2)] up by blast
  moreover have "\<forall>x\<in>set ts. inBounds lo hi (fst x) \<and> (\<forall>y\<in>set (items (snd x)). inBounds lo hi (fst y))"
    using 4(2) [OF *(3)] tl by (metis empty_iff list.set(1))
  ultimately show ?case using up [OF *(1)] by simp
qed auto

lemma search_sorted:
  fixes t :: "('k :: linorder, 'v) btree" and ts :: "('k \<times> ('k, 'v) btree) list"
  shows "search_tree st lo hi t \<Longrightarrow> ssorted (items t) \<and> items t \<noteq> []"
  "search_list st lo hi ts \<Longrightarrow> ssorted ts \<and> ssorted (items (BNode ts)) \<and> (ts \<noteq> [] \<longrightarrow> items (BNode ts) \<noteq> [])"
proof (induction st lo hi t and st lo hi ts rule: search_tree_search_list.induct)
  case (4 st lo hi a t ts)
  from 4(3) have *: "inBounds lo (nextSep hi ts) a" "search_tree st lo (nextSep hi ts) t"
    "search_list st (nextSep hi ts) hi ts" by simp_all
  have "\<forall>x\<in>set ts. a < fst x" "\<forall>x\<in>set (items t). \<forall>y\<in>set (items (BNode ts)). fst x < fst y"
    using search_bounds(2) [OF *(3)] search_bounds(1) [OF *(2)] *(1)
    by (cases ts; fastforce simp: inBounds_def)+
  with 4(1) [OF *(2)] 4(2) [OF *(3)] show ?case by (auto simp: sorted_wrt_append)
qed auto


section \<open>Lookup\<close>

text \<open>The child of a key: the last one whose separator is not above the key, or the first.\<close>

lemma pick_split:
  assumes "ts \<noteq> []" "ssorted ts"
  obtains ls rs where "ts = ls @ pick k ts # rs" "\<forall>b. nextSep None rs = Some b \<longrightarrow> k < b"
    "ls \<noteq> [] \<longrightarrow> fst (pick k ts) \<le> k"
proof -
  have "\<exists>ls rs. ts = ls @ pick k ts # rs \<and> (\<forall>b. nextSep None rs = Some b \<longrightarrow> k < b) \<and> (ls \<noteq> [] \<longrightarrow> fst (pick k ts) \<le> k)"
    using assms
  proof (induction k ts rule: pick.induct)
    case (1 k x)
    then show ?case by (intro exI [of _ "[]"]) simp
  next
    case (2 k x y xs)
    show ?case
    proof (cases "k < fst y")
      case True
      then show ?thesis by (rule_tac x = "[]" in exI, rule_tac x = "y # xs" in exI) simp
    next
      case False
      with 2 obtain ls rs where *: "y # xs = ls @ pick k (y # xs) # rs" "\<forall>b. nextSep None rs = Some b \<longrightarrow> k < b"
        "ls \<noteq> [] \<longrightarrow> fst (pick k (y # xs)) \<le> k" by auto
      have "fst (pick k (y # xs)) \<le> k"
      proof (cases "ls = []")
        case True
        with *(1) have "pick k (y # xs) = y" by (metis append_Nil list.inject)
        with False show ?thesis by simp
      qed (use *(3) in blast)
      with * False show ?thesis by (intro exI [of _ "x # ls"] exI [of _ rs]) simp
    qed
  qed simp
  with that show thesis by blast
qed

lemma pick_bounds:
  assumes "search_list st lo hi (ls @ (a, t) # rs)" "inBounds lo hi k" "\<forall>b. nextSep None rs = Some b \<longrightarrow> k < b"
    "ls \<noteq> [] \<longrightarrow> a \<le> k"
  shows "inBounds (if ls = [] then lo else Some a) (nextSep hi rs) k"
  using assms by (cases rs) (auto simp: inBounds_def)

lemma items_append [simp]: "items (BNode (xs @ ys)) = items (BNode xs) @ items (BNode ys)"
  "items (BNode (x # xs)) = items (snd x) @ items (BNode xs)" "items (BNode []) = []"
  by simp_all

declare items.simps(2) [simp del]

text \<open>What is left and right of a child is below and above its range.\<close>

lemma search_around:
  assumes "search_list st lo hi (ls @ (a, t) # rs)"
  shows "\<forall>x\<in>set (items (BNode ls)). fst x < a" "\<forall>x\<in>set ls. fst x < a"
    "\<forall>x\<in>set (items (BNode rs)). \<forall>k. inBounds lo' (nextSep hi rs) k \<longrightarrow> k < fst x"
    "\<forall>x\<in>set rs. \<forall>k. inBounds lo' (nextSep hi rs) k \<longrightarrow> k < fst x"
    "search_tree st (if ls = [] then lo else Some a) (nextSep hi rs) t"
    "inBounds (if ls = [] then lo else Some a) (nextSep hi rs) a"
proof -
  from assms have *: "search_list st lo (Some a) ls" "search_list st (if ls = [] then lo else Some a) hi ((a, t) # rs)"
    unfolding search_list_append fst_conv by blast+
  then show "search_tree st (if ls = [] then lo else Some a) (nextSep hi rs) t"
    "inBounds (if ls = [] then lo else Some a) (nextSep hi rs) a" by simp_all
  show "\<forall>x\<in>set (items (BNode ls)). fst x < a" "\<forall>x\<in>set ls. fst x < a"
    using search_bounds(2) [OF *(1)] by (fastforce simp: inBounds_def items.simps)+
  from *(2) have r: "search_list st (nextSep hi rs) hi rs" by simp
  show "\<forall>x\<in>set (items (BNode rs)). \<forall>k. inBounds lo' (nextSep hi rs) k \<longrightarrow> k < fst x"
    "\<forall>x\<in>set rs. \<forall>k. inBounds lo' (nextSep hi rs) k \<longrightarrow> k < fst x"
    using search_bounds(2) [OF r] by (cases rs; fastforce simp: inBounds_def items.simps)+
qed

lemma lookupTree_items:
  "search_tree st lo hi t \<Longrightarrow> inBounds lo hi k \<Longrightarrow> lookupTree k t = map_of (items t) k"
proof (induction k t arbitrary: lo hi rule: lookupTree.induct)
  case (3 k x xs)
  let ?ts = "x # xs"
  from 3(2) have s: "search_list st lo hi ?ts" by simp
  obtain ls rs where p: "?ts = ls @ pick k ?ts # rs" "\<forall>b. nextSep None rs = Some b \<longrightarrow> k < b"
      "ls \<noteq> [] \<longrightarrow> fst (pick k ?ts) \<le> k"
    using pick_split [of ?ts k] search_sorted(2) [OF s] by blast
  obtain a t where c: "pick k ?ts = (a, t)" by fastforce
  from s p(1) c have s': "search_list st lo hi (ls @ (a, t) # rs)" by simp
  have k: "inBounds (if ls = [] then lo else Some a) (nextSep hi rs) k"
    using pick_bounds [OF s' 3(3) p(2)] p(3) c by simp
  note ar = search_around [OF s']
  have "\<forall>x\<in>set (items (BNode ls)). fst x \<noteq> k" using ar(1) p(3) c by (cases "ls = []") auto
  moreover have "\<forall>x\<in>set (items (BNode rs)). fst x \<noteq> k" using ar(3) k by blast
  ultimately have "map_of (items (BNode ls)) k = None" "map_of (items (BNode rs)) k = None"
    by (simp_all add: map_of_outside)
  moreover have "items (BNode ?ts) = items (BNode ls) @ items t @ items (BNode rs)"
    using p(1) c by (metis items_append snd_conv)
  moreover have "lookupTree k t = map_of (items t) k" using 3(1) [OF _ k] ar(5) c by simp
  ultimately show ?case using c by (simp add: map_add_def split: option.split)
qed simp_all


section \<open>Insertion\<close>

text \<open>A result of an insertion that fits into the range of the old tree: the new node, and its halves when it
  was split.\<close>

definition fits :: "'k :: linorder option \<Rightarrow> 'k option \<Rightarrow> ('k \<times> 'v) list
   \<Rightarrow> ('k, 'v) btree \<times> ('k \<times> ('k, 'v) btree \<times> 'k \<times> ('k, 'v) btree) option \<Rightarrow> bool" where
  "fits lo hi xs r \<longleftrightarrow> search_tree True lo hi (fst r) \<and> items (fst r) = xs \<and>
     (case snd r of None \<Rightarrow> True
      | Some (lk, l, rk, r') \<Rightarrow> search_tree True lo (Some rk) l \<and> search_tree True (Some rk) hi r' \<and>
          inBounds lo (Some rk) lk \<and> pinned True lo lk \<and> inBounds None hi rk \<and> items l @ items r' = xs)"

lemma search_list_two:
  assumes "search_tree True lo (Some rk) l" "search_tree True (Some rk) (nextSep hi rs) r" "inBounds lo (Some rk) lk"
    "pinned True lo lk" "inBounds None (nextSep hi rs) rk" "search_list True (nextSep hi rs) hi rs"
  shows "search_list True lo hi ((lk, l) # (rk, r) # rs)"
  using assms by (auto simp: inBounds_def)

lemma putChildren_fits:
  assumes s: "search_list True lo hi (ls @ (a, t) # rs)"
    and f: "fits (if ls = [] then lo else Some a) (nextSep hi rs) xs r"
  obtains new where "putChildren a r (ls @ (a, t) # rs) = ls @ new @ rs" "new \<noteq> []"
    "search_list True lo hi (ls @ new @ rs)" "items (BNode new) = xs"
proof -
  let ?lo = "if ls = [] then lo else Some a"
  note ar = search_around [OF s]
  have sorted: "ssorted (ls @ (a, t) # rs)" using search_sorted(2) [OF s] by blast
  from s have l: "search_list True lo (Some a) ls" and r: "search_list True (nextSep hi rs) hi rs"
    and p: "pinned True ?lo a" unfolding search_list_append fst_conv by (simp_all split: if_splits)
  have same: "setKey a (fst r) (ls @ (a, t) # rs) = ls @ (a, fst r) # rs" by (rule setKey_same [OF sorted])
  show thesis
  proof (cases "snd r")
    case None
    then have "search_list True lo hi (ls @ [(a, fst r)] @ rs)"
      using f l r p ar(6) by (cases "ls = []") (simp_all add: search_list_append fits_def)
    with None f that [of "[(a, fst r)]"] same show ?thesis by (simp add: putChildren_def fits_def)
  next
    case (Some sp)
    then obtain lk lt rk rt where sp: "snd r = Some (lk, lt, rk, rt)" by (metis surj_pair)
    with f have two: "search_tree True ?lo (Some rk) lt" "search_tree True (Some rk) (nextSep hi rs) rt"
        "inBounds ?lo (Some rk) lk" "pinned True ?lo lk" "inBounds None (nextSep hi rs) rk" "items lt @ items rt = xs"
      by (simp_all add: fits_def del: pinned_simps)
    have lk: "ls \<noteq> [] \<Longrightarrow> lk = a" "lk < rk" using two(3,4) by (auto simp: inBounds_def)
    have "delKey a (ls @ (a, fst r) # rs) = ls @ rs"
      by (rule delKey_middle [OF sorted])
    moreover have "setKey lk lt (ls @ rs) = ls @ (lk, lt) # rs"
    proof -
      have "\<forall>x\<in>set ls. fst x < lk" using ar(2) lk by (cases "ls = []") auto
      moreover have "inBounds None (nextSep hi rs) lk" using two(5) lk by (cases "nextSep hi rs") (auto simp: inBounds_def)
      then have "\<forall>x\<in>set rs. lk < fst x" using ar(4) by blast
      ultimately show ?thesis using setKey_right [of rs lk lt "[]"] by (simp add: setKey_left)
    qed
    moreover have "setKey rk rt (ls @ (lk, lt) # rs) = ls @ (lk, lt) # (rk, rt) # rs"
    proof -
      have "\<forall>x\<in>set (ls @ [(lk, lt)]). fst x < rk"
        using ar(2) lk by (cases "ls = []") (auto dest: less_trans)
      moreover have "\<forall>x\<in>set rs. rk < fst x" using ar(4) two(5) by blast
      ultimately show ?thesis
        using setKey_right [of rs rk rt "[]"] setKey_left [of "ls @ [(lk, lt)]" rk rt rs] by simp
    qed
    ultimately have put: "putChildren a r (ls @ (a, t) # rs) = ls @ [(lk, lt), (rk, rt)] @ rs"
      by (simp add: putChildren_def sp same)
    have "search_list True ?lo hi ((lk, lt) # (rk, rt) # rs)" by (rule search_list_two [OF two(1-5) r])
    moreover have "ls \<noteq> [] \<Longrightarrow> search_list True lo (Some lk) ls" using l lk by simp
    ultimately have "search_list True lo hi (ls @ [(lk, lt), (rk, rt)] @ rs)"
      using lk by (cases "ls = []") (simp_all add: search_list_append del: search_list.simps)
    with put two(6) that [of "[(lk, lt), (rk, rt)]"] show ?thesis by simp
  qed
qed

lemma halves_leaf:
  assumes "search_tree True lo hi (BLeaf xs)" "1 < length xs"
  shows "fits lo hi xs (BLeaf xs, Some (halves BLeaf xs))"
proof -
  let ?m = "length xs div 2"
  have m: "0 < ?m" "?m < length xs" using assms(2) by auto
  define l r where "l = take ?m xs" and "r = drop ?m xs"
  have xs: "xs = l @ r" "l \<noteq> []" "r \<noteq> []" "hd l = hd xs" "xs ! ?m = hd r"
    using m by (auto simp: l_def r_def hd_drop_conv_nth)
  have *: "ssorted l" "ssorted r" "\<forall>x\<in>set l. fst x < fst (hd r)" "\<forall>x\<in>set r. fst (hd r) \<le> fst x"
  proof -
    have s: "ssorted (l @ r)" using assms(1) xs(1) by simp
    then show "ssorted l" "ssorted r" "\<forall>x\<in>set l. fst x < fst (hd r)" using xs(3) by (auto simp: sorted_wrt_append)
    from s xs(3) show "\<forall>x\<in>set r. fst (hd r) \<le> fst x" by (cases r) (auto simp: sorted_wrt_append less_imp_le)
  qed
  have b: "\<forall>x\<in>set l. inBounds lo hi (fst x)" "\<forall>x\<in>set r. inBounds lo hi (fst x)" "pinned True lo (fst (hd l))"
    using assms(1) xs(4) by (simp_all add: xs(1))
  have "\<forall>x\<in>set l. inBounds lo (Some (fst (hd r))) (fst x)" "\<forall>x\<in>set r. inBounds (Some (fst (hd r))) hi (fst x)"
    using b(1,2) *(3,4) inBounds_narrow by blast+
  moreover from this have "inBounds lo (Some (fst (hd r))) (fst (hd l))" "inBounds (Some (fst (hd r))) hi (fst (hd r))"
    using xs(2,3) by simp_all
  ultimately have "search_tree True lo (Some (fst (hd r))) (BLeaf l)" "search_tree True (Some (fst (hd r))) hi (BLeaf r)"
    "inBounds lo (Some (fst (hd r))) (fst (hd xs))" "inBounds None hi (fst (hd r))"
    using *(1,2) xs(2-4) b(3) by (simp_all add: inBounds_simps(1))
  moreover have "halves BLeaf xs = (fst (hd xs), BLeaf l, fst (hd r), BLeaf r)"
    using xs(5) by (simp add: halves_def Let_def flip: l_def r_def)
  ultimately show ?thesis
    using assms(1) b(3) xs(4) xs(1) [symmetric] by (simp add: fits_def del: search_tree.simps)
qed

text \<open>A node is split at a separator, which becomes the first separator of the right half.\<close>

lemma halves_node:
  assumes "search_tree True lo hi (BNode ts)" "1 < length ts"
  shows "fits lo hi (items (BNode ts)) (BNode ts, Some (halves BNode ts))"
proof -
  let ?m = "length ts div 2"
  have m: "0 < ?m" "?m < length ts" using assms(2) by auto
  define l r x where "l = take ?m ts" and "r = drop (Suc ?m) ts" and "x = ts ! ?m"
  have ts: "ts = l @ x # r" "l \<noteq> []" "hd l = hd ts" "drop ?m ts = x # r"
    using m by (auto simp: l_def r_def x_def id_take_nth_drop Cons_nth_drop_Suc)
  have s: "search_list True lo (Some (fst x)) l" "search_list True (Some (fst x)) hi (x # r)"
    using assms(1) ts(2) unfolding ts(1) search_tree.simps search_list_append by simp_all
  obtain a t l' where l: "l = (a, t) # l'" using ts(2) by (metis list.exhaust surj_pair)
  have "inBounds lo (Some (fst x)) a" "pinned True lo a" "inBounds None hi (fst x)"
    using search_bounds(2) [OF s(1)] s l search_bounds(2) [OF s(2)] by (simp_all add: inBounds_simps(1))
  moreover have "items (BNode l) @ items (BNode (x # r)) = items (BNode ts)" by (simp add: ts(1))
  moreover have "hd ts = (a, t)" using ts(3) l by simp
  ultimately show ?thesis using assms(1) s ts(2,4)
    by (simp add: fits_def halves_def Let_def flip: l_def x_def del: search_list.simps items_append)
qed

lemma splitIf_fits:
  "search_tree True lo hi (BLeaf xs) \<Longrightarrow> 1 < order \<Longrightarrow> fits lo hi xs (splitIf order BLeaf xs)"
  "search_tree True lo hi (BNode ts) \<Longrightarrow> 1 < order \<Longrightarrow> fits lo hi (items (BNode ts)) (splitIf order BNode ts)"
  using halves_leaf [of lo hi xs] halves_node [of lo hi ts]
  by (auto simp: splitIf_def fits_def simp del: search_tree.simps items_append)

lemma setKey_inner:
  assumes "\<forall>x\<in>set xs. fst x < k" "\<forall>x\<in>set zs. k < fst x"
  shows "setKey k v (xs @ ys @ zs) = xs @ setKey k v ys @ zs"
  using assms by (simp add: setKey_left setKey_right)

lemma search_leaf_setKey:
  assumes "search_tree True lo hi (BLeaf xs)" "inBounds lo hi k"
  shows "search_tree True lo hi (BLeaf (setKey k v xs))"
proof -
  have "fst (hd (setKey k v xs)) = (if k < fst (hd xs) then k else fst (hd xs))"
    using assms(1) by (cases xs) (auto)
  moreover have "\<forall>x\<in>set (setKey k v xs). inBounds lo hi (fst x)"
    using assms keys_setKey [of k v xs] by (auto simp del: keys_setKey) (metis (no_types, lifting) fst_conv image_iff insert_iff)
  ultimately show ?thesis using assms ssorted_setKey [of xs k v]
    by (cases lo) (auto simp: inBounds_simps)
qed

theorem ins_fits:
  "search_tree True lo hi t \<Longrightarrow> inBounds lo hi k \<Longrightarrow> 1 < order \<Longrightarrow> fits lo hi (setKey k v (items t)) (ins order k v t)"
proof (induction order k v t arbitrary: lo hi rule: ins.induct)
  case (1 order k v xs)
  then show ?case using splitIf_fits(1) [OF search_leaf_setKey] by simp
next
  case (3 order k v x xs)
  let ?ts = "x # xs"
  from 3(2) have s: "search_list True lo hi ?ts" by simp
  obtain ls rs where p: "?ts = ls @ pick k ?ts # rs" "\<forall>b. nextSep None rs = Some b \<longrightarrow> k < b"
      "ls \<noteq> [] \<longrightarrow> fst (pick k ?ts) \<le> k"
    using pick_split [of ?ts k] search_sorted(2) [OF s] by blast
  obtain a t where c: "pick k ?ts = (a, t)" by fastforce
  from s p(1) c have s': "search_list True lo hi (ls @ (a, t) # rs)" by simp
  have k: "inBounds (if ls = [] then lo else Some a) (nextSep hi rs) k"
    using pick_bounds [OF s' 3(3) p(2)] p(3) c by simp
  note ar = search_around [OF s']
  have "fits (if ls = [] then lo else Some a) (nextSep hi rs) (setKey k v (items t)) (ins order k v t)"
    using 3(1) [OF _ _ k 3(4)] ar(5) c by simp
  from putChildren_fits [OF s' this] obtain new where
    new: "putChildren a (ins order k v t) (ls @ (a, t) # rs) = ls @ new @ rs" "new \<noteq> []"
    "search_list True lo hi (ls @ new @ rs)" "items (BNode new) = setKey k v (items t)" by blast
  have "\<forall>x\<in>set (items (BNode ls)). fst x < k" using ar(1) p(3) c by (cases "ls = []") auto
  moreover have "\<forall>x\<in>set (items (BNode rs)). k < fst x" using ar(3) k by blast
  ultimately have "setKey k v (items (BNode ?ts)) = items (BNode (ls @ new @ rs))"
    using setKey_inner new(4) p(1) c by (metis items_append(1,2) snd_conv)
  moreover have "ins order k v (BNode ?ts) = splitIf order BNode (ls @ new @ rs)"
  proof -
    have "ins order k v (BNode ?ts) = splitIf order BNode (putChildren a (ins order k v t) ?ts)" by (simp add: c)
    moreover have "putChildren a (ins order k v t) ?ts = ls @ new @ rs" using p(1) c new(1) by simp
    ultimately show ?thesis by (simp only:)
  qed
  ultimately show ?case
    using splitIf_fits(2) [of lo hi "ls @ new @ rs" order] new(2,3) 3(4) by simp
qed simp


lemma insertTree_correct:
  assumes "search_tree True lo hi t" "inBounds lo hi k" "1 < order"
  shows "search_tree True lo hi (insertTree order k v t) \<and> items (insertTree order k v t) = setKey k v (items t)"
proof (cases "snd (ins order k v t)")
  case None
  with ins_fits [OF assms] show ?thesis by (simp add: insertTree_def Let_def fits_def)
next
  case (Some sp)
  then obtain lk l rk r where sp: "snd (ins order k v t) = Some (lk, l, rk, r)" by (metis surj_pair)
  with ins_fits [OF assms, of v] have two: "search_tree True lo (Some rk) l" "search_tree True (Some rk) hi r"
      "inBounds lo (Some rk) lk" "pinned True lo lk" "inBounds None hi rk" "items l @ items r = setKey k v (items t)"
    by (simp_all add: fits_def del: pinned_simps)
  have "lk < rk" using two(3) by (simp add: inBounds_def)
  then have "insertTree order k v t = BNode [(lk, l), (rk, r)]" by (auto simp: insertTree_def Let_def sp)
  with two search_list_two [of lo rk l hi "[]" r lk] show ?thesis by (simp del: search_list.simps(2))
qed

section \<open>Deletion\<close>

lemma search_list_remove:
  assumes "search_list False lo hi (ls @ (a, t) # rs)"
  shows "search_list False lo hi (ls @ rs)"
proof (cases rs)
  case Nil
  have "search_list False lo (Some a) ls" using assms by (simp add: search_list_append)
  moreover have "wider lo hi lo (Some a)" using assms search_around(6) [OF assms] Nil
    by (cases lo; cases hi; cases ls) (auto simp: wider_def inBounds_def split: if_splits)
  ultimately show ?thesis using search_wider(2) Nil by fastforce
next
  case (Cons y ys)
  obtain b u where y: "y = (b, u)" by fastforce
  have l: "search_list False lo (Some a) ls" and r: "search_list False (Some b) hi ((b, u) # ys)"
    and ab: "inBounds (if ls = [] then lo else Some a) (Some b) a"
    using assms Cons y by (simp_all add: search_list_append split: if_splits)
  have "search_list False lo (Some b) ls"
    using search_wider(2) [OF l, of lo "Some b"] ab by (cases lo) (auto simp: wider_def inBounds_def)
  moreover have "search_list False (if ls = [] then lo else Some b) hi ((b, u) # ys)"
    using search_wider(2) [OF r, of lo hi] ab r by (cases lo; cases hi) (auto simp: wider_def inBounds_def)
  ultimately show ?thesis using Cons y by (cases "ls = []") (simp_all add: search_list_append del: search_list.simps)
qed

lemma search_list_replace:
  assumes "search_list st lo hi (ls @ (a, t) # rs)"
    "search_tree st (if ls = [] then lo else Some a) (nextSep hi rs) t'"
  shows "search_list st lo hi (ls @ (a, t') # rs)"
  using assms by (cases "ls = []") (simp_all add: search_list_append)

lemma nonEmpty_correct:
  assumes "search_list False lo hi ts"
  shows "case nonEmpty ts of None \<Rightarrow> items (BNode ts) = []
     | Some t' \<Rightarrow> search_tree False lo hi t' \<and> items t' = items (BNode ts)"
proof (cases ts)
  case (Cons x xs)
  with assms show ?thesis by (cases xs; cases x) (auto simp: nonEmpty_def)
qed (simp add: nonEmpty_def)

theorem del_correct:
  "search_tree False lo hi t \<Longrightarrow> inBounds lo hi k \<Longrightarrow> case del k t of
     None \<Rightarrow> delKey k (items t) = []
   | Some t' \<Rightarrow> search_tree False lo hi t' \<and> items t' = delKey k (items t)"
proof (induction k t arbitrary: lo hi rule: del.induct)
  case (1 k xs)
  then show ?case using ssorted_delKey [of xs k] by (auto simp: delKey_def)
next
  case (3 k x xs)
  let ?ts = "x # xs"
  from 3(2) have s: "search_list False lo hi ?ts" by simp
  have sorted: "ssorted ?ts" using search_sorted(2) [OF s] by blast
  obtain ls rs where p: "?ts = ls @ pick k ?ts # rs" "\<forall>b. nextSep None rs = Some b \<longrightarrow> k < b"
      "ls \<noteq> [] \<longrightarrow> fst (pick k ?ts) \<le> k"
    using pick_split [of ?ts k] sorted by blast
  obtain a t where c: "pick k ?ts = (a, t)" by fastforce
  have ts: "?ts = ls @ (a, t) # rs" using p(1) c by simp
  from s ts have s': "search_list False lo hi (ls @ (a, t) # rs)" by simp
  have k: "inBounds (if ls = [] then lo else Some a) (nextSep hi rs) k"
    using pick_bounds [OF s' 3(3) p(2)] p(3) c by simp
  note ar = search_around [OF s']
  have "\<forall>x\<in>set (items (BNode ls)). fst x \<noteq> k" using ar(1) p(3) c by (cases "ls = []") auto
  moreover have "\<forall>x\<in>set (items (BNode rs)). fst x \<noteq> k" using ar(3) k by blast
  ultimately have outer: "delKey k (items (BNode ls)) = items (BNode ls)" "delKey k (items (BNode rs)) = items (BNode rs)"
    by (auto intro!: delKey_id)
  have all: "delKey k (items (BNode ?ts)) = items (BNode ls) @ delKey k (items t) @ items (BNode rs)"
    unfolding ts by (simp add: outer)
  have IH: "case del k t of None \<Rightarrow> delKey k (items t) = []
     | Some t' \<Rightarrow> search_tree False (if ls = [] then lo else Some a) (nextSep hi rs) t' \<and> items t' = delKey k (items t)"
    using 3(1) [OF c [symmetric] _ k] ar(5) c unfolding snd_conv by blast
  show ?case
  proof (cases "del k t")
    case None
    have "delKey a ?ts = ls @ rs" unfolding ts using sorted [unfolded ts] by (rule delKey_middle)
    then have "del k (BNode ?ts) = nonEmpty (ls @ rs)" using None c by simp
    moreover have "delKey k (items (BNode ?ts)) = items (BNode (ls @ rs))" using all IH None by simp
    ultimately show ?thesis using nonEmpty_correct [OF search_list_remove [OF s']] by (simp only:)
  next
    case (Some t')
    have "setKey a t' ?ts = ls @ (a, t') # rs" unfolding ts by (rule setKey_same [OF sorted [unfolded ts]])
    then have "del k (BNode ?ts) = Some (BNode (ls @ (a, t') # rs))" using Some c by simp
    with all IH Some search_list_replace [OF s', of t'] show ?thesis by simp
  qed
qed simp


section \<open>Ranges\<close>

text \<open>The pairs of a leaf and the children of a node that a range covers, as the code finds them; keys are compared
  by their image under \<open>u\<close>.\<close>

fun leafR :: "('k \<Rightarrow> 'u :: linorder) \<Rightarrow> 'u option \<Rightarrow> 'u option \<Rightarrow> ('k \<times> 'v) list \<Rightarrow> ('k \<times> 'v) list" where
  "leafR u start stop [] = []"
| "leafR u start stop (x # xs) =
     (if (case start of None \<Rightarrow> False | Some a \<Rightarrow> u (fst x) < a) then leafR u start stop xs
      else if (case stop of None \<Rightarrow> False | Some b \<Rightarrow> b \<le> u (fst x)) then []
      else x # leafR u start stop xs)"

fun childR :: "('k \<Rightarrow> 'u :: linorder) \<Rightarrow> 'u option \<Rightarrow> 'u option \<Rightarrow> ('k \<times> 'v) list \<Rightarrow> ('k \<times> 'v) list" where
  "childR u start stop [] = []"
| "childR u start stop (x # xs) =
     (if (case (start, map_option u (nextSep None xs)) of (Some a, Some m) \<Rightarrow> m \<le> a | _ \<Rightarrow> False) then childR u start stop xs
      else if (case stop of None \<Rightarrow> False | Some b \<Rightarrow> b \<le> u (fst x)) then []
      else x # childR u start stop xs)"

lemma set_childR: "set (childR u start stop xs) \<subseteq> set xs"
  by (induction xs) auto

function rangeItems :: "('k \<Rightarrow> 'u :: linorder) \<Rightarrow> 'u option \<Rightarrow> 'u option \<Rightarrow> ('k, 'v) btree \<Rightarrow> ('k \<times> 'v) list" where
  "rangeItems u start stop (BLeaf xs) = leafR u start stop xs"
| "rangeItems u start stop (BNode ts) = concat (map (\<lambda>x. rangeItems u start stop (snd x)) (childR u start stop ts))"
  by pat_completeness auto
termination
proof (relation "measure (\<lambda>(u, a, b, t). size t)", goal_cases)
  case (2 u start stop ts x)
  then have "x \<in> set ts" using set_childR by blast
  then have "size_prod (\<lambda>_. 0) size x \<le> size_list (size_prod (\<lambda>_. 0) size) ts"
    by (rule size_list_estimation') simp
  then show ?case by (cases x) simp
qed simp

definition inRange :: "('k \<Rightarrow> 'u :: linorder) \<Rightarrow> 'u option \<Rightarrow> 'u option \<Rightarrow> 'k \<Rightarrow> bool" where
  "inRange u start stop k \<longleftrightarrow> (case start of None \<Rightarrow> True | Some a \<Rightarrow> a \<le> u k) \<and> (case stop of None \<Rightarrow> True | Some b \<Rightarrow> u k < b)"

lemma leafR_filter:
  assumes "strict_mono u"
  shows "ssorted xs \<Longrightarrow> leafR u start stop xs = List.filter (\<lambda>x. inRange u start stop (fst x)) xs"
proof (induction xs)
  case (Cons x xs)
  have "\<not> inRange u start stop (fst y)" if "stop = Some b" "b \<le> u (fst x)" "y \<in> set xs" for y b
    using Cons.prems that strict_monoD [OF assms, of "fst x" "fst y"] by (force simp: inRange_def)
  then have "stop = Some b \<Longrightarrow> b \<le> u (fst x) \<Longrightarrow> List.filter (\<lambda>x. inRange u start stop (fst x)) xs = []" for b
    by (auto simp: filter_empty_conv)
  with Cons show ?case by (auto simp: inRange_def not_less not_le split: option.splits)
qed simp

text \<open>A range without an end is answered by every search tree. One with an end is answered when also the first
  separator of each node is the least key below it; else a child may be left out whose name is not below
  the end.\<close>

theorem rangeItems_filter:
  fixes t :: "('k :: linorder, 'v) btree" and ts :: "('k \<times> ('k, 'v) btree) list" and u :: "'k \<Rightarrow> 'u :: linorder"
  assumes u: "strict_mono u"
  shows "search_tree st lo hi t \<Longrightarrow> stop = None \<or> st \<and> lo \<noteq> None \<Longrightarrow>
      rangeItems u start stop t = List.filter (\<lambda>x. inRange u start stop (fst x)) (items t)"
    "search_list st lo hi ts \<Longrightarrow> stop = None \<or> st \<and> lo \<noteq> None \<Longrightarrow>
      concat (map (\<lambda>x. rangeItems u start stop (snd x)) (childR u start stop ts)) =
      List.filter (\<lambda>x. inRange u start stop (fst x)) (items (BNode ts))"
proof (induction st lo hi t and st lo hi ts rule: search_tree_search_list.induct)
  case (1 st lo hi xs)
  then show ?case by (simp add: leafR_filter [OF u])
next
  case (4 st lo hi a t ts)
  let ?f = "List.filter (\<lambda>x. inRange u start stop (fst x))"
  from 4(3) have *: "inBounds lo (nextSep hi ts) a" "pinned st lo a" "search_tree st lo (nextSep hi ts) t"
    "search_list st (nextSep hi ts) hi ts" by simp_all
  have t: "rangeItems u start stop t = ?f (items t)" using 4(1) [OF *(3) 4(4)] .
  have ts: "concat (map (\<lambda>x. rangeItems u start stop (snd x)) (childR u start stop ts)) = ?f (items (BNode ts))"
    using 4(2) [OF *(4)] 4(4) by (cases ts) auto
  have skip: "?f (items t) = []" if "start = Some s" "nextSep None ts = Some b" "u b \<le> s" for s b
  proof -
    have "nextSep hi ts = Some b" using that(2) by (cases ts) simp_all
    with search_bounds(1) [OF *(3)] have "\<forall>x\<in>set (items t). u (fst x) < u b"
      using u by (auto simp: inBounds_def strict_mono_less)
    with that show ?thesis by (force simp: filter_empty_conv inRange_def)
  qed
  have stopped: "?f (items t @ items (BNode ts)) = []" if "stop = Some b" "b \<le> u a" for b
  proof -
    from that 4(4) *(2) have lo: "lo = Some a" by (auto simp: pinned_def)
    have "\<forall>x\<in>set (items t @ items (BNode ts)). inBounds lo hi (fst x)"
      using search_bounds(1) [of st lo hi "BNode ((a, t) # ts)"] 4(3) by simp
    then have "\<forall>x\<in>set (items t @ items (BNode ts)). u a \<le> u (fst x)"
      using u lo by (auto simp: inBounds_def strict_mono_less_eq)
    with that show ?thesis by (force simp: filter_empty_conv inRange_def)
  qed
  show ?case using t ts skip stopped by (auto split: option.splits)
qed simp_all


section \<open>Children\<close>

lemma search_child: "search_list st lo hi ts \<Longrightarrow> x \<in> set ts \<Longrightarrow> \<exists>lo hi. search_tree st lo hi (snd x)"
proof (induction ts arbitrary: lo)
  case (Cons y ts)
  then show ?case by (cases y) (auto, blast+)
qed simp

lemma setKey_id: "ssorted xs \<Longrightarrow> (k, v) \<in> set xs \<Longrightarrow> setKey k v xs = xs"
  by (metis setKey_same split_list)

end
