(* ===== verification/BTreeRefine.thy ===== *)
theory BTreeRefine
  imports BTree BTreeSpec
begin

text \<open>
  The B-tree code implements the abstract B-tree: its readers. \<open>repr s c t\<close> says that the node \<open>c\<close> in the store \<open>s\<close> is
  the abstract tree \<open>t\<close>; a lookup or a traversal of the code runs to its end and gives what the abstract operation
  gives.

  The proofs rest on the contract \<open>index_reader\<close> of the tree operations, in terms of \<open>nodeAt s c xs\<close>: the directory \<open>c\<close>
  lists the pairs \<open>xs\<close>, in the order of their keys. \<open>runs\<close> is total correctness: the operation ends, either with a
  value for which the postcondition holds, or with an error in a state that is \<open>bad\<close>.
\<close>

section \<open>Keys and names\<close>

lemma escapeKey_Nil [simp]: "escapeKey [] = []"
  by (simp add: escapeKey_def replaceChar_def)

lemma escapeKey_Cons: "escapeKey (c # s) =
    (if c = CHR ''%'' then ''%25'' else if c = CHR ''/'' then ''%2F'' else if c = NUL then ''%00'' else [c]) @ escapeKey s"
  by (simp add: escapeKey_def replaceChar_def NUL_def)

lemma escapeKey_eq_Nil [simp]: "escapeKey s = [] \<longleftrightarrow> s = []"
  by (cases s) (auto simp: escapeKey_Cons)


lemma replaceEsc_plain: "c \<noteq> CHR ''%'' \<Longrightarrow> replaceEsc p r (c # s) = c # replaceEsc p r s"
  by (cases s; cases "tl s") auto

lemma replaceEsc_step:
  "b \<noteq> CHR ''%'' \<Longrightarrow> d \<noteq> CHR ''%'' \<Longrightarrow> replaceEsc p r (CHR ''%'' # b # d # s) =
     (if p b d then r # replaceEsc p r s else CHR ''%'' # b # d # replaceEsc p r s)"
  by (simp add: replaceEsc_plain)

text \<open>The escaped form with the characters outside \<open>A\<close> not escaped: what the three replacements of
  \<open>unescapeKey\<close> leave, one after the other.\<close>

definition escapeOnly :: "char set \<Rightarrow> string \<Rightarrow> string" where
  "escapeOnly A s = concat (map (\<lambda>c.
     if c \<notin> A then [c] else if c = CHR ''%'' then ''%25'' else if c = CHR ''/'' then ''%2F'' else ''%00'') s)"

lemma escapeOnly_simps [simp]:
  "escapeOnly A [] = []"
  "escapeOnly A (c # s) = (if c \<notin> A then [c] else if c = CHR ''%'' then ''%25''
     else if c = CHR ''/'' then ''%2F'' else ''%00'') @ escapeOnly A s"
  by (simp_all add: escapeOnly_def)

lemma unescape_steps:
  "escapeKey s = escapeOnly {CHR ''%'', CHR ''/'', NUL} s"
  "replaceEsc (\<lambda>b c. b = CHR ''2'' \<and> (c = CHR ''F'' \<or> c = CHR ''f'')) (CHR ''/'') (escapeOnly {CHR ''%'', CHR ''/'', NUL} s)
     = escapeOnly {CHR ''%'', NUL} s"
  "replaceEsc (\<lambda>b c. b = CHR ''0'' \<and> c = CHR ''0'') NUL (escapeOnly {CHR ''%'', NUL} s) = escapeOnly {CHR ''%''} s"
  "replaceEsc (\<lambda>b c. b = CHR ''2'' \<and> c = CHR ''5'') (CHR ''%'') (escapeOnly {CHR ''%''} s) = s"
  by (induction s) (simp_all add: escapeKey_Cons replaceEsc_plain replaceEsc_step NUL_def)

lemma unescape_escapeKey [simp]: "unescapeKey (escapeKey k) = k"
  by (simp add: unescapeKey_def unescape_steps)

lemma inj_escapeKey: "inj escapeKey"
  by (metis injI unescape_escapeKey)

lemma strict_mono_codeUnits: "strict_mono codeUnits"
proof (rule strict_monoI)
  fix a b :: string
  assume "a < b"
  then show "codeUnits a < codeUnits b"
  proof (induction a arbitrary: b)
    case Nil
    then show ?case by (cases b) (auto simp: codeUnits_def)
  next
    case (Cons x xs)
    then show ?case by (cases b) (auto simp: codeUnits_def less_char_def)
  qed
qed

section \<open>Sorting by key\<close>

lemma sorted_insortBy:
  assumes "\<And>a b. a \<in> insert x (set ys) \<Longrightarrow> b \<in> insert x (set ys) \<Longrightarrow> le a b \<longleftrightarrow> f a \<le> f b"
  shows "insortBy le x ys = insort_key f x ys"
  using assms by (induction ys) auto

lemma sortBy_sort_key:
  fixes f :: "'a \<Rightarrow> 'k :: linorder"
  assumes "\<And>a b. a \<in> set xs \<Longrightarrow> b \<in> set xs \<Longrightarrow> le a b \<longleftrightarrow> f a \<le> f b"
  shows "sortBy le xs = sort_key f xs"
  using assms
proof (induction xs)
  case (Cons x xs)
  then have "sortBy le xs = sort_key f xs" by simp
  moreover have "insortBy le x (sort_key f xs) = insort_key f x (sort_key f xs)"
    by (rule sorted_insortBy) (use Cons.prems in simp)
  ultimately show ?case by (simp add: sortBy_def)
qed (simp add: sortBy_def)

lemma distinct_map_sort_key [simp]: "distinct (map f (sort_key g xs)) \<longleftrightarrow> distinct (map f xs)"
  by (rule mset_eq_imp_distinct_iff) simp

lemma map_sort_key: "map f (sort_key (g \<circ> f) xs) = sort_key g (map f xs)"
proof -
  have "map f (insort_key (g \<circ> f) x ys) = insort_key g (f x) (map f ys)" for x ys by (induction ys) auto
  then show ?thesis by (induction xs) simp_all
qed

lemma ssorted_unique: "ssorted xs \<Longrightarrow> ssorted ys \<Longrightarrow> set xs = set ys \<Longrightarrow> xs = ys"
  using map_sorted_distinct_set_unique [of fst xs ys]
  by (metis distinct_map inf.idem inj_on_subset strict_sorted_iff sup.idem)

lemma set_setKey: "set (setKey k v xs) = insert (k, v) {x \<in> set xs. fst x \<noteq> k}" if "ssorted xs"
  using that by (induction k v xs rule: setKey.induct) auto

text \<open>The entry of a directory that a pair stands for.\<close>

type_synonym slot = "CID \<times> nat \<times> LinkType"

definition mkSlot :: "string \<times> slot \<Rightarrow> TreeEntry" where
  "mkSlot x = plainEntry (escapeKey (fst x)) (fst (snd x)) (fst (snd (snd x))) (snd (snd (snd x)))"

definition slotOf :: "TreeEntry \<Rightarrow> string \<times> slot" where
  "slotOf e = (unescapeKey (ename e), ecid e, esize e, etype e)"

lemma mkSlot_simps [simp]:
  "ename (mkSlot x) = escapeKey (fst x)" "ecid (mkSlot x) = fst (snd x)" "esize (mkSlot x) = fst (snd (snd x))"
  "etype (mkSlot x) = snd (snd (snd x))" "emeta (mkSlot x) = None" "slotOf (mkSlot x) = x"
  by (simp_all add: mkSlot_def plainEntry_def slotOf_def)

text \<open>The entries are named by keys of \<open>K\<close>, among which \<open>localeCompare\<close> orders as the code units do.\<close>

definition code_order :: "ext \<Rightarrow> string set \<Rightarrow> bool" where
  "code_order E K \<longleftrightarrow> (\<forall>a\<in>K. \<forall>b\<in>K. localeCompare E a b \<le> 0 \<longleftrightarrow> a \<le> b) \<and> [] \<notin> K"

definition named :: "string set \<Rightarrow> TreeEntry list \<Rightarrow> bool" where
  "named K es \<longleftrightarrow> (\<forall>e\<in>set es. emeta e = None \<and> (\<exists>k\<in>K. ename e = escapeKey k)) \<and> distinct (map ename es)"

definition slots :: "TreeEntry list \<Rightarrow> (string \<times> slot) list" where
  "slots es = sort_key fst (map slotOf es)"

lemma named_slotOf: "named K es \<Longrightarrow> e \<in> set es \<Longrightarrow> mkSlot (slotOf e) = e"
  by (fastforce simp: named_def slotOf_def mkSlot_def plainEntry_def)

lemma named_keys: "named K es \<Longrightarrow> fst ` set (map slotOf es) \<subseteq> K"
  by (fastforce simp: named_def slotOf_def)

lemma ssorted_slots: "named K es \<Longrightarrow> ssorted (slots es)"
proof -
  assume n: "named K es"
  have "escapeKey (unescapeKey (ename e)) = ename e" if "e \<in> set es" for e
    using n that by (fastforce simp: named_def)
  moreover have "inj_on ename (set es)" using n by (simp add: named_def distinct_map)
  ultimately have "inj_on (unescapeKey \<circ> ename) (set es)" by (metis (mono_tags, lifting) comp_apply inj_onD inj_onI)
  moreover have "distinct es" using n by (simp add: named_def distinct_map)
  ultimately have "distinct (map fst (map slotOf es))" by (simp add: distinct_map comp_def slotOf_def)
  then show ?thesis by (simp add: slots_def strict_sorted_iff)
qed

lemma bt_sort_slots:
  assumes "named K es" "code_order E K"
  shows "bt_sortEntries E es = map mkSlot (slots es)"
proof -
  have "bt_sortEntries E es = sort_key (fst \<circ> slotOf) es"
    unfolding bt_sortEntries_def
    by (rule sortBy_sort_key) (use assms in \<open>fastforce simp: named_def code_order_def slotOf_def\<close>)
  also have "\<dots> = map mkSlot (map slotOf (sort_key (fst \<circ> slotOf) es))"
    by (rule map_idI [symmetric, unfolded id_def, where f = "mkSlot \<circ> slotOf", folded map_map]) (use named_slotOf [OF assms(1)] in simp)
  also have "map slotOf (sort_key (fst \<circ> slotOf) es) = slots es" by (simp add: slots_def map_sort_key)
  finally show ?thesis .
qed


lemma set_slots: "set (slots es) = slotOf ` set es"
  by (simp add: slots_def)

lemma named_perm: "mset es = mset es' \<Longrightarrow> named K es \<longleftrightarrow> named K es'"
  unfolding named_def by (metis mset_eq_imp_distinct_iff mset_eq_setD mset_map)

lemma slots_perm: "named K es \<Longrightarrow> mset es = mset es' \<Longrightarrow> slots es = slots es'"
  by (metis mset_eq_setD named_perm set_slots ssorted_slots ssorted_unique)

lemma named_set:
  "named K es \<Longrightarrow> k \<in> K \<Longrightarrow> named K (List.filter (\<lambda>e. ename e \<noteq> escapeKey k) es @ [plainEntry (escapeKey k) c sz t])"
  by (auto simp: named_def plainEntry_def distinct_map_filter)

lemma named_remove: "named K es \<Longrightarrow> named K (List.filter (\<lambda>e. ename e \<noteq> escapeKey k) es)"
  by (auto simp: named_def distinct_map_filter)

lemma named_name: "named K es \<Longrightarrow> e \<in> set es \<Longrightarrow> ename e = escapeKey k \<longleftrightarrow> fst (slotOf e) = k"
  by (fastforce simp: named_def slotOf_def)

lemma slots_remove:
  assumes "named K es"
  shows "slots (List.filter (\<lambda>e. ename e \<noteq> escapeKey k) es) = delKey k (slots es)"
proof (rule ssorted_unique)
  show "ssorted (slots (List.filter (\<lambda>e. ename e \<noteq> escapeKey k) es))" by (rule ssorted_slots [OF named_remove [OF assms]])
  show "ssorted (delKey k (slots es))" by (rule ssorted_delKey [OF ssorted_slots [OF assms]])
  show "set (slots (List.filter (\<lambda>e. ename e \<noteq> escapeKey k) es)) = set (delKey k (slots es))"
    using named_name [OF assms] by (auto simp: set_slots delKey_def)
qed

lemma slots_set:
  assumes "named K es" "k \<in> K"
  shows "slots (List.filter (\<lambda>e. ename e \<noteq> escapeKey k) es @ [plainEntry (escapeKey k) c sz t]) = setKey k (c, sz, t) (slots es)"
proof (rule ssorted_unique)
  show "ssorted (slots (List.filter (\<lambda>e. ename e \<noteq> escapeKey k) es @ [plainEntry (escapeKey k) c sz t]))"
    by (rule ssorted_slots [OF named_set [OF assms]])
  show "ssorted (setKey k (c, sz, t) (slots es))" by (rule ssorted_setKey [OF ssorted_slots [OF assms(1)]])
  have "slotOf (plainEntry (escapeKey k) c sz t) = (k, c, sz, t)" by (simp add: slotOf_def plainEntry_def)
  then show "set (slots (List.filter (\<lambda>e. ename e \<noteq> escapeKey k) es @ [plainEntry (escapeKey k) c sz t])) = set (setKey k (c, sz, t) (slots es))"
    using named_name [OF assms(1)] by (auto simp: set_slots set_setKey [OF ssorted_slots [OF assms(1)]])
qed

section \<open>Total correctness\<close>

definition runs :: "('s \<Rightarrow> 's \<Rightarrow> bool) \<Rightarrow> ('s \<Rightarrow> bool) \<Rightarrow> ('s, 'a) op \<Rightarrow> 's \<Rightarrow> ('a \<Rightarrow> 's \<Rightarrow> bool) \<Rightarrow> bool" where
  "runs le bad m s P \<longleftrightarrow> (\<exists>r s'. m s = Some (r, s') \<and> le s s' \<and>
     (case r of Inl e \<Rightarrow> bad s' | Inr x \<Rightarrow> P x s'))"

lemma runs_mono: "runs le bad m s P \<Longrightarrow> (\<And>x s'. le s s' \<Longrightarrow> P x s' \<Longrightarrow> Q x s') \<Longrightarrow> runs le bad m s Q"
  unfolding runs_def by (force split: sum.splits)

lemma runs_ret: "le s s \<Longrightarrow> P x s \<Longrightarrow> runs le bad (retS x) s P"
  by (simp add: runs_def)

lemma runs_bind:
  assumes "runs le bad m s (\<lambda>x s1. runs le bad (f x) s1 P)" "\<And>s1 s2. le s s1 \<Longrightarrow> le s1 s2 \<Longrightarrow> le s s2"
  shows "runs le bad (bindS m f) s P"
proof -
  from assms(1) obtain r s1 where 1: "m s = Some (r, s1)" "le s s1"
    "case r of Inl e \<Rightarrow> bad s1 | Inr x \<Rightarrow> runs le bad (f x) s1 P"
    unfolding runs_def [of le bad m] by blast
  show ?thesis
  proof (cases r)
    case (Inl e)
    with 1 show ?thesis by (auto simp: runs_def bindS_def)
  next
    case (Inr x)
    with 1 obtain r' s2 where "f x s1 = Some (r', s2)" "le s1 s2"
      "case r' of Inl e \<Rightarrow> bad s2 | Inr x \<Rightarrow> P x s2" by (auto simp: runs_def)
    with 1 Inr assms(2) show ?thesis by (auto simp: runs_def bindS_def)
  qed
qed


lemma foldS_Nil: "foldS f [] = retS"
  by (rule ext) (rule foldS.simps(1))

section \<open>What a node of the store stands for\<close>

fun repr :: "('s \<Rightarrow> CID \<Rightarrow> (string \<times> slot) list \<Rightarrow> bool) \<Rightarrow> LinkType \<Rightarrow> 's \<Rightarrow> CID \<Rightarrow> (string, CID \<times> nat) btree \<Rightarrow> bool"
  and reprs :: "('s \<Rightarrow> CID \<Rightarrow> (string \<times> slot) list \<Rightarrow> bool) \<Rightarrow> LinkType \<Rightarrow> 's \<Rightarrow> (string \<times> slot) list
   \<Rightarrow> (string \<times> (string, CID \<times> nat) btree) list \<Rightarrow> bool" where
  "repr N ty s c (BLeaf xs) \<longleftrightarrow> ty \<noteq> Dir \<and> N s c (map (\<lambda>x. (fst x, fst (snd x), snd (snd x), ty)) xs)"
| "repr N ty s c (BNode ts) \<longleftrightarrow> ts \<noteq> [] \<and> (\<exists>ys. N s c ys \<and> reprs N ty s ys ts)"
| "reprs N ty s ys [] \<longleftrightarrow> ys = []"
| "reprs N ty s ys (x # ts) \<longleftrightarrow>
     (\<exists>c n ys'. ys = (fst x, c, n, Dir) # ys' \<and> repr N ty s c (snd x) \<and> reprs N ty s ys' ts)"

lemma reprs_keys: "reprs N ty s ys ts \<Longrightarrow> map fst ys = map fst ts"
  by (induction ts arbitrary: ys) auto

lemma reprs_length: "reprs N ty s ys ts \<Longrightarrow> length ys = length ts"
  by (metis length_map reprs_keys)

lemma reprs_Dir: "reprs N ty s ys ts \<Longrightarrow> y \<in> set ys \<Longrightarrow> snd (snd (snd y)) = Dir"
  by (induction ts arbitrary: ys) auto

lemma reprs_pick:
  "reprs N ty s ys ts \<Longrightarrow> ts \<noteq> [] \<Longrightarrow>
   \<exists>c n. pick k ys = (fst (pick k ts), c, n, Dir) \<and> repr N ty s c (snd (pick k ts))"
proof (induction k ts arbitrary: ys rule: pick.induct)
  case (2 k x y xs)
  then obtain c n c' n' ys' where "ys = (fst x, c, n, Dir) # (fst y, c', n', Dir) # ys'" "repr N ty s c (snd x)"
    "reprs N ty s ((fst y, c', n', Dir) # ys') (y # xs)" by auto
  with 2 show ?case by auto
qed auto

lemma reprs_setKey:
  "reprs N ty s ys ts \<Longrightarrow> repr N ty s c t \<Longrightarrow> reprs N ty s (setKey k (c, n, Dir) ys) (setKey k t ts)"
proof (induction ts arbitrary: ys)
  case (Cons x ts)
  then show ?case by (cases x) auto
qed auto

lemma reprs_delKey: "reprs N ty s ys ts \<Longrightarrow> reprs N ty s (delKey k ys) (delKey k ts)"
  by (induction ts arbitrary: ys) auto

lemma reprs_take: "reprs N ty s ys ts \<Longrightarrow> reprs N ty s (take n ys) (take n ts)"
proof (induction ts arbitrary: ys n)
  case (Cons x ts)
  then show ?case by (cases n) auto
qed auto

lemma reprs_drop: "reprs N ty s ys ts \<Longrightarrow> reprs N ty s (drop n ys) (drop n ts)"
proof (induction ts arbitrary: ys n)
  case (Cons x ts)
  then show ?case by (cases n) auto
qed auto

lemma reprs_sizes: "reprs N ty s ys ts \<Longrightarrow> reprs N ty s (map (\<lambda>y. (fst y, fst (snd y), 0, Dir)) ys) ts"
  by (induction ts arbitrary: ys) auto

lemma repr_mono:
  "repr N ty s c t \<Longrightarrow> (\<forall>c xs. N s c xs \<longrightarrow> N s' c xs) \<Longrightarrow> repr N ty s' c t"
  "reprs N ty s ys ts \<Longrightarrow> (\<forall>c xs. N s c xs \<longrightarrow> N s' c xs) \<Longrightarrow> reprs N ty s' ys ts"
  by (induction N ty s c t and N ty s ys ts rule: repr_reprs.induct) auto

section \<open>The contract of the tree operations that read\<close>

definition slot_ok :: "slot \<Rightarrow> bool" where
  "slot_ok v \<longleftrightarrow> fst (snd v) < 2 ^ 53 \<and> linkType_ok (snd (snd v)) \<and> \<bar>linkTypeNum (snd (snd v))\<bar> < 2 ^ 53"

locale index_reader =
  fixes E :: ext and T :: "'s tree_ops" and K :: "string set"
    and ok :: "'s \<Rightarrow> bool" and le :: "'s \<Rightarrow> 's \<Rightarrow> bool" and nodeAt :: "'s \<Rightarrow> CID \<Rightarrow> (string \<times> slot) list \<Rightarrow> bool"
  assumes order: "ok s \<Longrightarrow> code_order E K"
    and le_refl: "ok s \<Longrightarrow> le s s" and le_trans: "le s s1 \<Longrightarrow> le s1 s2 \<Longrightarrow> le s s2"
    and node_wf: "nodeAt s c xs \<Longrightarrow> ok s \<and> ssorted xs \<and> fst ` set xs \<subseteq> K \<and> (\<forall>x\<in>set xs. slot_ok (snd x))"
    and node_le: "nodeAt s c xs \<Longrightarrow> le s s' \<Longrightarrow> ok s' \<Longrightarrow> nodeAt s' c xs"
    and list_run: "nodeAt s c xs \<Longrightarrow> \<exists>es. t_listDirectory T c s = Some (Inr es, s) \<and> named K es \<and> slots es = xs"
begin

lemma bind_run: "runs le bad m s (\<lambda>x s1. runs le bad (f x) s1 P) \<Longrightarrow> runs le bad (bindS m f) s P"
  by (rule runs_bind) (auto intro: le_trans)

lemma repr_le:
  assumes "le s s'" "ok s'"
  shows "repr nodeAt ty s c t \<Longrightarrow> repr nodeAt ty s' c t" "reprs nodeAt ty s ys ts \<Longrightarrow> reprs nodeAt ty s' ys ts"
proof -
  have le: "\<forall>c xs. nodeAt s c xs \<longrightarrow> nodeAt s' c xs" using node_le assms by blast
  show "repr nodeAt ty s c t \<Longrightarrow> repr nodeAt ty s' c t" "reprs nodeAt ty s ys ts \<Longrightarrow> reprs nodeAt ty s' ys ts"
    by (erule repr_mono, rule le)+
qed

text \<open>Reading a node.\<close>

lemma list_bind:
  assumes "nodeAt s c xs"
    and "\<And>es. named K es \<Longrightarrow> slots es = xs \<Longrightarrow> bt_sortEntries E es = map mkSlot xs \<Longrightarrow> length es = length xs \<Longrightarrow>
      set es = mkSlot ` set xs \<Longrightarrow> runs le bad (f es) s P"
  shows "runs le bad (bindS (t_listDirectory T c) f) s P"
proof -
  obtain es where es: "t_listDirectory T c s = Some (Inr es, s)" "named K es" "slots es = xs"
    using list_run [OF assms(1)] by blast
  have sort: "bt_sortEntries E es = map mkSlot xs" using bt_sort_slots [OF es(2) order] es(3) node_wf [OF assms(1)] by blast
  have "length es = length xs" using es(3) by (auto simp: slots_def)
  moreover have "set es = mkSlot ` set xs"
    using arg_cong [OF sort, of set] by (simp add: bt_sortEntries_def)
  ultimately have "runs le bad (f es) s P" using assms(2) es sort by blast
  then show ?thesis using es(1) by (simp add: runs_def bindS_def)
qed

lemma repr_ok: "repr nodeAt ty s c t \<Longrightarrow> ok s"
  by (cases t) (auto dest: node_wf)

lemma repr_keys:
  "repr nodeAt ty s c t \<Longrightarrow> x \<in> set (items t) \<Longrightarrow> fst x \<in> K"
proof (induction t arbitrary: c)
  case (BLeaf xs)
  then show ?case using node_wf by fastforce
next
  case (BNode ts)
  then obtain y where y: "y \<in> set ts" "x \<in> set (items (snd y))" by (auto simp: items.simps)
  obtain ys where "reprs nodeAt ty s ys ts" using BNode.prems by auto
  with y(1) obtain c' where "repr nodeAt ty s c' (snd y)" by (induction ts arbitrary: ys) auto
  moreover have "snd y \<in> Basic_BNFs.snds y" by (cases y) simp
  ultimately show ?case using BNode.IH y by blast
qed

text \<open>A node represents one tree only.\<close>

lemma node_unique: "nodeAt s c xs \<Longrightarrow> nodeAt s c ys \<Longrightarrow> xs = ys"
  using list_run [of s c xs] list_run [of s c ys] by auto

lemma reprs_unique:
  "(\<And>x c t'. x \<in> set ts \<Longrightarrow> repr nodeAt ty s c (snd x) \<Longrightarrow> repr nodeAt ty s c t' \<Longrightarrow> t' = snd x) \<Longrightarrow>
   reprs nodeAt ty s ys ts \<Longrightarrow> reprs nodeAt ty s ys ts' \<Longrightarrow> ts' = ts"
proof (induction ts arbitrary: ys ts')
  case Nil
  then show ?case by (cases ts') auto
next
  case (Cons x ts)
  from Cons.prems(2) obtain c n ys' where y: "ys = (fst x, c, n, Dir) # ys'" "repr nodeAt ty s c (snd x)" "reprs nodeAt ty s ys' ts" by auto
  from Cons.prems(3) y(1) obtain x' ts2 where t': "ts' = x' # ts2" "fst x' = fst x" "repr nodeAt ty s c (snd x')" "reprs nodeAt ty s ys' ts2"
    by (cases ts') auto
  have "snd x' = snd x" by (rule Cons.prems(1) [OF _ y(2) t'(3)]) simp
  moreover have "ts2 = ts" by (rule Cons.IH [OF _ y(3) t'(4)]) (rule Cons.prems(1), simp_all)
  ultimately show ?case using t'(1,2) by (simp add: prod_eq_iff)
qed

lemma repr_unique: "repr nodeAt ty s c t \<Longrightarrow> repr nodeAt ty s c t' \<Longrightarrow> t' = t"
proof (induction t arbitrary: c t')
  case (BLeaf xs)
  let ?l = "map (\<lambda>x. (fst x, fst (snd x), snd (snd x), ty))"
  from BLeaf have n: "ty \<noteq> Dir" "nodeAt s c (?l xs)" by simp_all
  show ?case
  proof (cases t')
    case (BLeaf xs')
    have "inj (\<lambda>x. (fst x, fst (snd x), snd (snd x), ty))" by (auto simp: inj_def)
    moreover have "?l xs' = ?l xs" using BLeaf \<open>repr nodeAt ty s c t'\<close> node_unique [OF _ n(2)] by simp
    ultimately show ?thesis using BLeaf by (auto dest: injD [OF inj_mapI])
  next
    case (BNode ts)
    with \<open>repr nodeAt ty s c t'\<close> obtain ys where "ts \<noteq> []" "nodeAt s c ys" "reprs nodeAt ty s ys ts" by auto
    with node_unique [OF n(2)] n(1) show ?thesis by (cases ts; cases xs) auto
  qed
next
  case (BNode ts)
  then obtain ys where n: "ts \<noteq> []" "nodeAt s c ys" "reprs nodeAt ty s ys ts" by auto
  show ?case
  proof (cases t')
    case (BLeaf xs)
    with BNode.prems(2) node_unique [OF n(2)] n(1,3) show ?thesis by (cases ts; cases xs) auto
  next
    case (BNode ts')
    with BNode.prems(2) node_unique [OF n(2)] have "reprs nodeAt ty s ys ts'" by auto
    moreover have "t' = snd x" if "x \<in> set ts" "repr nodeAt ty s c (snd x)" "repr nodeAt ty s c t'" for x c t'
      using BNode.IH [OF that(1) _ that(2,3)] by (cases x) simp
    ultimately have "ts' = ts" using reprs_unique n(3) by blast
    with BNode show ?thesis by simp
  qed
qed

text \<open>The slots of a leaf.\<close>

abbreviation leafSlots :: "LinkType \<Rightarrow> (string \<times> CID \<times> nat) list \<Rightarrow> (string \<times> slot) list" where
  "leafSlots ty \<equiv> map (\<lambda>x. (fst x, fst (snd x), snd (snd x), ty))"

lemma childFor_slots: "ys \<noteq> [] \<Longrightarrow> childFor k (map mkSlot ys) = Some (mkSlot (pick k ys))"
  by (induction k ys rule: pick.induct) auto

lemma leaf_is_leaf:
  "set es = mkSlot ` set (leafSlots ty xs) \<Longrightarrow> ty \<noteq> Dir \<Longrightarrow> isLeafNode es"
  by (cases xs) (auto simp: isLeafNode_def list_ex_iff)

lemma node_no_leaf:
  assumes "set es = mkSlot ` set ys" "reprs nodeAt ty s ys ts" "ts \<noteq> []"
  shows "\<not> isLeafNode es" "ys \<noteq> []"
proof -
  show "ys \<noteq> []" using reprs_length [OF assms(2)] assms(3) by auto
  then have "es \<noteq> []" using assms(1) by auto
  with assms(1) reprs_Dir [OF assms(2)] show "\<not> isLeafNode es" by (auto simp: isLeafNode_def list_ex_iff)
qed

text \<open>The child that a key leads to.\<close>

lemma descend_node:
  assumes "repr nodeAt ty s c (BNode (x # xs))"
    and f: "\<And>ys cc n. nodeAt s c ys \<Longrightarrow> reprs nodeAt ty s ys (x # xs) \<Longrightarrow> fst (pick k (x # xs)) \<in> K \<Longrightarrow>
      repr nodeAt ty s cc (snd (pick k (x # xs))) \<Longrightarrow> runs le bad (g (mkSlot (fst (pick k (x # xs)), cc, n, Dir))) s P"
  shows "runs le bad (bindS (t_listDirectory T c) (\<lambda>entries s. if isLeafNode entries then h entries s
     else case findChild E entries k of None \<Rightarrow> throwS TypeError s | Some child \<Rightarrow> g child s)) s P"
proof -
  let ?ts = "x # xs"
  from assms(1) obtain ys where n: "nodeAt s c ys" "reprs nodeAt ty s ys ?ts" by auto
  obtain cc m where p: "pick k ys = (fst (pick k ?ts), cc, m, Dir)" "repr nodeAt ty s cc (snd (pick k ?ts))"
    using reprs_pick [OF n(2)] by blast
  show ?thesis
  proof (rule list_bind [OF n(1)])
    fix es
    assume es: "bt_sortEntries E es = map mkSlot ys" "set es = mkSlot ` set ys"
    note nl = node_no_leaf [OF es(2) n(2) list.discI [OF refl]]
    have "findChild E es k = Some (mkSlot (pick k ys))" using childFor_slots [OF nl(2)] es(1) by (simp add: findChild_def)
    moreover have "fst (pick k ?ts) \<in> K"
      using pick_mem [OF nl(2), of k] p(1) node_wf [OF n(1)] by (metis fst_conv image_subset_iff)
    then have "runs le bad (g (mkSlot (pick k ys))) s P" unfolding p(1) using f n p(2) by blast
    ultimately show "runs le bad (\<lambda>s. if isLeafNode es then h es s
        else case findChild E es k of None \<Rightarrow> throwS TypeError s | Some child \<Rightarrow> g child s) s P"
      using nl(1) by (simp add: runs_def)
  qed
qed

lemma descend_leaf:
  assumes "repr nodeAt ty s c (BLeaf xs)"
    and h: "\<And>es. named K es \<Longrightarrow> slots es = leafSlots ty xs \<Longrightarrow> nodeAt s c (leafSlots ty xs) \<Longrightarrow> runs le bad (h es) s P"
  shows "runs le bad (bindS (t_listDirectory T c) (\<lambda>entries s. if isLeafNode entries then h entries s
     else case findChild E entries k of None \<Rightarrow> throwS TypeError s | Some child \<Rightarrow> g child s)) s P"
proof -
  from assms(1) have n: "nodeAt s c (leafSlots ty xs)" and ty: "ty \<noteq> Dir" by simp_all
  show ?thesis
  proof (rule list_bind [OF n])
    fix es
    assume es: "named K es" "slots es = leafSlots ty xs" "set es = mkSlot ` set (leafSlots ty xs)"
    show "runs le bad (\<lambda>s. if isLeafNode es then h es s
        else case findChild E es k of None \<Rightarrow> throwS TypeError s | Some child \<Rightarrow> g child s) s P"
      using leaf_is_leaf [OF es(3) ty] h [OF es(1,2) n] by (simp add: runs_def)
  qed
qed

text \<open>Lookup.\<close>

lemma find_slots:
  assumes "named K es"
  shows "List.find (\<lambda>e. ename e = escapeKey k) es = map_option (\<lambda>v. mkSlot (k, v)) (map_of (slots es) k)"
proof (cases "map_of (slots es) k")
  case None
  then have "\<forall>e\<in>set es. fst (slotOf e) \<noteq> k" by (auto simp: map_of_eq_None_iff set_slots)
  with None named_name [OF assms] show ?thesis by (auto simp: find_None_iff)
next
  case (Some v)
  then obtain e where e: "e \<in> set es" "slotOf e = (k, v)" using map_of_SomeD by (fastforce simp: set_slots)
  then have m: "mkSlot (k, v) = e" using named_slotOf [OF assms, of e] by simp
  have "List.find (\<lambda>e. ename e = escapeKey k) es \<noteq> None" using e named_name [OF assms e(1)] by (auto simp: find_None_iff)
  then obtain e' where e': "List.find (\<lambda>e. ename e = escapeKey k) es = Some e'" by blast
  then have "e' \<in> set es" "ename e' = escapeKey k" by (auto simp: find_Some_iff)
  moreover have "ename e = escapeKey k" using named_name [OF assms e(1)] e(2) by simp
  ultimately have "e' = e" using assms e(1) unfolding named_def by (metis distinct_map inj_onD)
  with e' m Some show ?thesis by simp
qed

lemma map_of_leafSlots: "map_of (leafSlots ty xs) k = map_option (\<lambda>p. (fst p, snd p, ty)) (map_of xs k)"
  by (induction xs) auto

lemma descend_step: "descend E T found k c = bindS (t_listDirectory T c) (\<lambda>entries s.
    if isLeafNode entries then
      (case List.find (\<lambda>e. ename e = escapeKey k) entries of None \<Rightarrow> retS None | Some entry \<Rightarrow> found entry) s
    else case findChild E entries k of
      None \<Rightarrow> throwS TypeError s
    | Some child \<Rightarrow> descend E T found k (ecid child) s)"
  by (rule ext, subst descend.simps) (rule arg_cong2 [where f = "\<lambda>a b. bindS a b _"], simp, auto simp: fun_eq_iff split: option.split)

theorem descend_run:
  assumes "repr nodeAt ty s c t"
    and "\<And>p. lookupTree k t = Some p \<Longrightarrow> runs le bad (found (mkSlot (k, fst p, snd p, ty))) s P"
    and "lookupTree k t = None \<Longrightarrow> P None s"
  shows "runs le bad (descend E T found k c) s P"
  using assms
proof (induction k t arbitrary: c rule: lookupTree.induct)
  case (1 k xs)
  have "runs le bad (case List.find (\<lambda>e. ename e = escapeKey k) es of None \<Rightarrow> retS None | Some entry \<Rightarrow> found entry) s P"
    if "named K es" "slots es = leafSlots ty xs" "nodeAt s c (leafSlots ty xs)" for es
    using find_slots [OF that(1), of k] that(2) 1(2,3) le_refl node_wf [OF that(3)]
    by (cases "map_of xs k") (auto simp: map_of_leafSlots intro: runs_ret)
  then show ?case unfolding descend_step [of found k c] by (rule descend_leaf [OF 1(1)])
next
  case (3 k x xs)
  show ?case unfolding descend_step [of found k c]
  proof (rule descend_node [OF 3(2), where k = k])
    fix n cc
    assume "repr nodeAt ty s cc (snd (pick k (x # xs)))"
    then show "runs le bad (descend E T found k (ecid (mkSlot (fst (pick k (x # xs)), cc, n, Dir)))) s P"
      using 3(1) 3(3,4) by simp
  qed
qed simp

text \<open>Traversal: the body of the consuming loop runs once for each item of the range, in the order of the keys.\<close>

lemma leafInRange_slots:
  "leafInRange ty start stop (map mkSlot (leafSlots ty xs)) = map mkSlot (leafSlots ty (leafR codeUnits start stop xs))"
  by (induction xs) (auto simp: Let_def)

lemma childrenInRange_slots: "childrenInRange start stop (map mkSlot ys) = map mkSlot (childR codeUnits start stop ys)"
proof (induction ys)
  case (Cons y ys)
  then show ?case by (cases ys) (auto simp: Let_def split: option.splits)
qed simp

lemma reprs_childR: "reprs nodeAt ty s ys ts \<Longrightarrow> reprs nodeAt ty s (childR u start stop ys) (childR u start stop ts)"
proof (induction ts arbitrary: ys)
  case (Cons x ts)
  then obtain c n ys' where y: "ys = (fst x, c, n, Dir) # ys'" "repr nodeAt ty s c (snd x)" "reprs nodeAt ty s ys' ts" by auto
  have "nextSep None ys' = nextSep None ts" using y(3) by (cases ts) auto
  with Cons.IH [OF y(3)] y(2) show ?case unfolding y(1) childR.simps fst_conv by simp
qed simp

lemma foldS_run:
  assumes "\<And>x before acc s. x \<in> set xs \<Longrightarrow> le s0 s \<Longrightarrow> I before acc s \<Longrightarrow> runs le bad (f x acc) s (I (before @ g x))"
    and "\<And>before acc s. I before acc s \<Longrightarrow> ok s"
  shows "le s0 s \<Longrightarrow> I before acc s \<Longrightarrow> runs le bad (foldS f xs acc) s (I (before @ concat (map g xs)))"
  using assms(1)
proof (induction xs arbitrary: before acc s)
  case Nil
  show ?case unfolding foldS.simps by (rule runs_ret) (use Nil le_refl assms(2) in auto)
next
  case (Cons x xs)
  have "runs le bad (f x acc) s (I (before @ g x))" using Cons.prems by simp
  then show ?case unfolding foldS.simps
  proof (intro bind_run, elim runs_mono)
    fix acc' s'
    assume "le s s'" "I (before @ g x) acc' s'"
    then show "runs le bad (foldS f xs acc') s' (I (before @ concat (map g (x # xs))))"
      using Cons.IH [of s' "before @ g x" acc'] Cons.prems le_trans by simp
  qed
qed

lemma visitTree_step: "visitTree E T pl pc visit c acc = bindS (t_listDirectory T c) (\<lambda>entries s.
    if isLeafNode entries then foldS visit (pl (bt_sortEntries E entries)) acc s
    else foldS (\<lambda>child. visitTree E T pl pc visit (ecid child)) (pc (bt_sortEntries E entries)) acc s)"
  by (rule ext) (rule visitTree.simps)

lemma foldS_children:
  assumes "reprs nodeAt ty s0 ys ts" and ok: "\<And>before acc s. I before acc s \<Longrightarrow> ok s"
    and f: "\<And>x c before acc s. x \<in> set ts \<Longrightarrow> repr nodeAt ty s0 c (snd x) \<Longrightarrow> le s0 s \<Longrightarrow> I before acc s \<Longrightarrow>
      runs le bad (f c acc) s (I (before @ g (snd x)))"
  shows "le s0 s \<Longrightarrow> I before acc s \<Longrightarrow>
    runs le bad (foldS (\<lambda>e. f (ecid e)) (map mkSlot ys) acc) s (I (before @ concat (map (\<lambda>x. g (snd x)) ts)))"
  using assms(1) f
proof (induction ts arbitrary: ys before acc s)
  case Nil
  then have "ys = []" by simp
  show ?case unfolding \<open>ys = []\<close> list.map foldS.simps by (rule runs_ret) (use Nil le_refl ok in auto)
next
  case (Cons x ts)
  from Cons.prems(3) obtain c n ys' where y: "ys = (fst x, c, n, Dir) # ys'" "repr nodeAt ty s0 c (snd x)" "reprs nodeAt ty s0 ys' ts"
    by auto
  have run: "runs le bad (f c acc) s (I (before @ g (snd x)))" using Cons.prems(4) [OF _ y(2) Cons.prems(1,2)] by simp
  show ?case unfolding y(1) list.map foldS.simps mkSlot_simps fst_conv snd_conv
  proof (rule bind_run, rule runs_mono [OF run])
    fix acc' s'
    assume "le s s'" "I (before @ g (snd x)) acc' s'"
    then show "runs le bad (foldS (\<lambda>e. f (ecid e)) (map mkSlot ys') acc') s' (I (before @ concat (g (snd x) # map (\<lambda>x. g (snd x)) ts)))"
      using Cons.IH [OF le_trans [OF Cons.prems(1)] _ y(3), of s' "before @ g (snd x)" acc'] Cons.prems(4) by simp
  qed
qed

theorem visitTree_run:
  assumes ok: "\<And>before acc s. I before acc s \<Longrightarrow> ok s"
    and visit: "\<And>x before acc s. le s0 s \<Longrightarrow> I before acc s \<Longrightarrow> x \<in> set (items t) \<Longrightarrow>
      runs le bad (visit (mkSlot (fst x, fst (snd x), snd (snd x), ty)) acc) s (I (before @ [x]))"
  shows "repr nodeAt ty s0 c t \<Longrightarrow> le s0 s \<Longrightarrow> I before acc s \<Longrightarrow>
    runs le bad (visitTree E T (leafInRange ty start stop) (childrenInRange start stop) visit c acc) s
      (I (before @ rangeItems codeUnits start stop t))"
  using visit
proof (induction t arbitrary: c s before acc)
  case (BLeaf xs)
  have ty: "ty \<noteq> Dir" and n0: "nodeAt s0 c (leafSlots ty xs)" using BLeaf.prems(1) by simp_all
  have n: "nodeAt s c (leafSlots ty xs)" by (rule node_le [OF n0 BLeaf.prems(2) ok [OF BLeaf.prems(3)]])
  have sub: "set (leafR codeUnits start stop xs) \<subseteq> set xs" by (induction xs) auto
  show ?case unfolding visitTree_step [of _ _ _ c]
  proof (rule list_bind [OF n])
    fix es
    assume es: "bt_sortEntries E es = map mkSlot (leafSlots ty xs)" "set es = mkSlot ` set (leafSlots ty xs)"
    have "runs le bad (foldS visit (map mkSlot (leafSlots ty (leafR codeUnits start stop xs))) acc) s
        (I (before @ concat (map (\<lambda>e. [(fst (slotOf e), ecid e, esize e)]) (map mkSlot (leafSlots ty (leafR codeUnits start stop xs))))))"
      proof (rule foldS_run [where I = I and g = "\<lambda>e. [(fst (slotOf e), ecid e, esize e)]"])
      fix e before acc s
      assume "e \<in> set (map mkSlot (leafSlots ty (leafR codeUnits start stop xs)))" and s: "le s0 s" "I before acc s"
      then obtain x where x: "x \<in> set xs" "e = mkSlot (fst x, fst (snd x), snd (snd x), ty)" using sub by auto
      show "runs le bad (visit e acc) s (I (before @ [(fst (slotOf e), ecid e, esize e)]))"
        unfolding x(2) using BLeaf.prems(4) [OF s, of x] x(1) by simp
    qed (use ok BLeaf.prems(2,3) in auto)
    then show "runs le bad (\<lambda>s. if isLeafNode es then foldS visit (leafInRange ty start stop (bt_sortEntries E es)) acc s
        else foldS (\<lambda>child. visitTree E T (leafInRange ty start stop) (childrenInRange start stop) visit (ecid child))
          (childrenInRange start stop (bt_sortEntries E es)) acc s) s (I (before @ rangeItems codeUnits start stop (BLeaf xs)))"
      unfolding es(1) leafInRange_slots using leaf_is_leaf [OF es(2) ty] by (simp add: comp_def concat_map_singleton)
  qed
next
  case (BNode ts)
  from BNode.prems(1) obtain ys where n0: "nodeAt s0 c ys" "reprs nodeAt ty s0 ys ts" "ts \<noteq> []" by auto
  have n: "nodeAt s c ys" by (rule node_le [OF n0(1) BNode.prems(2) ok [OF BNode.prems(3)]])
  show ?case unfolding visitTree_step [of _ _ _ c]
  proof (rule list_bind [OF n])
    fix es
    assume es: "bt_sortEntries E es = map mkSlot ys" "set es = mkSlot ` set ys"
    have "runs le bad (foldS (\<lambda>e. visitTree E T (leafInRange ty start stop) (childrenInRange start stop) visit (ecid e))
        (map mkSlot (childR codeUnits start stop ys)) acc) s
        (I (before @ concat (map (\<lambda>x. rangeItems codeUnits start stop (snd x)) (childR codeUnits start stop ts))))"
    proof (rule foldS_children [where I = I, OF reprs_childR [OF n0(2)] ok _ BNode.prems(2,3)])
      fix x c before acc s
      assume x: "x \<in> set (childR codeUnits start stop ts)" and c: "repr nodeAt ty s0 c (snd x)" "le s0 s" "I before acc s"
      have xt: "x \<in> set ts" using x set_childR by blast
      have "snd x \<in> Basic_BNFs.snds x" by (cases x) simp
      then show "runs le bad (visitTree E T (leafInRange ty start stop) (childrenInRange start stop) visit c acc) s
          (I (before @ rangeItems codeUnits start stop (snd x)))"
      proof (rule BNode.IH [OF xt _ c])
        fix y before acc s
        assume "le s0 s" "I before acc s" "y \<in> set (items (snd x))"
        then show "runs le bad (visit (mkSlot (fst y, fst (snd y), snd (snd y), ty)) acc) s (I (before @ [y]))"
          using BNode.prems(4) [of s before acc y] xt by (auto simp: items.simps)
      qed
    qed
    then show "runs le bad (\<lambda>s. if isLeafNode es then foldS visit (leafInRange ty start stop (bt_sortEntries E es)) acc s
        else foldS (\<lambda>child. visitTree E T (leafInRange ty start stop) (childrenInRange start stop) visit (ecid child))
          (childrenInRange start stop (bt_sortEntries E es)) acc s) s (I (before @ rangeItems codeUnits start stop (BNode ts)))"
      using node_no_leaf(1) [OF es(2) n0(2,3)] es(1) by (simp add: childrenInRange_slots)
  qed
qed

end

end
