(* ===== verification/BTreeWrite.thy ===== *)
theory BTreeWrite
  imports BTreeRefine
begin

text \<open>
  The B-tree code implements the abstract B-tree: its writers. The contract \<open>index_store\<close> adds the three operations
  that make a directory to \<open>index_reader\<close>; a state is \<open>bad\<close> when two different blocks with the same hash were offered to
  the store. In any other state an insertion or a deletion gives a node that represents what the abstract
  operation gives.
\<close>

definition repr_result :: "string set \<Rightarrow> ('s \<Rightarrow> CID \<Rightarrow> (string \<times> slot) list \<Rightarrow> bool) \<Rightarrow> LinkType \<Rightarrow> 's \<Rightarrow> CID \<times> SplitResult option
   \<Rightarrow> (string, CID \<times> nat) btree \<times> (string \<times> (string, CID \<times> nat) btree \<times> string \<times> (string, CID \<times> nat) btree) option \<Rightarrow> bool" where
  "repr_result K N ty s r q \<longleftrightarrow> repr N ty s (fst r) (fst q) \<and>
     (case snd q of
        None \<Rightarrow> snd r = None
      | Some (lk, lt, rk, rt) \<Rightarrow> (\<exists>S. snd r = Some S \<and> leftFirstKey S = lk \<and> rightFirstKey S = rk \<and> lk \<in> K \<and> rk \<in> K \<and>
          repr N ty s (sleft S) lt \<and> repr N ty s (sright S) rt))"

section \<open>The contract of the tree operations that write\<close>

locale index_store = index_reader E T K ok le nodeAt for E and T :: "'s tree_ops" and K ok le nodeAt +
  fixes bad :: "'s \<Rightarrow> bool"
  assumes new_run: "ok s \<Longrightarrow> runs le bad (t_putDirectory T []) s (\<lambda>c s'. nodeAt s' c [])"
    and set_run: "nodeAt s c xs \<Longrightarrow> k \<in> K \<Longrightarrow> slot_ok v \<Longrightarrow>
      runs le bad (t_setEntry T c [] (escapeKey k) (fst v) (fst (snd v)) (snd (snd v))) s (\<lambda>c' s'. nodeAt s' c' (setKey k v xs))"
    and remove_run: "nodeAt s c xs \<Longrightarrow> k \<in> K \<Longrightarrow>
      runs le bad (t_removeEntry T c [] (escapeKey k)) s (\<lambda>c' s'. nodeAt s' c' (delKey k xs))"
begin

text \<open>Building and splitting nodes.\<close>

lemma buildDir_run:
  assumes "ok s" "ssorted zs" "fst ` set zs \<subseteq> K" "\<forall>z\<in>set zs. slot_ok (snd z)"
  shows "runs le bad (buildDir T (map mkSlot zs)) s (\<lambda>c s'. nodeAt s' c zs)"
proof -
  have fold: "runs le bad (foldS (\<lambda>e node. t_setEntry T node [] (ename e) (ecid e) (esize e) (etype e)) (map mkSlot zs) c) s
      (\<lambda>c s'. nodeAt s' c (before @ zs))"
    if "nodeAt s c before" "ssorted (before @ zs)" "fst ` set zs \<subseteq> K" "\<forall>z\<in>set zs. slot_ok (snd z)" for s c before zs
    using that
  proof (induction zs arbitrary: s c before)
    case Nil
    show ?case unfolding list.map foldS.simps by (rule runs_ret) (use Nil le_refl node_wf in auto)
  next
    case (Cons z zs)
    have "setKey (fst z) (snd z) before = before @ [z]"
      using Cons.prems(2) by (subst setKey_last) (auto simp: sorted_wrt_append)
    then have "runs le bad (t_setEntry T c [] (escapeKey (fst z)) (fst (snd z)) (fst (snd (snd z))) (snd (snd (snd z)))) s
        (\<lambda>c s'. nodeAt s' c (before @ [z]))"
      using set_run [OF Cons.prems(1), of "fst z" "snd z"] Cons.prems(3,4) by simp
    then have "runs le bad (t_setEntry T c [] (escapeKey (fst z)) (fst (snd z)) (fst (snd (snd z))) (snd (snd (snd z)))) s
        (\<lambda>c s. runs le bad (foldS (\<lambda>e node. t_setEntry T node [] (ename e) (ecid e) (esize e) (etype e)) (map mkSlot zs) c) s
          (\<lambda>c s'. nodeAt s' c (before @ z # zs)))"
      by (rule runs_mono) (use Cons.IH [of _ _ "before @ [z]"] Cons.prems in simp)
    then show ?case by (auto intro: bind_run)
  qed
  show ?thesis unfolding buildDir_def
    by (rule bind_run, rule runs_mono [OF new_run [OF assms(1)]]) (use fold [of _ _ "[]"] assms in simp)
qed

lemma splitNode_run:
  assumes xs: "ok s" "ssorted xs" "fst ` set xs \<subseteq> K" "1 < length xs" and es: "bt_sortEntries E es = map mkSlot xs"
    and copy: "\<And>x. x \<in> set xs \<Longrightarrow> copy (mkSlot x) = mkSlot (fst x, g x) \<and> slot_ok (g x)"
  defines "mid \<equiv> length xs div 2" and "cp \<equiv> map (\<lambda>x. (fst x, g x))"
  shows "runs le bad (splitNode E T copy es) s (\<lambda>S s'. leftFirstKey S = fst (hd xs) \<and> rightFirstKey S = fst (xs ! mid) \<and>
    nodeAt s' (sleft S) (cp (take mid xs)) \<and> nodeAt s' (sright S) (cp (drop mid xs)))"
proof -
  have mid: "0 < mid" "mid < length xs" using xs(4) by (auto simp: mid_def)
  have part: "map copy (map mkSlot zs) = map mkSlot (cp zs)" "ssorted (cp zs)" "fst ` set (cp zs) \<subseteq> K" "\<forall>z\<in>set (cp zs). slot_ok (snd z)"
    if "ssorted zs" "set zs \<subseteq> set xs" for zs
  proof -
    have "\<forall>z\<in>set zs. fst z \<in> K" using that(2) xs(3) by blast
    then show "fst ` set (cp zs) \<subseteq> K" by (auto simp: cp_def)
  qed (use that copy in \<open>auto simp: cp_def comp_def\<close>)
  have sub: "set (take mid xs) \<subseteq> set xs" "set (drop mid xs) \<subseteq> set xs" by (auto dest: in_set_takeD in_set_dropD)
  have "ssorted (take mid xs @ drop mid xs)" using xs(2) by simp
  then have ss: "ssorted (take mid xs)" "ssorted (drop mid xs)" unfolding map_append sorted_wrt_append by blast+
  note build = buildDir_run [OF _ part(2-4) [OF ss(1) sub(1)]] buildDir_run [OF _ part(2-4) [OF ss(2) sub(2)]]
  obtain l ls where l: "take mid xs = l # ls" "hd xs = l" using mid by (cases xs; cases mid) auto
  obtain r rs where r: "drop mid xs = r # rs" "xs ! mid = r" using mid by (metis Cons_nth_drop_Suc)
  have split: "splitNode E T copy es =
      bindS (buildDir T (map mkSlot (cp (take mid xs)))) (\<lambda>left. bindS (buildDir T (map mkSlot (cp (drop mid xs)))) (\<lambda>right.
        retS \<lparr>sleft = left, sright = right, leftFirstKey = fst l, rightFirstKey = fst r\<rparr>))"
    using part(1) [OF ss(1) sub(1)] part(1) [OF ss(2) sub(2)] l r
    by (simp add: splitNode_def es Let_def take_map drop_map flip: mid_def)
  show ?thesis unfolding split
  proof (rule bind_run, rule runs_mono [OF build(1) [OF xs(1)]])
    fix left s1
    assume left: "nodeAt s1 left (cp (take mid xs))"
    show "runs le bad (bindS (buildDir T (map mkSlot (cp (drop mid xs)))) (\<lambda>right.
        retS \<lparr>sleft = left, sright = right, leftFirstKey = fst l, rightFirstKey = fst r\<rparr>)) s1
        (\<lambda>S s'. leftFirstKey S = fst (hd xs) \<and> rightFirstKey S = fst (xs ! mid) \<and>
          nodeAt s' (sleft S) (cp (take mid xs)) \<and> nodeAt s' (sright S) (cp (drop mid xs)))"
    proof (rule bind_run, rule runs_mono [OF build(2)])
      show "ok s1" using node_wf [OF left] by blast
      fix right s2
      assume "le s1 s2" and right: "nodeAt s2 right (cp (drop mid xs))"
      then show "runs le bad (retS \<lparr>sleft = left, sright = right, leftFirstKey = fst l, rightFirstKey = fst r\<rparr>) s2
          (\<lambda>S s'. leftFirstKey S = fst (hd xs) \<and> rightFirstKey S = fst (xs ! mid) \<and>
            nodeAt s' (sleft S) (cp (take mid xs)) \<and> nodeAt s' (sright S) (cp (drop mid xs)))"
        using node_wf [OF right] node_le [OF left] le_refl l r by (auto intro!: runs_ret)
    qed
  qed
qed

lemma splitWhenFull_leaf:
  assumes n: "nodeAt s c (leafSlots ty xs)" and ty: "ty \<noteq> Dir" and order: "1 < ord"
    and copy: "\<And>x. snd (snd (snd x)) = ty \<Longrightarrow> copy (mkSlot x) = mkSlot x"
  shows "runs le bad (splitWhenFull T ord (splitNode E T copy) c) s (\<lambda>r s'. repr_result K nodeAt ty s' r (splitIf ord BLeaf xs))"
  unfolding splitWhenFull_def
proof (rule list_bind [OF n])
  fix es
  assume es: "bt_sortEntries E es = map mkSlot (leafSlots ty xs)" "length es = length (leafSlots ty xs)"
  note wf = node_wf [OF n]
  show "runs le bad (if int (length es) > ord - 1 then bindS (splitNode E T copy es) (\<lambda>sp. retS (c, Some sp)) else retS (c, None)) s
      (\<lambda>r s'. repr_result K nodeAt ty s' r (splitIf ord BLeaf xs))"
  proof (cases "int (length es) > ord - 1")
    case False
    then show ?thesis using n ty es(2) le_refl wf
      by (auto intro!: runs_ret simp: repr_result_def splitIf_def)
  next
    case True
    let ?m = "length xs div 2"
    have len: "1 < length (leafSlots ty xs)" using True order es(2) by simp
    have m: "0 < ?m" "?m < length xs" "xs \<noteq> []" using len by auto
    have "runs le bad (splitNode E T copy es) s (\<lambda>S s'. leftFirstKey S = fst (hd (leafSlots ty xs)) \<and>
        rightFirstKey S = fst (leafSlots ty xs ! (length (leafSlots ty xs) div 2)) \<and>
        nodeAt s' (sleft S) (map (\<lambda>x. (fst x, snd x)) (take (length (leafSlots ty xs) div 2) (leafSlots ty xs))) \<and>
        nodeAt s' (sright S) (map (\<lambda>x. (fst x, snd x)) (drop (length (leafSlots ty xs) div 2) (leafSlots ty xs))))"
      by (rule splitNode_run [OF _ _ _ len es(1)]) (use wf copy in auto)
    then have run: "runs le bad (splitNode E T copy es) s (\<lambda>S s'. leftFirstKey S = fst (hd xs) \<and> rightFirstKey S = fst (xs ! ?m) \<and>
        nodeAt s' (sleft S) (leafSlots ty (take ?m xs)) \<and> nodeAt s' (sright S) (leafSlots ty (drop ?m xs)))"
      using m by (simp add: hd_map take_map drop_map)
    have keys: "fst (hd xs) \<in> K" "fst (xs ! ?m) \<in> K" using wf m by (auto simp: image_image)
    have "runs le bad (bindS (splitNode E T copy es) (\<lambda>sp. retS (c, Some sp))) s
        (\<lambda>r s'. repr_result K nodeAt ty s' r (splitIf ord BLeaf xs))"
    proof (rule bind_run, rule runs_mono [OF run])
      fix S :: SplitResult and s'
      assume le: "le s s'" and S: "leftFirstKey S = fst (hd xs) \<and> rightFirstKey S = fst (xs ! ?m) \<and>
        nodeAt s' (sleft S) (leafSlots ty (take ?m xs)) \<and> nodeAt s' (sright S) (leafSlots ty (drop ?m xs))"
      then have "ok s'" using node_wf by blast
      with le S True es(2) node_le [OF n] ty keys le_refl
      show "runs le bad (retS (c, Some S)) s' (\<lambda>r s'. repr_result K nodeAt ty s' r (splitIf ord BLeaf xs))"
        by (auto intro!: runs_ret simp: repr_result_def splitIf_def halves_def Let_def)
    qed
    with True show ?thesis by simp
  qed
qed

lemma splitWhenFull_node:
  assumes n: "nodeAt s c ys" "reprs nodeAt ty s ys ts" "ts \<noteq> []" and order: "1 < ord"
  shows "runs le bad (splitWhenFull T ord (splitInternal E T) c) s (\<lambda>r s'. repr_result K nodeAt ty s' r (splitIf ord BNode ts))"
  unfolding splitWhenFull_def
proof (rule list_bind [OF n(1)])
  fix es
  assume es: "bt_sortEntries E es = map mkSlot ys" "length es = length ys"
  note wf = node_wf [OF n(1)] and len = reprs_length [OF n(2)]
  have here: "repr nodeAt ty s c (BNode ts)" using n by auto
  show "runs le bad (if int (length es) > ord - 1 then bindS (splitInternal E T es) (\<lambda>sp. retS (c, Some sp)) else retS (c, None)) s
      (\<lambda>r s'. repr_result K nodeAt ty s' r (splitIf ord BNode ts))"
  proof (cases "int (length es) > ord - 1")
    case False
    with here es(2) len le_refl wf show ?thesis
      by (auto intro!: runs_ret simp: repr_result_def splitIf_def simp del: repr.simps)
  next
    case True
    let ?m = "length ts div 2"
    let ?cp = "map (\<lambda>y. (fst y, fst (snd y), 0, Dir))"
    have l1: "1 < length ys" using True order es(2) by simp
    then have m: "0 < ?m" "?m < length ts" using len by auto
    have run: "runs le bad (splitInternal E T es) s (\<lambda>S s'. leftFirstKey S = fst (hd ys) \<and>
        rightFirstKey S = fst (ys ! (length ys div 2)) \<and> nodeAt s' (sleft S) (?cp (take (length ys div 2) ys)) \<and>
        nodeAt s' (sright S) (?cp (drop (length ys div 2) ys)))"
      unfolding splitInternal_def
      by (rule splitNode_run [OF _ _ _ l1 es(1)]) (use wf in \<open>auto simp: mkSlot_def plainEntry_def slot_ok_def linkTypeNum_def\<close>)
    have fst: "fst (hd ys) = fst (hd ts)" "fst (ys ! ?m) = fst (ts ! ?m)"
      using reprs_keys [OF n(2)] m len by (metis hd_map list.size(3) not_less_zero nth_map)+
    have keys: "fst (hd ts) \<in> K" "fst (ts ! ?m) \<in> K"
      using wf m len fst by (metis hd_in_set image_subset_iff list.size(3) not_less_zero nth_mem)+
    have "runs le bad (bindS (splitInternal E T es) (\<lambda>sp. retS (c, Some sp))) s
        (\<lambda>r s'. repr_result K nodeAt ty s' r (splitIf ord BNode ts))"
    proof (rule bind_run, rule runs_mono [OF run])
      fix S :: SplitResult and s'
      assume le: "le s s'" and S: "leftFirstKey S = fst (hd ys) \<and> rightFirstKey S = fst (ys ! (length ys div 2)) \<and>
        nodeAt s' (sleft S) (?cp (take (length ys div 2) ys)) \<and> nodeAt s' (sright S) (?cp (drop (length ys div 2) ys))"
      then have ok: "ok s'" using node_wf by blast
      have "reprs nodeAt ty s' (?cp (take ?m ys)) (take ?m ts)" "reprs nodeAt ty s' (?cp (drop ?m ys)) (drop ?m ts)"
        by (rule reprs_sizes, rule reprs_take reprs_drop, rule repr_le(2) [OF le ok n(2)])+
      then have "repr nodeAt ty s' (sleft S) (BNode (take ?m ts))" "repr nodeAt ty s' (sright S) (BNode (drop ?m ts))"
        using S len m by auto
      moreover have "repr nodeAt ty s' c (BNode ts)" by (rule repr_le(1) [OF le ok here])
      ultimately have "repr_result K nodeAt ty s' (c, Some S) (splitIf ord BNode ts)"
        using S True es(2) len keys fst by (simp add: repr_result_def splitIf_def halves_def Let_def del: repr.simps)
      then show "runs le bad (retS (c, Some S)) s' (\<lambda>r s'. repr_result K nodeAt ty s' r (splitIf ord BNode ts))"
        using le_refl [OF ok] by (rule runs_ret [rotated])
    qed
    with True show ?thesis by simp
  qed
qed

text \<open>A child takes the place of another, or its two halves do.\<close>

lemma dir_slot_ok [simp]: "slot_ok (c, 0, Dir)"
  by (simp add: slot_ok_def linkTypeNum_def)

lemma set_dir_run:
  assumes "nodeAt s c ys" "reprs nodeAt ty s ys ts" "repr nodeAt ty s d t" "k \<in> K"
  shows "runs le bad (t_setEntry T c [] (escapeKey k) d 0 Dir) s
    (\<lambda>c' s'. \<exists>ys'. nodeAt s' c' ys' \<and> reprs nodeAt ty s' ys' (setKey k t ts))"
proof (rule runs_mono [OF set_run [OF assms(1,4) dir_slot_ok [of d], simplified]])
  fix c' s'
  assume "le s s'" "nodeAt s' c' (setKey k (d, 0, Dir) ys)"
  moreover from this have "reprs nodeAt ty s' ys ts" "repr nodeAt ty s' d t"
    using repr_le [of s s'] node_wf assms(2,3) by blast+
  ultimately show "\<exists>ys'. nodeAt s' c' ys' \<and> reprs nodeAt ty s' ys' (setKey k t ts)"
    using reprs_setKey [of nodeAt ty s' ys ts d t k 0] by blast
qed

lemma replaceChildren_run:
  assumes n: "nodeAt s c ys" "reprs nodeAt ty s ys ts" and a: "a \<in> K" and r: "repr_result K nodeAt ty s r q"
  shows "runs le bad (replaceChildren T c (escapeKey a) r) s
    (\<lambda>c' s'. \<exists>ys'. nodeAt s' c' ys' \<and> reprs nodeAt ty s' ys' (putChildren a q ts))"
proof (cases "snd q")
  case None
  with r have r': "snd r = None" "repr nodeAt ty s (fst r) (fst q)" by (simp_all add: repr_result_def)
  show ?thesis unfolding replaceChildren_def
  proof (rule bind_run, rule runs_mono [OF set_dir_run [OF n r'(2) a]])
    fix c' s'
    assume "\<exists>ys'. nodeAt s' c' ys' \<and> reprs nodeAt ty s' ys' (setKey a (fst q) ts)"
    then show "runs le bad (case snd r of None \<Rightarrow> retS c' | Some sp \<Rightarrow> bindS (t_removeEntry T c' [] (escapeKey a)) (\<lambda>newNode.
        bindS (t_setEntry T newNode [] (escapeKey (leftFirstKey sp)) (sleft sp) 0 Dir) (\<lambda>newNode.
        t_setEntry T newNode [] (escapeKey (rightFirstKey sp)) (sright sp) 0 Dir))) s'
        (\<lambda>c' s'. \<exists>ys'. nodeAt s' c' ys' \<and> reprs nodeAt ty s' ys' (putChildren a q ts))"
      using None r' le_refl node_wf by (auto intro!: runs_ret simp: putChildren_def)
  qed
next
  case (Some p)
  then obtain lk lt rk rt where q: "snd q = Some (lk, lt, rk, rt)" by (metis surj_pair)
  with r obtain S where S: "snd r = Some S" "leftFirstKey S = lk" "rightFirstKey S = rk" "lk \<in> K" "rk \<in> K"
      "repr nodeAt ty s (sleft S) lt" "repr nodeAt ty s (sright S) rt" "repr nodeAt ty s (fst r) (fst q)"
    by (auto simp: repr_result_def)
  let ?N = "\<lambda>ts c s. \<exists>ys. nodeAt s c ys \<and> reprs nodeAt ty s ys ts"
  have later: "le s s' \<Longrightarrow> ?N ts' c' s' \<Longrightarrow> repr nodeAt ty s' (sleft S) lt \<and> repr nodeAt ty s' (sright S) rt" for s' c' ts'
    using repr_le(1) S(6,7) node_wf by blast
  have 1: "runs le bad (t_setEntry T c [] (escapeKey a) (fst r) 0 Dir) s (?N (setKey a (fst q) ts))"
    by (rule set_dir_run [OF n S(8) a])
  have 2: "runs le bad (t_removeEntry T c1 [] (escapeKey a)) s1 (?N (delKey a ts1))" if "?N ts1 c1 s1" for ts1 c1 s1
  proof -
    from that obtain ys1 where ys1: "nodeAt s1 c1 ys1" "reprs nodeAt ty s1 ys1 ts1" by blast
    show ?thesis
    proof (rule runs_mono [OF remove_run [OF ys1(1) a]])
      fix c2 s2
      assume le: "le s1 s2" and n2: "nodeAt s2 c2 (delKey a ys1)"
      have "reprs nodeAt ty s2 ys1 ts1" by (rule repr_le(2) [OF le _ ys1(2)]) (use node_wf [OF n2] in blast)
      with n2 show "?N (delKey a ts1) c2 s2" using reprs_delKey [of nodeAt ty s2 ys1 ts1 a] by blast
    qed
  qed
  have 3: "runs le bad (t_setEntry T c1 [] (escapeKey k) d 0 Dir) s1 (?N (setKey k t ts1))"
    if "?N ts1 c1 s1" "repr nodeAt ty s1 d t" "k \<in> K" for ts1 c1 s1 k d t
    using that set_dir_run by blast
  have rest: "runs le bad (bindS (t_removeEntry T c1 [] (escapeKey a)) (\<lambda>newNode.
        bindS (t_setEntry T newNode [] (escapeKey lk) (sleft S) 0 Dir) (\<lambda>newNode.
        t_setEntry T newNode [] (escapeKey rk) (sright S) 0 Dir))) s1
        (?N (setKey rk rt (setKey lk lt (delKey a ts1))))" if le: "le s s1" and N: "?N ts1 c1 s1" for ts1 c1 s1
  proof (rule bind_run, rule runs_mono [OF 2 [OF N]])
    fix c2 s2
    assume le2: "le s1 s2" and N2: "?N (delKey a ts1) c2 s2"
    have l2: "le s s2" using le le2 by (rule le_trans)
    show "runs le bad (bindS (t_setEntry T c2 [] (escapeKey lk) (sleft S) 0 Dir) (\<lambda>newNode.
        t_setEntry T newNode [] (escapeKey rk) (sright S) 0 Dir)) s2 (?N (setKey rk rt (setKey lk lt (delKey a ts1))))"
    proof (rule bind_run, rule runs_mono [OF 3 [OF N2 _ S(4)]])
      show "repr nodeAt ty s2 (sleft S) lt" using later [OF l2 N2] by blast
      fix c3 s3
      assume "le s2 s3" and N3: "?N (setKey lk lt (delKey a ts1)) c3 s3"
      then have "repr nodeAt ty s3 (sright S) rt" using later [OF le_trans [OF l2] N3] by blast
      then show "runs le bad (t_setEntry T c3 [] (escapeKey rk) (sright S) 0 Dir) s3
          (?N (setKey rk rt (setKey lk lt (delKey a ts1))))" by (rule 3 [OF N3 _ S(5)])
    qed
  qed
  show ?thesis unfolding replaceChildren_def
    by (rule bind_run, rule runs_mono [OF 1]) (use rest S(1-3) q in \<open>simp add: putChildren_def\<close>)
qed

text \<open>What an insertion asks of the code for leaves: it stores a value, for which \<open>val\<close> holds from then on, and its
  split copies the entries as they are.\<close>

definition leaf_spec :: "LinkType \<Rightarrow> 's leaf_ops \<Rightarrow> ('s \<Rightarrow> CID \<times> nat \<Rightarrow> bool) \<Rightarrow> bool" where
  "leaf_spec ty L val \<longleftrightarrow>
     (\<forall>s. ok s \<longrightarrow> runs le bad (storeValue L) s (\<lambda>v s'. ok s' \<and> snd (snd v) = ty \<and> slot_ok v \<and> val s' (fst v, fst (snd v)))) \<and>
     (\<forall>s s' p. val s p \<longrightarrow> le s s' \<longrightarrow> ok s' \<longrightarrow> val s' p) \<and>
     (\<exists>copy. leafSplit L = splitNode E T copy \<and> (\<forall>x. snd (snd (snd x)) = ty \<longrightarrow> copy (mkSlot x) = mkSlot x))"

lemma leaf_specD:
  assumes "leaf_spec ty L val"
  shows "ok s \<Longrightarrow> runs le bad (storeValue L) s (\<lambda>v s'. ok s' \<and> snd (snd v) = ty \<and> slot_ok v \<and> val s' (fst v, fst (snd v)))"
    "val s p \<Longrightarrow> le s s' \<Longrightarrow> ok s' \<Longrightarrow> val s' p"
    "\<exists>copy. leafSplit L = splitNode E T copy \<and> (\<forall>x. snd (snd (snd x)) = ty \<longrightarrow> copy (mkSlot x) = mkSlot x)"
  using assms unfolding leaf_spec_def by blast+

lemma setKey_leafSlots: "setKey k (c, n, ty) (leafSlots ty xs) = leafSlots ty (setKey k (c, n) xs)"
  by (induction xs) auto

lemma delKey_leafSlots: "delKey k (leafSlots ty xs) = leafSlots ty (delKey k xs)"
  by (induction xs) auto

text \<open>Storing a value and setting its entry.\<close>

lemma store_set_run:
  assumes "nodeAt s c (leafSlots ty xs)" "k \<in> K" "leaf_spec ty L val"
    and f: "\<And>p c' s'. le s s' \<Longrightarrow> val s' p \<Longrightarrow> nodeAt s' c' (leafSlots ty (setKey k p xs)) \<Longrightarrow> runs le bad (f c') s' P"
  shows "runs le bad (bindS (storeValue L) (\<lambda>v. bindS (t_setEntry T c [] (escapeKey k) (fst v) (fst (snd v)) (snd (snd v))) f)) s P"
proof (rule bind_run, rule runs_mono [OF leaf_specD(1) [OF assms(3)]])
  show "ok s" using node_wf [OF assms(1)] by blast
  fix v s1
  assume le: "le s s1" and v: "ok s1 \<and> snd (snd v) = ty \<and> slot_ok v \<and> val s1 (fst v, fst (snd v))"
  have n: "nodeAt s1 c (leafSlots ty xs)" using node_le [OF assms(1) le] v by blast
  show "runs le bad (bindS (t_setEntry T c [] (escapeKey k) (fst v) (fst (snd v)) (snd (snd v))) f) s1 P"
  proof (rule bind_run, rule runs_mono [OF set_run [OF n assms(2)]])
    show "slot_ok v" using v by blast
    fix c' s'
    assume "le s1 s'" and n': "nodeAt s' c' (setKey k v (leafSlots ty xs))"
    then have "le s s'" "ok s'" using le_trans [OF le] node_wf by blast+
    moreover have "val s' (fst v, fst (snd v))"
      using leaf_specD(2) [OF assms(3)] v \<open>le s1 s'\<close> \<open>ok s'\<close> by blast
    moreover have "setKey k v (leafSlots ty xs) = leafSlots ty (setKey k (fst v, fst (snd v)) xs)"
      using setKey_leafSlots [of k "fst v" "fst (snd v)" ty xs] v by (cases v) simp
    with n' have "nodeAt s' c' (leafSlots ty (setKey k (fst v, fst (snd v)) xs))" by simp
    ultimately show "runs le bad (f c') s' P" using f by blast
  qed
qed

lemma insertRecursive_step: "insertRecursive E T ord L k c = bindS (t_listDirectory T c) (\<lambda>entries s.
    if isLeafNode entries then insertIntoLeaf T ord L c k s
    else case findChild E entries k of
      None \<Rightarrow> throwS TypeError s
    | Some child \<Rightarrow> bindS (insertRecursive E T ord L k (ecid child)) (\<lambda>result.
        bindS (replaceChildren T c (ename child) result) (splitWhenFull T ord (splitInternal E T))) s)"
  by (rule ext) (rule insertRecursive.simps)

theorem insertRecursive_run:
  assumes "k \<in> K" "1 < ord" "leaf_spec ty L val"
  shows "repr nodeAt ty s c t \<Longrightarrow>
    runs le bad (insertRecursive E T ord L k c) s (\<lambda>r s'. \<exists>p. val s' p \<and> repr_result K nodeAt ty s' r (ins ord k p t))"
  using assms(1)
proof (induction k t arbitrary: s c rule: lookupTree.induct)
  case (1 k xs)
  obtain copy where copy: "leafSplit L = splitNode E T copy" "\<And>x. snd (snd (snd x)) = ty \<Longrightarrow> copy (mkSlot x) = mkSlot x"
    using leaf_specD(3) [OF assms(3)] by blast
  have ty: "ty \<noteq> Dir" using 1 by simp
  have "runs le bad (insertIntoLeaf T ord L c k) s (\<lambda>r s'. \<exists>p. val s' p \<and> repr_result K nodeAt ty s' r (ins ord k p (BLeaf xs)))"
    if n: "nodeAt s c (leafSlots ty xs)"
    unfolding insertIntoLeaf_def copy(1)
  proof (rule store_set_run [OF n 1(2) assms(3)])
    fix p c' s'
    assume v: "val s' p" and n': "nodeAt s' c' (leafSlots ty (setKey k p xs))"
    show "runs le bad (splitWhenFull T ord (splitNode E T copy) c') s'
        (\<lambda>r s'. \<exists>p. val s' p \<and> repr_result K nodeAt ty s' r (ins ord k p (BLeaf xs)))"
    proof (rule runs_mono [OF splitWhenFull_leaf [OF n' ty assms(2) copy(2)]])
      fix r s2
      assume "le s' s2" and r: "repr_result K nodeAt ty s2 r (splitIf ord BLeaf (setKey k p xs))"
      moreover have "ok s2" using r repr_ok by (auto simp: repr_result_def simp del: repr.simps)
      ultimately have "val s2 p" using leaf_specD(2) [OF assms(3) v] by blast
      with r show "\<exists>p. val s2 p \<and> repr_result K nodeAt ty s2 r (ins ord k p (BLeaf xs))" by (intro exI [of _ p]) simp
    qed
  qed
  then show ?case unfolding insertRecursive_step [of ord L k c] by (rule descend_leaf [OF 1(1)])
next
  case (3 k x xs)
  let ?ts = "x # xs" and ?c = "pick k (x # xs)"
  show ?case
    unfolding insertRecursive_step [of ord L k c]
  proof (rule descend_node [OF 3(2), where k = k])
    fix ys cc n
    assume n: "nodeAt s c ys" "reprs nodeAt ty s ys ?ts" and a: "fst ?c \<in> K" and child: "repr nodeAt ty s cc (snd ?c)"
    show "runs le bad (bindS (insertRecursive E T ord L k (ecid (mkSlot (fst ?c, cc, n, Dir)))) (\<lambda>result.
           bindS (replaceChildren T c (ename (mkSlot (fst ?c, cc, n, Dir))) result)
             (splitWhenFull T ord (splitInternal E T)))) s
        (\<lambda>r s'. \<exists>p. val s' p \<and> repr_result K nodeAt ty s' r (ins ord k p (BNode ?ts)))" for n
      unfolding mkSlot_simps fst_conv snd_conv
    proof (rule bind_run, rule runs_mono [OF 3(1) [OF child 3(3)]])
      fix r s1
      assume le: "le s s1" and "\<exists>p. val s1 p \<and> repr_result K nodeAt ty s1 r (ins ord k p (snd ?c))"
      then obtain p where p: "val s1 p" "repr_result K nodeAt ty s1 r (ins ord k p (snd ?c))" by blast
      have ok: "ok s1" using p(2) repr_ok by (auto simp: repr_result_def)
      note n1 = node_le [OF n(1) le ok] repr_le(2) [OF le ok n(2)]
      show "runs le bad (bindS (replaceChildren T c (escapeKey (fst ?c)) r) (splitWhenFull T ord (splitInternal E T))) s1
          (\<lambda>r s'. \<exists>p. val s' p \<and> repr_result K nodeAt ty s' r (ins ord k p (BNode ?ts)))"
      proof (rule bind_run, rule runs_mono [OF replaceChildren_run [OF n1 a p(2)]])
        fix c2 s2
        assume le2: "le s1 s2" and "\<exists>ys'. nodeAt s2 c2 ys' \<and> reprs nodeAt ty s2 ys' (putChildren (fst ?c) (ins ord k p (snd ?c)) ?ts)"
        then obtain ys2 where n2: "nodeAt s2 c2 ys2" "reprs nodeAt ty s2 ys2 (putChildren (fst ?c) (ins ord k p (snd ?c)) ?ts)" by blast
        have v2: "val s2 p" using leaf_specD(2) [OF assms(3) p(1) le2] node_wf [OF n2(1)] by blast
        show "runs le bad (splitWhenFull T ord (splitInternal E T) c2) s2
            (\<lambda>r s'. \<exists>p. val s' p \<and> repr_result K nodeAt ty s' r (ins ord k p (BNode ?ts)))"
        proof (rule runs_mono [OF splitWhenFull_node [OF n2 putChildren_not_Nil assms(2)]])
          fix r3 s3
          assume "le s2 s3" and r3: "repr_result K nodeAt ty s3 r3 (splitIf ord BNode (putChildren (fst ?c) (ins ord k p (snd ?c)) ?ts))"
          moreover have "ok s3" using r3 repr_ok by (auto simp: repr_result_def simp del: repr.simps)
          ultimately have "val s3 p" using leaf_specD(2) [OF assms(3) v2] by blast
          with r3 show "\<exists>p. val s3 p \<and> repr_result K nodeAt ty s3 r3 (ins ord k p (BNode ?ts))" by (intro exI [of _ p]) (simp add: Let_def)
        qed
      qed
    qed
  qed
qed simp

lemma growRoot_run:
  assumes r: "repr_result K nodeAt ty s r (ins ord k p t)"
  shows "runs le bad (growRoot T r) s (\<lambda>c s'. repr nodeAt ty s' c (insertTree ord k p t))"
proof (cases "snd (ins ord k p t)")
  case None
  with r have "snd r = None" "repr nodeAt ty s (fst r) (fst (ins ord k p t))" by (simp_all add: repr_result_def)
  with None show ?thesis using le_refl repr_ok
    by (auto intro!: runs_ret simp: growRoot_def insertTree_def Let_def simp del: repr.simps)
next
  case (Some q)
  then obtain lk lt rk rt where q: "snd (ins ord k p t) = Some (lk, lt, rk, rt)" by (metis surj_pair)
  with r obtain S where S: "snd r = Some S" "leftFirstKey S = lk" "rightFirstKey S = rk" "lk \<in> K" "rk \<in> K"
      "repr nodeAt ty s (sleft S) lt" "repr nodeAt ty s (sright S) rt"
    by (auto simp: repr_result_def simp del: repr.simps)
  have ok: "ok s" using repr_ok [OF S(6)] .
  have g: "growRoot T r = bindS (t_putDirectory T []) (\<lambda>newRoot.
       bindS (t_setEntry T newRoot [] (escapeKey lk) (sleft S) 0 Dir) (\<lambda>newRoot.
       t_setEntry T newRoot [] (escapeKey rk) (sright S) 0 Dir))" using S by (simp add: growRoot_def)
  have t: "insertTree ord k p t = BNode (setKey rk rt (setKey lk lt []))" by (simp add: insertTree_def Let_def q)
  show ?thesis unfolding g t
  proof (rule bind_run, rule runs_mono [OF new_run [OF ok]])
    fix c1 s1
    assume le1: "le s s1" and n1: "nodeAt s1 c1 []"
    have ok1: "ok s1" using node_wf [OF n1] by blast
    have l1: "repr nodeAt ty s1 (sleft S) lt" by (rule repr_le(1) [OF le1 ok1 S(6)])
    show "runs le bad (bindS (t_setEntry T c1 [] (escapeKey lk) (sleft S) 0 Dir) (\<lambda>newRoot.
       t_setEntry T newRoot [] (escapeKey rk) (sright S) 0 Dir)) s1
       (\<lambda>c s'. repr nodeAt ty s' c (BNode (setKey rk rt (setKey lk lt []))))"
    proof (rule bind_run, rule runs_mono [OF set_dir_run [OF n1 _ l1 S(4), where ts = "[]"]])
      show "reprs nodeAt ty s1 [] []" by simp
      fix c2 s2
      assume le2: "le s1 s2" and "\<exists>ys'. nodeAt s2 c2 ys' \<and> reprs nodeAt ty s2 ys' (setKey lk lt [])"
      then obtain ys where n2: "nodeAt s2 c2 ys" "reprs nodeAt ty s2 ys (setKey lk lt [])" by blast
      have r2: "repr nodeAt ty s2 (sright S) rt"
        by (rule repr_le(1) [OF le_trans [OF le1 le2] _ S(7)]) (use node_wf [OF n2(1)] in blast)
      show "runs le bad (t_setEntry T c2 [] (escapeKey rk) (sright S) 0 Dir) s2
          (\<lambda>c s'. repr nodeAt ty s' c (BNode (setKey rk rt (setKey lk lt []))))"
        by (rule runs_mono [OF set_dir_run [OF n2 r2 S(5)]]) simp
    qed
  qed
qed

theorem insert_run:
  assumes "repr nodeAt ty s c t" "k \<in> K" "1 < ord" "leaf_spec ty L val"
  shows "runs le bad (bindS (insertRecursive E T ord L k c) (growRoot T)) s
    (\<lambda>c' s'. \<exists>p. val s' p \<and> repr nodeAt ty s' c' (insertTree ord k p t))"
proof (rule bind_run, rule runs_mono [OF insertRecursive_run [OF assms(2-4,1)]])
  fix r s1
  assume "\<exists>p. val s1 p \<and> repr_result K nodeAt ty s1 r (ins ord k p t)"
  then obtain p where p: "val s1 p" "repr_result K nodeAt ty s1 r (ins ord k p t)" by blast
  show "runs le bad (growRoot T r) s1 (\<lambda>c' s'. \<exists>p. val s' p \<and> repr nodeAt ty s' c' (insertTree ord k p t))"
  proof (rule runs_mono [OF growRoot_run [OF p(2)]])
    fix c' s'
    assume "le s1 s'" and r: "repr nodeAt ty s' c' (insertTree ord k p t)"
    then have "val s' p" using leaf_specD(2) [OF assms(4) p(1)] repr_ok by blast
    with r show "\<exists>p. val s' p \<and> repr nodeAt ty s' c' (insertTree ord k p t)" by blast
  qed
qed

lemma createLeaf_run:
  assumes "ok s" "k \<in> K" "leaf_spec ty L val" "ty \<noteq> Dir"
  shows "runs le bad (createLeaf T [(k, L)]) s (\<lambda>c' s'. \<exists>p. val s' p \<and> repr nodeAt ty s' c' (BLeaf [(k, p)]))"
  unfolding createLeaf_def
proof (rule bind_run, rule runs_mono [OF new_run [OF assms(1)]])
  fix c s1
  assume "nodeAt s1 c []"
  then have n: "nodeAt s1 c (leafSlots ty [])" by simp
  have "runs le bad (bindS (storeValue L) (\<lambda>v. bindS (t_setEntry T c [] (escapeKey k) (fst v) (fst (snd v)) (snd (snd v))) retS)) s1
      (\<lambda>c' s'. \<exists>p. val s' p \<and> repr nodeAt ty s' c' (BLeaf [(k, p)]))"
  proof (rule store_set_run [OF n assms(2,3)], rule runs_ret)
    fix p c' s'
    assume v: "val s' p" and n': "nodeAt s' c' (leafSlots ty (setKey k p []))"
    then show "le s' s'" using le_refl node_wf by blast
    show "\<exists>p. val s' p \<and> repr nodeAt ty s' c' (BLeaf [(k, p)])"
      using v n' assms(4) by (intro exI [of _ p]) simp
  qed
  then show "runs le bad (foldS (\<lambda>(key, L) node. bindS (storeValue L) (\<lambda>v.
       t_setEntry T node [] (escapeKey key) (fst v) (fst (snd v)) (snd (snd v)))) [(k, L)] c) s1
      (\<lambda>c' s'. \<exists>p. val s' p \<and> repr nodeAt ty s' c' (BLeaf [(k, p)]))"
    by (simp only: foldS.simps(2) foldS_Nil prod.case bindS_assoc)
qed

text \<open>Deletion.\<close>

lemma deleteNode_step: "deleteNode E T k c = bindS (t_listDirectory T c) (\<lambda>entries s.
    if isLeafNode entries then
      (case List.find (\<lambda>e. ename e = escapeKey k) entries of
         None \<Rightarrow> retS (Some c, True) | Some _ \<Rightarrow> removeKey T c (escapeKey k)) s
    else case findChild E entries k of
      None \<Rightarrow> throwS TypeError s
    | Some child \<Rightarrow> bindS (deleteNode E T k (ecid child)) (keepOrReplace T c (ename child)) s)"
  by (rule ext, subst deleteNode.simps) (rule arg_cong2 [where f = "\<lambda>a b. bindS a b _"], simp, auto simp: fun_eq_iff split: option.split)

definition deleted :: "LinkType \<Rightarrow> CID \<Rightarrow> (string, CID \<times> nat) btree \<Rightarrow> (string, CID \<times> nat) btree option
   \<Rightarrow> CID option \<times> bool \<Rightarrow> 's \<Rightarrow> bool" where
  "deleted ty c t d r s \<longleftrightarrow> ok s \<and> (case fst r of None \<Rightarrow> d = None
     | Some c' \<Rightarrow> \<exists>t'. d = Some t' \<and> repr nodeAt ty s c' t' \<and> (snd r \<longrightarrow> c' = c \<and> t' = t))"

lemma removeKey_run:
  assumes n: "nodeAt s c (leafSlots ty xs)" "k \<in> K" "ty \<noteq> Dir"
  shows "runs le bad (removeKey T c (escapeKey k)) s (deleted ty c t (del k (BLeaf xs)))"
  unfolding removeKey_def
proof (rule bind_run, rule runs_mono [OF remove_run [OF n(1,2)]])
  fix c' s'
  assume "nodeAt s' c' (delKey k (leafSlots ty xs))"
  then have n': "nodeAt s' c' (leafSlots ty (delKey k xs))" by (simp add: delKey_leafSlots)
  note wf = node_wf [OF n']
  show "runs le bad (bindS (t_listDirectory T c') (\<lambda>newEntries. if newEntries = [] then retS (None, False) else retS (Some c', False))) s'
      (deleted ty c t (del k (BLeaf xs)))"
  proof (rule list_bind [OF n'])
    fix es
    assume "length es = length (leafSlots ty (delKey k xs))"
    then have "es = [] \<longleftrightarrow> delKey k xs = []" by auto
    then show "runs le bad (if es = [] then retS (None, False) else retS (Some c', False)) s' (deleted ty c t (del k (BLeaf xs)))"
      using n' n(3) wf le_refl by (auto intro!: runs_ret simp: deleted_def)
  qed
qed

lemma removeChild_run:
  assumes n: "nodeAt s c ys" "reprs nodeAt ty s ys ts" "a \<in> K"
  shows "runs le bad (removeChild T c (escapeKey a)) s (deleted ty c t (nonEmpty (delKey a ts)))"
  unfolding removeChild_def
proof (rule bind_run, rule runs_mono [OF remove_run [OF n(1,3)]])
  fix c' s'
  assume le: "le s s'" and n': "nodeAt s' c' (delKey a ys)"
  note wf = node_wf [OF n']
  have r: "reprs nodeAt ty s' (delKey a ys) (delKey a ts)"
    using reprs_delKey repr_le(2) [OF le _ n(2)] wf by metis
  show "runs le bad (bindS (t_listDirectory T c') (\<lambda>newEntries. if newEntries = [] then retS (None, False)
     else if length newEntries = 1 \<and> etype (newEntries ! 0) = Dir then retS (Some (ecid (newEntries ! 0)), False)
     else retS (Some c', False))) s' (deleted ty c t (nonEmpty (delKey a ts)))"
  proof (rule list_bind [OF n'])
    fix es
    assume es: "length es = length (delKey a ys)" "set es = mkSlot ` set (delKey a ys)"
    have len: "length es = length (delKey a ts)" using es(1) reprs_length [OF r] by simp
    consider "delKey a ts = []" | x where "delKey a ts = [x]" | x y zs where "delKey a ts = x # y # zs"
      by (metis list.exhaust)
    then show "runs le bad (if es = [] then retS (None, False)
        else if length es = 1 \<and> etype (es ! 0) = Dir then retS (Some (ecid (es ! 0)), False)
        else retS (Some c', False)) s' (deleted ty c t (nonEmpty (delKey a ts)))"
    proof cases
      case 1
      then show ?thesis using len wf le_refl by (auto intro!: runs_ret simp: deleted_def nonEmpty_def)
    next
      case (2 x)
      then obtain cc m where y: "delKey a ys = [(fst x, cc, m, Dir)]" "repr nodeAt ty s' cc (snd x)" using r by auto
      then have "es = [mkSlot (fst x, cc, m, Dir)]" using es by (cases es) auto
      then show ?thesis using 2 y wf le_refl
        by (auto intro!: runs_ret simp: deleted_def nonEmpty_def simp del: repr.simps)
    next
      case (3 x y zs)
      have "repr nodeAt ty s' c' (BNode (delKey a ts))" using r n' 3 by auto
      moreover have "es \<noteq> []" "length es \<noteq> 1" using len 3 by auto
      ultimately show ?thesis using 3 wf le_refl
        by (auto intro!: runs_ret simp: deleted_def nonEmpty_def simp del: repr.simps)
    qed
  qed
qed

theorem deleteNode_run:
  "repr nodeAt ty s c t \<Longrightarrow> search_tree False lo hi t \<Longrightarrow> runs le bad (deleteNode E T k c) s (deleted ty c t (del k t))"
proof (induction k t arbitrary: c lo hi rule: lookupTree.induct)
  case (1 k xs)
  have leaf: "runs le bad (case List.find (\<lambda>e. ename e = escapeKey k) es of
      None \<Rightarrow> retS (Some c, True) | Some _ \<Rightarrow> removeKey T c (escapeKey k)) s (deleted ty c (BLeaf xs) (del k (BLeaf xs)))"
    if es: "named K es" "slots es = leafSlots ty xs" "nodeAt s c (leafSlots ty xs)" for es
  proof (cases "map_of xs k")
    case None
    then have f: "List.find (\<lambda>e. ename e = escapeKey k) es = None"
      using find_slots [OF es(1), of k] es(2) by (simp add: map_of_leafSlots)
    have "delKey k xs = xs" using None by (intro delKey_id) (simp add: map_of_eq_None_iff)
    then have "deleted ty c (BLeaf xs) (del k (BLeaf xs)) (Some c, True) s"
      using 1 node_wf [OF es(3)] by (simp add: deleted_def)
    then show ?thesis using f le_refl node_wf [OF es(3)] by (auto intro: runs_ret)
  next
    case (Some p)
    have "k \<in> fst ` set (leafSlots ty xs)" using Some map_of_SomeD by (force simp: image_image)
    then have "k \<in> K" using node_wf [OF es(3)] by blast
    moreover have "List.find (\<lambda>e. ename e = escapeKey k) es \<noteq> None"
      using find_slots [OF es(1), of k] es(2) Some by (simp add: map_of_leafSlots)
    then obtain e where "List.find (\<lambda>e. ename e = escapeKey k) es = Some e" by blast
    moreover have "ty \<noteq> Dir" using 1(1) by simp
    ultimately show ?thesis using removeKey_run [OF es(3)] by (simp del: del.simps)
  qed
  show ?case unfolding deleteNode_step [of k c] by (rule descend_leaf [OF 1(1)]) (rule leaf)
next
  case (3 k x xs)
  let ?ts = "x # xs" and ?c = "pick k (x # xs)"
  from 3(3) have sl: "search_list False lo hi ?ts" by simp
  obtain lo' hi' where sc: "search_tree False lo' hi' (snd ?c)" using search_child [OF sl pick_mem] by blast
  show ?case unfolding deleteNode_step [of k c]
  proof (rule descend_node [OF 3(2), where k = k])
    fix ys cc n
    assume n: "nodeAt s c ys" "reprs nodeAt ty s ys ?ts" and a: "fst ?c \<in> K" and child: "repr nodeAt ty s cc (snd ?c)"
    show "runs le bad (bindS (deleteNode E T k (ecid (mkSlot (fst ?c, cc, n, Dir)))) (keepOrReplace T c (ename (mkSlot (fst ?c, cc, n, Dir))))) s
        (deleted ty c (BNode ?ts) (del k (BNode ?ts)))" for n
      unfolding mkSlot_simps fst_conv snd_conv
    proof (rule bind_run, rule runs_mono [OF 3(1) [OF child sc]])
      fix r s1
      assume le: "le s s1" and d: "deleted ty cc (snd ?c) (del k (snd ?c)) r s1"
      have ok: "ok s1" using d by (simp add: deleted_def)
      note n1 = node_le [OF n(1) le ok] repr_le(2) [OF le ok n(2)]
      obtain nc same where r: "r = (nc, same)" by fastforce
      show "runs le bad (keepOrReplace T c (escapeKey (fst ?c)) r) s1 (deleted ty c (BNode ?ts) (del k (BNode ?ts)))"
      proof (cases nc)
        case None
        then have "del k (BNode ?ts) = nonEmpty (delKey (fst ?c) ?ts)" using d r by (simp add: deleted_def Let_def)
        then show ?thesis using removeChild_run [OF n1 a] r None by (simp add: keepOrReplace_def)
      next
        case (Some c')
        then obtain t' where t': "del k (snd ?c) = Some t'" "repr nodeAt ty s1 c' t'" "same \<longrightarrow> t' = snd ?c"
          using d r by (auto simp: deleted_def)
        have dl: "del k (BNode ?ts) = Some (BNode (setKey (fst ?c) t' ?ts))" using t'(1) by (simp add: Let_def)
        show ?thesis
        proof (cases same)
          case True
          have "setKey (fst ?c) (snd ?c) ?ts = ?ts"
            using search_sorted(2) [OF sl] pick_mem [of ?ts k] by (intro setKey_id) auto
          then have "deleted ty c (BNode ?ts) (del k (BNode ?ts)) (Some c, True) s1"
            using True t'(3) dl ok repr_le(1) [OF le ok 3(2)] by (simp add: deleted_def del: repr.simps)
          with True r Some le_refl [OF ok] show ?thesis by (auto intro: runs_ret simp: keepOrReplace_def)
        next
          case False
          have "runs le bad (bindS (t_setEntry T c [] (escapeKey (fst ?c)) c' 0 Dir) (\<lambda>newRoot. retS (Some newRoot, False))) s1
              (deleted ty c (BNode ?ts) (del k (BNode ?ts)))"
          proof (rule bind_run, rule runs_mono [OF set_dir_run [OF n1 t'(2) a]])
            fix c2 s2
            assume "\<exists>ys'. nodeAt s2 c2 ys' \<and> reprs nodeAt ty s2 ys' (setKey (fst ?c) t' ?ts)"
            then have "repr nodeAt ty s2 c2 (BNode (setKey (fst ?c) t' ?ts))" "ok s2" using node_wf by auto
            then show "runs le bad (retS (Some c2, False)) s2 (deleted ty c (BNode ?ts) (del k (BNode ?ts)))"
              using le_refl dl by (auto intro!: runs_ret simp: deleted_def simp del: repr.simps)
          qed
          with False r Some show ?thesis by (simp add: keepOrReplace_def)
        qed
      qed
    qed
  qed
qed simp

end

end
