(* ===== verification/BTreeStore.thy ===== *)
theory BTreeStore
  imports BTreeWrite
begin

text \<open>
  The index over a \<open>HashTree\<close> over \<open>MemoryStore\<close>. The contract \<open>index_store\<close> is discharged for the encrypted directories,
  and with it the lemmas of \<open>BTreeRefine\<close> hold for them.

  \<open>watched\<close> is the tree with a check after every writing operation: it stops when two different blocks with the
  same hash have been offered to the store. It is a device of the proof. As long as it does not stop, the
  code does the same with the tree itself (\<open>mimics\<close>).
\<close>

type_synonym logState = "memory \<times> bytes list"

abbreviation logConfig :: "nat \<Rightarrow> logState config" where
  "logConfig c \<equiv> \<lparr>cstore = memlog, chunkSize = c\<rparr>"

definition checkS :: "ext \<Rightarrow> (logState, 'a) op \<Rightarrow> (logState, 'a) op" where
  "checkS E m s = (case m s of None \<Rightarrow> None
     | Some (r, s') \<Rightarrow> if no_collision E s' then Some (r, s') else Some (Inl HashCollision, s'))"

definition watched :: "ext \<Rightarrow> nat \<Rightarrow> logState tree_ops" where
  "watched E c = (let T = hashTree E (logConfig c) in T\<lparr>
     t_putDirectory := (\<lambda>es. checkS E (t_putDirectory T es)),
     t_setEntry := (\<lambda>r p n e sz t. checkS E (t_setEntry T r p n e sz t)),
     t_removeEntry := (\<lambda>r p n. checkS E (t_removeEntry T r p n)),
     t_putFile := (\<lambda>d. checkS E (t_putFile T d))\<rparr>)"

section \<open>Encrypted directories in a growing store\<close>

lemma encrypted_dir_at_mono:
  assumes d: "encrypted_dir_at E get h k n" and le: "get \<subseteq>\<^sub>m get'"
  shows "encrypted_dir_at E get' h k n"
proof -
  from d obtain block raw m where r: "get h = Some block" "decryptChk E block k = Inr raw" "tryDecodeTreeNode E raw = Some m"
    by (auto simp: encrypted_dir_at_def getEncryptedDirectoryNode_def liftR_def bindC_eq_ret_iff split: option.splits sum.splits)
  have "get' h = Some block" using le r(1) by (rule map_le_trans_get)
  moreover have "ntype m = Dir \<or> (\<exists>a. assembleEncryptedChunks E get None m 0 = ret a)"
    using d r by (auto simp: encrypted_dir_at_def getEncryptedDirectoryNode_def bindC_eq_ret_iff split: if_splits)
  moreover have "assembleEncryptedChunks E get' None m 0 = ret a" if "assembleEncryptedChunks E get None m 0 = ret a" for a
    using that le by (auto simp: assembleEncryptedChunks_def bindC_eq_ret_iff dest: assembleLinks_mono)
  ultimately show ?thesis using d r by (auto simp: encrypted_dir_at_def getEncryptedDirectoryNode_def)
qed

lemma encrypted_content_mono:
  "encrypted_content E get h k d \<Longrightarrow> get \<subseteq>\<^sub>m get' \<Longrightarrow> encrypted_content E get' h k d"
  by (induction rule: encrypted_content.induct)
     (blast dest: map_le_trans_get tree_content_mono intro: encrypted_content.intros)+

lemma listDirectoryEncrypted_at:
  "encrypted_dir_at E get h k n \<Longrightarrow> listDirectoryEncrypted E get h k = ret (linkEntries (nlinks n))"
  by (simp add: encrypted_dir_at_def listDirectoryEncrypted_def)

section \<open>Nodes\<close>

text \<open>What the properties assume: the laws of the external functions, the order of the keys, a chunk size that
  makes sense, and a state of the store that has been reached without a collision.\<close>

definition index_ok :: "ext \<Rightarrow> string set \<Rightarrow> nat \<Rightarrow> logState \<Rightarrow> bool" where
  "index_ok E K c s \<longleftrightarrow> msgpack_ok E \<and> aes_ok E \<and> digest_len E \<and> code_order E K \<and> 0 < c \<and> c < 2 ^ 53 \<and>
     memlog_inv E s \<and> no_collision E s"

definition dirNode :: "ext \<Rightarrow> string set \<Rightarrow> nat \<Rightarrow> logState \<Rightarrow> CID \<Rightarrow> (string \<times> slot) list \<Rightarrow> bool" where
  "dirNode E K c s d xs \<longleftrightarrow> index_ok E K c s \<and> (\<exists>k n. ckey d = Some k \<and>
     encrypted_dir_at E (store_get memlog s) (chash d) k n \<and> named K (linkEntries (nlinks n)) \<and>
     (\<forall>e\<in>set (linkEntries (nlinks n)). slot_ok (snd (slotOf e))) \<and> slots (linkEntries (nlinks n)) = xs)"

lemma named_ename: "named K es \<Longrightarrow> code_order E K \<Longrightarrow> e \<in> set es \<Longrightarrow> ename e \<noteq> []"
  by (force simp: named_def code_order_def)

lemma named_dir_ok: "named K es \<Longrightarrow> \<forall>e\<in>set es. slot_ok (snd (slotOf e)) \<Longrightarrow> dir_ok es"
  by (auto simp: dir_ok_def entry_ok_def entryLink_def link_ok_def slot_ok_def slotOf_def named_def)

lemma putDir_run:
  assumes "index_ok E K c s" "named K es" "\<forall>e\<in>set es. slot_ok (snd (slotOf e))"
  shows "runs (mem.logs.grows E) (\<lambda>s. \<not> no_collision E s)
    (checkS E (bindS (putDirectoryEncrypted E (logConfig c) es) (\<lambda>r. retS (cid (rhash r) (Some (rkey r)))))) s
    (\<lambda>d s'. dirNode E K c s' d (slots es))"
proof -
  obtain r s' where run: "putDirectoryEncrypted E (logConfig c) es s = Some (Inr r, s')" "mem.logs.grows E s s'"
      and at: "no_collision E s' \<longrightarrow>
        encrypted_dir_at E (store_get memlog s') (rhash r) (rkey r) (canonNode (dirRaw E es))"
    using mem.logs.putDirectoryEncrypted_run [of "logConfig c" E s es] assms named_dir_ok [OF assms(2,3)]
    by (auto simp: index_ok_def simp del: split_paired_Ex)
  have list: "linkEntries (nlinks (canonNode (dirRaw E es))) = sortEntries E es"
    using linkEntries_dirRaw [of es E] named_ename [OF assms(2)] assms(1,2)
    by (auto simp: index_ok_def named_def canonEntry_def intro!: map_idI)
  have "dirNode E K c s' (cid (rhash r) (Some (rkey r))) (slots es)" if nc: "no_collision E s'"
  proof -
    have "mset (sortEntries E es) = mset es" by (simp add: sortEntries_def)
    then have "named K (sortEntries E es)" "slots (sortEntries E es) = slots es"
      using assms(2) named_perm slots_perm by metis+
    moreover have "index_ok E K c s'" using assms(1) nc mem.logs.grows_sinv [OF run(2)] by (simp add: index_ok_def)
    ultimately show ?thesis using at nc list assms(3) by (auto simp: dirNode_def cid_def)
  qed
  with run show ?thesis by (auto simp: runs_def checkS_def bindS_def simp del: split_paired_Ex)
qed

text \<open>The operations at the root of a tree are one reading and one writing of the directory.\<close>

lemma setEntry_root:
  assumes "ckey d = Some k" "encrypted_dir_at E (store_get memlog s) (chash d) k n"
  shows "ht_setEntry E (logConfig c) d [] name v sz t None s =
    bindS (putDirectoryEncrypted E (logConfig c) (List.filter (\<lambda>e. ename e \<noteq> name) (linkEntries (nlinks n)) @ [plainEntry name v sz t]))
      (\<lambda>r. retS (cid (rhash r) (Some (rkey r)))) s"
  using assms listDirectoryEncrypted_at [OF assms(2)]
  by (auto simp: ht_setEntry_def setEntryEncrypted_def resolvePathAndCollectKeys_def rebuildPathEncrypted_def readS_def
      bindS_def plainEntry_def split: option.splits sum.splits)

lemma removeEntry_root:
  assumes "ckey d = Some k" "encrypted_dir_at E (store_get memlog s) (chash d) k n"
  shows "ht_removeEntry E (logConfig c) d [] name s =
    bindS (putDirectoryEncrypted E (logConfig c) (List.filter (\<lambda>e. ename e \<noteq> name) (linkEntries (nlinks n))))
      (\<lambda>r. retS (cid (rhash r) (Some (rkey r)))) s"
  using assms listDirectoryEncrypted_at [OF assms(2)]
  by (auto simp: ht_removeEntry_def removeEntryEncrypted_def resolvePathAndCollectKeys_def rebuildPathEncrypted_def readS_def
      bindS_def split: option.splits sum.splits)

text \<open>The tree itself is a reader, and so is the watched tree, which has the same reading operations.\<close>

interpretation plain: index_reader E "hashTree E (logConfig c)" K "index_ok E K c" "mem.logs.grows E" "dirNode E K c"
  for E c K
proof (unfold_locales, goal_cases)
  case (1 s)
  then show ?case by (simp add: index_ok_def)
next
  case (2 s)
  then show ?case by (simp add: index_ok_def mem.logs.grows_refl)
next
  case (3 s s1 s2)
  then show ?case by (rule mem.logs.grows_trans)
next
  case (4 s d xs)
  then obtain n :: TreeNode where n: "index_ok E K c s" "named K (linkEntries (nlinks n))"
      "\<forall>e\<in>set (linkEntries (nlinks n)). slot_ok (snd (slotOf e))" "slots (linkEntries (nlinks n)) = xs"
    unfolding dirNode_def by blast
  have "set xs = slotOf ` set (linkEntries (nlinks n))" using n(4) set_slots by metis
  with n named_keys [OF n(2)] ssorted_slots [OF n(2)] show ?case by simp
next
  case (5 s d xs s')
  then have le: "store_get memlog s \<subseteq>\<^sub>m store_get memlog s'" by (intro mem.logs.grows_map_le)
  from 5(1,3) show ?case unfolding dirNode_def using encrypted_dir_at_mono [OF _ le] by blast
next
  case (6 s d xs)
  then show ?case
    by (auto simp: dirNode_def hashTree_def readS_def ht_listDirectory_def listDirectoryEncrypted_at)
qed

interpretation idx: index_store E "watched E c" K "index_ok E K c" "mem.logs.grows E" "dirNode E K c" "\<lambda>s. \<not> no_collision E s"
  for E c K
proof (unfold_locales, goal_cases)
  case (6 s d xs)
  then show ?case using plain.list_run [of E K c s d xs] by (simp add: watched_def Let_def)
next
  case (7 s)
  have "named K []" by (simp add: named_def)
  from putDir_run [OF 7 this] have "runs (mem.logs.grows E) (\<lambda>s. \<not> no_collision E s)
      (checkS E (bindS (putDirectoryEncrypted E (logConfig c) []) (\<lambda>r. retS (cid (rhash r) (Some (rkey r)))))) s
      (\<lambda>d s'. dirNode E K c s' d [])" by (simp only: slots_def) simp
  moreover have "t_putDirectory (watched E c) [] =
      checkS E (bindS (putDirectoryEncrypted E (logConfig c) []) (\<lambda>r. retS (cid (rhash r) (Some (rkey r)))))"
    by (simp add: watched_def Let_def hashTree_def ht_putDirectory_def bindS_assoc)
       (intro arg_cong [where f = "checkS E"] arg_cong [where f = "bindS _"] ext, simp)
  ultimately show ?case by (simp only:)
next
  case (8 s d xs k v)
  then obtain key n where n: "index_ok E K c s" "ckey d = Some key" "encrypted_dir_at E (store_get memlog s) (chash d) key n"
      "named K (linkEntries (nlinks n))" "\<forall>e\<in>set (linkEntries (nlinks n)). slot_ok (snd (slotOf e))" "slots (linkEntries (nlinks n)) = xs"
    unfolding dirNode_def by blast
  let ?es = "List.filter (\<lambda>e. ename e \<noteq> escapeKey k) (linkEntries (nlinks n)) @ [plainEntry (escapeKey k) (fst v) (fst (snd v)) (snd (snd v))]"
  have "\<forall>e\<in>set ?es. slot_ok (snd (slotOf e))" using n(5) 8(3) by (auto simp: slotOf_def plainEntry_def)
  from putDir_run [OF n(1) named_set [OF n(4) 8(2)] this] show ?case
    using setEntry_root [OF n(2,3), of c "escapeKey k" "fst v" "fst (snd v)" "snd (snd v)"] slots_set [OF n(4) 8(2)] n(6)
    by (simp add: watched_def Let_def hashTree_def runs_def checkS_def)
next
  case (9 s d xs k)
  then obtain key n where n: "index_ok E K c s" "ckey d = Some key" "encrypted_dir_at E (store_get memlog s) (chash d) key n"
      "named K (linkEntries (nlinks n))" "\<forall>e\<in>set (linkEntries (nlinks n)). slot_ok (snd (slotOf e))" "slots (linkEntries (nlinks n)) = xs"
    unfolding dirNode_def by blast
  have "\<forall>e\<in>set (List.filter (\<lambda>e. ename e \<noteq> escapeKey k) (linkEntries (nlinks n))). slot_ok (snd (slotOf e))" using n(5) by simp
  from putDir_run [OF n(1) named_remove [OF n(4)] this] show ?case
    using removeEntry_root [OF n(2,3), of c "escapeKey k"] slots_remove [OF n(4)] n(6)
    by (simp add: watched_def Let_def hashTree_def runs_def checkS_def)
qed (rule plain.order plain.le_refl plain.le_trans plain.node_wf plain.node_le; assumption)+

section \<open>Without the watch\<close>

definition mimics :: "('s, 'a) op \<Rightarrow> ('s, 'a) op \<Rightarrow> bool" where
  "mimics m m' \<longleftrightarrow> (\<forall>s x s'. m s = Some (Inr x, s') \<longrightarrow> m' s = Some (Inr x, s'))"

lemma mimics_refl [simp]: "mimics m m"
  by (simp add: mimics_def)

lemma mimics_checkS: "mimics (checkS E m) m"
  by (auto simp: mimics_def checkS_def split: option.splits prod.splits if_splits)

lemma mimics_bind: "mimics m m' \<Longrightarrow> (\<And>x. mimics (f x) (f' x)) \<Longrightarrow> mimics (bindS m f) (bindS m' f')"
  unfolding mimics_def bindS_eq_ret_iff by blast

lemma mimics_foldS: "(\<And>x b. mimics (f x b) (f' x b)) \<Longrightarrow> mimics (foldS f xs b) (foldS f' xs b)"
proof (induction xs arbitrary: b)
  case Nil
  show ?case unfolding foldS.simps by (rule mimics_refl)
next
  case (Cons x xs)
  show ?case unfolding foldS.simps by (rule mimics_bind) (use Cons in auto)
qed

text \<open>\<open>T\<close> behaves as \<open>T'\<close> whenever it does not throw.\<close>

locale weaker_tree =
  fixes E :: ext and T T' :: "'s tree_ops"
  assumes ops: "mimics (t_putDirectory T es) (t_putDirectory T' es)"
      "mimics (t_setEntry T r p n e sz t) (t_setEntry T' r p n e sz t)"
      "mimics (t_removeEntry T r p n) (t_removeEntry T' r p n)"
      "mimics (t_listDirectory T d) (t_listDirectory T' d)"
      "mimics (t_putFile T bs) (t_putFile T' bs)" "mimics (t_readFile T d) (t_readFile T' d)"
begin

lemma mimics_split: "mimics (splitNode E T copy es) (splitNode E T' copy es)"
  unfolding splitNode_def Let_def buildDir_def
  by (intro mimics_bind mimics_foldS ops) (auto split: list.split)

lemma mimics_splitWhenFull:
  "(\<And>es. mimics (spl es) (spl' es)) \<Longrightarrow> mimics (splitWhenFull T ord spl d) (splitWhenFull T' ord spl' d)"
  unfolding splitWhenFull_def by (auto intro!: mimics_bind ops)

lemma mimics_leaf:
  "mimics (storeValue (stringLeaf E T B v)) (storeValue (stringLeaf E T' B v))"
  "mimics (leafSplit (stringLeaf E T B v) es) (leafSplit (stringLeaf E T' B v) es)"
  "mimics (storeValue (linkLeaf E T w)) (storeValue (linkLeaf E T' w))"
  "mimics (leafSplit (linkLeaf E T w) es) (leafSplit (linkLeaf E T' w) es)"
  by (auto simp: stringLeaf_def linkLeaf_def splitLeaf_def splitLeafWithLinks_def intro!: mimics_bind ops mimics_split)

lemma mimics_replaceChildren: "mimics (replaceChildren T d n r) (replaceChildren T' d n r)"
  unfolding replaceChildren_def by (intro mimics_bind ops) (auto split: option.split intro!: mimics_bind ops)

lemma mimics_growRoot: "mimics (growRoot T r) (growRoot T' r)"
  unfolding growRoot_def by (auto split: option.split intro!: mimics_bind ops)

text \<open>The choice between leaf and inner node, as the recursive functions write it.\<close>

lemma mimics_choice:
  assumes "mimics m m'" "\<And>e. mimics (g e) (g' e)"
  shows "mimics (\<lambda>s. if b then m s else case opt of None \<Rightarrow> throwS err s | Some e \<Rightarrow> g e s)
    (\<lambda>s. if b then m' s else case opt of None \<Rightarrow> throwS err s | Some e \<Rightarrow> g' e s)"
  using assms by (auto simp: mimics_def split: option.split)

lemma mimics_insertRecursive:
  assumes L: "mimics (storeValue L) (storeValue L')" "\<And>es. mimics (leafSplit L es) (leafSplit L' es)"
  shows "mimics (insertRecursive E T ord L k d) (insertRecursive E T' ord L' k d)"
proof -
  have "E0 = E \<and> T0 = T \<and> L0 = L \<longrightarrow> (\<forall>x s'. y = (Inr x, s') \<longrightarrow> insertRecursive E T' ord L' k d s = Some y)"
    if "insertRecursive E0 T0 ord L0 k d s = Some y" for E0 T0 ord L0 k d s y
    using that
  proof (induction E0 T0 ord L0 k d s y rule: insertRecursive.raw_induct [rotated, consumes 1, case_names step])
    case (step f E0 T0 ord L0 k d s y)
    note IH = step(1)
    show ?case
    proof (intro impI allI)
      fix x s'
      assume eq: "E0 = E \<and> T0 = T \<and> L0 = L" and y: "y = (Inr x, s')"
      have eqs: "E0 = E" "T0 = T" "L0 = L" using eq by simp_all
      have f: "mimics (f E T ord L k d) (insertRecursive E T' ord L' k d)" for d
        unfolding mimics_def using IH by blast
      let ?b = "\<lambda>T L rec entries s. if isLeafNode entries then insertIntoLeaf T ord L d k s
        else case findChild E entries k of None \<Rightarrow> throwS TypeError s
         | Some child \<Rightarrow> bindS (rec (ecid child)) (\<lambda>result.
             bindS (replaceChildren T d (ename child) result) (splitWhenFull T ord (splitInternal E T))) s"
      have "mimics (bindS (t_listDirectory T d) (?b T L (f E T ord L k)))
          (bindS (t_listDirectory T' d) (?b T' L' (insertRecursive E T' ord L' k)))"
        unfolding insertIntoLeaf_def splitInternal_def
        by (intro mimics_bind mimics_choice mimics_replaceChildren mimics_splitWhenFull mimics_split ops f L)
      moreover have "bindS (t_listDirectory T d) (?b T L (f E T ord L k)) s = Some (Inr x, s')"
        using step(2) unfolding eqs y .
      ultimately show "insertRecursive E T' ord L' k d s = Some y"
        unfolding y mimics_def insertRecursive.simps [of E T' ord L' k d s] by blast
    qed
  qed
  then show ?thesis by (simp add: mimics_def)
qed

lemma mimics_descend:
  assumes "\<And>e. mimics (found e) (found' e)"
  shows "mimics (descend E T found k d) (descend E T' found' k d)"
proof -
  have "E0 = E \<and> T0 = T \<and> found0 = found \<longrightarrow> (\<forall>x s'. y = (Inr x, s') \<longrightarrow> descend E T' found' k d s = Some y)"
    if "descend E0 T0 found0 k d s = Some y" for E0 T0 found0 k d s y
    using that
  proof (induction E0 T0 found0 k d s y rule: descend.raw_induct [rotated, consumes 1, case_names step])
    case (step f E0 T0 found0 k d s y)
    note IH = step(1)
    show ?case
    proof (intro impI allI)
      fix x s'
      assume eq: "E0 = E \<and> T0 = T \<and> found0 = found" and y: "y = (Inr x, s')"
      have eqs: "E0 = E" "T0 = T" "found0 = found" using eq by simp_all
      have f: "mimics (f E T found k d) (descend E T' found' k d)" for d
        unfolding mimics_def using IH by blast
      let ?b = "\<lambda>fd rec entries s. if isLeafNode entries then
         (\<lambda>s. case List.find (\<lambda>e. ename e = escapeKey k) entries of None \<Rightarrow> retS None s | Some entry \<Rightarrow> fd entry s) s
        else case findChild E entries k of None \<Rightarrow> throwS TypeError s | Some child \<Rightarrow> rec (ecid child) s"
      have leaf: "mimics (\<lambda>s. case o' of None \<Rightarrow> retS None s | Some entry \<Rightarrow> found entry s)
          (\<lambda>s. case o' of None \<Rightarrow> retS None s | Some entry \<Rightarrow> found' entry s)" for o'
        using assms by (auto simp: mimics_def split: option.split)
      have "mimics (bindS (t_listDirectory T d) (?b found (f E T found k)))
          (bindS (t_listDirectory T' d) (?b found' (descend E T' found' k)))"
        by (intro mimics_bind mimics_choice ops f leaf)
      moreover have "bindS (t_listDirectory T d) (?b found (f E T found k)) s = Some (Inr x, s')"
        using step(2) unfolding eqs y .
      ultimately show "descend E T' found' k d s = Some y"
        unfolding y mimics_def descend.simps [of E T' found' k d s] by blast
    qed
  qed
  then show ?thesis by (simp add: mimics_def)
qed

lemma mimics_keepOrReplace: "mimics (keepOrReplace T d n r) (keepOrReplace T' d n r)"
  unfolding keepOrReplace_def removeChild_def
  by (cases r; cases "fst r"; cases "snd r") (auto intro!: mimics_bind ops)

lemma mimics_deleteNode: "mimics (deleteNode E T k d) (deleteNode E T' k d)"
proof -
  have "E0 = E \<and> T0 = T \<longrightarrow> (\<forall>x s'. y = (Inr x, s') \<longrightarrow> deleteNode E T' k d s = Some y)"
    if "deleteNode E0 T0 k d s = Some y" for E0 T0 k d s y
    using that
  proof (induction E0 T0 k d s y rule: deleteNode.raw_induct [rotated, consumes 1, case_names step])
    case (step f E0 T0 k d s y)
    note IH = step(1)
    show ?case
    proof (intro impI allI)
      fix x s'
      assume eq: "E0 = E \<and> T0 = T" and y: "y = (Inr x, s')"
      have eqs: "E0 = E" "T0 = T" using eq by simp_all
      have f: "mimics (f E T k d) (deleteNode E T' k d)" for d
        unfolding mimics_def using IH by blast
      let ?b = "\<lambda>T rec entries s. if isLeafNode entries then
         (\<lambda>s. case List.find (\<lambda>e. ename e = escapeKey k) entries of None \<Rightarrow> retS (Some d, True) s
           | Some _ \<Rightarrow> removeKey T d (escapeKey k) s) s
        else case findChild E entries k of None \<Rightarrow> throwS TypeError s
         | Some child \<Rightarrow> bindS (rec (ecid child)) (keepOrReplace T d (ename child)) s"
      have "mimics (removeKey T d n) (removeKey T' d n)" for n unfolding removeKey_def by (intro mimics_bind ops mimics_refl)
      then have leaf: "mimics (\<lambda>s. case o' of None \<Rightarrow> retS (Some d, True) s | Some _ \<Rightarrow> removeKey T d n s)
          (\<lambda>s. case o' of None \<Rightarrow> retS (Some d, True) s | Some _ \<Rightarrow> removeKey T' d n s)" for o' :: "TreeEntry option" and n
        by (auto simp: mimics_def split: option.split)
      have "mimics (bindS (t_listDirectory T d) (?b T (f E T k))) (bindS (t_listDirectory T' d) (?b T' (deleteNode E T' k)))"
        by (intro mimics_bind mimics_choice ops f leaf mimics_keepOrReplace)
      moreover have "bindS (t_listDirectory T d) (?b T (f E T k)) s = Some (Inr x, s')"
        using step(2) unfolding eqs y .
      ultimately show "deleteNode E T' k d s = Some y"
        unfolding y mimics_def deleteNode.simps [of E T' k d s] by blast
    qed
  qed
  then show ?thesis by (simp add: mimics_def)
qed

lemma mimics_visitTree:
  assumes "\<And>e acc. mimics (visit e acc) (visit' e acc)"
  shows "mimics (visitTree E T pl pc visit d acc) (visitTree E T' pl pc visit' d acc)"
proof -
  have "E0 = E \<and> T0 = T \<and> visit0 = visit \<longrightarrow>
      (\<forall>x s'. y = (Inr x, s') \<longrightarrow> visitTree E T' pl pc visit' d acc s = Some y)"
    if "visitTree E0 T0 pl pc visit0 d acc s = Some y" for E0 T0 pl pc visit0 d acc s y
    using that
  proof (induction E0 T0 pl pc visit0 d acc s y rule: visitTree.raw_induct [rotated, consumes 1, case_names step])
    case (step f E0 T0 pl pc visit0 d acc s y)
    note IH = step(1)
    show ?case
    proof (intro impI allI)
      fix x s'
      assume eq: "E0 = E \<and> T0 = T \<and> visit0 = visit" and y: "y = (Inr x, s')"
      have eqs: "E0 = E" "T0 = T" "visit0 = visit" using eq by simp_all
      have f: "mimics (f E T pl pc visit d acc) (visitTree E T' pl pc visit' d acc)" for d acc
        unfolding mimics_def using IH by blast
      let ?b = "\<lambda>v rec entries s. if isLeafNode entries then foldS v (pl (bt_sortEntries E entries)) acc s
        else foldS (\<lambda>child. rec (ecid child)) (pc (bt_sortEntries E entries)) acc s"
      have "mimics (?b visit (f E T pl pc visit) es) (?b visit' (visitTree E T' pl pc visit') es)" for es
        by (cases "isLeafNode es") (auto intro!: mimics_foldS assms f)
      then have "mimics (bindS (t_listDirectory T d) (?b visit (f E T pl pc visit)))
          (bindS (t_listDirectory T' d) (?b visit' (visitTree E T' pl pc visit')))"
        by (intro mimics_bind ops)
      moreover have "bindS (t_listDirectory T d) (?b visit (f E T pl pc visit)) s = Some (Inr x, s')"
        using step(2) unfolding eqs y .
      ultimately show "visitTree E T' pl pc visit' d acc s = Some y"
        unfolding y mimics_def visitTree.simps [of E T' pl pc visit' d acc s] by blast
    qed
  qed
  then show ?thesis by (simp add: mimics_def)
qed

text \<open>The public operations.\<close>

lemma mimics_get: "mimics (bt_get E T B r k) (bt_get E T' B r k)"
  unfolding bt_get_def by (cases r) (auto intro!: mimics_descend mimics_bind ops simp: readValue_def)

lemma mimics_getLink: "mimics (bt_getLink E T r k) (bt_getLink E T' r k)"
  unfolding bt_getLink_def by (cases r) (auto intro!: mimics_descend)

lemma mimics_createLeaf:
  assumes "mimics (storeValue L) (storeValue L')"
  shows "mimics (createLeaf T [(k, L)]) (createLeaf T' [(k, L')])"
  unfolding createLeaf_def foldS.simps prod.case by (intro mimics_bind ops assms mimics_refl)

lemma mimics_insert: "mimics (bt_insert E T B ord r k v) (bt_insert E T' B ord r k v)"
  unfolding bt_insert_def
  by (cases r) (auto intro!: mimics_createLeaf mimics_leaf mimics_bind mimics_get mimics_insertRecursive mimics_growRoot)

lemma mimics_insertLink: "mimics (bt_insertLink E T ord r k w) (bt_insertLink E T' ord r k w)"
  unfolding bt_insertLink_def
  by (cases r) (auto intro!: mimics_createLeaf mimics_leaf mimics_bind mimics_getLink mimics_insertRecursive mimics_growRoot)

lemma mimics_delete: "mimics (bt_delete E T r k) (bt_delete E T' r k)"
  unfolding bt_delete_def by (intro mimics_bind mimics_deleteNode mimics_refl)

lemma mimics_yieldValue:
  "(\<And>x acc. mimics (body x acc) (body' x acc)) \<Longrightarrow> mimics (yieldValue T B body e acc) (yieldValue T' B body' e acc)"
  unfolding yieldValue_def by (intro mimics_bind ops) (auto split: option.split)

lemma mimics_merge: "mimics (bt_merge E T B ord a b po) (bt_merge E T' B ord a b po)"
  unfolding bt_merge_def traverseInOrder_def
  by (cases a; cases b) (auto intro!: mimics_bind mimics_visitTree mimics_yieldValue mimics_get mimics_insert split: prod.split)

end

interpretation unwatched: weaker_tree E "watched E c" "hashTree E (logConfig c)" for E c
  by unfold_locales (simp_all add: watched_def Let_def mimics_checkS)

end
