(* ===== verification/BTreeProps.thy ===== *)
theory BTreeProps
  imports BTreeStore Instance NHashProps "HOL-Library.Sublist"
begin

text \<open>
  The properties of the B-tree index over a \<open>HashTree\<close> over \<open>MemoryStore\<close>. \<open>indexRep\<close> says that a root CID holds a sorted
  association list; the public operations of the index are the operations on that list.
\<close>

section \<open>What a root stands for\<close>

text \<open>A string value is a file with its UTF-8 form; a link is the CID itself.\<close>

definition valueAt :: "ext \<Rightarrow> textops \<Rightarrow> logState \<Rightarrow> CID \<times> nat \<Rightarrow> string \<Rightarrow> bool" where
  "valueAt E B s p v \<longleftrightarrow> utf8Decode B (utf8Encode B v) = v \<and>
     (\<exists>k. ckey (fst p) = Some k \<and> encrypted_content E (store_get memlog s) (chash (fst p)) k (utf8Encode B v))"

definition linkAt :: "logState \<Rightarrow> CID \<times> nat \<Rightarrow> CID \<Rightarrow> bool" where
  "linkAt s p w \<longleftrightarrow> fst p = w"

text \<open>The root represents a search tree with these items. \<open>st\<close>: every separator between two children is the first key
  of the child to its right, which deletions do not keep. \<open>tight\<close>: the separators at the left edge are the
  smallest key, which insertions below it do not keep.\<close>

definition indexRep :: "ext \<Rightarrow> string set \<Rightarrow> nat \<Rightarrow> LinkType \<Rightarrow> (logState \<Rightarrow> CID \<times> nat \<Rightarrow> 'v \<Rightarrow> bool) \<Rightarrow> bool \<Rightarrow> bool
   \<Rightarrow> logState \<Rightarrow> CID option \<Rightarrow> (string \<times> 'v) list \<Rightarrow> bool" where
  "indexRep E K c ty V st tight s root kvs \<longleftrightarrow> index_ok E K c s \<and> (case root of
     None \<Rightarrow> kvs = []
   | Some r \<Rightarrow> kvs \<noteq> [] \<and> (\<exists>t. repr (dirNode E K c) ty s r t \<and>
       search_tree st (if tight then Some (fst (hd kvs)) else None) None t \<and>
       list_all2 (rel_prod (=) (V s)) (items t) kvs))"

abbreviation indexAt :: "ext \<Rightarrow> textops \<Rightarrow> string set \<Rightarrow> nat \<Rightarrow> bool \<Rightarrow> bool \<Rightarrow> logState \<Rightarrow> CID option \<Rightarrow> (string \<times> string) list \<Rightarrow> bool" where
  "indexAt E B K c \<equiv> indexRep E K c Blob (valueAt E B)"

abbreviation linkIndexAt :: "ext \<Rightarrow> string set \<Rightarrow> nat \<Rightarrow> bool \<Rightarrow> bool \<Rightarrow> logState \<Rightarrow> CID option \<Rightarrow> (string \<times> CID) list \<Rightarrow> bool" where
  "linkIndexAt E K c \<equiv> indexRep E K c File linkAt"

text \<open>The run \<open>m\<close> with the watch ends; unless it was stopped by two different blocks with one hash, the run \<open>m'\<close>
  of the code gives the same result, in the same state, and \<open>P\<close> holds of them.\<close>

definition unless_collision ::
  "ext \<Rightarrow> (logState, 'a) op \<Rightarrow> (logState, 'a) op \<Rightarrow> logState \<Rightarrow> ('a \<Rightarrow> logState \<Rightarrow> bool) \<Rightarrow> bool" where
  "unless_collision E m m' s P \<longleftrightarrow> (case m s of
     None \<Rightarrow> False
   | Some (Inl e, s') \<Rightarrow> \<not> no_collision E s'
   | Some (Inr x, s') \<Rightarrow> m' s = Some (Inr x, s') \<and> P x s')"

lemma unless_collisionI:
  "runs (mem.logs.grows E) (\<lambda>s. \<not> no_collision E s) m s P \<Longrightarrow> mimics m m' \<Longrightarrow> unless_collision E m m' s P"
  unfolding unless_collision_def runs_def mimics_def by (elim exE conjE) (auto split: sum.splits simp del: split_paired_All)

section \<open>Association lists\<close>

abbreviation same_keys :: "('a \<Rightarrow> 'b \<Rightarrow> bool) \<Rightarrow> ('k \<times> 'a) list \<Rightarrow> ('k \<times> 'b) list \<Rightarrow> bool" where
  "same_keys V \<equiv> list_all2 (rel_prod (=) V)"

lemma same_keys_map_of: "same_keys V xs ys \<Longrightarrow> rel_option V (map_of xs k) (map_of ys k)"
  by (induction rule: list_all2_induct) auto

lemma same_keys_setKey: "same_keys V xs ys \<Longrightarrow> V a b \<Longrightarrow> same_keys V (setKey k a xs) (setKey k b ys)"
  by (induction rule: list_all2_induct) auto

lemma same_keys_filter: "same_keys V xs ys \<Longrightarrow> same_keys V (List.filter (\<lambda>x. P (fst x)) xs) (List.filter (\<lambda>x. P (fst x)) ys)"
  by (induction rule: list_all2_induct) auto


lemma same_keys_fst: "same_keys V xs ys \<Longrightarrow> map fst xs = map fst ys"
  by (induction rule: list_all2_induct) auto

lemma same_keys_mem: "same_keys V xs ys \<Longrightarrow> x \<in> set xs \<Longrightarrow> \<exists>w. (fst x, w) \<in> set ys \<and> V (snd x) w"
  by (induction rule: list_all2_induct) auto

lemma hd_setKey: "kvs \<noteq> [] \<Longrightarrow> fst (hd kvs) \<le> k \<Longrightarrow> fst (hd (setKey k v kvs)) = fst (hd kvs)"
  by (cases kvs) auto

section \<open>Every kind of index\<close>

lemma lookup_rep:
  assumes "search_tree st lo hi t" "same_keys V (items t) kvs"
  shows "rel_option V (lookupTree k t) (map_of kvs k)"
proof -
  have "search_tree False None None t"
    by (rule search_wider(1) [OF search_weak(1) [OF assms(1)]]) (simp_all add: wider_def)
  from lookupTree_items [OF this] same_keys_map_of [OF assms(2), of k] show ?thesis by (simp add: inBounds_def)
qed

text \<open>A relation between stored values and what they stand for, kept by a growing store.\<close>

definition keeps :: "ext \<Rightarrow> (logState \<Rightarrow> CID \<times> nat \<Rightarrow> 'v \<Rightarrow> bool) \<Rightarrow> bool" where
  "keeps E V \<longleftrightarrow> (\<forall>s s' p v. V s p v \<longrightarrow> mem.logs.grows E s s' \<longrightarrow> V s' p v)"

lemma same_keys_grows: "keeps E V \<Longrightarrow> mem.logs.grows E s s' \<Longrightarrow> same_keys (V s) xs ys \<Longrightarrow> same_keys (V s') xs ys"
  unfolding keeps_def by (erule list_all2_mono) (auto simp: rel_prod_sel simp del: split_paired_All)

lemma insert_rep:
  assumes rep: "indexRep E K c ty V True tight s (Some r) kvs" and "k \<in> K" "1 < ord" "keeps E V"
    and L: "idx.leaf_spec E c K ty L (\<lambda>s p. V s p v)" and k: "tight \<Longrightarrow> fst (hd kvs) \<le> k"
  shows "runs (mem.logs.grows E) (\<lambda>s. \<not> no_collision E s)
    (bindS (insertRecursive E (watched E c) ord L k r) (growRoot (watched E c))) s
    (\<lambda>r' s'. indexRep E K c ty V True tight s' (Some r') (setKey k v kvs))"
proof -
  let ?lo = "if tight then Some (fst (hd kvs)) else None"
  from rep obtain t where ne: "kvs \<noteq> []" and t: "repr (dirNode E K c) ty s r t" "search_tree True ?lo None t"
      "same_keys (V s) (items t) kvs" by (auto simp: indexRep_def)
  have b: "inBounds ?lo None k" using k by (simp add: inBounds_def)
  have lo: "(if tight then Some (fst (hd (setKey k v kvs))) else None) = ?lo" using hd_setKey [OF ne] k by simp
  show ?thesis
  proof (rule runs_mono [OF idx.insert_run [OF t(1) assms(2,3) L]])
    fix r' s'
    assume g: "mem.logs.grows E s s'" and "\<exists>p. V s' p v \<and> repr (dirNode E K c) ty s' r' (insertTree ord k p t)"
    then obtain p where p: "V s' p v" "repr (dirNode E K c) ty s' r' (insertTree ord k p t)" by blast
    have "same_keys (V s') (setKey k p (items t)) (setKey k v kvs)"
      by (rule same_keys_setKey [OF same_keys_grows [OF assms(4) g t(3)] p(1)])
    with p(2) insertTree_correct [OF t(2) b assms(3), of p] idx.repr_ok [OF p(2)] lo
    show "indexRep E K c ty V True tight s' (Some r') (setKey k v kvs)" by (auto simp: indexRep_def)
  qed
qed

lemma create_rep:
  assumes "index_ok E K c s" "k \<in> K" "ty \<noteq> Dir" and L: "idx.leaf_spec E c K ty L (\<lambda>s p. V s p v)"
  shows "runs (mem.logs.grows E) (\<lambda>s. \<not> no_collision E s) (createLeaf (watched E c) [(k, L)]) s
    (\<lambda>r' s'. indexRep E K c ty V True tight s' (Some r') [(k, v)])"
proof (rule runs_mono [OF idx.createLeaf_run [OF assms(1,2) L assms(3)]])
  fix r' s'
  assume "\<exists>p. V s' p v \<and> repr (dirNode E K c) ty s' r' (BLeaf [(k, p)])"
  then obtain p where p: "V s' p v" "repr (dirNode E K c) ty s' r' (BLeaf [(k, p)])" by blast
  moreover have "search_tree True (if tight then Some k else None) None (BLeaf [(k, p)])" by (simp add: inBounds_def)
  ultimately show "indexRep E K c ty V True tight s' (Some r') [(k, v)]"
    using idx.repr_ok [OF p(2)] unfolding indexRep_def by (auto intro!: exI [of _ "BLeaf [(k, p)]"] simp del: repr.simps)
qed


text \<open>Reading needs no watch.\<close>

lemma runs_safe: "runs le (\<lambda>_. False) m s P \<Longrightarrow> \<exists>x s'. m s = Some (Inr x, s') \<and> P x s'"
  unfolding runs_def by (force split: sum.splits)

lemma same_keys_unique:
  "same_keys V xs ys \<Longrightarrow> same_keys V xs zs \<Longrightarrow> (\<And>p v v'. V p v \<Longrightarrow> V p v' \<Longrightarrow> v = v') \<Longrightarrow> ys = zs"
  by (induction xs arbitrary: ys zs) (fastforce simp: list_all2_Cons1 rel_prod_sel prod_eq_iff)+

lemma read_rep:
  assumes R: "index_reader E T K (index_ok E K c) (mem.logs.grows E) (dirNode E K c)"
    and rep: "indexRep E K c ty V st tight s (Some r) kvs"
    and found: "\<And>p v. map_of kvs k = Some v \<Longrightarrow> V s p v \<Longrightarrow> found (mkSlot (k, fst p, snd p, ty)) s = Some (Inr (Some v), s)"
  shows "descend E T found k r s = Some (Inr (map_of kvs k), s)"
proof -
  from rep obtain lo t where t: "repr (dirNode E K c) ty s r t" "search_tree st lo None t" "same_keys (V s) (items t) kvs"
    by (auto simp: indexRep_def)
  note l = lookup_rep [OF t(2,3), of k]
  have "runs (mem.logs.grows E) (\<lambda>_. False) (descend E T found k r) s (\<lambda>x s'. x = map_of kvs k \<and> s' = s)"
  proof (rule index_reader.descend_run [OF R t(1), where k = k])
    fix p
    assume p: "lookupTree k t = Some p"
    with l obtain v where "map_of kvs k = Some v" "V s p v" by (auto simp: option_rel_Some1)
    with found plain.le_refl [OF plain.repr_ok [OF t(1)]]
    show "runs (mem.logs.grows E) (\<lambda>_. False) (found (mkSlot (k, fst p, snd p, ty))) s (\<lambda>x s'. x = map_of kvs k \<and> s' = s)"
      by (simp add: runs_def)
  next
    assume "lookupTree k t = None"
    with l show "None = map_of kvs k \<and> s = s" by simp
  qed
  from runs_safe [OF this] show ?thesis by auto
qed

lemma visit_rep:
  fixes kvs :: "(string \<times> 'v) list"
  assumes t: "repr (dirNode E K c) ty s r t" "same_keys (V s) (items t) kvs"
    and visit: "\<And>k p v acc. V s p v \<Longrightarrow> visit (mkSlot (k, fst p, snd p, ty)) acc s = Some (Inr (acc @ [(k, v)]), s)"
  shows "\<exists>acc. visitTree E (hashTree E (logConfig c)) (leafInRange ty start stop) (childrenInRange start stop) visit r [] s =
    Some (Inr acc, s) \<and> same_keys (V s) (rangeItems codeUnits start stop t) acc"
proof -
  note ok = plain.repr_ok [OF t(1)]
  let ?I = "\<lambda>before (acc :: (string \<times> 'v) list) s'. s' = s \<and> same_keys (V s) before acc"
  have "runs (mem.logs.grows E) (\<lambda>_. False)
      (visitTree E (hashTree E (logConfig c)) (leafInRange ty start stop) (childrenInRange start stop) visit r []) s
      (?I ([] @ rangeItems codeUnits start stop t))"
  proof (rule plain.visitTree_run [where I = ?I, OF _ _ t(1) plain.le_refl [OF ok]])
    fix x before acc s'
    assume i: "?I before acc s'" and "x \<in> set (items t)"
    then obtain v where "V s (snd x) v" using same_keys_mem [OF t(2)] by blast
    with i visit [of "snd x" v "fst x" acc] plain.le_refl [OF ok]
    show "runs (mem.logs.grows E) (\<lambda>_. False) (visit (mkSlot (fst x, fst (snd x), snd (snd x), ty)) acc) s' (?I (before @ [x]))"
      by (auto simp: runs_def rel_prod_sel intro!: list_all2_appendI)
  qed (use ok in auto)
  from runs_safe [OF this] show ?thesis by auto
qed

lemma range_rep:
  assumes rep: "indexRep E K c ty V st tight s (Some r) kvs" and stop: "stop = None \<or> st \<and> tight"
    and visit: "\<And>k p v acc. V s p v \<Longrightarrow> visit (mkSlot (k, fst p, snd p, ty)) acc s = Some (Inr (acc @ [(k, v)]), s)"
  shows "visitTree E (hashTree E (logConfig c)) (leafInRange ty start stop) (childrenInRange start stop) visit r [] s =
    Some (Inr (List.filter (\<lambda>x. inRange codeUnits start stop (fst x)) kvs), s)"
proof -
  from rep obtain t where t: "repr (dirNode E K c) ty s r t" "search_tree st (if tight then Some (fst (hd kvs)) else None) None t"
      "same_keys (V s) (items t) kvs" by (auto simp: indexRep_def)
  have "rangeItems codeUnits start stop t = List.filter (\<lambda>x. inRange codeUnits start stop (fst x)) (items t)"
    by (rule rangeItems_filter(1) [OF strict_mono_codeUnits t(2)]) (use stop in auto)
  with visit_rep [where V = V and visit = visit, OF t(1,3) visit, of start stop] obtain acc where
    run: "visitTree E (hashTree E (logConfig c)) (leafInRange ty start stop) (childrenInRange start stop) visit r [] s = Some (Inr acc, s)"
      and acc: "same_keys (V s) (List.filter (\<lambda>x. inRange codeUnits start stop (fst x)) (items t)) acc" by auto
  have "v = v'" if "V s p v" "V s p v'" for p v v'
    using visit [OF that(1), of "[]" "[]"] visit [OF that(2), of "[]" "[]"] by simp
  with same_keys_unique [OF acc same_keys_filter [OF t(3)]] run show ?thesis by simp
qed

section \<open>Strings and links as values\<close>

text \<open>What a value must satisfy: its UTF-8 form can be decoded, it fits a link's size field, and if it is stored in
  one block it is not the encoding of a tree node, which the reader would follow.\<close>

definition value_ok :: "ext \<Rightarrow> textops \<Rightarrow> nat \<Rightarrow> string \<Rightarrow> bool" where
  "value_ok E B c v \<longleftrightarrow> utf8Decode B (utf8Encode B v) = v \<and> length (utf8Encode B v) < 2 ^ 53 \<and>
     (length (utf8Encode B v) \<le> c \<longrightarrow> tryDecodeTreeNode E (utf8Encode B v) = None)"

lemma keeps_value: "keeps E (valueAt E B)"
  using encrypted_content_mono [OF _ mem.logs.grows_map_le] by (fastforce simp: keeps_def valueAt_def)

lemma keeps_link: "keeps E linkAt"
  by (simp add: keeps_def linkAt_def)

lemma string_leaf:
  assumes "value_ok E B c v"
  shows "idx.leaf_spec E c K Blob (stringLeaf E (watched E c) B v) (\<lambda>s p. valueAt E B s p v)"
proof -
  let ?d = "utf8Encode B v"
  have "runs (mem.logs.grows E) (\<lambda>s. \<not> no_collision E s) (storeValue (stringLeaf E (watched E c) B v)) s
      (\<lambda>x s'. index_ok E K c s' \<and> snd (snd x) = Blob \<and> slot_ok x \<and> valueAt E B s' (fst x, fst (snd x)) v)"
    if ok: "index_ok E K c s" for s
  proof -
    obtain h k s' where run: "putFileEncrypted E (logConfig c) ?d s = Some (Inr \<lparr>rhash = h, rsize = length ?d, rkey = k\<rparr>, s')"
        and g: "mem.logs.grows E s s'" and ct: "no_collision E s' \<longrightarrow> encrypted_content E (store_get memlog s') h k ?d"
      using mem.logs.putFileEncrypted_run [of "logConfig c" E s ?d] ok assms
      by (auto simp: index_ok_def value_ok_def simp del: split_paired_Ex)
    have "storeValue (stringLeaf E (watched E c) B v) s = (if no_collision E s'
        then Some (Inr (cid h (Some k), length ?d, Blob), s') else Some (Inl HashCollision, s'))"
      using run by (simp add: stringLeaf_def watched_def Let_def hashTree_def ht_putFile_def bindS_def checkS_def)
    moreover have "index_ok E K c s'" "valueAt E B s' (cid h (Some k), length ?d) v" if "no_collision E s'"
      using that ok ct assms mem.logs.grows_sinv [OF g] by (auto simp: index_ok_def valueAt_def cid_def value_ok_def)
    ultimately show ?thesis using g assms
      by (auto simp: runs_def slot_ok_def linkTypeNum_def value_ok_def simp del: split_paired_Ex)
  qed
  moreover have "\<exists>copy. leafSplit (stringLeaf E (watched E c) B v) = splitNode E (watched E c) copy \<and>
      (\<forall>x. snd (snd (snd x)) = Blob \<longrightarrow> copy (mkSlot x) = mkSlot x)"
    by (auto simp: stringLeaf_def splitLeaf_def mkSlot_def plainEntry_def)
  ultimately show ?thesis using keeps_value [of E B] unfolding idx.leaf_spec_def keeps_def by blast
qed

lemma link_leaf: "idx.leaf_spec E c K File (linkLeaf E (watched E c) w) (\<lambda>s p. linkAt s p w)"
proof -
  have "runs (mem.logs.grows E) (\<lambda>s. \<not> no_collision E s) (storeValue (linkLeaf E (watched E c) w)) s
      (\<lambda>x s'. index_ok E K c s' \<and> snd (snd x) = File \<and> slot_ok x \<and> linkAt s' (fst x, fst (snd x)) w)"
    if ok: "index_ok E K c s" for s
    using ok plain.le_refl [OF ok] by (simp add: linkLeaf_def runs_def slot_ok_def linkTypeNum_def linkAt_def)
  moreover have "\<exists>copy. leafSplit (linkLeaf E (watched E c) w) = splitNode E (watched E c) copy \<and>
      (\<forall>x. snd (snd (snd x)) = File \<longrightarrow> copy (mkSlot x) = mkSlot x)"
    by (auto simp: linkLeaf_def splitLeafWithLinks_def mkSlot_def plainEntry_def)
  ultimately show ?thesis using keeps_link unfolding idx.leaf_spec_def keeps_def by blast
qed

lemma readFile_value:
  assumes "valueAt E B s p v"
  shows "t_readFile (hashTree E (logConfig c)) (fst p) s = Some (Inr (Some (utf8Encode B v)), s)"
    "t_readFile (watched E c) (fst p) s = Some (Inr (Some (utf8Encode B v)), s)"
  using assms by (auto simp: valueAt_def watched_def Let_def hashTree_def readS_def ht_readFile_def ht_get_def readFileEncrypted_content)

lemmas readers = plain.index_reader_axioms idx.index_reader_axioms

lemma get_rep:
  assumes "indexAt E B K c st tight s root kvs" "T = hashTree E (logConfig c) \<or> T = watched E c"
  shows "bt_get E T B root k s = Some (Inr (map_of kvs k), s)"
proof (cases root)
  case None
  with assms(1) show ?thesis by (simp add: indexRep_def bt_get_def)
next
  case (Some r)
  have "index_reader E T K (index_ok E K c) (mem.logs.grows E) (dirNode E K c)" using assms(2) readers by blast
  moreover have "readValue T B (mkSlot (k, fst p, snd p, Blob)) s = Some (Inr (Some v), s)" if "valueAt E B s p v" for p v
    using assms(2) readFile_value [OF that, of c] that by (auto simp: readValue_def bindS_def valueAt_def)
  ultimately show ?thesis using Some assms(1) read_rep [of E T K c Blob "valueAt E B"] by (simp add: bt_get_def)
qed

lemma getLink_rep:
  assumes "linkIndexAt E K c st tight s root kvs" "T = hashTree E (logConfig c) \<or> T = watched E c"
  shows "bt_getLink E T root k s = Some (Inr (map_of kvs k), s)"
proof (cases root)
  case None
  with assms(1) show ?thesis by (simp add: indexRep_def bt_getLink_def)
next
  case (Some r)
  have "index_reader E T K (index_ok E K c) (mem.logs.grows E) (dirNode E K c)" using assms(2) readers by blast
  with Some assms(1) read_rep [of E T K c File linkAt] show ?thesis by (simp add: bt_getLink_def readLink_def linkAt_def)
qed

lemma insert_string_rep:
  assumes rep: "indexAt E B K c True tight s root kvs" and k: "k \<in> K" "tight \<Longrightarrow> kvs = [] \<or> fst (hd kvs) \<le> k"
    and v: "value_ok E B c v" and "1 < ord"
  shows "runs (mem.logs.grows E) (\<lambda>s. \<not> no_collision E s) (bt_insert E (watched E c) B ord root k v) s
    (\<lambda>r s'. indexAt E B K c True tight s' (Some r) (setKey k v kvs))"
proof (cases root)
  case None
  with rep have "index_ok E K c s" "kvs = []" by (simp_all add: indexRep_def)
  with create_rep [where V = "valueAt E B" and v = v, OF _ k(1) _ string_leaf [OF v]] None show ?thesis
    by (simp add: bt_insert_def)
next
  case (Some r)
  with rep have ne: "kvs \<noteq> []" and ok: "index_ok E K c s" and srt: "ssorted kvs"
    using same_keys_fst search_sorted(1) by (fastforce simp: indexRep_def)+
  note get = get_rep [OF rep disjI2 [OF refl], of k]
  show ?thesis
  proof (cases "map_of kvs k = Some v")
    case True
    then have "setKey k v kvs = kvs" by (intro setKey_id [OF srt] map_of_SomeD)
    with get True Some rep plain.le_refl [OF ok] show ?thesis by (simp add: runs_def bt_insert_def bindS_def)
  next
    case False
    have "runs (mem.logs.grows E) (\<lambda>s. \<not> no_collision E s)
        (bindS (insertRecursive E (watched E c) ord (stringLeaf E (watched E c) B v) k r) (growRoot (watched E c))) s
        (\<lambda>r s'. indexAt E B K c True tight s' (Some r) (setKey k v kvs))"
      by (rule insert_rep [OF rep [unfolded Some] k(1) assms(5) keeps_value string_leaf [OF v]]) (use k(2) ne in auto)
    with get False Some show ?thesis by (simp add: runs_def bt_insert_def bindS_def [of "bt_get _ _ _ _ _"])
  qed
qed

lemma cidEquals_eq [simp]: "cidEquals a b \<longleftrightarrow> a = b"
proof -
  have "a = b \<longleftrightarrow> chash a = chash b \<and> ckey a = ckey b" by (cases a; cases b) auto
  then show ?thesis
    by (auto simp: cidEquals_def list_all2_lengthD list_all2_eq [symmetric] split: option.splits)
qed

lemma insert_link_rep:
  assumes rep: "linkIndexAt E K c True tight s root kvs" and k: "k \<in> K" "tight \<Longrightarrow> kvs = [] \<or> fst (hd kvs) \<le> k" and "1 < ord"
  shows "runs (mem.logs.grows E) (\<lambda>s. \<not> no_collision E s) (bt_insertLink E (watched E c) ord root k w) s
    (\<lambda>r s'. linkIndexAt E K c True tight s' (Some r) (setKey k w kvs))"
proof (cases root)
  case None
  with rep have "index_ok E K c s" "kvs = []" by (simp_all add: indexRep_def)
  with create_rep [where V = linkAt and v = w, OF _ k(1) _ link_leaf] None show ?thesis
    by (simp add: bt_insertLink_def)
next
  case (Some r)
  with rep have ne: "kvs \<noteq> []" and ok: "index_ok E K c s" and srt: "ssorted kvs"
    using same_keys_fst search_sorted(1) by (fastforce simp: indexRep_def)+
  note get = getLink_rep [OF rep disjI2 [OF refl], of k]
  show ?thesis
  proof (cases "map_of kvs k = Some w")
    case True
    then have "setKey k w kvs = kvs" by (intro setKey_id [OF srt] map_of_SomeD)
    with get True Some rep plain.le_refl [OF ok] show ?thesis by (simp add: runs_def bt_insertLink_def bindS_def)
  next
    case False
    have "runs (mem.logs.grows E) (\<lambda>s. \<not> no_collision E s)
        (bindS (insertRecursive E (watched E c) ord (linkLeaf E (watched E c) w) k r) (growRoot (watched E c))) s
        (\<lambda>r s'. linkIndexAt E K c True tight s' (Some r) (setKey k w kvs))"
      by (rule insert_rep [OF rep [unfolded Some] k(1) assms(4) keeps_link link_leaf]) (use k(2) ne in auto)
    moreover have "\<not> (case map_of kvs k of None \<Rightarrow> False | Some c \<Rightarrow> cidEquals c w)" using False by (auto split: option.split)
    ultimately show ?thesis using get Some by (simp add: runs_def bt_insertLink_def bindS_def [of "bt_getLink _ _ _ _"])
  qed
qed

lemma yield_value:
  "valueAt E B s p v \<Longrightarrow> yieldValue (hashTree E (logConfig c)) B collect (mkSlot (k, fst p, snd p, Blob)) acc s =
     Some (Inr (acc @ [(k, v)]), s)"
  by (simp add: yieldValue_def bindS_def readFile_value collect_def) (simp add: valueAt_def)

section \<open>Merging\<close>

text \<open>The whole traversal is the traversal of the range without bounds.\<close>

lemma whole_range: "leafInRange ty None None = List.filter (\<lambda>e. etype e = ty)" "childrenInRange None None = (\<lambda>cs. cs)"
proof -
  have "leafInRange ty None None es = List.filter (\<lambda>e. etype e = ty) es" "childrenInRange None None es = es" for es
    by (induction es) (simp_all add: Let_def)
  then show "leafInRange ty None None = List.filter (\<lambda>e. etype e = ty)" "childrenInRange None None = (\<lambda>cs. cs)" by auto
qed

lemma rangeItems_all: "search_tree st lo hi t \<Longrightarrow> rangeItems codeUnits None None t = items t"
  using rangeItems_filter(1) [OF strict_mono_codeUnits, of st lo hi t None None] by (simp add: inRange_def)

definition mergeKeys :: "bool \<Rightarrow> (string \<times> 'v) list \<Rightarrow> (string \<times> 'v) list \<Rightarrow> (string \<times> 'v) list" where
  "mergeKeys po xs ys = fold (\<lambda>y m. if map_of m (fst y) = None \<or> po then setKey (fst y) (snd y) m else m) ys xs"

lemma mergeKeys_snoc: "mergeKeys po xs (ys @ [y]) = (let m = mergeKeys po xs ys in
    if map_of m (fst y) = None \<or> po then setKey (fst y) (snd y) m else m)"
  by (simp add: mergeKeys_def Let_def)

lemma map_of_mergeKeys:
  assumes "distinct (map fst ys)"
  shows "map_of (mergeKeys po xs ys) = (if po then map_of xs ++ map_of ys else map_of ys ++ map_of xs)"
  using assms
proof (induction ys rule: rev_induct)
  case (snoc y ys)
  have y: "map_of ys (fst y) = None" using snoc.prems by (simp add: map_of_eq_None_iff)
  from snoc have "map_of (mergeKeys po xs ys) = (if po then map_of xs ++ map_of ys else map_of ys ++ map_of xs)" by simp
  with y show ?case
    by (cases y) (auto simp: mergeKeys_snoc Let_def map_of_setKey map_add_def fun_eq_iff split: option.splits)
qed (simp add: mergeKeys_def)

lemma valueAt_unique:
  assumes "valueAt E B s p v" "valueAt E B s p v'"
  shows "v = v'"
proof -
  have "utf8Encode B v = utf8Encode B v'" using readFile_value(1) [OF assms(1), of 0] readFile_value(1) [OF assms(2), of 0] by simp
  then show ?thesis using assms unfolding valueAt_def by metis
qed

lemma merge_rep:
  assumes b: "indexAt E B K c True False s (Some b) kvs" and o: "indexAt E B K c st tight s (Some other) kvs'"
    and v: "\<forall>x\<in>set kvs'. value_ok E B c (snd x)" and ord: "1 < ord"
  shows "runs (mem.logs.grows E) (\<lambda>s. \<not> no_collision E s) (bt_merge E (watched E c) B ord (Some b) (Some other) po) s
    (\<lambda>r s'. indexAt E B K c True False s' r (mergeKeys po kvs kvs'))"
proof -
  let ?T = "watched E c"
  from o obtain lo t where t: "repr (dirNode E K c) Blob s other t" "search_tree st lo None t"
      "same_keys (valueAt E B s) (items t) kvs'" by (auto simp: indexRep_def)
  note ok = idx.repr_ok [OF t(1)]
  let ?I = "\<lambda>before r s'. \<exists>vs. same_keys (valueAt E B s) before vs \<and> indexAt E B K c True False s' (Some r) (mergeKeys po kvs vs)"
  let ?body = "\<lambda>(key, value) result. bindS (bt_get E ?T B (Some result) key) (\<lambda>existingValue.
    if existingValue = None \<or> po then bt_insert E ?T B ord (Some result) key value else retS result)"
  have keyK: "fst x \<in> K" if "x \<in> set (items t)" for x by (rule idx.repr_keys [OF t(1) that])
  have "runs (mem.logs.grows E) (\<lambda>s. \<not> no_collision E s)
      (visitTree E ?T (leafInRange Blob None None) (childrenInRange None None) (yieldValue ?T B ?body) other b) s
      (?I ([] @ rangeItems codeUnits None None t))"
  proof (rule idx.visitTree_run [where I = ?I, OF _ _ t(1) plain.le_refl [OF ok]])
    fix x before r s'
    assume g: "mem.logs.grows E s s'" and "?I before r s'" and x: "x \<in> set (items t)"
    then obtain vs where vs: "same_keys (valueAt E B s) before vs" "indexAt E B K c True False s' (Some r) (mergeKeys po kvs vs)" by blast
    obtain w where w: "(fst x, w) \<in> set kvs'" "valueAt E B s (snd x) w"
      using same_keys_mem [OF t(3) x] by blast
    have w': "valueAt E B s' (snd x) w" using keeps_value [of E B] g w(2) unfolding keeps_def by blast
    have snoc: "same_keys (valueAt E B s) (before @ [x]) (vs @ [(fst x, w)])"
      using vs(1) w(2) by (auto intro!: list_all2_appendI simp: rel_prod_sel)
    have run: "yieldValue ?T B ?body (mkSlot (fst x, fst (snd x), snd (snd x), Blob)) r s' =
        (if map_of (mergeKeys po kvs vs) (fst x) = None \<or> po then bt_insert E ?T B ord (Some r) (fst x) w s' else Some (Inr r, s'))"
      using readFile_value(2) [OF w', of c] get_rep [OF vs(2) disjI2 [OF refl], of "fst x"] w'
      by (cases po) (simp_all add: yieldValue_def bindS_def valueAt_def)
    show "runs (mem.logs.grows E) (\<lambda>s. \<not> no_collision E s)
        (yieldValue ?T B ?body (mkSlot (fst x, fst (snd x), snd (snd x), Blob)) r) s' (?I (before @ [x]))"
    proof (cases "map_of (mergeKeys po kvs vs) (fst x) = None \<or> po")
      case True
      have "runs (mem.logs.grows E) (\<lambda>s. \<not> no_collision E s) (bt_insert E ?T B ord (Some r) (fst x) w) s' (?I (before @ [x]))"
      proof (rule runs_mono [OF insert_string_rep [OF vs(2) keyK [OF x] _ bspec [OF v w(1), simplified] ord]])
        fix r2 s2
        assume "indexAt E B K c True False s2 (Some r2) (setKey (fst x) w (mergeKeys po kvs vs))"
        then show "?I (before @ [x]) r2 s2" using snoc True
          by (intro exI [of _ "vs @ [(fst x, w)]"]) (simp add: mergeKeys_snoc)
      qed simp
      with run True show ?thesis by (simp add: runs_def)
    next
      case False
      have "index_ok E K c s'" using vs(2) by (simp add: indexRep_def)
      then show ?thesis using run False vs(2) snoc plain.le_refl
        by (auto simp: runs_def mergeKeys_snoc intro!: exI [of _ "vs @ [(fst x, w)]"])
    qed
  next
    show "?I [] b s" using b by (intro exI [of _ "[]"]) (simp add: mergeKeys_def)
  qed (auto simp: indexRep_def)
  then have run: "runs (mem.logs.grows E) (\<lambda>s. \<not> no_collision E s) (traverseInOrder E ?T B ?body other b) s (?I (items t))"
    unfolding traverseInOrder_def whole_range rangeItems_all [OF t(2)] by simp
  have "bt_merge E ?T B ord (Some b) (Some other) po = bindS (traverseInOrder E ?T B ?body other b) (\<lambda>result. retS (Some result))"
    by (simp only: bt_merge_def prod.case option.case)
  moreover have "runs (mem.logs.grows E) (\<lambda>s. \<not> no_collision E s) (bindS (traverseInOrder E ?T B ?body other b) (\<lambda>result. retS (Some result))) s
      (\<lambda>r s'. indexAt E B K c True False s' r (mergeKeys po kvs kvs'))"
  proof (rule idx.bind_run, rule runs_mono [OF run])
    fix r s'
    assume "?I (items t) r s'"
    then have i: "indexAt E B K c True False s' (Some r) (mergeKeys po kvs kvs')"
      using same_keys_unique [OF _ t(3)] valueAt_unique by metis
    then have "index_ok E K c s'" by (simp add: indexRep_def)
    then show "runs (mem.logs.grows E) (\<lambda>s. \<not> no_collision E s) (retS (Some r)) s'
        (\<lambda>r s'. indexAt E B K c True False s' r (mergeKeys po kvs kvs'))" by (intro runs_ret plain.le_refl i)
  qed
  ultimately show ?thesis by (simp only:)
qed

section \<open>Prefixes\<close>

lemma less_increment:
  "us \<noteq> [] \<Longrightarrow> last us < 65535 \<Longrightarrow> us \<le> ws \<and> ws < incrementPrefix us \<longleftrightarrow> (\<exists>r. ws = us @ r)"
proof (induction us arbitrary: ws)
  case (Cons u us)
  show ?case
  proof (cases "us = []")
    case True
    with Cons.prems show ?thesis by (cases ws) (auto simp: incrementPrefix_def)
  next
    case False
    then have "incrementPrefix (u # us) = u # incrementPrefix us" by (simp add: incrementPrefix_def)
    with Cons False show ?thesis by (cases ws) auto
  qed
qed simp

lemma prefix_range:
  assumes "p \<noteq> []"
  shows "inRange codeUnits (Some (codeUnits p)) (Some (incrementPrefix (codeUnits p))) k \<longleftrightarrow> prefix p k"
proof -
  have inj: "inj codeUnits" using strict_mono_imp_inj_on [OF strict_mono_codeUnits] .
  have "last (codeUnits p) < 65535" using assms less_trans [OF nat_of_char_less_256 [of "last p"], of 65535]
    by (simp add: codeUnits_def last_map)
  then have "inRange codeUnits (Some (codeUnits p)) (Some (incrementPrefix (codeUnits p))) k \<longleftrightarrow> (\<exists>r. codeUnits k = codeUnits p @ r)"
    using less_increment [of "codeUnits p" "codeUnits k"] assms by (simp add: inRange_def codeUnits_def)
  also have "\<dots> \<longleftrightarrow> prefix p k"
  proof
    assume "\<exists>r. codeUnits k = codeUnits p @ r"
    then obtain r where r: "codeUnits k = codeUnits p @ r" ..
    have "codeUnits (take (length p) k) = take (length p) (codeUnits k)" by (simp add: codeUnits_def take_map)
    also have "\<dots> = codeUnits p" unfolding r by (simp add: codeUnits_def)
    finally show "prefix p k" using inj by (metis injD take_is_prefix)
  qed (auto simp: prefix_def codeUnits_def)
  finally show ?thesis .
qed

section \<open>A sample index\<close>

text \<open>The keys of the witnesses: every non-empty string, which the collation of the instance orders by code units.\<close>

abbreviation sampleKeys :: "string set" where
  "sampleKeys \<equiv> {k. k \<noteq> []}"

lemma sample_ok: "index_ok demo sampleKeys 1000 ([], [])"
proof -
  have "localeCompare demo a b \<le> 0 \<longleftrightarrow> a \<le> b" for a b by (auto simp: demo_def)
  then show ?thesis by (simp add: index_ok_def code_order_def no_collision_def)
qed

lemma demoText_utf8: "utf8Decode demoText (utf8Encode demoText v) = v" "length (utf8Encode demoText v) = length v"
  by (simp_all add: demoText_def o_def unat_of_char)

lemma sample_values: "value_ok demo demoText 1000 ''x''" "value_ok demo demoText 1000 ''y''"
proof -
  have "tryDecodeTreeNode demo (utf8Encode demoText ''x'') = None" "tryDecodeTreeNode demo (utf8Encode demoText ''y'') = None"
    by code_simp+
  then show "value_ok demo demoText 1000 ''x''" "value_ok demo demoText 1000 ''y''"
    by (simp_all add: value_ok_def demoText_utf8)
qed

definition sampleRun :: "(logState, CID) op" where
  "sampleRun = bindS (bt_insert demo (watched demo 1000) demoText 3 None ''a'' ''x'')
     (\<lambda>r. bt_insert demo (watched demo 1000) demoText 3 (Some r) ''b'' ''y'')"

lemma sample_returns: "case sampleRun ([], []) of Some (Inr _, _) \<Rightarrow> True | _ \<Rightarrow> False"
  by code_simp

lemma sample_index:
  obtains r s where "sampleRun ([], []) = Some (Inr r, s)" "indexAt demo demoText sampleKeys 1000 True True s (Some r) [(''a'', ''x''), (''b'', ''y'')]"
proof -
  let ?i = "indexAt demo demoText sampleKeys 1000 True True"
  have i0: "?i ([], []) None []" using sample_ok by (simp add: indexRep_def)
  have "runs (mem.logs.grows demo) (\<lambda>s. \<not> no_collision demo s) sampleRun ([], [])
      (\<lambda>r s. ?i s (Some r) (setKey ''b'' ''y'' (setKey ''a'' ''x'' [])))"
    unfolding sampleRun_def
  proof (rule idx.bind_run, rule runs_mono [OF insert_string_rep [OF i0 _ _ sample_values(1)]])
    fix r s
    assume "?i s (Some r) (setKey ''a'' ''x'' [])"
    then show "runs (mem.logs.grows demo) (\<lambda>s. \<not> no_collision demo s)
        (bt_insert demo (watched demo 1000) demoText 3 (Some r) ''b'' ''y'') s
        (\<lambda>r s. ?i s (Some r) (setKey ''b'' ''y'' (setKey ''a'' ''x'' [])))"
      by (rule insert_string_rep [OF _ _ _ sample_values(2)]) simp_all
  qed simp_all
  then obtain x s where run: "sampleRun ([], []) = Some (x, s)"
      and x: "case x of Inl e \<Rightarrow> \<not> no_collision demo s | Inr r \<Rightarrow> ?i s (Some r) (setKey ''b'' ''y'' (setKey ''a'' ''x'' []))"
    unfolding runs_def by blast
  obtain r where "x = Inr r" using sample_returns run by (cases x) simp_all
  with that run x show ?thesis by simp
qed

section \<open>The operations of the index\<close>

text \<open>C12. Inserting a string into an index without deletions returns a root that holds the old pairs with the new
  one in its place among them: an insertion is the update of a sorted map, through all splits of leaves and
  inner nodes and for every order above 1. The run ends, and it ends with the new root unless two different
  blocks with the same hash were offered to the store. Here and in the other properties of the index, its keys
  are in a set \<open>K\<close> of strings that \<open>localeCompare\<close> orders by their code units (\<open>code_order\<close>), such as lower-case
  words without accents.\<close>

theorem btree_insert:
  assumes "indexAt E B K c True tight s root kvs" "k \<in> K" "value_ok E B c v" "1 < ord"
    and "tight \<Longrightarrow> kvs = [] \<or> fst (hd kvs) \<le> k"
  shows "unless_collision E (bt_insert E (watched E c) B ord root k v) (bt_insert E (hashTree E (logConfig c)) B ord root k v) s
    (\<lambda>r s'. indexAt E B K c True tight s' (Some r) (setKey k v kvs))"
  using insert_string_rep assms unwatched.mimics_insert by (intro unless_collisionI) blast+

theorem btree_insert_witness:
  "\<exists>r1 s1 r s. bt_insert demo (hashTree demo (logConfig 1000)) demoText 3 (Some r1) ''b'' ''y'' s1 = Some (Inr r, s) \<and>
     indexAt demo demoText sampleKeys 1000 True True s (Some r) [(''a'', ''x''), (''b'', ''y'')]"
proof -
  have i0: "indexAt demo demoText sampleKeys 1000 True True ([], []) None []" using sample_ok by (simp add: indexRep_def)
  obtain r s where "sampleRun ([], []) = Some (Inr r, s)" using sample_index by blast
  then obtain r1 s1 where run: "bt_insert demo (watched demo 1000) demoText 3 None ''a'' ''x'' ([], []) = Some (Inr r1, s1)"
      "bt_insert demo (watched demo 1000) demoText 3 (Some r1) ''b'' ''y'' s1 = Some (Inr r, s)"
    unfolding sampleRun_def bindS_eq_ret_iff by blast
  have i1: "indexAt demo demoText sampleKeys 1000 True True s1 (Some r1) (setKey ''a'' ''x'' [])"
    using btree_insert [OF i0 _ sample_values(1), of "''a''" 3] run(1) by (simp add: unless_collision_def)
  from btree_insert [OF i1 _ sample_values(2), of "''b''" 3] run(2) show ?thesis
    by (intro exI [of _ r1] exI [of _ s1] exI [of _ r] exI [of _ s]) (simp add: unless_collision_def)
qed

text \<open>C15. A lookup returns the value of its key, or null when the key is not in the index, and leaves the store
  alone. It holds for every index that represents a search tree, after deletions too (keys in the code-ordered
  set \<open>K\<close>).\<close>

theorem btree_get:
  assumes "indexAt E B K c st tight s root kvs"
  shows "bt_get E (hashTree E (logConfig c)) B root k s = Some (Inr (map_of kvs k), s)"
  using get_rep [OF assms] by simp

theorem btree_get_witness:
  "\<exists>r s. bt_get demo (hashTree demo (logConfig 1000)) demoText (Some r) ''b'' s = Some (Inr (Some ''y''), s) \<and>
     bt_get demo (hashTree demo (logConfig 1000)) demoText (Some r) ''c'' s = Some (Inr None, s)"
proof -
  obtain r s where "indexAt demo demoText sampleKeys 1000 True True s (Some r) [(''a'', ''x''), (''b'', ''y'')]"
    using sample_index by blast
  from btree_get [OF this, of "''b''"] btree_get [OF this, of "''c''"] show ?thesis
    by (intro exI [of _ r] exI [of _ s]) simp
qed



text \<open>C16. A range yields exactly the pairs with \<open>start \<le> key < end\<close>, in the order of the keys. With an upper bound
  this needs an index whose separators are exact: no deletions, and no insertions below the smallest key (keys in the code-ordered set \<open>K\<close>).\<close>

theorem btree_range:
  assumes "indexAt E B K c st tight s (Some r) kvs" "stop = None \<or> st \<and> tight"
  shows "bt_range E (hashTree E (logConfig c)) B r start stop s =
    Some (Inr (List.filter (\<lambda>x. inRange codeUnits start stop (fst x)) kvs), s)"
  unfolding bt_range_def rangeTraverse_def
  by (rule range_rep [OF assms]) (rule yield_value)

theorem btree_range_witness:
  "\<exists>r s. bt_range demo (hashTree demo (logConfig 1000)) demoText r None (Some (codeUnits ''b'')) s = Some (Inr [(''a'', ''x'')], s)"
proof -
  obtain r s where "indexAt demo demoText sampleKeys 1000 True True s (Some r) [(''a'', ''x''), (''b'', ''y'')]"
    using sample_index by blast
  from btree_range [OF this, of "Some (codeUnits ''b'')" None] show ?thesis
    by (intro exI [of _ r] exI [of _ s]) (simp add: inRange_def codeUnits_def)
qed

text \<open>C17. In such an index, a prefix query for a non-empty prefix yields exactly the pairs whose keys start with it:
  the end of its range, the prefix with its last code unit incremented, is the right one.\<close>

theorem btree_prefix:
  assumes "indexAt E B K c True True s (Some r) kvs" "p \<noteq> []"
  shows "bt_prefix E (hashTree E (logConfig c)) B r (codeUnits p) s = Some (Inr (List.filter (\<lambda>x. prefix p (fst x)) kvs), s)"
proof -
  have "bt_range E (hashTree E (logConfig c)) B r start stop s = Some (Inr (List.filter (\<lambda>x. inRange codeUnits start stop (fst x)) kvs), s)"
    for start stop
    unfolding bt_range_def rangeTraverse_def
    by (rule range_rep [OF assms(1)], simp) (rule yield_value)
  then show ?thesis by (simp add: bt_prefix_def prefix_range [OF assms(2)])
qed

theorem btree_prefix_witness:
  "\<exists>r s. bt_prefix demo (hashTree demo (logConfig 1000)) demoText r (codeUnits ''b'') s = Some (Inr [(''b'', ''y'')], s)"
proof -
  obtain r s where "indexAt demo demoText sampleKeys 1000 True True s (Some r) [(''a'', ''x''), (''b'', ''y'')]"
    using sample_index by blast
  from btree_prefix [OF this, of "''b''"] show ?thesis by (intro exI [of _ r] exI [of _ s]) simp
qed

text \<open>C18. Merging an index of strings into a base index from which nothing was deleted gives an index of both:
  where they share a key, the base's value stays, or the other's wins when the caller asks for it. The other
  index may have had deletions. The order is above 1, and the keys are in the code-ordered set \<open>K\<close>. The base must
  be without deletions: a merge inserts the other's pairs, and an insertion into an index after a deletion can
  lose a key (\<open>btree_loses_key\<close> in \<open>BTreeLimits\<close>).\<close>

theorem btree_merge:
  assumes "indexAt E B K c True False s (Some b) kvs" "indexAt E B K c st tight s (Some other) kvs'"
    and "\<forall>x\<in>set kvs'. value_ok E B c (snd x)" "1 < ord"
  shows "unless_collision E (bt_merge E (watched E c) B ord (Some b) (Some other) po)
    (bt_merge E (hashTree E (logConfig c)) B ord (Some b) (Some other) po) s
    (\<lambda>root' s'. \<exists>merged. indexAt E B K c True False s' root' merged \<and>
       map_of merged = (if po then map_of kvs ++ map_of kvs' else map_of kvs' ++ map_of kvs))"
proof -
  have "ssorted kvs'" using assms(2) same_keys_fst search_sorted(1) by (fastforce simp: indexRep_def)
  then have m: "map_of (mergeKeys po kvs kvs') = (if po then map_of kvs ++ map_of kvs' else map_of kvs' ++ map_of kvs)"
    by (intro map_of_mergeKeys ssorted_distinct)
  show ?thesis
  proof (rule unless_collisionI [OF runs_mono [OF merge_rep [OF assms]] unwatched.mimics_merge])
    fix root' s'
    assume "indexAt E B K c True False s' root' (mergeKeys po kvs kvs')"
    with m show "\<exists>merged. indexAt E B K c True False s' root' merged \<and>
        map_of merged = (if po then map_of kvs ++ map_of kvs' else map_of kvs' ++ map_of kvs)"
      by (intro exI [of _ "mergeKeys po kvs kvs'"] conjI)
  qed
qed

theorem btree_merge_witness:
  "\<exists>r s. unless_collision demo (bt_merge demo (watched demo 1000) demoText 3 (Some r) (Some r) True)
     (bt_merge demo (hashTree demo (logConfig 1000)) demoText 3 (Some r) (Some r) True) s
     (\<lambda>root' s'. \<exists>merged. indexAt demo demoText sampleKeys 1000 True False s' root' merged \<and>
        map_of merged = [''b'' \<mapsto> ''y'', ''a'' \<mapsto> ''x''])"
proof -
  obtain r s where i: "indexAt demo demoText sampleKeys 1000 True True s (Some r) [(''a'', ''x''), (''b'', ''y'')]"
    using sample_index by blast
  then have i': "indexAt demo demoText sampleKeys 1000 True False s (Some r) [(''a'', ''x''), (''b'', ''y'')]"
    using search_unbounded(1) by (fastforce simp: indexRep_def)
  have "map_of [(''a'', ''x''), (''b'', ''y'')] ++ map_of [(''a'', ''x''), (''b'', ''y'')] = [''b'' \<mapsto> ''y'', ''a'' \<mapsto> ''x'']"
    by (auto simp: fun_eq_iff map_add_def)
  with btree_merge [OF i' i, of 3 True] sample_values show ?thesis by (intro exI [of _ r] exI [of _ s]) auto
qed

text \<open>The same for indexes of links: an insertion updates the sorted map, and the new index gives every CID back
  as it was.\<close>

theorem btree_insertLink:
  assumes "linkIndexAt E K c True tight s root kvs" "k \<in> K" "1 < ord"
    and "tight \<Longrightarrow> kvs = [] \<or> fst (hd kvs) \<le> k"
  shows "unless_collision E (bt_insertLink E (watched E c) ord root k w) (bt_insertLink E (hashTree E (logConfig c)) ord root k w) s
    (\<lambda>r s'. linkIndexAt E K c True tight s' (Some r) (setKey k w kvs) \<and>
       (\<forall>k'. bt_getLink E (hashTree E (logConfig c)) (Some r) k' s' = Some (Inr (((map_of kvs)(k \<mapsto> w)) k'), s')))"
proof (rule unless_collisionI [OF runs_mono [OF insert_link_rep [OF assms(1,2) _ assms(3)]] unwatched.mimics_insertLink])
  fix r s'
  assume i: "linkIndexAt E K c True tight s' (Some r) (setKey k w kvs)"
  with getLink_rep [OF i disjI1 [OF refl]]
  show "linkIndexAt E K c True tight s' (Some r) (setKey k w kvs) \<and>
      (\<forall>k'. bt_getLink E (hashTree E (logConfig c)) (Some r) k' s' = Some (Inr (((map_of kvs)(k \<mapsto> w)) k'), s'))"
    by (simp add: map_of_setKey)
qed (rule assms(4))

theorem btree_insertLink_witness:
  "unless_collision demo (bt_insertLink demo (watched demo 1000) 3 None ''a'' (cid [1] None))
     (bt_insertLink demo (hashTree demo (logConfig 1000)) 3 None ''a'' (cid [1] None)) ([], [])
     (\<lambda>r s'. linkIndexAt demo sampleKeys 1000 True True s' (Some r) [(''a'', cid [1] None)])"
proof -
  have "linkIndexAt demo sampleKeys 1000 True True ([], []) None []" using sample_ok by (simp add: indexRep_def)
  from btree_insertLink [OF this, of "''a''" 3 "cid [1] None"] show ?thesis
    by (auto simp: unless_collision_def split: option.splits prod.splits sum.splits)
qed

end
