(* ===== verification/BTreeLimits.thy ===== *)
theory BTreeLimits
  imports BTreeProps
begin

text \<open>
  Two histories on which the B-tree index does not behave as a sorted map. They are followed on the shapes of the
  trees (the trees without their values), which the code's nodes have by \<open>BTreeWrite\<close>.
\<close>

section \<open>Shapes\<close>

abbreviation mapVal :: "('v \<Rightarrow> 'w) \<Rightarrow> ('k \<times> 'v) list \<Rightarrow> ('k \<times> 'w) list" where
  "mapVal f \<equiv> map (\<lambda>x. (fst x, f (snd x)))"

abbreviation strip :: "('k \<times> 'v) list \<Rightarrow> ('k \<times> unit) list" where
  "strip \<equiv> mapVal (\<lambda>_. ())"

fun shape :: "('k, 'v) btree \<Rightarrow> ('k, unit) btree" where
  "shape (BLeaf xs) = BLeaf (strip xs)"
| "shape (BNode ts) = BNode (mapVal shape ts)"

abbreviation shapes :: "('k \<times> ('k, 'v) btree) list \<Rightarrow> ('k \<times> ('k, unit) btree) list" where
  "shapes \<equiv> mapVal shape"

lemma map_setKey: "mapVal f (setKey k v xs) = setKey k (f v) (mapVal f xs)"
  by (induction k v xs rule: setKey.induct) auto

lemma map_delKey: "mapVal f (delKey k xs) = delKey k (mapVal f xs)"
  by (induction xs) auto

lemma pick_map: "xs \<noteq> [] \<Longrightarrow> pick k (mapVal f xs) = (fst (pick k xs), f (snd (pick k xs)))"
  by (induction k xs rule: pick.induct) auto

lemma lookup_shape: "lookupTree k (shape t) = map_option (\<lambda>_. ()) (lookupTree k t)"
proof (induction k t rule: lookupTree.induct)
  case (1 k xs)
  show ?case by (induction xs) auto
next
  case (3 k x xs)
  then show ?case using pick_map [of "x # xs" k shape] by simp
qed simp

definition shapeResult where
  "shapeResult r = (shape (fst r), map_option (\<lambda>(lk, l, rk, r'). (lk, shape l, rk, shape r')) (snd r))"

lemma splitIf_shape:
  assumes "\<And>xs. shape (mk xs) = mk' (mapVal f xs)" "xs \<noteq> []"
  shows "shapeResult (splitIf ord mk xs) = splitIf ord mk' (mapVal f xs)"
proof -
  have "length xs div 2 < length xs" using assms(2) by simp
  with assms show ?thesis
    by (simp add: splitIf_def shapeResult_def halves_def Let_def hd_map take_map drop_map)
qed

lemma putChildren_shape: "shapes (putChildren a r ts) = putChildren a (shapeResult r) (shapes ts)"
  by (auto simp: putChildren_def shapeResult_def map_setKey map_delKey split: option.splits prod.splits)

lemma ins_shape: "shapeResult (ins ord k v t) = ins ord k () (shape t)"
proof (induction ord k v t rule: ins.induct)
  case (1 ord k v xs)
  show ?case by (simp add: splitIf_shape [where f = "\<lambda>_. ()"] map_setKey [where f = "\<lambda>_. ()"])
next
  case (3 ord k v x xs)
  let ?c = "pick k (x # xs)"
  have p: "pick k (shapes (x # xs)) = (fst ?c, shape (snd ?c))" using pick_map [of "x # xs" k shape] by simp
  have "shapeResult (ins ord k v (BNode (x # xs))) = splitIf ord BNode (shapes (putChildren (fst ?c) (ins ord k v (snd ?c)) (x # xs)))"
    by (simp add: Let_def splitIf_shape del: list.map)
  also have "\<dots> = ins ord k () (shape (BNode (x # xs)))"
    using 3 p by (simp add: putChildren_shape Let_def)
  finally show ?case .
qed (simp add: shapeResult_def)

lemma insert_shape: "shape (insertTree ord k v t) = insertTree ord k () (shape t)"
  unfolding insertTree_def ins_shape [of ord k v t, symmetric]
  by (auto simp: Let_def shapeResult_def split: option.splits)

lemma nonEmpty_shape: "map_option shape (nonEmpty ts) = nonEmpty (shapes ts)"
  by (auto simp: nonEmpty_def split: list.splits)

lemma del_shape: "map_option shape (del k t) = del k (shape t)"
proof (induction k t rule: del.induct)
  case (1 k xs)
  show ?case by (simp add: map_delKey [where f = "\<lambda>_. ()", symmetric])
next
  case (3 k x xs)
  let ?c = "pick k (x # xs)"
  have p: "pick k (shapes (x # xs)) = (fst ?c, shape (snd ?c))" using pick_map [of "x # xs" k shape] by simp
  have d: "del k (snd (pick k (shapes (x # xs)))) = map_option shape (del k (snd ?c))" using 3 p by simp
  show ?case
    using nonEmpty_shape [of "delKey (fst ?c) (x # xs)"] map_delKey [of shape "fst ?c" "x # xs"] map_setKey [of shape "fst ?c" _ "x # xs"] d p
    by (cases "del k (snd ?c)") (simp_all add: Let_def)
qed simp

lemma range_map:
  "leafR u start stop (mapVal f xs) = mapVal f (leafR u start stop xs)"
  "childR u start stop (mapVal f xs) = mapVal f (childR u start stop xs)"
proof -
  show "leafR u start stop (mapVal f xs) = mapVal f (leafR u start stop xs)" by (induction xs) (simp_all split: option.split)
  have next_sep: "nextSep None (mapVal f xs) = nextSep None xs" for xs by (cases xs) simp_all
  show "childR u start stop (mapVal f xs) = mapVal f (childR u start stop xs)"
  proof (induction xs)
    case (Cons x xs)
    then show ?case unfolding list.map childR.simps fst_conv next_sep by simp
  qed simp
qed

lemma range_shape: "strip (rangeItems u start stop t) = rangeItems u start stop (shape t)"
proof (induction u start stop t rule: rangeItems.induct)
  case (1 u start stop xs)
  show ?case by (simp add: range_map(1) [where f = "\<lambda>_. ()"])
next
  case (2 u start stop ts)
  then show ?case by (auto simp: range_map map_concat comp_def intro!: arg_cong [where f = concat])
qed

lemma search_shape:
  fixes t :: "('k :: linorder, 'v) btree" and ts :: "('k \<times> ('k, 'v) btree) list"
  shows "search_tree st lo hi (shape t) \<longleftrightarrow> search_tree st lo hi t"
  "search_list st lo hi (shapes ts) \<longleftrightarrow> search_list st lo hi ts"
proof (induction st lo hi t and st lo hi ts rule: search_tree_search_list.induct)
  case (1 st lo hi xs)
  show ?case by (cases xs) (auto simp: comp_def)
next
  case (4 st lo hi a t ts)
  moreover have "nextSep hi (shapes ts) = nextSep hi ts" by (cases ts) simp_all
  ultimately show ?case by simp
qed simp_all

lemma inBounds_code [code]: "inBounds lo hi k \<longleftrightarrow>
    (case lo of None \<Rightarrow> True | Some a \<Rightarrow> a \<le> k) \<and> (case hi of None \<Rightarrow> True | Some b \<Rightarrow> k < b)"
  by (simp add: inBounds_def split: option.split)

section \<open>Histories\<close>

datatype edit = Put string string | Del string

text \<open>A history of the index, each operation on the root the one before returned; deleting from no root is left out,
  as the callers do.\<close>

primrec edit1 :: "ext \<Rightarrow> 's tree_ops \<Rightarrow> textops \<Rightarrow> int \<Rightarrow> edit \<Rightarrow> CID option \<Rightarrow> ('s, CID option) op" where
  "edit1 E T B ord (Put k v) root = bindS (bt_insert E T B ord root k v) (\<lambda>r. retS (Some r))"
| "edit1 E T B ord (Del k) root = (case root of None \<Rightarrow> retS None | Some r \<Rightarrow> bt_delete E T r k)"

definition editAll :: "ext \<Rightarrow> 's tree_ops \<Rightarrow> textops \<Rightarrow> int \<Rightarrow> edit list \<Rightarrow> CID option \<Rightarrow> ('s, CID option) op" where
  "editAll E T B ord = foldS (edit1 E T B ord)"

text \<open>The shape after a history, for the histories that put only keys that are not there and delete from search
  trees.\<close>

primrec shape1 :: "int \<Rightarrow> edit \<Rightarrow> (string, unit) btree option \<Rightarrow> (string, unit) btree option option" where
  "shape1 ord (Put k v) u = (case u of
     None \<Rightarrow> Some (Some (BLeaf [(k, ())]))
   | Some t \<Rightarrow> if lookupTree k t = None then Some (Some (insertTree ord k () t)) else None)"
| "shape1 ord (Del k) u = (case u of
     None \<Rightarrow> Some None
   | Some t \<Rightarrow> if search_tree False None None t then Some (del k t) else None)"

fun shapeAll :: "int \<Rightarrow> edit list \<Rightarrow> (string, unit) btree option \<Rightarrow> (string, unit) btree option option" where
  "shapeAll ord [] u = Some u"
| "shapeAll ord (e # es) u = (case shape1 ord e u of None \<Rightarrow> None | Some u' \<Rightarrow> shapeAll ord es u')"

definition shapeAt :: "ext \<Rightarrow> string set \<Rightarrow> nat \<Rightarrow> CID option \<Rightarrow> (string, unit) btree option \<Rightarrow> logState \<Rightarrow> bool" where
  "shapeAt E K c root u s \<longleftrightarrow> index_ok E K c s \<and> (case root of None \<Rightarrow> u = None
     | Some r \<Rightarrow> \<exists>t. repr (dirNode E K c) Blob s r t \<and> u = Some (shape t))"

fun edit_ok :: "ext \<Rightarrow> textops \<Rightarrow> string set \<Rightarrow> nat \<Rightarrow> edit \<Rightarrow> bool" where
  "edit_ok E B K c (Put k v) \<longleftrightarrow> k \<in> K \<and> value_ok E B c v"
| "edit_ok E B K c (Del k) \<longleftrightarrow> True"

lemma get_absent:
  assumes "index_reader E T K (index_ok E K c) (mem.logs.grows E) (dirNode E K c)"
    and "repr (dirNode E K c) Blob s r t" "lookupTree k t = None"
  shows "bt_get E T B (Some r) k s = Some (Inr None, s)"
proof -
  have "runs (mem.logs.grows E) (\<lambda>_. False) (descend E T (readValue T B) k r) s (\<lambda>x s'. x = None \<and> s' = s)"
    by (rule index_reader.descend_run [OF assms(1,2), where k = k]) (use assms(3) in simp_all)
  from runs_safe [OF this] show ?thesis by (auto simp: bt_get_def)
qed

lemma put_shape:
  assumes "shapeAt E K c root u s" "k \<in> K" "value_ok E B c v" "1 < ord" "shape1 ord (Put k v) u = Some u'"
  shows "runs (mem.logs.grows E) (\<lambda>s. \<not> no_collision E s) (bt_insert E (watched E c) B ord root k v) s
    (\<lambda>r s'. shapeAt E K c (Some r) u' s')"
proof (cases root)
  case None
  with assms(1,5) have ok: "index_ok E K c s" and u': "u' = Some (BLeaf [(k, ())])" by (simp_all add: shapeAt_def)
  have "runs (mem.logs.grows E) (\<lambda>s. \<not> no_collision E s) (createLeaf (watched E c) [(k, stringLeaf E (watched E c) B v)]) s
      (\<lambda>r s'. shapeAt E K c (Some r) u' s')"
  proof (rule runs_mono [OF idx.createLeaf_run [OF ok assms(2) string_leaf [OF assms(3)]]])
    fix r s'
    assume "\<exists>p. valueAt E B s' p v \<and> repr (dirNode E K c) Blob s' r (BLeaf [(k, p)])"
    then obtain p where p: "repr (dirNode E K c) Blob s' r (BLeaf [(k, p)])" by blast
    with idx.repr_ok [OF p] u' show "shapeAt E K c (Some r) u' s'"
      by (auto simp: shapeAt_def simp del: repr.simps intro!: exI [of _ "BLeaf [(k, p)]"])
  qed simp
  with None show ?thesis by (simp add: bt_insert_def)
next
  case (Some r)
  with assms(1) obtain t where t: "repr (dirNode E K c) Blob s r t" "u = Some (shape t)" by (auto simp: shapeAt_def)
  with assms(5) have l: "lookupTree k t = None" and u': "u' = Some (insertTree ord k () (shape t))"
    by (auto simp: lookup_shape split: if_splits)
  note get = get_absent [OF readers(2) t(1) l, of B]
  have "runs (mem.logs.grows E) (\<lambda>s. \<not> no_collision E s)
      (bindS (insertRecursive E (watched E c) ord (stringLeaf E (watched E c) B v) k r) (growRoot (watched E c))) s
      (\<lambda>r s'. shapeAt E K c (Some r) u' s')"
  proof (rule runs_mono [OF idx.insert_run [OF t(1) assms(2,4) string_leaf [OF assms(3)]]])
    fix r s'
    assume "\<exists>p. valueAt E B s' p v \<and> repr (dirNode E K c) Blob s' r (insertTree ord k p t)"
    then obtain p where p: "repr (dirNode E K c) Blob s' r (insertTree ord k p t)" by blast
    with idx.repr_ok [OF p] u' show "shapeAt E K c (Some r) u' s'" by (auto simp: shapeAt_def insert_shape [symmetric, where v = p])
  qed
  with get Some show ?thesis by (simp add: runs_def bt_insert_def bindS_def [of "bt_get _ _ _ _ _"])
qed

lemma del_rep_shape:
  assumes "shapeAt E K c root u s" "shape1 ord (Del k) u = Some u'"
  shows "runs (mem.logs.grows E) (\<lambda>s. \<not> no_collision E s) (edit1 E (watched E c) B ord (Del k) root) s
    (\<lambda>root' s'. shapeAt E K c root' u' s')"
proof (cases root)
  case None
  with assms show ?thesis by (auto simp: shapeAt_def runs_def plain.le_refl)
next
  case (Some r)
  with assms(1) obtain t where t: "repr (dirNode E K c) Blob s r t" "u = Some (shape t)" by (auto simp: shapeAt_def)
  with assms(2) have st: "search_tree False None None t" and u': "u' = map_option shape (del k t)"
    by (auto simp: search_shape del_shape split: if_splits)
  have "runs (mem.logs.grows E) (\<lambda>s. \<not> no_collision E s) (bt_delete E (watched E c) r k) s (\<lambda>root' s'. shapeAt E K c root' u' s')"
    unfolding bt_delete_def
  proof (rule idx.bind_run, rule runs_mono [OF idx.deleteNode_run [OF t(1) st, of k]])
    fix x s'
    assume d: "idx.deleted E K c Blob r t (del k t) x s'"
    then have "shapeAt E K c (fst x) u' s'" using u' by (auto simp: idx.deleted_def shapeAt_def split: option.splits)
    moreover have "index_ok E K c s'" using d by (simp add: idx.deleted_def)
    ultimately show "runs (mem.logs.grows E) (\<lambda>s. \<not> no_collision E s) (retS (fst x)) s' (\<lambda>root' s'. shapeAt E K c root' u' s')"
      by (intro runs_ret plain.le_refl)
  qed
  with Some show ?thesis by simp
qed

lemma editAll_shape:
  "shapeAt E K c root u s \<Longrightarrow> \<forall>e\<in>set es. edit_ok E B K c e \<Longrightarrow> 1 < ord \<Longrightarrow> shapeAll ord es u = Some u' \<Longrightarrow>
   runs (mem.logs.grows E) (\<lambda>s. \<not> no_collision E s) (editAll E (watched E c) B ord es root) s (\<lambda>root' s'. shapeAt E K c root' u' s')"
proof (induction es arbitrary: root u s)
  case Nil
  then show ?case unfolding editAll_def foldS.simps by (intro runs_ret plain.le_refl) (auto simp: shapeAt_def)
next
  case (Cons e es)
  from Cons.prems(4) obtain u1 where u1: "shape1 ord e u = Some u1" "shapeAll ord es u1 = Some u'" by (auto split: option.splits)
  have "runs (mem.logs.grows E) (\<lambda>s. \<not> no_collision E s) (edit1 E (watched E c) B ord e root) s (\<lambda>root' s'. shapeAt E K c root' u1 s')"
  proof (cases e)
    case (Put k v)
    show ?thesis unfolding Put edit1.simps
    proof (rule idx.bind_run, rule runs_mono [OF put_shape [OF Cons.prems(1) _ _ Cons.prems(3) u1(1) [unfolded Put]]])
      fix r s'
      assume "shapeAt E K c (Some r) u1 s'"
      moreover from this have "index_ok E K c s'" by (simp add: shapeAt_def)
      ultimately show "runs (mem.logs.grows E) (\<lambda>s. \<not> no_collision E s) (retS (Some r)) s' (\<lambda>root' s'. shapeAt E K c root' u1 s')"
        by (intro runs_ret plain.le_refl)
    qed (use Cons.prems(2) Put in auto)
  next
    case (Del k)
    with del_rep_shape [OF Cons.prems(1)] u1(1) show ?thesis by simp
  qed
  then show ?case unfolding editAll_def foldS.simps
    by (intro idx.bind_run, elim runs_mono) (use Cons.IH u1(2) Cons.prems in \<open>auto simp: editAll_def\<close>)
qed

lemma mimics_editAll: "mimics (editAll E (watched E c) B ord es root) (editAll E (hashTree E (logConfig c)) B ord es root)"
proof -
  have "mimics (edit1 E (watched E c) B ord e root) (edit1 E (hashTree E (logConfig c)) B ord e root)" for e root
    by (cases e; cases root) (auto intro!: mimics_bind unwatched.mimics_insert unwatched.mimics_delete)
  then show ?thesis unfolding editAll_def by (intro mimics_foldS)
qed

section \<open>A key that is lost\<close>

definition lossy :: "string \<Rightarrow> edit list" where
  "lossy v = [Put ''1'' v, Put ''5'' v, Put ''3'' v, Put ''4'' v, Put ''6'' v, Del ''3'', Put ''3'' v, Put ''7'' v]"

lemma lossy_shape: "case shapeAll 3 (lossy v) None of Some (Some u) \<Rightarrow> lookupTree ''3'' u = None | _ \<Rightarrow> False"
  by code_simp

text \<open>C19. After a deletion an insertion can lose a key: with order 3, insert 1, 5, 3, 4 and 6, delete 3, insert 3
  again and then 7. The key 3 was inserted last of all operations on it, and the lookup returns null. The split
  of the inner node takes the name of its first child, 4, for its own, and replaces the smaller one it had in
  its parent; the lookup of 3 then goes to the left of it.\<close>

theorem btree_loses_key:
  assumes "index_ok E K c s" "{''1'', ''3'', ''4'', ''5'', ''6'', ''7''} \<subseteq> K" "value_ok E B c v"
  shows "unless_collision E (editAll E (watched E c) B 3 (lossy v) None) (editAll E (hashTree E (logConfig c)) B 3 (lossy v) None) s
    (\<lambda>root s'. bt_get E (hashTree E (logConfig c)) B root ''3'' s' = Some (Inr None, s'))"
proof -
  obtain u where u: "shapeAll 3 (lossy v) None = Some (Some u)" "lookupTree ''3'' u = None"
    using lossy_shape [of v] by (auto split: option.splits)
  have "shapeAt E K c None None s" using assms(1) by (simp add: shapeAt_def)
  moreover have "\<forall>e\<in>set (lossy v). edit_ok E B K c e" using assms(2,3) by (simp add: lossy_def)
  ultimately have run: "runs (mem.logs.grows E) (\<lambda>s. \<not> no_collision E s) (editAll E (watched E c) B 3 (lossy v) None) s
      (\<lambda>root s'. shapeAt E K c root (Some u) s')" using editAll_shape u(1) by simp
  have "bt_get E (hashTree E (logConfig c)) B root ''3'' s' = Some (Inr None, s')" if "shapeAt E K c root (Some u) s'" for root s'
  proof -
    from that obtain r t where r: "root = Some r" "repr (dirNode E K c) Blob s' r t" "u = shape t"
      by (auto simp: shapeAt_def split: option.splits)
    with get_absent [OF readers(1) r(2)] u(2) show ?thesis by (simp add: lookup_shape)
  qed
  with run show ?thesis by (intro unless_collisionI mimics_editAll) (auto elim: runs_mono)
qed

theorem btree_loses_key_witness:
  "unless_collision demo (editAll demo (watched demo 1000) demoText 3 (lossy ''x'') None)
     (editAll demo (hashTree demo (logConfig 1000)) demoText 3 (lossy ''x'') None) ([], [])
     (\<lambda>root s'. bt_get demo (hashTree demo (logConfig 1000)) demoText root ''3'' s' = Some (Inr None, s'))"
  by (rule btree_loses_key [OF sample_ok _ sample_values(1)]) simp

section \<open>A key that a range misses\<close>

definition missed :: "string \<Rightarrow> edit list" where
  "missed v = [Put ''5'' v, Put ''6'' v, Put ''7'' v, Put ''1'' v]"

lemma missed_shape: "case shapeAll 3 (missed v) None of
    Some (Some u) \<Rightarrow> rangeItems codeUnits (Some [49]) (Some [50]) u = [] | _ \<Rightarrow> False"
  by code_simp

lemma prefix_one: "codeUnits ''1'' = [49]" "incrementPrefix [49] = [50]"
  by (simp_all add: codeUnits_def incrementPrefix_def)

text \<open>A history of insertions is the history of the sorted map.\<close>

lemma puts_rep:
  "indexAt E B K c True False s root kvs \<Longrightarrow> \<forall>x\<in>set xs. fst x \<in> K \<and> value_ok E B c (snd x) \<Longrightarrow> 1 < ord \<Longrightarrow>
   runs (mem.logs.grows E) (\<lambda>s. \<not> no_collision E s) (editAll E (watched E c) B ord (map (\<lambda>x. Put (fst x) (snd x)) xs) root) s
     (\<lambda>root' s'. indexAt E B K c True False s' root' (fold (\<lambda>x. setKey (fst x) (snd x)) xs kvs))"
proof (induction xs arbitrary: root kvs s)
  case Nil
  then show ?case unfolding editAll_def list.map foldS.simps by (intro runs_ret plain.le_refl) (auto simp: indexRep_def)
next
  case (Cons x xs)
  have "runs (mem.logs.grows E) (\<lambda>s. \<not> no_collision E s) (edit1 E (watched E c) B ord (Put (fst x) (snd x)) root) s
      (\<lambda>root' s'. indexAt E B K c True False s' root' (setKey (fst x) (snd x) kvs))"
    unfolding edit1.simps
  proof (rule idx.bind_run, rule runs_mono [OF insert_string_rep [OF Cons.prems(1) _ _ _ Cons.prems(3)]])
    fix r s'
    assume i: "indexAt E B K c True False s' (Some r) (setKey (fst x) (snd x) kvs)"
    then have "index_ok E K c s'" by (simp add: indexRep_def)
    then show "runs (mem.logs.grows E) (\<lambda>s. \<not> no_collision E s) (retS (Some r)) s'
        (\<lambda>root' s'. indexAt E B K c True False s' root' (setKey (fst x) (snd x) kvs))" by (intro runs_ret plain.le_refl i)
  qed (use Cons.prems(2) in simp_all)
  then show ?case unfolding editAll_def list.map foldS.simps
    by (intro idx.bind_run, elim runs_mono) (use Cons.IH Cons.prems in \<open>simp add: editAll_def\<close>)
qed

lemma runs_conj: "runs le bad m s P \<Longrightarrow> runs le bad m s Q \<Longrightarrow> runs le bad m s (\<lambda>x s'. P x s' \<and> Q x s')"
  by (auto simp: runs_def split: sum.splits)

text \<open>C13. After any sequence of insertions into an empty index, the lookups return the values inserted last, and
  the traversal lists all pairs in the order of the keys, for keys in a set \<open>K\<close> that \<open>localeCompare\<close> orders by code
  units and for every order above 1.\<close>

theorem btree_history:
  assumes "index_ok E K c s" "\<forall>x\<in>set xs. fst x \<in> K \<and> value_ok E B c (snd x)" "1 < ord"
  shows "unless_collision E (editAll E (watched E c) B ord (map (\<lambda>x. Put (fst x) (snd x)) xs) None)
    (editAll E (hashTree E (logConfig c)) B ord (map (\<lambda>x. Put (fst x) (snd x)) xs) None) s
    (\<lambda>root s'. (\<forall>k. bt_get E (hashTree E (logConfig c)) B root k s' = Some (Inr (map_of (rev xs) k), s')) \<and>
       bt_entries E (hashTree E (logConfig c)) B root s' = Some (Inr (fold (\<lambda>x. setKey (fst x) (snd x)) xs []), s'))"
proof (rule unless_collisionI [OF runs_mono [OF puts_rep] mimics_editAll])
  show "indexAt E B K c True False s None []" using assms(1) by (simp add: indexRep_def)
  fix root s'
  let ?kvs = "fold (\<lambda>x. setKey (fst x) (snd x)) xs []"
  assume i: "indexAt E B K c True False s' root ?kvs"
  have "map_of ?kvs = map_of (rev xs)" by (induction xs rule: rev_induct) (auto simp: map_of_setKey)
  moreover have "bt_entries E (hashTree E (logConfig c)) B root s' = Some (Inr ?kvs, s')"
  proof (cases root)
    case None
    with i show ?thesis by (simp add: bt_entries_def indexRep_def)
  next
    case (Some r)
    from range_rep [where visit = "yieldValue (hashTree E (logConfig c)) B collect" and start = None and stop = None,
        OF i [unfolded Some] _ yield_value] Some
    show ?thesis by (simp add: bt_entries_def traverseInOrder_def whole_range inRange_def)
  qed
  ultimately show "(\<forall>k. bt_get E (hashTree E (logConfig c)) B root k s' = Some (Inr (map_of (rev xs) k), s')) \<and>
      bt_entries E (hashTree E (logConfig c)) B root s' = Some (Inr ?kvs, s')"
    using get_rep [OF i disjI1 [OF refl]] by simp
qed (use assms in auto)

theorem btree_history_witness:
  "unless_collision demo (editAll demo (watched demo 1000) demoText 3 [Put ''b'' ''x'', Put ''a'' ''y'', Put ''b'' ''y''] None)
     (editAll demo (hashTree demo (logConfig 1000)) demoText 3 [Put ''b'' ''x'', Put ''a'' ''y'', Put ''b'' ''y''] None) ([], [])
     (\<lambda>root s'. bt_entries demo (hashTree demo (logConfig 1000)) demoText root s' = Some (Inr [(''a'', ''y''), (''b'', ''y'')], s'))"
proof -
  from btree_history [OF sample_ok, of "[(''b'', ''x''), (''a'', ''y''), (''b'', ''y'')]" demoText 3] sample_values
  have "unless_collision demo (editAll demo (watched demo 1000) demoText 3 [Put ''b'' ''x'', Put ''a'' ''y'', Put ''b'' ''y''] None)
     (editAll demo (hashTree demo (logConfig 1000)) demoText 3 [Put ''b'' ''x'', Put ''a'' ''y'', Put ''b'' ''y''] None) ([], [])
     (\<lambda>root s'. (\<forall>k. bt_get demo (hashTree demo (logConfig 1000)) demoText root k s' =
          Some (Inr (map_of (rev [(''b'', ''x''), (''a'', ''y''), (''b'', ''y'')]) k), s')) \<and>
        bt_entries demo (hashTree demo (logConfig 1000)) demoText root s' = Some (Inr [(''a'', ''y''), (''b'', ''y'')], s'))"
    by simp
  then show ?thesis unfolding unless_collision_def by (auto split: option.splits prod.splits sum.splits)
qed

text \<open>A prefix query can miss keys below the smallest name in the root: with order 3, insert 5, 6, 7 and then 1.
  The lookup finds 1, but the query for the prefix 1 yields nothing: the traversal skips a child whose name is
  at or above the end of the range, and the leftmost child holds keys below its name.\<close>

theorem btree_prefix_misses:
  assumes "index_ok E K c s" "{''1'', ''5'', ''6'', ''7''} \<subseteq> K" "value_ok E B c v"
  shows "unless_collision E (editAll E (watched E c) B 3 (missed v) None) (editAll E (hashTree E (logConfig c)) B 3 (missed v) None) s
    (\<lambda>root s'. bt_get E (hashTree E (logConfig c)) B root ''1'' s' = Some (Inr (Some v), s') \<and>
       (\<exists>r. root = Some r \<and> bt_prefix E (hashTree E (logConfig c)) B r (codeUnits ''1'') s' = Some (Inr [], s')))"
proof -
  let ?xs = "[(''5'', v), (''6'', v), (''7'', v), (''1'', v)]"
  obtain u where u: "shapeAll 3 (missed v) None = Some (Some u)" "rangeItems codeUnits (Some [49]) (Some [50]) u = []"
    using missed_shape [of v] by (auto split: option.splits)
  have "shapeAt E K c None None s" using assms(1) by (simp add: shapeAt_def)
  moreover have "\<forall>e\<in>set (missed v). edit_ok E B K c e" using assms(2,3) by (simp add: missed_def)
  ultimately have run: "runs (mem.logs.grows E) (\<lambda>s. \<not> no_collision E s) (editAll E (watched E c) B 3 (missed v) None) s
      (\<lambda>root s'. shapeAt E K c root (Some u) s')" using editAll_shape u(1) by simp
  have "indexAt E B K c True False s None []" using assms(1) by (simp add: indexRep_def)
  from puts_rep [OF this, of ?xs 3] assms(2,3)
  have run': "runs (mem.logs.grows E) (\<lambda>s. \<not> no_collision E s) (editAll E (watched E c) B 3 (missed v) None) s
      (\<lambda>root s'. indexAt E B K c True False s' root (fold (\<lambda>x. setKey (fst x) (snd x)) ?xs []))" by (simp add: missed_def)
  show ?thesis
  proof (rule unless_collisionI [OF runs_mono [OF runs_conj [OF run run']] mimics_editAll])
    fix root s'
    assume both: "shapeAt E K c root (Some u) s' \<and> indexAt E B K c True False s' root (fold (\<lambda>x. setKey (fst x) (snd x)) ?xs [])"
    then obtain r t t' where r: "root = Some r" "repr (dirNode E K c) Blob s' r t'" "u = shape t'" "repr (dirNode E K c) Blob s' r t"
        "same_keys (valueAt E B s') (items t) (fold (\<lambda>x. setKey (fst x) (snd x)) ?xs [])"
      by (auto simp: shapeAt_def indexRep_def split: option.splits simp del: fold.simps)
    have "strip (rangeItems codeUnits (Some [49]) (Some [50]) t) = []"
      using u(2) r(3) plain.repr_unique [OF r(2,4)] by (simp add: range_shape)
    moreover obtain acc where "bt_prefix E (hashTree E (logConfig c)) B r (codeUnits ''1'') s' = Some (Inr acc, s')"
        "same_keys (valueAt E B s') (rangeItems codeUnits (Some [49]) (Some [50]) t) acc"
      using visit_rep [where V = "valueAt E B" and visit = "yieldValue (hashTree E (logConfig c)) B collect",
          OF r(4,5) yield_value, of "Some [49]" "Some [50]"]
      unfolding bt_prefix_def bt_range_def rangeTraverse_def prefix_one by blast
    moreover have "bt_get E (hashTree E (logConfig c)) B root ''1'' s' = Some (Inr (Some v), s')"
      using get_rep [OF conjunct2 [OF both] disjI1 [OF refl], of "''1''"] by simp
    ultimately show "bt_get E (hashTree E (logConfig c)) B root ''1'' s' = Some (Inr (Some v), s') \<and>
        (\<exists>r. root = Some r \<and> bt_prefix E (hashTree E (logConfig c)) B r (codeUnits ''1'') s' = Some (Inr [], s'))"
      using r(1) by simp
  qed
qed

theorem btree_prefix_misses_witness:
  "unless_collision demo (editAll demo (watched demo 1000) demoText 3 (missed ''x'') None)
     (editAll demo (hashTree demo (logConfig 1000)) demoText 3 (missed ''x'') None) ([], [])
     (\<lambda>root s'. bt_get demo (hashTree demo (logConfig 1000)) demoText root ''1'' s' = Some (Inr (Some ''x''), s') \<and>
        (\<exists>r. root = Some r \<and> bt_prefix demo (hashTree demo (logConfig 1000)) demoText r (codeUnits ''1'') s' = Some (Inr [], s')))"
  by (rule btree_prefix_misses [OF sample_ok _ sample_values(1)]) simp

end
