(* ===== verification/Spec2Isabelle.thy ===== *)
theory Spec2Isabelle
  imports FileProps DirProps CoreProps EditEncrypted Bep52Props NHashProps Fallback TreeRootProps
    BoundedQueue Lru Forwarding PeerProps Push BTreeLimits
begin

text \<open>
  \<^bold>\<open>A verification of hashtree.\<close> Hashtree is a content-addressed store of files and directories: a block is
  kept under its SHA-256 hash, a file is a list of chunks under a tree node, a directory is a tree node
  with named links, and a tree may be encrypted chunk by chunk with keys that are carried by the links.
  Around this core the TypeScript packages have identifiers for roots, a registry of the roots a user
  writes and publishes, and the exchange of blocks between browsers. This development models the
  packages under \<open>src/ts/packages\<close> as HOL functions and step relations and proves what makes them correct.

  \<^bold>\<open>How the code is read.\<close>
  \<^item> A pure function is a \<open>fun\<close> or \<open>definition\<close> with the name it has in the source (with a suffix or in
    another case where HOL has the name), an interface is a \<open>record\<close>, a union a \<open>datatype\<close>.
  \<^item> An \<open>async\<close> method that only reads is a value of \<open>'a comp\<close>, one that writes a function of type
    \<open>('s, 'a) op\<close> (theory \<open>Prelude\<close>): \<open>None\<close> when the call never settles, \<open>Inl e\<close> when it rejects with \<open>e\<close>, \<open>Inr x\<close>
    when it returns; what was stored before an exception stays stored. A generator is the list it
    yields and the exception it ends with. Recursion over the store (which may be corrupt or cyclic)
    is a \<open>partial_function\<close>, so that not returning is the value \<open>None\<close>; the properties then state that
    the call returns, not only what it returns. No definition has fuel.
  \<^item> The store is a parameter: an implementation of \<open>interface Store\<close> is a record of operations over a
    state type, and \<open>MemoryStore\<close> is the instance the properties are stated for, with a log of the
    blocks that were offered to it.
  \<^item> Where several promises, timers or peers interleave (registry, forwarding machine, fallback store,
    peers, \<open>push\<close>) each callback is one function of the state, and the possible histories are an \<open>inductive\<close>
    step relation or a list of events; properties hold for every interleaving.
  \<^item> Code outside the repository is the record \<open>ext\<close> of theory \<open>External\<close> (SHA-256, AES-GCM and HKDF of the Web
    Crypto API, MessagePack, \<open>localeCompare\<close>), and in \<open>NHash\<close> the record of the bech32, hexadecimal and UTF-8
    functions. What is assumed of it are the named hypotheses \<open>msgpack_ok\<close>, \<open>aes_ok\<close>, \<open>digest_len\<close> and that
    the digest has no collision among the blocks handled (\<open>no_collision\<close>). \<open>msgpack_ok\<close> is the round trip within the
    limits of the package: 100 levels, no key \<open>__proto__\<close>. Theory \<open>Instance\<close> has an instance
    for which they hold; the witnesses use it.

  \<^bold>\<open>The core\<close> (\<open>hashtree/src\<close>).
  \<^item> \<open>Types\<close> (\<open>types.ts\<close>), \<open>Codec\<close> (\<open>codec.ts\<close>, \<open>hash.ts\<close>), \<open>Crypto\<close> (\<open>crypto.ts\<close>), \<open>Visibility\<close> (\<open>visibility.ts\<close>), \<open>Store\<close>
    (\<open>interface Store\<close>, \<open>store/memory.ts\<close>), \<open>Verify\<close> (\<open>verify.ts\<close>); their properties are in \<open>CoreProps\<close>: round trips
    of the node codec, of content-hash-key encryption and of link keys, \<open>MemoryStore\<close> as a refinement of
    a map that never overwrites and what it holds after any history of calls, termination and exactness of
    \<open>verifyTree\<close>. \<open>Codec\<close> decodes the nodes whose fields have the types of the interface; for what \<open>verifyTree\<close>
    reads of a node, \<open>Verify\<close> models the decoder on every value. The locale \<open>content_store\<close> is the contract of a
    store; it is interpreted by \<open>MemoryStore\<close>.
  \<^item> \<open>Create\<close> (\<open>tree/create.ts\<close>), \<open>TreeRead\<close> (\<open>tree/read.ts\<close>), \<open>Encrypted\<close> (\<open>encrypted.ts\<close>), \<open>WriteAt\<close> (\<open>tree/writeAt.ts\<close>), \<open>Builder\<close>
    (\<open>builder.ts\<close>, \<open>streaming.ts\<close>). \<open>TreeSpec\<close> and \<open>CreateSpec\<close> say what a stored tree means: a list of blocks
    represents a byte string, independently of how it was cut; \<open>FileProps\<close> proves that each writer
    stores the file it was given and that each reader (whole, limited, range, stream) returns it.
  \<^item> \<open>TreeEdit\<close> (\<open>tree/edit.ts\<close>) and \<open>EditEncrypted\<close> (\<open>tree/editEncrypted.ts\<close>). \<open>DirSpec\<close> has the abstract view, a finite
    map from paths; \<open>DirProps\<close> proves that an edit changes its path and no other, and keeps the old root
    readable.
  \<^item> \<open>HashTree\<close> (\<open>hashtree.ts\<close>): the class that dispatches between plain and encrypted trees, \<open>walk\<close> and
    \<open>walkBlocks\<close>. \<open>Walk\<close> proves that \<open>walkBlocks\<close> yields exactly the reachable blocks. \<open>Push\<close> models \<open>push\<close> with
    its producer, consumer and running uploads as a step relation, and proves that it completes in
    every interleaving, and that an abort can leave it waiting forever.
  \<^item> \<open>Bep52\<close>, \<open>Bep52Spec\<close>, \<open>Bep52Props\<close> (\<open>bep52.ts\<close>): merkle trees of BitTorrent v2 with 32-bit arithmetic where
    the code shifts; completeness and soundness of proofs, equivalence of the streaming builder.
  \<^item> \<open>NHash\<close>, \<open>NHashProps\<close> (\<open>nhash.ts\<close>): round trips of the identifiers and the errors of the decoder.
  \<^item> \<open>Fallback\<close> (\<open>store/fallback.ts\<close>): the cascading store with answers that arrive after the timeout.

  \<^bold>\<open>Roots\<close> (\<open>hashtree-tree-root/src/index.ts\<close>). \<open>TreeRoot\<close> has the registry with its records, timers, publisher and
  \<open>localStorage\<close>; \<open>TreeRootSpec\<close> its steps, its histories and the invariant of its scheduling;
  \<open>TreeRootProps\<close> that unpublished changes stay dirty until they are published, survive a restart, and can be
  published unless their timer was cancelled or fired before there was a publish function.

  \<^bold>\<open>Exchange between peers\<close> (\<open>hashtree-worker/src/p2p\<close>, \<open>hashtree-nostr/src/webrtc\<close>).
  \<^item> \<open>BoundedQueue\<close>, \<open>Lru\<close>, \<open>Forwarding\<close>: the bounds of the queue and of the cache, the invariant, rate limit and
    answers of the forwarding machine.
  \<^item> \<open>Protocol\<close> (\<open>protocol.ts\<close>, \<open>types.ts\<close>), \<open>Peer\<close> (\<open>peer.ts\<close>), \<open>PeerSpec\<close> (events and invariant), \<open>PeerTransfer\<close>
    (fragments) and \<open>PeerProps\<close>: a block arrives whole, an answer has the hash that was asked for and comes
    at most once, every request is answered under stated conditions; counterexamples where it is not.

  \<^bold>\<open>Indexes\<close> (\<open>hashtree-index/src\<close>).
  \<^item> \<open>BTree\<close> (\<open>btree.ts\<close>): a sorted map kept in the directories of a \<open>HashTree\<close>, which it calls through the record
    \<open>tree_ops\<close>. \<open>BTreeSpec\<close> has abstract B-trees with their search invariant. The locale \<open>index_reader\<close>, extended by
    \<open>index_store\<close>, is the contract of the directories; \<open>BTreeRefine\<close> and \<open>BTreeWrite\<close> prove in it that the code
    implements the abstract operations, and \<open>BTreeStore\<close> interprets it on encrypted directories over \<open>MemoryStore\<close>.
    There the tree is run with a check for hash collisions after every write (\<open>watched\<close>), and the lemmas on
    \<open>mimics\<close> transfer the results to the tree without it.
  \<^item> \<open>BTreeProps\<close>: insertion, lookup, deletion, ranges, prefixes and merging are the operations on a sorted
    association list, for keys that \<open>localeCompare\<close> orders by code units; insertion and merging for an index (a
    base) without deletions. \<open>BTreeLimits\<close>: histories of insertions; and two histories on which the index loses a key
    after a deletion, and misses keys in a prefix query.

  \<^bold>\<open>Not modelled.\<close> The data channel and signalling of WebRTC, the HTTP clients (\<open>store/blossom.ts\<close>), IndexedDB
  storage (\<open>hashtree-dexie\<close>), relays (\<open>resolver/nostr.ts\<close>), the WASM git wrapper and the worker message loops,
  which mostly drive interfaces of the browser or of other packages; the forks of NDK; the Svelte
  applications; the Rust crates. \<open>HashTree.pull\<close>, whose prefetching only feeds progress totals.
\<close>

end
